(* ===== verification/Prelude.thy ===== *)
theory Prelude
  imports Main "HOL-Library.Word" "HOL-Library.Product_Lexorder"
begin

text \<open>
  What the components of the \<^verbatim>\<open>linre\<close> development share: names for the machine integers of
  the source, the result type of fallible code and its sequencing, the pieces of Rust's standard
  library the source uses (saturating arithmetic, inclusive ranges, \<^verbatim>\<open>partition_point\<close>), and the
  list facts the component proofs rest on.

  Code points are \<open>32 word\<close> (\<^verbatim>\<open>u32\<close>); \<^verbatim>\<open>usize\<close> positions and program counters are \<open>nat\<close> (they
  count elements of a list in memory); \<^verbatim>\<open>isize\<close> capture slots are \<open>int\<close>; \<^verbatim>\<open>u64\<close> widths are \<open>nat\<close> with
  saturation at \<open>2 ^ 64 - 1\<close> written out.
\<close>

section \<open>Machine integers\<close>

type_synonym u32 = "32 word"
type_synonym u16 = "16 word"
type_synonym u64 = "64 word"
type_synonym u128 = "128 word"

text \<open>\<^verbatim>\<open>u32::MAX\<close> (\<^verbatim>\<open>charset::MAX\<close>).\<close>

definition CP_MAX :: u32 where
  "CP_MAX = 0xFFFFFFFF"

text \<open>\<^verbatim>\<open>u32::saturating_add\<close> of one.\<close>

definition sat_succ :: "u32 \<Rightarrow> u32" where
  "sat_succ c = (if c = CP_MAX then CP_MAX else c + 1)"

text \<open>\<^verbatim>\<open>u64\<close> saturation.\<close>

definition U64_MAX :: nat where
  "U64_MAX = 2 ^ 64 - 1"

definition sat64 :: "nat \<Rightarrow> nat" where
  "sat64 n = min n U64_MAX"

text \<open>Rust's \<open>a..=b\<close> over \<^verbatim>\<open>u32\<close>.\<close>

definition upto_incl :: "u32 \<Rightarrow> u32 \<Rightarrow> u32 list" where
  "upto_incl a b = map word_of_nat [unat a ..< Suc (unat b)]"

named_theorems word_facts \<open>order and arithmetic of code points, moved to the naturals\<close>

lemma unat_CP_MAX [simp]: "unat CP_MAX = 4294967295"
  by (simp add: CP_MAX_def)

lemma u32_lt: "unat (c :: u32) < 4294967296"
proof -
  have "unat c < 2 ^ LENGTH(32)" by (rule unsigned_less)
  then show ?thesis by simp
qed

lemma le_CP_MAX [simp]: "c \<le> CP_MAX"
  using u32_lt [of c] by (simp add: word_le_nat_alt)

lemma eq_CP_MAX_iff [word_facts]: "c = CP_MAX \<longleftrightarrow> unat c = 4294967295"
  by (metis unat_CP_MAX unsigned_word_eqI)

lemma unat_succ [word_facts]: "c \<noteq> CP_MAX \<Longrightarrow> unat (c + 1) = unat c + 1"
  using u32_lt [of c] by (auto simp: unat_word_ariths eq_CP_MAX_iff)

lemma unat_pred [word_facts]: "next < c \<Longrightarrow> unat (c - 1) = unat c - 1" for c :: u32
  by (metis not_less_zero unat_0 unat_minus_one word_less_nat_alt)

lemma unat_sat_succ [word_facts]: "unat (sat_succ c) = min (unat c + 1) 4294967295"
  using u32_lt [of c] by (auto simp: sat_succ_def unat_succ eq_CP_MAX_iff)

lemma set_upto_incl [simp]: "set (upto_incl a b) = {a..b}"
proof -
  have "word_of_nat ` {unat a..<Suc (unat b)} = {a..b}"
  proof (intro equalityI subsetI)
    fix x assume "x \<in> (word_of_nat ` {unat a..<Suc (unat b)} :: u32 set)"
    then obtain k where "x = word_of_nat k" "unat a \<le> k" "k \<le> unat b" by auto
    moreover from this have "unat x = k"
      using u32_lt [of b] by (simp add: unat_of_nat)
    ultimately show "x \<in> {a..b}" by (simp add: word_le_nat_alt)
  next
    fix x assume "x \<in> {a..b}"
    then have "unat x \<in> {unat a..<Suc (unat b)}" by (auto simp: word_le_nat_alt)
    moreover have "x = word_of_nat (unat x)" by simp
    ultimately show "x \<in> word_of_nat ` {unat a..<Suc (unat b)}" by (rule rev_image_eqI)
  qed
  then show ?thesis by (simp only: upto_incl_def set_map set_upt)
qed

text \<open>Rows of \<open>w\<close> words in a flat table.\<close>

lemma word_index:
  assumes "i < w" and "j < w"
  shows "r * w + i = q * w + j \<longleftrightarrow> r = q \<and> i = (j :: nat)"
proof
  assume e: "r * w + i = q * w + j"
  have "r = (r * w + i) div w" "q = (q * w + j) div w" using assms by simp_all
  then show "r = q \<and> i = j" using e by simp
qed simp

lemma word_index_less: "r < n \<Longrightarrow> i < w \<Longrightarrow> r * w + i < n * (w :: nat)"
proof -
  assume "r < n" "i < w"
  then have "r * w + i < Suc r * w" by simp
  also have "\<dots> \<le> n * w" using \<open>r < n\<close> by (intro mult_le_mono1) simp
  finally show ?thesis .
qed

section \<open>Results of fallible code\<close>

text \<open>
  A \<^verbatim>\<open>Result\<close> is a sum with the error on the left; \<open>andthen\<close> is the \<^verbatim>\<open>?\<close> operator: go on with the value,
  or return the error at once.
\<close>

type_synonym ('e, 'a) result = "'e + 'a"

definition andthen :: "('e, 'a) result \<Rightarrow> ('a \<Rightarrow> ('e, 'b) result) \<Rightarrow> ('e, 'b) result" where
  "andthen r f = (case r of Inl e \<Rightarrow> Inl e | Inr x \<Rightarrow> f x)"

lemma andthen_simps [simp]:
  "andthen (Inl e) f = Inl e"
  "andthen (Inr x) f = f x"
  by (simp_all add: andthen_def)

lemma andthen_Inr [simp]: "andthen r f = Inr y \<longleftrightarrow> (\<exists>x. r = Inr x \<and> f x = Inr y)"
  by (auto simp: andthen_def split: sum.splits)

lemma andthen_Inl: "andthen r f = Inl e \<longleftrightarrow> r = Inl e \<or> (\<exists>x. r = Inr x \<and> f x = Inl e)"
  by (auto simp: andthen_def split: sum.splits)

lemma andthen_cong [fundef_cong]:
  "r = r' \<Longrightarrow> (\<And>x. r' = Inr x \<Longrightarrow> f x = f' x) \<Longrightarrow> andthen r f = andthen r' f'"
  by (cases r') (auto simp: andthen_def)

section \<open>Slices\<close>

text \<open>
  \<^verbatim>\<open>slice::partition_point\<close>: how many elements come before the first that fails the predicate (the
  standard library's answer on a slice partitioned by it, which every caller's is).
\<close>

definition partition_point :: "('a \<Rightarrow> bool) \<Rightarrow> 'a list \<Rightarrow> nat" where
  "partition_point P xs = length (takeWhile P xs)"

lemma partition_point_le: "partition_point P xs \<le> length xs"
  by (simp add: partition_point_def length_takeWhile_le)

lemma partition_point_before: "i < partition_point P xs \<Longrightarrow> P (xs ! i)"
  using nth_mem [of i "takeWhile P xs"]
  by (auto simp: partition_point_def takeWhile_nth dest: set_takeWhileD)

lemma partition_point_at: "partition_point P xs < length xs \<Longrightarrow> \<not> P (xs ! partition_point P xs)"
  by (simp add: partition_point_def nth_length_takeWhile)

text \<open>\<open>text.get(p)\<close>.\<close>

definition get_at :: "'a list \<Rightarrow> nat \<Rightarrow> 'a option" where
  "get_at xs p = (if p < length xs then Some (xs ! p) else None)"

end
