(* ===== verification/Unicode.thy ===== *)
theory Unicode
  imports Prelude
begin

unbundle bit_operations_syntax

text \<open>
  Character data (\<^verbatim>\<open>unicode.rs\<close>): the lookups \<^verbatim>\<open>linre\<close> makes in the generated tables of
  \<^verbatim>\<open>generated/unicode13.rs\<close>. The tables are data written by a script, so they are a parameter, the
  record \<open>unidata\<close>; what the lookups rely on of them is \<open>unidata_ok\<close>.
\<close>

section \<open>The tables\<close>

record unidata =
  t_PROPS :: "(u32 \<times> u16) list"
  t_LOWER :: "(u32 \<times> u32) list"
  t_UPPER :: "(u32 \<times> u32) list"
  t_CASE_FIXES :: "(u32 \<times> u32 list) list"
  t_DECIMAL_RUNS :: "(u32 \<times> u32 \<times> u32) list"

definition ALNUM :: u16 where "ALNUM = 1"
definition DECIMAL :: u16 where "DECIMAL = 2"
definition SPACE :: u16 where "SPACE = 8"

section \<open>Lookups\<close>

definition props_slow :: "unidata \<Rightarrow> u32 \<Rightarrow> u16" where
  "props_slow u c =
     (let i = partition_point (\<lambda>(start, _). start \<le> c) (t_PROPS u)
      in if i = 0 then 0 else snd (t_PROPS u ! (i - 1)))"

text \<open>The ASCII rows are read from the table once and cached, with the same values.\<close>

definition props :: "unidata \<Rightarrow> u32 \<Rightarrow> u16" where
  "props u c = (if c < 128 then props_slow u c else if c > 0x10FFFF then 0 else props_slow u c)"

definition is_decimal :: "unidata \<Rightarrow> u32 \<Rightarrow> bool" where
  "is_decimal u c \<longleftrightarrow> props u c AND DECIMAL \<noteq> 0"

definition is_space :: "unidata \<Rightarrow> u32 \<Rightarrow> bool" where
  "is_space u c \<longleftrightarrow>
     (if c < 128 then 0x09 \<le> c \<and> c \<le> 0x0D \<or> 0x1C \<le> c \<and> c \<le> 0x20 else props u c AND SPACE \<noteq> 0)"

definition is_ascii_alphanumeric :: "u32 \<Rightarrow> bool" where
  "is_ascii_alphanumeric c \<longleftrightarrow>
     0x30 \<le> c \<and> c \<le> 0x39 \<or> 0x41 \<le> c \<and> c \<le> 0x5A \<or> 0x61 \<le> c \<and> c \<le> 0x7A"

definition is_word :: "unidata \<Rightarrow> u32 \<Rightarrow> bool" where
  "is_word u c \<longleftrightarrow>
     (if c < 128 then is_ascii_alphanumeric c \<or> c = 0x5F else props u c AND ALNUM \<noteq> 0)"

text \<open>A binary search by key in a table sorted by distinct keys finds the key's row.\<close>

definition lookup :: "(u32 \<times> 'a) list \<Rightarrow> u32 \<Rightarrow> 'a option" where
  "lookup table c = map_of table c"

definition sre_lower :: "unidata \<Rightarrow> u32 \<Rightarrow> u32" where
  "sre_lower u c =
     (if c < 128 then (if 0x41 \<le> c \<and> c \<le> 0x5A then c + 32 else c)
      else (case lookup (t_LOWER u) c of Some d \<Rightarrow> d | None \<Rightarrow> c))"

definition sre_upper :: "unidata \<Rightarrow> u32 \<Rightarrow> u32" where
  "sre_upper u c =
     (if c < 128 then (if 0x61 \<le> c \<and> c \<le> 0x7A then c - 32 else c)
      else (case lookup (t_UPPER u) c of Some d \<Rightarrow> d | None \<Rightarrow> c))"

definition sre_iscased :: "unidata \<Rightarrow> u32 \<Rightarrow> bool" where
  "sre_iscased u c \<longleftrightarrow> c \<noteq> sre_lower u c \<or> c \<noteq> sre_upper u c"

definition case_fixes :: "unidata \<Rightarrow> u32 \<Rightarrow> u32 list option" where
  "case_fixes u lower = lookup (t_CASE_FIXES u) lower"

definition decimal_value :: "unidata \<Rightarrow> u32 \<Rightarrow> u32 option" where
  "decimal_value u c =
     (let i = partition_point (\<lambda>(a, _, _). a \<le> c) (t_DECIMAL_RUNS u)
      in if i = 0 then None
         else (case t_DECIMAL_RUNS u ! (i - 1) of
                 (a, b, v) \<Rightarrow> if c \<le> b then Some (v + (c - a)) else None))"

section \<open>What the lookups rely on\<close>

text \<open>
  The rows of a table are sorted by distinct keys (the searches are binary); the property runs start
  at U+0000 and stay in Unicode's range; the case tables list exactly the characters whose mapping is
  another character, ASCII's letters included (\<^verbatim>\<open>make_rust_tables.py\<close> writes them so).
\<close>

definition ascii_upper :: "u32 list" where
  "ascii_upper = upto_incl 0x41 0x5A"

definition ascii_lower :: "u32 list" where
  "ascii_lower = upto_incl 0x61 0x7A"

definition case_table_ok :: "u32 list \<Rightarrow> (u32 \<times> u32) list \<Rightarrow> bool" where
  "case_table_ok letters table \<longleftrightarrow>
     sorted_wrt (<) (map fst table)
     \<and> list_all (\<lambda>(c, d). c \<noteq> d \<and> (c < 128 \<longrightarrow> c \<in> set letters)) table
     \<and> list_all (\<lambda>c. c \<in> set (map fst table)) letters"

definition unidata_ok :: "unidata \<Rightarrow> bool" where
  "unidata_ok u \<longleftrightarrow>
     t_PROPS u \<noteq> [] \<and> fst (hd (t_PROPS u)) = 0
     \<and> sorted_wrt (<) (map fst (t_PROPS u))
     \<and> list_all (\<lambda>(c, _). c \<le> 0x10FFFF) (t_PROPS u)
     \<and> case_table_ok ascii_upper (t_LOWER u)
     \<and> case_table_ok ascii_lower (t_UPPER u)
     \<and> sorted_wrt (<) (map fst (t_CASE_FIXES u))"

text \<open>A character outside the keys of a case table is its own image.\<close>

lemma sre_lower_outside:
  assumes "unidata_ok u" and "c \<notin> fst ` set (t_LOWER u)"
  shows "sre_lower u c = c"
proof -
  have "\<not> (0x41 \<le> c \<and> c \<le> 0x5A)"
    using assms by (force simp: unidata_ok_def case_table_ok_def ascii_upper_def list_all_iff)
  moreover have "lookup (t_LOWER u) c = None"
    using assms(2) by (simp add: lookup_def map_of_eq_None_iff)
  ultimately show ?thesis by (auto simp: sre_lower_def)
qed

lemma sre_upper_outside:
  assumes "unidata_ok u" and "c \<notin> fst ` set (t_UPPER u)"
  shows "sre_upper u c = c"
proof -
  have "\<not> (0x61 \<le> c \<and> c \<le> 0x7A)"
    using assms by (force simp: unidata_ok_def case_table_ok_def ascii_lower_def list_all_iff)
  moreover have "lookup (t_UPPER u) c = None"
    using assms(2) by (simp add: lookup_def map_of_eq_None_iff)
  ultimately show ?thesis by (auto simp: sre_upper_def)
qed

text \<open>So the cased characters are the keys of the two tables.\<close>

lemma sre_lower_inside:
  assumes "unidata_ok u" and "c \<in> fst ` set (t_LOWER u)"
  shows "sre_lower u c \<noteq> c"
proof -
  have tab: "case_table_ok ascii_upper (t_LOWER u)" using assms(1) by (simp add: unidata_ok_def)
  then have "distinct (map fst (t_LOWER u))"
    by (simp add: case_table_ok_def strict_sorted_iff)
  with assms(2) obtain d where d: "(c, d) \<in> set (t_LOWER u)" "lookup (t_LOWER u) c = Some d"
    by (auto simp: lookup_def)
  with tab have "c \<noteq> d" "c < 128 \<Longrightarrow> 0x41 \<le> c \<and> c \<le> 0x5A"
    by (auto simp: case_table_ok_def list_all_iff ascii_upper_def)
  with d(2) show ?thesis by (auto simp: sre_lower_def)
qed

lemma sre_upper_inside:
  assumes "unidata_ok u" and "c \<in> fst ` set (t_UPPER u)"
  shows "sre_upper u c \<noteq> c"
proof -
  have tab: "case_table_ok ascii_lower (t_UPPER u)" using assms(1) by (simp add: unidata_ok_def)
  then have "distinct (map fst (t_UPPER u))"
    by (simp add: case_table_ok_def strict_sorted_iff)
  with assms(2) obtain d where d: "(c, d) \<in> set (t_UPPER u)" "lookup (t_UPPER u) c = Some d"
    by (auto simp: lookup_def)
  with tab have "c \<noteq> d" "c < 128 \<Longrightarrow> 0x61 \<le> c \<and> c \<le> 0x7A"
    by (auto simp: case_table_ok_def list_all_iff ascii_lower_def)
  with d(2) show ?thesis by (auto simp: sre_upper_def)
qed

lemma sre_iscased_iff:
  "unidata_ok u \<Longrightarrow> sre_iscased u c \<longleftrightarrow> c \<in> fst ` set (t_LOWER u) \<or> c \<in> fst ` set (t_UPPER u)"
  by (metis sre_iscased_def sre_lower_inside sre_lower_outside sre_upper_inside sre_upper_outside)

text \<open>
  Concrete tables with the shape of the generated ones, cut to ASCII and a few further rows (the long s,
  the Kelvin sign, a Deseret pair); the witnesses evaluate on them.
\<close>

definition sample_unidata :: unidata where
  "sample_unidata =
     \<lparr>t_PROPS = [(0x0, 0x0), (0x30, 0xB07), (0x3A, 0x180), (0x41, 0x5D51), (0x5B, 0x100), (0x61, 0x2D51),
                 (0x7B, 0x100), (0x7F, 0x0), (0x85, 0x28), (0x86, 0x0), (0xE9, 0x2D51), (0xEA, 0x0)],
      t_LOWER = map (\<lambda>c. (c, c + 32)) ascii_upper @ [(0x212A, 0x6B), (0x10400, 0x10428)],
      t_UPPER = map (\<lambda>c. (c, c - 32)) ascii_lower @ [(0x17F, 0x53), (0x10428, 0x10400)],
      t_CASE_FIXES = [(0x73, [0x17F]), (0x17F, [0x73])],
      t_DECIMAL_RUNS = [(0x30, 0x39, 0)]\<rparr>"

lemma sample_unidata_ok: "unidata_ok sample_unidata"
  by code_simp

end
