(* ===== verification/Charset.thy ===== *)
theory Charset
  imports Unicode
begin

text \<open>
  Sets of code points (\<^verbatim>\<open>linre/charset.rs\<close>): a set is a sorted list of disjoint, non-adjacent
  inclusive ranges. First the type and its algebra, then what each character item of a pattern accepts
  (categories, literals, classes, folding case as \<^verbatim>\<open>re\<close> compiles it), then the denotation \<open>cs_set\<close> of
  a set as a set of words, the invariant \<open>canonical\<close>, and the lemmas that every operation keeps the
  invariant and computes the set operation it stands for.
\<close>

section \<open>CharSet\<close>

record charset =
  ranges :: "(u32 \<times> u32) list"

definition cs_empty :: charset where
  "cs_empty = \<lparr>ranges = []\<rparr>"

definition cs_all :: charset where
  "cs_all = \<lparr>ranges = [(0, CP_MAX)]\<rparr>"

definition cs_one :: "u32 \<Rightarrow> charset" where
  "cs_one c = \<lparr>ranges = [(c, c)]\<rparr>"

definition cs_range :: "u32 \<Rightarrow> u32 \<Rightarrow> charset" where
  "cs_range a b = (if a > b then cs_empty else \<lparr>ranges = [(a, b)]\<rparr>)"

text \<open>
  The loop body of \<open>from_ranges\<close>: a range that touches the last one extends it (the \<^verbatim>\<open>continue\<close>),
  any other is pushed.
\<close>

fun push_range :: "(u32 \<times> u32) list \<Rightarrow> u32 \<times> u32 \<Rightarrow> (u32 \<times> u32) list" where
  "push_range out (a, b) =
     (if out \<noteq> [] \<and> a \<le> sat_succ (snd (last out))
      then (if b > snd (last out) then butlast out @ [(fst (last out), b)] else out)
      else out @ [(a, b)])"

definition from_ranges :: "(u32 \<times> u32) list \<Rightarrow> charset" where
  "from_ranges v = \<lparr>ranges = foldl push_range [] (sort (filter (\<lambda>(a, b). a \<le> b) v))\<rparr>"

text \<open>\<^verbatim>\<open>dedup\<close> drops an element equal to the one before it: on a sorted list, every repeat.\<close>

definition from_chars :: "u32 list \<Rightarrow> charset" where
  "from_chars v = from_ranges (map (\<lambda>c. (c, c)) (remdups_adj (sort v)))"

definition cs_is_empty :: "charset \<Rightarrow> bool" where
  "cs_is_empty s \<longleftrightarrow> ranges s = []"

definition is_all :: "charset \<Rightarrow> bool" where
  "is_all s \<longleftrightarrow> length (ranges s) = 1 \<and> ranges s ! 0 = (0, CP_MAX)"

definition cs_count :: "charset \<Rightarrow> nat" where
  "cs_count s = sum_list (map (\<lambda>(a, b). unat (b - a) + 1) (ranges s))"

definition single :: "charset \<Rightarrow> u32 option" where
  "single s = (case ranges s of [(a, b)] \<Rightarrow> if a = b then Some a else None | _ \<Rightarrow> None)"

definition chars_upto :: "charset \<Rightarrow> nat \<Rightarrow> u32 list option" where
  "chars_upto s n =
     (if cs_count s > n then None
      else Some (concat (map (\<lambda>(a, b). upto_incl a b) (ranges s))))"

fun scan_ranges :: "(u32 \<times> u32) list \<Rightarrow> u32 \<Rightarrow> bool" where
  "scan_ranges [] c = False"
| "scan_ranges ((a, b) # rs) c = (if c < a then False else if c \<le> b then True else scan_ranges rs c)"

definition contains :: "charset \<Rightarrow> u32 \<Rightarrow> bool" where
  "contains s c =
     (if length (ranges s) \<le> 8 then scan_ranges (ranges s) c
      else (let i = partition_point (\<lambda>(a, _). a \<le> c) (ranges s)
            in i > 0 \<and> c \<le> snd (ranges s ! (i - 1))))"

definition cs_union :: "charset \<Rightarrow> charset \<Rightarrow> charset" where
  "cs_union s t = from_ranges (ranges s @ ranges t)"

text \<open>The loop of \<open>complement\<close> over the ranges, with \<open>next\<close> and the output so far.\<close>

fun complement_loop :: "(u32 \<times> u32) list \<Rightarrow> u32 \<Rightarrow> (u32 \<times> u32) list \<Rightarrow> (u32 \<times> u32) list" where
  "complement_loop [] next out = out @ [(next, CP_MAX)]"
| "complement_loop ((a, b) # rs) next out =
     (let out = (if a > next then out @ [(next, a - 1)] else out)
      in if b = CP_MAX then out else complement_loop rs (b + 1) out)"

definition complement :: "charset \<Rightarrow> charset" where
  "complement s = \<lparr>ranges = complement_loop (ranges s) 0 []\<rparr>"

text \<open>The loop of \<open>intersect\<close>: the two indices are what is left of the two lists.\<close>

fun intersect_loop ::
    "(u32 \<times> u32) list \<Rightarrow> (u32 \<times> u32) list \<Rightarrow> (u32 \<times> u32) list \<Rightarrow> (u32 \<times> u32) list" where
  "intersect_loop ((a1, b1) # r1) ((a2, b2) # r2) out =
     (let lo = max a1 a2; hi = min b1 b2;
          out = (if lo \<le> hi then out @ [(lo, hi)] else out)
      in if b1 < b2 then intersect_loop r1 ((a2, b2) # r2) out
         else intersect_loop ((a1, b1) # r1) r2 out)"
| "intersect_loop r1 r2 out = out"

definition cs_intersect :: "charset \<Rightarrow> charset \<Rightarrow> charset" where
  "cs_intersect s t = \<lparr>ranges = intersect_loop (ranges s) (ranges t) []\<rparr>"

definition cs_minus :: "charset \<Rightarrow> charset \<Rightarrow> charset" where
  "cs_minus s t = cs_intersect s (complement t)"

definition intersects :: "charset \<Rightarrow> charset \<Rightarrow> bool" where
  "intersects s t \<longleftrightarrow> \<not> cs_is_empty (cs_intersect s t)"

fun ascii_mask_loop :: "(u32 \<times> u32) list \<Rightarrow> u128 \<Rightarrow> u128" where
  "ascii_mask_loop [] m = m"
| "ascii_mask_loop ((a, b) # rs) m =
     (if a \<ge> 128 then m
      else ascii_mask_loop rs (foldl (\<lambda>m c. m OR push_bit (unat c) 1) m (upto_incl a (min b 127))))"

definition ascii_mask :: "charset \<Rightarrow> u128" where
  "ascii_mask s = ascii_mask_loop (ranges s) 0"

definition has_non_ascii :: "charset \<Rightarrow> bool" where
  "has_non_ascii s \<longleftrightarrow> ranges s \<noteq> [] \<and> snd (last (ranges s)) \<ge> 128"

section \<open>Categories\<close>

datatype category = Digit | NotDigit | Space | NotSpace | Word | NotWord

record tables =
  tab_word :: charset
  tab_digit :: charset
  tab_space :: charset
  lower_dom :: charset
  upper_dom :: charset
  tab_cased :: charset

text \<open>
  The loop over the property runs, for one property bit: each run reaches to the next one's start (the
  last to U+10FFFF) and is cut to what lies past ASCII.
\<close>

fun prop_ranges :: "u16 \<Rightarrow> (u32 \<times> u16) list \<Rightarrow> (u32 \<times> u32) list" where
  "prop_ranges flag [] = []"
| "prop_ranges flag ((start, bits) # rest) =
     (let run_end = (case rest of [] \<Rightarrow> 0x10FFFF | (n, _) # _ \<Rightarrow> n - 1);
          a = max start 128; b = min run_end 0x10FFFF
      in (if a > b then [] else if bits AND flag \<noteq> 0 then [(a, b)] else []) @ prop_ranges flag rest)"

definition ascii_ranges :: "(u32 \<Rightarrow> bool) \<Rightarrow> (u32 \<times> u32) list" where
  "ascii_ranges P = map (\<lambda>c. (c, c)) (filter P (upto_incl 0 127))"

definition tables :: "unidata \<Rightarrow> tables" where
  "tables u =
     (let lower_dom = from_chars (map fst (t_LOWER u));
          upper_dom = from_chars (map fst (t_UPPER u))
      in \<lparr>tab_word = from_ranges (ascii_ranges (is_word u) @ prop_ranges ALNUM (t_PROPS u)),
          tab_digit = from_ranges (ascii_ranges (is_decimal u) @ prop_ranges DECIMAL (t_PROPS u)),
          tab_space = from_ranges (ascii_ranges (is_space u) @ prop_ranges SPACE (t_PROPS u)),
          lower_dom = lower_dom, upper_dom = upper_dom,
          tab_cased = cs_union lower_dom upper_dom\<rparr>)"

definition ascii_word :: charset where
  "ascii_word = from_ranges [(0x30, 0x39), (0x41, 0x5A), (0x5F, 0x5F), (0x61, 0x7A)]"

definition category_set :: "unidata \<Rightarrow> category \<Rightarrow> bool \<Rightarrow> charset" where
  "category_set u k ascii =
     (let base = (if k = Digit \<or> k = NotDigit then
                    (if ascii then cs_range 0x30 0x39 else tab_digit (tables u))
                  else if k = Space \<or> k = NotSpace then
                    (if ascii then from_ranges [(0x09, 0x0D), (0x20, 0x20)] else tab_space (tables u))
                  else (if ascii then ascii_word else tab_word (tables u)))
      in if k = NotDigit \<or> k = NotSpace \<or> k = NotWord then complement base else base)"

definition word_set :: "unidata \<Rightarrow> bool \<Rightarrow> charset" where
  "word_set u ascii = (if ascii then ascii_word else tab_word (tables u))"

section \<open>Folding case\<close>

datatype fold = NoFold | UnicodeFold | AsciiFold

definition lower_of :: "unidata \<Rightarrow> u32 \<Rightarrow> fold \<Rightarrow> u32" where
  "lower_of u c f =
     (case f of AsciiFold \<Rightarrow> (if 0x41 \<le> c \<and> c \<le> 0x5A then c + 32 else c) | _ \<Rightarrow> sre_lower u c)"

definition is_cased :: "unidata \<Rightarrow> u32 \<Rightarrow> fold \<Rightarrow> bool" where
  "is_cased u c f =
     (case f of AsciiFold \<Rightarrow> 0x41 \<le> c \<and> c \<le> 0x5A \<or> 0x61 \<le> c \<and> c \<le> 0x7A | _ \<Rightarrow> sre_iscased u c)"

definition fixes_of :: "unidata \<Rightarrow> u32 \<Rightarrow> fold \<Rightarrow> u32 list" where
  "fixes_of u lo f =
     (case f of UnicodeFold \<Rightarrow> (case case_fixes u lo of Some xs \<Rightarrow> xs | None \<Rightarrow> []) | _ \<Rightarrow> [])"

definition fold_dom :: "unidata \<Rightarrow> fold \<Rightarrow> charset" where
  "fold_dom u f = (case f of AsciiFold \<Rightarrow> cs_range 0x41 0x5A | _ \<Rightarrow> lower_dom (tables u))"

definition range_chars :: "charset \<Rightarrow> u32 list" where
  "range_chars s = concat (map (\<lambda>(a, b). upto_incl a b) (ranges s))"

definition by_lower :: "unidata \<Rightarrow> charset \<Rightarrow> fold \<Rightarrow> charset" where
  "by_lower u q f =
     (let dom = fold_dom u f
      in from_ranges (ranges (cs_minus q dom) @
           map (\<lambda>c. (c, c)) (filter (\<lambda>c. contains q (lower_of u c f)) (range_chars dom))))"

definition literal_set :: "unidata \<Rightarrow> u32 \<Rightarrow> bool \<Rightarrow> fold \<Rightarrow> charset" where
  "literal_set u c negated f =
     (let s = (if f = NoFold \<or> \<not> is_cased u c f then cs_one c
               else (let lo = lower_of u c f in by_lower u (from_chars (lo # fixes_of u lo f)) f))
      in if negated then complement s else s)"

section \<open>Classes\<close>

datatype class_item = CLit u32 | CRange u32 u32 | CCat category

text \<open>The items of a class compared as written: the literals and ranges, then the categories.\<close>

fun plain_ranges :: "class_item list \<Rightarrow> (u32 \<times> u32) list" where
  "plain_ranges [] = []"
| "plain_ranges (CLit c # is) = (c, c) # plain_ranges is"
| "plain_ranges (CRange a b # is) = (a, b) # plain_ranges is"
| "plain_ranges (CCat k # is) = plain_ranges is"

fun class_cats :: "unidata \<Rightarrow> bool \<Rightarrow> charset \<Rightarrow> class_item list \<Rightarrow> charset" where
  "class_cats u ascii cats [] = cats"
| "class_cats u ascii cats (CCat k # is) = class_cats u ascii (cs_union cats (category_set u k ascii)) is"
| "class_cats u ascii cats (_ # is) = class_cats u ascii cats is"

definition plain_class :: "unidata \<Rightarrow> class_item list \<Rightarrow> bool \<Rightarrow> charset" where
  "plain_class u items ascii =
     cs_union (from_ranges (plain_ranges items)) (class_cats u ascii cs_empty items)"

record fold_state =
  hascased :: bool
  lowered :: "(u32 \<times> u32) list"
  as_written :: "(u32 \<times> u32) list"
  fs_cats :: charset
  astral_ranges :: "(u32 \<times> u32) list"

definition BMP :: u32 where "BMP = 0x10000"

definition cased_set :: "unidata \<Rightarrow> fold \<Rightarrow> charset" where
  "cased_set u f =
     (case f of AsciiFold \<Rightarrow> from_ranges [(0x41, 0x5A), (0x61, 0x7A)] | _ \<Rightarrow> tab_cased (tables u))"

text \<open>The Basic Multilingual Plane's part of a range, each character as its lowercase.\<close>

definition range_lowered :: "unidata \<Rightarrow> fold \<Rightarrow> u32 \<Rightarrow> u32 \<Rightarrow> (u32 \<times> u32) list" where
  "range_lowered u f a b =
     (let bmp_end = min b (BMP - 1); part = cs_range a bmp_end; dom = fold_dom u f
      in if a \<le> bmp_end
         then ranges (cs_minus part dom) @
              map (\<lambda>lo. (lo, lo)) (map (\<lambda>c. lower_of u c f) (range_chars (cs_intersect part dom)))
         else [])"

text \<open>One item of \<open>fold_class\<close>'s loop.\<close>

fun fold_item :: "unidata \<Rightarrow> fold \<Rightarrow> bool \<Rightarrow> fold_state \<Rightarrow> class_item \<Rightarrow> fold_state" where
  "fold_item u f ascii st (CLit c) =
     (let lo = lower_of u c f
      in st\<lparr>lowered := lowered st @ [(lo, lo)], hascased := hascased st \<or> is_cased u c f\<rparr>)"
| "fold_item u f ascii st (CRange a b) =
     (let st = st\<lparr>lowered := lowered st @ range_lowered u f a b\<rparr>
      in if b \<ge> BMP
         then (if f = AsciiFold then st\<lparr>as_written := as_written st @ [(a, b)], hascased := True\<rparr>
               else st\<lparr>astral_ranges := astral_ranges st @ [(a, b)], hascased := True\<rparr>)
         else if \<not> hascased st then st\<lparr>hascased := intersects (cs_range a b) (cased_set u f)\<rparr>
         else st)"
| "fold_item u f ascii st (CCat k) = st\<lparr>fs_cats := cs_union (fs_cats st) (category_set u k ascii)\<rparr>"

text \<open>What a range past the Basic Multilingual Plane adds: the range itself and what uppercases into it.\<close>

definition astral_set :: "unidata \<Rightarrow> u32 \<times> u32 \<Rightarrow> charset" where
  "astral_set u r =
     (case r of (a, b) \<Rightarrow> from_ranges ((a, b) #
        map (\<lambda>c. (c, c)) (filter (\<lambda>c. a \<le> sre_upper u c \<and> sre_upper u c \<le> b)
          (range_chars (upper_dom (tables u))))))"

definition extra_ranges :: "unidata \<Rightarrow> charset \<Rightarrow> (u32 \<times> u32) list" where
  "extra_ranges u low =
     concat (map (\<lambda>(k, others). if contains low k then map (\<lambda>c. (c, c)) others else []) (t_CASE_FIXES u))"

definition fold_class :: "unidata \<Rightarrow> class_item list \<Rightarrow> fold \<Rightarrow> bool \<Rightarrow> charset" where
  "fold_class u items f ascii =
     (let st = foldl (fold_item u f ascii)
                 \<lparr>hascased = False, lowered = [], as_written = [], fs_cats = cs_empty, astral_ranges = []\<rparr> items
      in if \<not> hascased st then plain_class u items ascii
         else
           (let low = from_ranges (lowered st);
                low = (if f = UnicodeFold then cs_union low (from_ranges (extra_ranges u low)) else low);
                q = cs_union (cs_union low (from_ranges (as_written st))) (fs_cats st);
                q = foldl (\<lambda>q r. cs_union q (astral_set u r)) q (astral_ranges st)
            in by_lower u q f))"

definition class_set :: "unidata \<Rightarrow> class_item list \<Rightarrow> bool \<Rightarrow> fold \<Rightarrow> bool \<Rightarrow> charset" where
  "class_set u items negated f ascii =
     (let s = (if f = NoFold then plain_class u items ascii else fold_class u items f ascii)
      in if negated then complement s else s)"

definition any_set :: "bool \<Rightarrow> charset" where
  "any_set dotall = (if dotall then cs_all else complement (cs_one 0x0A))"

section \<open>Denotation and invariant\<close>

definition rset :: "(u32 \<times> u32) list \<Rightarrow> u32 set" where
  "rset rs = (\<Union>(a, b) \<in> set rs. {a..b})"

definition cs_set :: "charset \<Rightarrow> u32 set" where
  "cs_set s = rset (ranges s)"

definition gap :: "u32 \<times> u32 \<Rightarrow> u32 \<times> u32 \<Rightarrow> bool" where
  "gap r q \<longleftrightarrow> unat (snd r) + 1 < unat (fst q)"

definition canonical :: "(u32 \<times> u32) list \<Rightarrow> bool" where
  "canonical rs \<longleftrightarrow> sorted_wrt gap rs \<and> list_all (\<lambda>(a, b). a \<le> b) rs"

definition cs_ok :: "charset \<Rightarrow> bool" where
  "cs_ok s \<longleftrightarrow> canonical (ranges s)"

lemma rset_simps [simp]:
  "rset [] = {}"
  "rset ((a, b) # rs) = {a..b} \<union> rset rs"
  "rset (xs @ ys) = rset xs \<union> rset ys"
  by (auto simp: rset_def)

lemma rset_singles [simp]: "rset (map (\<lambda>c. (c, c)) cs) = set cs"
  by (induction cs) auto

lemma canonical_Nil [simp]: "canonical []"
  by (simp add: canonical_def)

lemma canonical_Cons:
  "canonical ((a, b) # rs) \<longleftrightarrow>
     a \<le> b \<and> canonical rs \<and> (\<forall>(c, d) \<in> set rs. unat b + 1 < unat c)"
  by (auto simp: canonical_def gap_def)

lemma canonical_append:
  "canonical (xs @ ys) \<longleftrightarrow>
     canonical xs \<and> canonical ys \<and> (\<forall>x \<in> set xs. \<forall>y \<in> set ys. gap x y)"
  by (auto simp: canonical_def sorted_wrt_append)

lemma canonical_single [simp]: "canonical [(a, b)] \<longleftrightarrow> a \<le> b"
  by (simp add: canonical_def)

lemma rset_after:
  assumes "\<forall>(c, d) \<in> set rs. unat b + 1 < unat c" and "x \<in> rset rs"
  shows "unat b + 1 < unat x"
  using assms by (force simp: rset_def word_le_nat_alt)

subsection \<open>Membership\<close>

lemma scan_ranges_iff: "canonical rs \<Longrightarrow> scan_ranges rs c \<longleftrightarrow> c \<in> rset rs"
proof (induction rs)
  case (Cons r rs)
  obtain a b where r: "r = (a, b)" by (cases r)
  have after: "\<And>x. x \<in> rset rs \<Longrightarrow> unat b + 1 < unat x"
    using Cons.prems rset_after by (auto simp: r canonical_Cons)
  from Cons.prems have "a \<le> b" by (simp add: r canonical_Cons)
  then have "c < a \<Longrightarrow> c \<notin> rset rs"
    using after [of c] by (auto simp: word_less_nat_alt word_le_nat_alt)
  with Cons show ?case by (auto simp: r canonical_Cons)
qed simp

lemma partition_canonical:
  assumes "canonical rs" and "i = partition_point (\<lambda>(a, _). a \<le> c) rs"
  shows "i > 0 \<and> c \<le> snd (rs ! (i - 1)) \<longleftrightarrow> c \<in> rset rs"
  using assms
proof (induction rs arbitrary: i)
  case Nil
  then show ?case by (simp add: partition_point_def)
next
  case (Cons r rs)
  obtain a b where r: "r = (a, b)" by (cases r)
  let ?j = "partition_point (\<lambda>(a, _). a \<le> c) rs"
  have ab: "a \<le> b" and can: "canonical rs"
    and gaps: "\<forall>(x, y) \<in> set rs. unat b + 1 < unat x"
    using Cons.prems by (auto simp: r canonical_Cons)
  note after = rset_after [OF gaps]
  show ?case
  proof (cases "a \<le> c")
    case False
    then have "c \<notin> rset rs"
      using after [of c] ab by (auto simp: word_less_nat_alt word_le_nat_alt)
    with False Cons.prems show ?thesis by (simp add: r partition_point_def)
  next
    case True
    then have i: "i = Suc ?j"
      using Cons.prems by (simp add: r partition_point_def)
    show ?thesis
    proof (cases "?j = 0")
      case True
      with Cons.IH [OF can refl] have "c \<notin> rset rs" by simp
      with True \<open>a \<le> c\<close> i show ?thesis by (auto simp: r)
    next
      case False
      then have "fst (rs ! 0) \<le> c" and "rs \<noteq> []"
        using partition_point_before [of 0 "\<lambda>(a, _). a \<le> c" rs]
        by (auto simp: case_prod_beta partition_point_def)
      with gaps have "b < c"
        by (cases rs) (auto simp: word_less_nat_alt word_le_nat_alt)
      with False Cons.IH [OF can refl] i show ?thesis by (auto simp: r)
    qed
  qed
qed

lemma contains_iff: "cs_ok s \<Longrightarrow> contains s c \<longleftrightarrow> c \<in> cs_set s"
  using scan_ranges_iff [of "ranges s" c] partition_canonical [of "ranges s" _ c]
  by (auto simp: contains_def cs_ok_def cs_set_def Let_def)

subsection \<open>Building a canonical set\<close>

lemma interval_join:
  assumes "x \<le> a" and "a \<le> sat_succ y" and "x \<le> y" and "y \<le> b"
  shows "{x..y} \<union> {a..b} = {x..b :: u32}"
  using assms by (auto simp: word_le_nat_alt word_less_nat_alt unat_sat_succ)

lemma push_range_ok:
  assumes "canonical out" and "a \<le> b" and "out \<noteq> [] \<Longrightarrow> fst (last out) \<le> a"
  shows "canonical (push_range out (a, b))"
    and "rset (push_range out (a, b)) = rset out \<union> {a..b}"
    and "push_range out (a, b) \<noteq> []" and "fst (last (push_range out (a, b))) \<le> a"
proof -
  have "canonical (push_range out (a, b)) \<and> rset (push_range out (a, b)) = rset out \<union> {a..b}
    \<and> push_range out (a, b) \<noteq> [] \<and> fst (last (push_range out (a, b))) \<le> a"
  proof (cases out rule: rev_cases)
    case Nil
    with assms show ?thesis by simp
  next
    case (snoc o' l)
    obtain x y where l: "l = (x, y)" by (cases l)
    from assms snoc have xy: "x \<le> y" "x \<le> a" by (auto simp: l canonical_append)
    have far: "gap p (a, b)" if "p \<in> set o'" for p
      using assms that xy by (auto simp: snoc l canonical_append gap_def word_le_nat_alt)
    consider (inside) "a \<le> sat_succ y" "b \<le> y" | (ext) "a \<le> sat_succ y" "y < b" | (new) "sat_succ y < a"
      by (metis not_less)
    then show ?thesis
    proof cases
      case inside
      with xy have "{a..b} \<subseteq> {x..y}" by auto
      with inside assms xy show ?thesis by (auto simp: snoc l)
    next
      case ext
      with xy interval_join [of x a y b] have "{x..y} \<union> {a..b} = {x..b}" by simp
      with ext assms xy show ?thesis
        by (auto simp: snoc l canonical_append gap_def)
    next
      case new
      then have "gap (x, y) (a, b)"
        using u32_lt [of a] by (simp add: gap_def word_less_nat_alt unat_sat_succ)
      moreover from this xy assms(2) have "canonical [(x, y), (a, b)]"
        by (simp add: canonical_def)
      ultimately show ?thesis using new assms xy far
        by (auto simp: snoc l canonical_append)
    qed
  qed
  then show "canonical (push_range out (a, b))"
    and "rset (push_range out (a, b)) = rset out \<union> {a..b}"
    and "push_range out (a, b) \<noteq> []" and "fst (last (push_range out (a, b))) \<le> a"
    by blast+
qed

lemma foldl_push_range:
  assumes "canonical out" and "sorted v" and "\<forall>(a, b) \<in> set v. a \<le> b"
    and "out \<noteq> [] \<Longrightarrow> v \<noteq> [] \<Longrightarrow> fst (last out) \<le> fst (hd v)"
  shows "canonical (foldl push_range out v) \<and> rset (foldl push_range out v) = rset out \<union> rset v"
  using assms
proof (induction v arbitrary: out)
  case (Cons r v)
  obtain a b where r: "r = (a, b)" by (cases r)
  have ab: "a \<le> b" using Cons.prems(3) by (simp add: r)
  have le: "out \<noteq> [] \<Longrightarrow> fst (last out) \<le> a" using Cons.prems(4) by (simp add: r)
  note ok = push_range_ok [OF Cons.prems(1) ab le]
  have "fst (last (push_range out (a, b))) \<le> fst (hd v)" if "v \<noteq> []"
  proof -
    have "(a, b) \<le> hd v" using Cons.prems(2) that by (cases v) (auto simp: r)
    then have "a \<le> fst (hd v)" by (auto simp: less_eq_prod_def)
    with ok(4) show ?thesis by (rule order_trans)
  qed
  with ok Cons.prems Cons.IH [of "push_range out (a, b)"] show ?case
    by (simp add: r del: push_range.simps) blast
qed simp

lemma rset_filter_nonempty: "rset (filter (\<lambda>(a, b). a \<le> b) v) = rset v"
proof (induction v)
  case (Cons r v)
  obtain a b where r: "r = (a, b)" by (cases r)
  show ?case
    using Cons by (cases "a \<le> b") (simp_all add: r)
qed simp

lemma rset_sort [simp]: "rset (sort v) = rset v"
  by (simp add: rset_def)

lemma from_ranges_canonical:
  "canonical (ranges (from_ranges v)) \<and> rset (ranges (from_ranges v)) = rset v"
proof -
  let ?v = "sort (filter (\<lambda>(a, b). a \<le> b) v)"
  have "canonical (foldl push_range [] ?v) \<and> rset (foldl push_range [] ?v) = rset [] \<union> rset ?v"
    by (rule foldl_push_range) auto
  then show ?thesis by (simp add: from_ranges_def rset_filter_nonempty)
qed

lemma from_ranges_ok [simp]: "cs_ok (from_ranges v)"
  and from_ranges_set [simp]: "cs_set (from_ranges v) = rset v"
  using from_ranges_canonical [of v] by (simp_all add: cs_ok_def cs_set_def)


lemma from_chars_ok [simp]: "cs_ok (from_chars v)"
  and from_chars_set [simp]: "cs_set (from_chars v) = set v"
  by (simp_all add: from_chars_def)

lemma cs_empty_ok [simp]: "cs_ok cs_empty" and cs_empty_set [simp]: "cs_set cs_empty = {}"
  by (simp_all add: cs_empty_def cs_ok_def cs_set_def)

lemma cs_all_ok [simp]: "cs_ok cs_all" and cs_all_set [simp]: "cs_set cs_all = UNIV"
  by (auto simp: cs_all_def cs_ok_def cs_set_def)

lemma cs_one_ok [simp]: "cs_ok (cs_one c)" and cs_one_set [simp]: "cs_set (cs_one c) = {c}"
  by (simp_all add: cs_one_def cs_ok_def cs_set_def)

lemma cs_range_ok [simp]: "cs_ok (cs_range a b)" and cs_range_set [simp]: "cs_set (cs_range a b) = {a..b}"
  by (auto simp: cs_range_def cs_ok_def cs_set_def cs_empty_def)

lemma cs_union_ok [simp]: "cs_ok (cs_union s t)"
  and cs_union_set [simp]: "cs_set (cs_union s t) = cs_set s \<union> cs_set t"
  by (simp_all add: cs_union_def) (simp add: cs_set_def)

subsection \<open>Complement\<close>

definition below :: "(u32 \<times> u32) list \<Rightarrow> u32 \<Rightarrow> bool" where
  "below out n \<longleftrightarrow> (\<forall>r \<in> set out. unat (snd r) + 1 < unat n)"

lemma complement_loop_ok:
  assumes "canonical rs" and "\<forall>(a, b) \<in> set rs. next \<le> a" and "canonical out" and "below out next"
  shows "canonical (complement_loop rs next out)
    \<and> rset (complement_loop rs next out) = rset out \<union> ({next..} - rset rs)"
  using assms
proof (induction rs arbitrary: "next" out)
  case Nil
  then show ?case
    by (auto simp: canonical_append below_def gap_def)
next
  case (Cons r rs)
  obtain a b where r: "r = (a, b)" by (cases r)
  let ?out = "if a > next then out @ [(next, a - 1)] else out"
  have ab: "a \<le> b" "next \<le> a" and can: "canonical rs"
    and gaps: "\<forall>(c, d) \<in> set rs. unat b + 1 < unat c"
    using Cons.prems by (auto simp: r canonical_Cons)
  note after = rset_after [OF gaps]
  have out: "canonical ?out" "rset ?out = rset out \<union> {next..<a}"
    using Cons.prems(3,4) ab
    by (auto simp: canonical_append below_def gap_def word_le_nat_alt word_less_nat_alt unat_pred)
  have split: "{next..} - rset ((a, b) # rs) = {next..<a} \<union> ({x. b < x} - rset rs)"
    using ab by (auto simp: word_le_nat_alt word_less_nat_alt dest: after)
  show ?case
  proof (cases "b = CP_MAX")
    case True
    then have "{x. b < x} = {}" by (simp add: leD)
    with True out split show ?thesis by (auto simp: r Let_def)
  next
    case False
    then have b1: "unat (b + 1) = unat b + 1" by (rule unat_succ)
    then have gt: "{x. b < x} = {b + 1..}" by (auto simp: word_le_nat_alt word_less_nat_alt)
    have "below ?out (b + 1)"
      using Cons.prems(4) ab
      by (auto simp: below_def b1 word_le_nat_alt word_less_nat_alt unat_pred)
    moreover have "\<forall>(c, d) \<in> set rs. b + 1 \<le> c"
      using gaps by (auto simp: word_le_nat_alt b1)
    ultimately show ?thesis
      using Cons.IH [of "b + 1" ?out] can out False split by (auto simp: r Let_def gt)
  qed
qed

lemma complement_both: "cs_ok s \<Longrightarrow> cs_ok (complement s) \<and> cs_set (complement s) = - cs_set s"
proof -
  assume "cs_ok s"
  then have "canonical (ranges s)" by (simp add: cs_ok_def)
  then have "canonical (complement_loop (ranges s) 0 [])
    \<and> rset (complement_loop (ranges s) 0 []) = rset [] \<union> ({0..} - rset (ranges s))"
    by (rule complement_loop_ok) (simp_all add: below_def)
  moreover have "{0::u32..} = UNIV" by (simp add: set_eq_iff)
  ultimately show ?thesis
    by (simp add: cs_ok_def cs_set_def complement_def Compl_eq_Diff_UNIV)
qed

lemma complement_ok [simp]: "cs_ok s \<Longrightarrow> cs_ok (complement s)"
  and complement_set [simp]: "cs_ok s \<Longrightarrow> cs_set (complement s) = - cs_set s"
  using complement_both by auto

subsection \<open>Intersection\<close>

definition clear_of :: "(u32 \<times> u32) list \<Rightarrow> (u32 \<times> u32) list \<Rightarrow> (u32 \<times> u32) list \<Rightarrow> bool" where
  "clear_of out r1 r2 \<longleftrightarrow>
     (\<forall>r \<in> set out. \<forall>p \<in> set r1. \<forall>q \<in> set r2. unat (snd r) + 1 < max (unat (fst p)) (unat (fst q)))"

lemma unat_max: "unat (max a b) = max (unat a) (unat b)" for a b :: u32
  by (simp add: max_def word_le_nat_alt)

lemma intersect_loop_ok:
  assumes "canonical r1" and "canonical r2" and "canonical out" and "clear_of out r1 r2"
  shows "canonical (intersect_loop r1 r2 out)
    \<and> rset (intersect_loop r1 r2 out) = rset out \<union> (rset r1 \<inter> rset r2)"
  using assms
proof (induction r1 r2 out rule: intersect_loop.induct)
  case (1 a1 b1 r1 a2 b2 r2 out)
  let ?lo = "max a1 a2" and ?hi = "min b1 b2"
  let ?out = "if ?lo \<le> ?hi then out @ [(?lo, ?hi)] else out"
  have 1: "a1 \<le> b1" "canonical r1" "\<forall>(c, d) \<in> set r1. unat b1 + 1 < unat c"
    and 2: "a2 \<le> b2" "canonical r2" "\<forall>(c, d) \<in> set r2. unat b2 + 1 < unat c"
    using "1.prems" by (auto simp: canonical_Cons)
  have out: "canonical ?out" "rset ?out = rset out \<union> ({a1..b1} \<inter> {a2..b2})"
    using "1.prems" by (auto simp: canonical_append clear_of_def gap_def unat_max)
  show ?case
  proof (cases "b1 < b2")
    case True
    then have "clear_of ?out r1 ((a2, b2) # r2)"
      using "1.prems"(4) 1(3) by (fastforce simp: clear_of_def min_def)
    moreover have "{a1..b1} \<inter> rset r2 = {}"
      using rset_after [OF 2(3)] True by (fastforce simp: word_le_nat_alt word_less_nat_alt)
    ultimately show ?thesis
      using "1.IH"(1) [OF refl refl refl True 1(2)] "1.prems"(2) out True by (auto simp: Let_def)
  next
    case False
    then have "clear_of ?out ((a1, b1) # r1) r2"
      using "1.prems"(4) 2(3) by (fastforce simp: clear_of_def min_def not_less)
    moreover have "rset r1 \<inter> {a2..b2} = {}"
      using rset_after [OF 1(3)] False by (fastforce simp: word_le_nat_alt word_less_nat_alt)
    ultimately show ?thesis
      using "1.IH"(2) [OF refl refl refl False "1.prems"(1) 2(2)] out False by (auto simp: Let_def)
  qed
qed auto


lemma cs_intersect_both:
  "cs_ok s \<Longrightarrow> cs_ok t \<Longrightarrow>
   cs_ok (cs_intersect s t) \<and> cs_set (cs_intersect s t) = cs_set s \<inter> cs_set t"
  using intersect_loop_ok [of "ranges s" "ranges t" "[]"]
  by (simp add: cs_ok_def cs_set_def cs_intersect_def clear_of_def)

subsection \<open>One list of ranges per set\<close>

lemma canonical_first: "canonical ((a, b) # rs) \<Longrightarrow> x \<in> rset ((a, b) # rs) \<Longrightarrow> a \<le> x"
  using rset_after [of rs b x]
  by (auto simp: canonical_Cons word_le_nat_alt)

lemma canonical_next:
  assumes "canonical ((a, b) # rs)" and "b \<noteq> CP_MAX"
  shows "b + 1 \<notin> rset ((a, b) # rs)"
  using assms rset_after [of rs b "b + 1"] unat_succ [OF assms(2)]
  by (auto simp: canonical_Cons word_le_nat_alt)

lemma canonical_head_unique:
  assumes 1: "canonical ((a, b) # rs)" and 2: "canonical ((a, d) # qs)"
    and eq: "rset ((a, b) # rs) = rset ((a, d) # qs)"
  shows "d \<le> b"
proof (rule ccontr)
  assume "\<not> d \<le> b"
  then have "b < d" by simp
  then have b: "b \<noteq> CP_MAX" using le_CP_MAX [of d] by (metis leD)
  with \<open>b < d\<close> have "b + 1 \<le> d" by (simp add: word_less_nat_alt word_le_nat_alt unat_succ)
  moreover have "a \<le> b + 1"
    using 1 b by (simp add: canonical_Cons word_le_nat_alt unat_succ)
  ultimately have "b + 1 \<in> rset ((a, d) # qs)" by simp
  with eq canonical_next [OF 1 b] show False by simp
qed

lemma canonical_tail:
  "canonical ((a, b) # rs) \<Longrightarrow> rset rs = rset ((a, b) # rs) - {a..b}"
  using rset_after [of rs b] by (fastforce simp: canonical_Cons word_le_nat_alt)

lemma canonical_unique: "canonical rs \<Longrightarrow> canonical qs \<Longrightarrow> rset rs = rset qs \<Longrightarrow> rs = qs"
proof (induction rs arbitrary: qs)
  case Nil
  then show ?case by (cases qs) (auto simp: canonical_Cons)
next
  case (Cons r rs)
  obtain a b where r: "r = (a, b)" by (cases r)
  have "a \<in> rset (r # rs)" using Cons.prems(1) by (simp add: r canonical_Cons)
  with Cons.prems(3) have "qs \<noteq> []" by (metis equals0D rset_simps(1))
  then obtain c d ps where qs: "qs = (c, d) # ps" by (metis list.exhaust surj_pair)
  have can: "canonical ((a, b) # rs)" "canonical ((c, d) # ps)"
    and eq: "rset ((a, b) # rs) = rset ((c, d) # ps)"
    using Cons.prems by (simp_all add: r qs del: rset_simps)
  have "a \<in> rset ((a, b) # rs)" "c \<in> rset ((c, d) # ps)"
    using can by (simp_all add: canonical_Cons)
  then have "a \<in> rset ((c, d) # ps)" "c \<in> rset ((a, b) # rs)"
    using eq by blast+
  with can canonical_first have ac: "a = c" by (meson order_antisym)
  have bd: "b = d"
    using canonical_head_unique [of a b rs d ps] canonical_head_unique [of a d ps b rs] can eq
    unfolding ac by (simp add: order_antisym del: rset_simps)
  have "rset rs = rset ps"
    using canonical_tail [OF can(1)] canonical_tail [OF can(2)] eq by (simp only: ac bd)
  with Cons.IH can show ?case by (simp add: r qs ac bd canonical_Cons)
qed

lemma cs_ok_unique: "cs_ok s \<Longrightarrow> cs_ok t \<Longrightarrow> cs_set s = cs_set t \<Longrightarrow> s = t"
  using canonical_unique [of "ranges s" "ranges t"]
  by (simp add: cs_ok_def cs_set_def)

subsection \<open>The interface of a set of characters\<close>

text \<open>
  What the rest of the engine relies on: a Boolean algebra of sets of code points with decidable
  membership, in which two sets with the same members are the same value (they are the keys of a hash
  map in \<^verbatim>\<open>hir.rs\<close>).
\<close>

locale char_algebra =
  fixes inv :: "'s \<Rightarrow> bool" and denote :: "'s \<Rightarrow> u32 set" and isin :: "'s \<Rightarrow> u32 \<Rightarrow> bool"
    and empty :: 's and union :: "'s \<Rightarrow> 's \<Rightarrow> 's" and inter :: "'s \<Rightarrow> 's \<Rightarrow> 's" and compl :: "'s \<Rightarrow> 's"
  assumes inv_empty: "inv empty" and denote_empty: "denote empty = {}"
    and inv_union: "inv s \<Longrightarrow> inv t \<Longrightarrow> inv (union s t)"
    and denote_union: "inv s \<Longrightarrow> inv t \<Longrightarrow> denote (union s t) = denote s \<union> denote t"
    and inv_inter: "inv s \<Longrightarrow> inv t \<Longrightarrow> inv (inter s t)"
    and denote_inter: "inv s \<Longrightarrow> inv t \<Longrightarrow> denote (inter s t) = denote s \<inter> denote t"
    and inv_compl: "inv s \<Longrightarrow> inv (compl s)"
    and denote_compl: "inv s \<Longrightarrow> denote (compl s) = - denote s"
    and isin_iff: "inv s \<Longrightarrow> isin s c \<longleftrightarrow> c \<in> denote s"
    and ext: "inv s \<Longrightarrow> inv t \<Longrightarrow> denote s = denote t \<Longrightarrow> s = t"
begin

lemma compl_compl: "inv s \<Longrightarrow> compl (compl s) = s"
  by (rule ext) (simp_all add: inv_compl denote_compl)

lemma compl_union: "inv s \<Longrightarrow> inv t \<Longrightarrow> compl (union s t) = inter (compl s) (compl t)"
  by (rule ext) (simp_all add: inv_compl inv_union inv_inter denote_compl denote_union denote_inter)

lemma compl_inter: "inv s \<Longrightarrow> inv t \<Longrightarrow> compl (inter s t) = union (compl s) (compl t)"
  by (rule ext) (simp_all add: inv_compl inv_union inv_inter denote_compl denote_union denote_inter)

lemma union_commute: "inv s \<Longrightarrow> inv t \<Longrightarrow> union s t = union t s"
  by (rule ext) (auto simp: inv_union denote_union)

lemma inter_distrib:
  "inv s \<Longrightarrow> inv t \<Longrightarrow> inv r \<Longrightarrow> inter s (union t r) = union (inter s t) (inter s r)"
  by (rule ext) (auto simp: inv_union inv_inter denote_union denote_inter)

lemma diff_denote: "inv s \<Longrightarrow> inv t \<Longrightarrow> denote (inter s (compl t)) = denote s - denote t"
  by (auto simp: inv_compl denote_inter denote_compl)

lemma empty_iff: "inv s \<Longrightarrow> denote s = {} \<longleftrightarrow> s = empty"
  using ext [of s empty] by (auto simp: inv_empty denote_empty)

end

interpretation cs: char_algebra cs_ok cs_set contains cs_empty cs_union cs_intersect complement
proof unfold_locales
  show "s = t" if "cs_ok s" "cs_ok t" "cs_set s = cs_set t" for s t
    using that by (rule cs_ok_unique)
qed (simp_all add: cs_intersect_both contains_iff)

lemma cs_intersect_ok [simp]: "cs_ok s \<Longrightarrow> cs_ok t \<Longrightarrow> cs_ok (cs_intersect s t)"
  and cs_intersect_set [simp]: "cs_ok s \<Longrightarrow> cs_ok t \<Longrightarrow> cs_set (cs_intersect s t) = cs_set s \<inter> cs_set t"
  by (simp_all add: cs.inv_inter cs.denote_inter)

lemma cs_minus_ok [simp]: "cs_ok s \<Longrightarrow> cs_ok t \<Longrightarrow> cs_ok (cs_minus s t)"
  and cs_minus_set [simp]: "cs_ok s \<Longrightarrow> cs_ok t \<Longrightarrow> cs_set (cs_minus s t) = cs_set s - cs_set t"
  by (auto simp: cs_minus_def)

lemma cs_is_empty_iff: "cs_ok s \<Longrightarrow> cs_is_empty s \<longleftrightarrow> cs_set s = {}"
  by (simp add: cs.empty_iff) (auto simp: cs_is_empty_def cs_empty_def)

lemma intersects_iff: "cs_ok s \<Longrightarrow> cs_ok t \<Longrightarrow> intersects s t \<longleftrightarrow> cs_set s \<inter> cs_set t \<noteq> {}"
  by (simp add: intersects_def cs_is_empty_iff)

lemma is_all_iff: "cs_ok s \<Longrightarrow> is_all s \<longleftrightarrow> cs_set s = UNIV"
proof -
  assume "cs_ok s"
  have "is_all s \<longleftrightarrow> s = cs_all"
    by (cases s) (auto simp: is_all_def cs_all_def length_Suc_conv)
  also have "\<dots> \<longleftrightarrow> cs_set s = UNIV"
    using cs.ext [OF \<open>cs_ok s\<close> cs_all_ok] by auto
  finally show ?thesis .
qed

subsection \<open>Counting and listing\<close>

lemma distinct_upto_incl: "distinct (upto_incl a b)"
proof -
  have "inj_on (word_of_nat :: nat \<Rightarrow> u32) {unat a..<Suc (unat b)}"
  proof (rule inj_onI)
    fix x y assume "x \<in> {unat a..<Suc (unat b)}" "y \<in> {unat a..<Suc (unat b)}"
      and eq: "(word_of_nat x :: u32) = word_of_nat y"
    then have "x < 4294967296" "y < 4294967296" using u32_lt [of b] by auto
    then have "unat (word_of_nat x :: u32) = x" "unat (word_of_nat y :: u32) = y"
      by (simp_all add: unat_of_nat)
    with eq show "x = y" by metis
  qed
  then show ?thesis by (simp add: upto_incl_def distinct_map del: upt_Suc)
qed

lemma card_interval: "a \<le> b \<Longrightarrow> card {a..b} = unat (b - a) + 1" for a b :: u32
proof -
  assume "a \<le> b"
  have "card {a..b} = length (upto_incl a b)"
    using distinct_card [OF distinct_upto_incl, of a b] by simp
  also have "\<dots> = unat b + 1 - unat a" by (simp add: upto_incl_def del: upt_Suc)
  also have "\<dots> = unat (b - a) + 1"
    using \<open>a \<le> b\<close> by (simp add: unat_sub word_le_nat_alt Suc_diff_le)
  finally show ?thesis .
qed

lemma finite_rset [simp]: "finite (rset rs)"
  by (simp add: rset_def)

lemma count_canonical: "canonical rs \<Longrightarrow> sum_list (map (\<lambda>(a, b). unat (b - a) + 1) rs) = card (rset rs)"
proof (induction rs)
  case (Cons r rs)
  obtain a b where r: "r = (a, b)" by (cases r)
  have "{a..b} \<inter> rset rs = {}"
    using Cons.prems rset_after [of rs b] by (fastforce simp: r canonical_Cons word_le_nat_alt)
  then have "card (rset (r # rs)) = card {a..b} + card (rset rs)"
    by (simp add: r card_Un_disjoint)
  with Cons card_interval [of a b] show ?case by (simp add: r canonical_Cons)
qed simp

lemma cs_count_card: "cs_ok s \<Longrightarrow> cs_count s = card (cs_set s)"
  unfolding cs_count_def cs_ok_def cs_set_def by (rule count_canonical)

lemma cs_count_bound: "cs_ok s \<Longrightarrow> cs_count s \<le> 2 ^ 32"
proof -
  assume "cs_ok s"
  have "card (cs_set s) \<le> card (UNIV :: u32 set)" by (rule card_mono) auto
  also have "\<dots> = 2 ^ 32" by (simp add: card_word)
  finally show ?thesis by (simp add: cs_count_card \<open>cs_ok s\<close>)
qed

lemma set_range_chars [simp]: "set (range_chars s) = cs_set s"
  by (auto simp: range_chars_def cs_set_def rset_def)

lemma chars_upto_Some: "cs_ok s \<Longrightarrow> chars_upto s n = Some cs \<longleftrightarrow> card (cs_set s) \<le> n \<and> cs = range_chars s"
  by (auto simp: chars_upto_def range_chars_def cs_count_card)

lemma single_iff: "cs_ok s \<Longrightarrow> single s = Some c \<longleftrightarrow> cs_set s = {c}"
proof -
  assume ok: "cs_ok s"
  have "single s = Some c \<longleftrightarrow> s = cs_one c"
    by (cases s) (auto simp: single_def cs_one_def split: list.splits)
  also have "\<dots> \<longleftrightarrow> cs_set s = {c}"
    using cs.ext [OF ok cs_one_ok, of c] by auto
  finally show ?thesis .
qed

subsection \<open>The ASCII part as a mask\<close>

lemma bit_or_fold:
  "bit (foldl (\<lambda>m c. m OR push_bit (unat c) 1) (m :: u128) cs) n \<longleftrightarrow>
     bit m n \<or> n < 128 \<and> (\<exists>c \<in> set cs. unat (c :: u32) = n)"
proof (induction cs arbitrary: m)
  case (Cons c cs)
  have "bit (m OR push_bit (unat c) 1) n \<longleftrightarrow> bit m n \<or> n < 128 \<and> unat c = n"
    by (auto simp: bit_or_iff bit_exp_iff)
  then show ?case unfolding foldl_Cons Cons.IH by auto
qed simp

lemma ascii_mask_loop_bit:
  "canonical rs \<Longrightarrow> n < 128 \<Longrightarrow>
   bit (ascii_mask_loop rs m) n \<longleftrightarrow> bit m n \<or> word_of_nat n \<in> rset rs"
proof (induction rs arbitrary: m)
  case (Cons r rs)
  obtain a b where r: "r = (a, b)" by (cases r)
  let ?w = "word_of_nat n :: u32"
  have w: "unat ?w = n" using Cons.prems by (simp add: unat_of_nat)
  have can: "canonical rs" and gaps: "\<forall>(c, d) \<in> set rs. unat b + 1 < unat c" and "a \<le> b"
    using Cons.prems by (auto simp: r canonical_Cons)
  show ?case
  proof (cases "a \<ge> 128")
    case True
    then have "?w \<notin> {a..b}" and "?w \<notin> rset rs"
      using rset_after [OF gaps, of ?w] w Cons.prems \<open>a \<le> b\<close>
      by (auto simp: word_le_nat_alt)
    with True show ?thesis by (auto simp: r)
  next
    case False
    have "(\<exists>c \<in> {a..min b 127}. unat c = n) \<longleftrightarrow> ?w \<in> {a..b}"
      using w Cons.prems by (auto simp: word_le_nat_alt min_def intro!: bexI [of _ ?w])
    then have "bit (foldl (\<lambda>m c. m OR push_bit (unat c) 1) m (upto_incl a (min b 127))) n
        \<longleftrightarrow> bit m n \<or> ?w \<in> {a..b}"
      using Cons.prems(2) by (simp only: bit_or_fold set_upto_incl simp_thms)
    with False show ?thesis
      by (simp only: r ascii_mask_loop.simps if_False Cons.IH [OF can Cons.prems(2)] rset_simps Un_iff disj_assoc)
  qed
qed simp

lemma ascii_mask_iff: "cs_ok s \<Longrightarrow> c < 128 \<Longrightarrow> bit (ascii_mask s) (unat c) \<longleftrightarrow> c \<in> cs_set s"
  using ascii_mask_loop_bit [of "ranges s" "unat c" 0]
  by (simp add: ascii_mask_def cs_ok_def cs_set_def word_less_nat_alt)

lemma has_non_ascii_iff: "cs_ok s \<Longrightarrow> has_non_ascii s \<longleftrightarrow> (\<exists>c \<in> cs_set s. 128 \<le> c)"
proof (cases "ranges s" rule: rev_cases)
  case Nil
  then show ?thesis by (simp add: has_non_ascii_def cs_set_def)
next
  case (snoc rs r)
  assume "cs_ok s"
  obtain a b where r: "r = (a, b)" by (cases r)
  have can: "a \<le> b" "\<forall>x \<in> set rs. gap x (a, b)"
    using \<open>cs_ok s\<close> by (auto simp: cs_ok_def snoc r canonical_append)
  have top: "c \<le> b" if "c \<in> cs_set s" for c
    using that can by (fastforce simp: cs_set_def snoc r rset_def gap_def word_le_nat_alt)
  have "b \<in> cs_set s" using can by (simp add: cs_set_def snoc r)
  moreover have "has_non_ascii s \<longleftrightarrow> 128 \<le> b" by (simp add: has_non_ascii_def snoc r)
  ultimately show ?thesis using top by (meson order_trans)
qed


subsection \<open>Categories\<close>

lemma prop_ranges_iff:
  assumes "sorted_wrt (<) (map fst runs)" and "\<forall>(s, _) \<in> set runs. s \<le> 0x10FFFF" and "runs \<noteq> []"
  shows "c \<in> rset (prop_ranges flag runs) \<longleftrightarrow>
    128 \<le> c \<and> c \<le> 0x10FFFF \<and> fst (hd runs) \<le> c
    \<and> snd (runs ! (partition_point (\<lambda>(s, _). s \<le> c) runs - 1)) AND flag \<noteq> 0"
  using assms
proof (induction runs)
  case (Cons r rest)
  obtain s bits where r: "r = (s, bits)" by (cases r)
  show ?case
  proof (cases rest)
    case Nil
    then show ?thesis
      using Cons.prems(2) by (auto simp: r partition_point_def Let_def max_def split: if_splits)
  next
    case (Cons q rest')
    obtain n bits' where q: "q = (n, bits')" by (cases q)
    have sn: "s < n" and n: "n \<le> 0x10FFFF"
      using Cons.prems by (auto simp: r q Cons)
    have IH: "c \<in> rset (prop_ranges flag rest) \<longleftrightarrow>
      128 \<le> c \<and> c \<le> 0x10FFFF \<and> n \<le> c
      \<and> snd (rest ! (partition_point (\<lambda>(s, _). s \<le> c) rest - 1)) AND flag \<noteq> 0"
      using Cons.IH Cons.prems by (simp add: Cons q r)
    let ?head = "let run_end = n - 1; a = max s 128; b = min run_end 0x10FFFF
      in if a > b then [] else if bits AND flag \<noteq> 0 then [(a, b)] else []"
    have unfold: "rset (prop_ranges flag (r # rest)) = rset ?head \<union> rset (prop_ranges flag rest)"
      by (simp add: r Cons q Let_def del: rset_simps) (simp add: Let_def)
    have le: "c \<le> n - 1 \<longleftrightarrow> c < n"
      using unat_pred [OF sn] sn by (auto simp: word_le_nat_alt word_less_nat_alt)
    have top: "min (n - 1) 0x10FFFF = n - 1"
    proof (rule min_absorb1)
      have "unat (n - 1) \<le> unat n" using unat_pred [OF sn] by simp
      with n show "n - 1 \<le> 0x10FFFF" by (metis order_trans word_le_nat_alt)
    qed
    have head: "c \<in> rset ?head \<longleftrightarrow> 128 \<le> c \<and> s \<le> c \<and> c < n \<and> bits AND flag \<noteq> 0"
      using le by (auto simp: Let_def top max_def split: if_splits)
    show ?thesis
    proof (cases "n \<le> c")
      case True
      let ?k = "partition_point (\<lambda>(s, _). s \<le> c) rest"
      have sc: "s \<le> c" using sn True by simp
      then have pp: "partition_point (\<lambda>(s, _). s \<le> c) (r # rest) = Suc ?k"
        by (simp add: r partition_point_def)
      have "0 < ?k" using True by (simp add: Cons q partition_point_def)
      then have nth: "(r # rest) ! (Suc ?k - 1) = rest ! (?k - 1)" by (simp add: nth_Cons')
      have "c \<notin> rset ?head" using head True by (simp only: not_less [symmetric] simp_thms)
      then show ?thesis
        unfolding unfold Un_iff IH pp nth using True sc by (simp add: r)
    next
      case False
      have "c < n" using False by simp
      then have le: "c \<le> 0x10FFFF" using n by simp
      show ?thesis
      proof (cases "s \<le> c")
        case True
        then have pp: "partition_point (\<lambda>(s, _). s \<le> c) (r # rest) = 1"
          using False by (simp add: r Cons q partition_point_def)
        show ?thesis
          unfolding unfold Un_iff IH pp head using False \<open>c < n\<close> le True by (simp add: r)
      next
        case no: False
        then show ?thesis unfolding unfold Un_iff IH head using False by (simp add: r)
      qed
    qed
  qed
qed simp

lemma props_runs_iff:
  assumes "unidata_ok u"
  shows "c \<in> rset (prop_ranges flag (t_PROPS u)) \<longleftrightarrow> 128 \<le> c \<and> props u c AND flag \<noteq> 0"
proof -
  have ok: "sorted_wrt (<) (map fst (t_PROPS u))" "\<forall>(s, _) \<in> set (t_PROPS u). s \<le> 0x10FFFF"
    "t_PROPS u \<noteq> []" and hd: "fst (hd (t_PROPS u)) = 0"
    using assms by (auto simp: unidata_ok_def list_all_iff)
  then have "0 < partition_point (\<lambda>(s, _). s \<le> c) (t_PROPS u)"
    by (cases "t_PROPS u") (auto simp: partition_point_def)
  then show ?thesis
    by (auto simp: prop_ranges_iff [OF ok] hd props_def props_slow_def Let_def)
qed

lemma ascii_ranges_iff: "c \<in> rset (ascii_ranges P) \<longleftrightarrow> c < 128 \<and> P c"
proof -
  have "c \<le> 127 \<longleftrightarrow> c < 128" by (simp add: word_le_nat_alt word_less_nat_alt) linarith
  then show ?thesis by (auto simp: ascii_ranges_def)
qed

lemma tables_ok [simp]:
  "cs_ok (tab_word (tables u))" "cs_ok (tab_digit (tables u))" "cs_ok (tab_space (tables u))"
  "cs_ok (lower_dom (tables u))" "cs_ok (upper_dom (tables u))" "cs_ok (tab_cased (tables u))"
  by (simp_all add: tables_def Let_def)

lemma dom_sets [simp]:
  "cs_set (lower_dom (tables u)) = fst ` set (t_LOWER u)"
  "cs_set (upper_dom (tables u)) = fst ` set (t_UPPER u)"
  "cs_set (tab_cased (tables u)) = fst ` set (t_LOWER u) \<union> fst ` set (t_UPPER u)"
  by (simp_all add: tables_def Let_def)

lemma table_sets:
  assumes "unidata_ok u"
  shows "c \<in> cs_set (tab_word (tables u)) \<longleftrightarrow> is_word u c"
    and "c \<in> cs_set (tab_digit (tables u)) \<longleftrightarrow> is_decimal u c"
    and "c \<in> cs_set (tab_space (tables u)) \<longleftrightarrow> is_space u c"
  by (auto simp: tables_def Let_def ascii_ranges_iff props_runs_iff [OF assms]
        is_word_def is_decimal_def is_space_def not_less)

text \<open>What a category accepts, as Python's documentation has it.\<close>

definition digit_char :: "unidata \<Rightarrow> bool \<Rightarrow> u32 \<Rightarrow> bool" where
  "digit_char u ascii c = (if ascii then 0x30 \<le> c \<and> c \<le> 0x39 else is_decimal u c)"

definition space_char :: "unidata \<Rightarrow> bool \<Rightarrow> u32 \<Rightarrow> bool" where
  "space_char u ascii c = (if ascii then 0x09 \<le> c \<and> c \<le> 0x0D \<or> c = 0x20 else is_space u c)"

definition word_char :: "unidata \<Rightarrow> bool \<Rightarrow> u32 \<Rightarrow> bool" where
  "word_char u ascii c = (if ascii then is_ascii_alphanumeric c \<or> c = 0x5F else is_word u c)"

fun category_accepts :: "unidata \<Rightarrow> bool \<Rightarrow> category \<Rightarrow> u32 \<Rightarrow> bool" where
  "category_accepts u ascii Digit c = digit_char u ascii c"
| "category_accepts u ascii Space c = space_char u ascii c"
| "category_accepts u ascii Word c = word_char u ascii c"
| "category_accepts u ascii NotDigit c = (\<not> digit_char u ascii c)"
| "category_accepts u ascii NotSpace c = (\<not> space_char u ascii c)"
| "category_accepts u ascii NotWord c = (\<not> word_char u ascii c)"

lemma ascii_word_iff: "c \<in> cs_set ascii_word \<longleftrightarrow> is_ascii_alphanumeric c \<or> c = 0x5F"
  by (auto simp: ascii_word_def is_ascii_alphanumeric_def)

lemma ascii_word_ok [simp]: "cs_ok ascii_word"
  by (simp add: ascii_word_def)

lemma category_set_ok [simp]: "cs_ok (category_set u k ascii)"
  by (simp add: category_set_def Let_def)

lemma category_set_iff:
  "unidata_ok u \<Longrightarrow> c \<in> cs_set (category_set u k ascii) \<longleftrightarrow> category_accepts u ascii k c"
  by (cases k)
    (auto simp: category_set_def Let_def table_sets ascii_word_iff ascii_word_ok
      digit_char_def space_char_def word_char_def)


subsection \<open>Folding\<close>

lemma fold_dom_ok [simp]: "cs_ok (fold_dom u f)"
  by (cases f) (simp_all add: fold_dom_def)

lemma lower_of_outside: "unidata_ok u \<Longrightarrow> c \<notin> cs_set (fold_dom u f) \<Longrightarrow> lower_of u c f = c"
  by (cases f) (auto simp: fold_dom_def lower_of_def sre_lower_outside)

lemma by_lower_ok [simp]: "cs_ok (by_lower u q f)"
  by (simp add: by_lower_def Let_def)

lemma by_lower_iff:
  assumes "unidata_ok u" and "cs_ok q"
  shows "c \<in> cs_set (by_lower u q f) \<longleftrightarrow> lower_of u c f \<in> cs_set q"
proof -
  have "c \<in> cs_set (by_lower u q f) \<longleftrightarrow>
    c \<in> cs_set (cs_minus q (fold_dom u f)) \<or> contains q (lower_of u c f) \<and> c \<in> cs_set (fold_dom u f)"
    by (auto simp: by_lower_def Let_def cs_set_def [of "cs_minus q (fold_dom u f)"])
  then show ?thesis
    using assms lower_of_outside [OF assms(1), of c f] by (auto simp: contains_iff)
qed

text \<open>What a literal accepts: itself, or under folding whatever lowercases like it or like one of \<^verbatim>\<open>re\<close>'s extra equivalents.\<close>

definition same_fold :: "unidata \<Rightarrow> fold \<Rightarrow> u32 \<Rightarrow> u32 \<Rightarrow> bool" where
  "same_fold u f d lo \<longleftrightarrow> lo = lower_of u d f \<or> lo \<in> set (fixes_of u (lower_of u d f) f)"

definition literal_accepts :: "unidata \<Rightarrow> fold \<Rightarrow> u32 \<Rightarrow> u32 \<Rightarrow> bool" where
  "literal_accepts u f d c =
     (if f = NoFold \<or> \<not> is_cased u d f then c = d else same_fold u f d (lower_of u c f))"

lemma literal_set_ok [simp]: "cs_ok (literal_set u d negated f)"
  by (simp add: literal_set_def Let_def)

lemma literal_set_iff:
  "unidata_ok u \<Longrightarrow> c \<in> cs_set (literal_set u d negated f) \<longleftrightarrow> literal_accepts u f d c \<noteq> negated"
  by (auto simp: literal_set_def Let_def literal_accepts_def same_fold_def by_lower_iff)

text \<open>A class compared as written.\<close>

fun item_plain :: "unidata \<Rightarrow> bool \<Rightarrow> class_item \<Rightarrow> u32 \<Rightarrow> bool" where
  "item_plain u ascii (CLit d) c = (c = d)"
| "item_plain u ascii (CRange a b) c = (a \<le> c \<and> c \<le> b)"
| "item_plain u ascii (CCat k) c = category_accepts u ascii k c"

lemma class_cats_ok: "cs_ok cats \<Longrightarrow> cs_ok (class_cats u ascii cats items)"
  by (induction u ascii cats items rule: class_cats.induct) auto

lemma class_cats_iff:
  assumes "unidata_ok u"
  shows "c \<in> cs_set (class_cats u ascii cats items) \<longleftrightarrow>
    c \<in> cs_set cats \<or> (\<exists>k. CCat k \<in> set items \<and> category_accepts u ascii k c)"
proof (induction items arbitrary: cats)
  case (Cons i items)
  then show ?case by (cases i) (auto simp: category_set_iff [OF assms])
qed simp

lemma plain_ranges_iff:
  "c \<in> rset (plain_ranges items) \<longleftrightarrow>
     CLit c \<in> set items \<or> (\<exists>a b. CRange a b \<in> set items \<and> a \<le> c \<and> c \<le> b)"
  by (induction items rule: plain_ranges.induct) auto

lemma plain_class_ok [simp]: "cs_ok (plain_class u items ascii)"
  by (simp add: plain_class_def)

lemma bex_items:
  "(\<exists>i \<in> set items. P i) \<longleftrightarrow>
     (\<exists>d. CLit d \<in> set items \<and> P (CLit d)) \<or> (\<exists>a b. CRange a b \<in> set items \<and> P (CRange a b))
     \<or> (\<exists>k. CCat k \<in> set items \<and> P (CCat k))"
  by (metis class_item.exhaust)

lemma plain_class_iff:
  "unidata_ok u \<Longrightarrow> c \<in> cs_set (plain_class u items ascii) \<longleftrightarrow> (\<exists>i \<in> set items. item_plain u ascii i c)"
  by (auto simp: plain_class_def class_cats_iff plain_ranges_iff bex_items)

text \<open>A class under folding: whether an item is cased, and what the lowercased text character is tested against.\<close>

fun item_cased :: "unidata \<Rightarrow> fold \<Rightarrow> class_item \<Rightarrow> bool" where
  "item_cased u f (CLit d) = is_cased u d f"
| "item_cased u f (CRange a b) = (BMP \<le> b \<or> (\<exists>d \<in> {a..b}. is_cased u d f))"
| "item_cased u f (CCat k) = False"

fun item_folded :: "unidata \<Rightarrow> fold \<Rightarrow> bool \<Rightarrow> class_item \<Rightarrow> u32 \<Rightarrow> bool" where
  "item_folded u f ascii (CLit d) lo = same_fold u f d lo"
| "item_folded u f ascii (CRange a b) lo =
     ((\<exists>d \<in> {a..b}. d < BMP \<and> same_fold u f d lo) \<or>
      BMP \<le> b \<and> (a \<le> lo \<and> lo \<le> b \<or> f \<noteq> AsciiFold \<and> a \<le> sre_upper u lo \<and> sre_upper u lo \<le> b))"
| "item_folded u f ascii (CCat k) lo = category_accepts u ascii k lo"

lemma cased_set_ok [simp]: "cs_ok (cased_set u f)"
  by (cases f) (simp_all add: cased_set_def)

lemma cased_set_iff: "unidata_ok u \<Longrightarrow> c \<in> cs_set (cased_set u f) \<longleftrightarrow> is_cased u c f"
  by (cases f) (auto simp: cased_set_def is_cased_def sre_iscased_iff)

lemma le_BMP_pred: "c \<le> BMP - 1 \<longleftrightarrow> c < BMP"
  by (simp add: BMP_def word_le_nat_alt word_less_nat_alt) linarith

text \<open>The state after the loop over the items.\<close>

lemma range_lowered_set:
  assumes "unidata_ok u"
  shows "rset (range_lowered u f a b) = (\<lambda>d. lower_of u d f) ` {d \<in> {a..b}. d < BMP}"
proof -
  let ?part = "cs_range a (min b (BMP - 1))" and ?dom = "fold_dom u f"
  have part: "cs_set ?part = {d \<in> {a..b}. d < BMP}" by (auto simp: le_BMP_pred)
  show ?thesis
  proof (cases "a \<le> min b (BMP - 1)")
    case True
    then have "rset (range_lowered u f a b) =
      (cs_set ?part - cs_set ?dom) \<union> (\<lambda>d. lower_of u d f) ` (cs_set ?part \<inter> cs_set ?dom)"
      by (simp add: range_lowered_def Let_def cs_set_def [of "cs_minus ?part ?dom", symmetric]
          del: cs_range_set map_map)
    also have "\<dots> = (\<lambda>d. lower_of u d f) ` cs_set ?part"
      using lower_of_outside [OF assms] by force
    finally show ?thesis unfolding part .
  next
    case False
    then have "{d \<in> {a..b}. d < BMP} = {}" by (auto simp: le_BMP_pred [symmetric])
    moreover from False have "range_lowered u f a b = []"
      by (simp only: range_lowered_def Let_def if_False)
    ultimately show ?thesis by simp
  qed
qed

fun item_lowered :: "unidata \<Rightarrow> fold \<Rightarrow> class_item \<Rightarrow> u32 set" where
  "item_lowered u f (CLit d) = {lower_of u d f}"
| "item_lowered u f (CRange a b) = (\<lambda>d. lower_of u d f) ` {d \<in> {a..b}. d < BMP}"
| "item_lowered u f (CCat k) = {}"

lemma fold_item_state:
  assumes "unidata_ok u"
  shows "hascased (fold_item u f ascii st i) \<longleftrightarrow> hascased st \<or> item_cased u f i"
    and "rset (lowered (fold_item u f ascii st i)) = rset (lowered st) \<union> item_lowered u f i"
    and "set (as_written (fold_item u f ascii st i)) =
      set (as_written st) \<union> {(a, b). i = CRange a b \<and> BMP \<le> b \<and> f = AsciiFold}"
    and "set (astral_ranges (fold_item u f ascii st i)) =
      set (astral_ranges st) \<union> {(a, b). i = CRange a b \<and> BMP \<le> b \<and> f \<noteq> AsciiFold}"
    and "cs_set (fs_cats (fold_item u f ascii st i)) =
      cs_set (fs_cats st) \<union> {c. \<exists>k. i = CCat k \<and> category_accepts u ascii k c}"
  using assms
  by (cases i; auto simp: Let_def range_lowered_set intersects_iff cased_set_iff category_set_iff)+

lemma foldl_fold_item:
  fixes f ascii
  assumes "unidata_ok u"
  defines "run \<equiv> \<lambda>st items. foldl (fold_item u f ascii) st items"
  shows "hascased (run st items) \<longleftrightarrow> hascased st \<or> (\<exists>i \<in> set items. item_cased u f i)"
    and "rset (lowered (run st items)) = rset (lowered st) \<union> (\<Union>i \<in> set items. item_lowered u f i)"
    and "set (as_written (run st items)) =
      set (as_written st) \<union> {(a, b). CRange a b \<in> set items \<and> BMP \<le> b \<and> f = AsciiFold}"
    and "set (astral_ranges (run st items)) =
      set (astral_ranges st) \<union> {(a, b). CRange a b \<in> set items \<and> BMP \<le> b \<and> f \<noteq> AsciiFold}"
    and "cs_set (fs_cats (run st items)) =
      cs_set (fs_cats st) \<union> {c. \<exists>k. CCat k \<in> set items \<and> category_accepts u ascii k c}"
  unfolding run_def
  by (induction items arbitrary: st; auto simp: fold_item_state [OF assms(1)])+

lemma astral_set_ok [simp]: "cs_ok (astral_set u r)"
  by (cases r) (simp add: astral_set_def)

lemma astral_set_iff:
  "unidata_ok u \<Longrightarrow> c \<in> cs_set (astral_set u (a, b)) \<longleftrightarrow>
     a \<le> c \<and> c \<le> b \<or> a \<le> sre_upper u c \<and> sre_upper u c \<le> b"
  using sre_upper_outside [of u c] by (auto simp: astral_set_def)

lemma foldl_astral:
  "cs_ok q \<Longrightarrow> cs_ok (foldl (\<lambda>q r. cs_union q (astral_set u r)) q rs)
   \<and> cs_set (foldl (\<lambda>q r. cs_union q (astral_set u r)) q rs) = cs_set q \<union> (\<Union>r \<in> set rs. cs_set (astral_set u r))"
  by (induction rs arbitrary: q) auto

lemma extra_ranges_iff:
  assumes "unidata_ok u" and "cs_ok low"
  shows "c \<in> rset (extra_ranges u low) \<longleftrightarrow> (\<exists>k \<in> cs_set low. c \<in> set (fixes_of u k UnicodeFold))"
proof -
  have "distinct (map fst (t_CASE_FIXES u))"
    using assms(1) by (simp add: unidata_ok_def strict_sorted_iff)
  then have "c \<in> set (fixes_of u k UnicodeFold) \<longleftrightarrow> (\<exists>others. (k, others) \<in> set (t_CASE_FIXES u) \<and> c \<in> set others)" for k
    by (auto simp: fixes_of_def case_fixes_def lookup_def dest: map_of_SomeD split: option.splits)
  moreover have "c \<in> rset (extra_ranges u low) \<longleftrightarrow>
    (\<exists>(k, others) \<in> set (t_CASE_FIXES u). contains low k \<and> c \<in> set others)"
    by (force simp: extra_ranges_def rset_def)
  ultimately show ?thesis using assms(2) by (auto simp: contains_iff)
qed


lemma lowered_fixes:
  "(\<exists>k \<in> (\<Union>i \<in> set items. item_lowered u f i). lo = k \<or> lo \<in> set (fixes_of u k f)) \<longleftrightarrow>
   (\<exists>d. CLit d \<in> set items \<and> same_fold u f d lo) \<or>
   (\<exists>a b. CRange a b \<in> set items \<and> (\<exists>d \<in> {a..b}. d < BMP \<and> same_fold u f d lo))"
proof -
  let ?R = "\<lambda>k. lo = k \<or> lo \<in> set (fixes_of u k f)"
  have "(\<exists>k \<in> (\<Union>i \<in> set items. item_lowered u f i). ?R k) \<longleftrightarrow>
    (\<exists>i \<in> set items. \<exists>k \<in> item_lowered u f i. ?R k)" by blast
  also have "\<dots> \<longleftrightarrow> (\<exists>d. CLit d \<in> set items \<and> same_fold u f d lo) \<or>
   (\<exists>a b. CRange a b \<in> set items \<and> (\<exists>d \<in> {a..b}. d < BMP \<and> same_fold u f d lo))"
    unfolding bex_items [of items "\<lambda>i. \<exists>k \<in> item_lowered u f i. ?R k"]
    by (simp add: same_fold_def Bex_def conj_assoc)
  finally show ?thesis .
qed

lemma fold_class_ok [simp]: "cs_ok (fold_class u items f ascii)"
  by (simp add: fold_class_def Let_def)

lemma fold_class_iff:
  assumes u: "unidata_ok u" and f: "f \<noteq> NoFold"
  shows "c \<in> cs_set (fold_class u items f ascii) \<longleftrightarrow>
    (if \<exists>i \<in> set items. item_cased u f i
     then \<exists>i \<in> set items. item_folded u f ascii i (lower_of u c f)
     else \<exists>i \<in> set items. item_plain u ascii i c)"
proof -
  let ?init = "\<lparr>hascased = False, lowered = [], as_written = [], fs_cats = cs_empty, astral_ranges = []\<rparr>"
  define st where "st = foldl (fold_item u f ascii) ?init items"
  note st_facts = foldl_fold_item [OF u, of f ascii ?init items, folded st_def]
  define low where "low = from_ranges (lowered st)"
  define low' where "low' = (if f = UnicodeFold then cs_union low (from_ranges (extra_ranges u low)) else low)"
  define q where "q = cs_union (cs_union low' (from_ranges (as_written st))) (fs_cats st)"
  define q' where "q' = foldl (\<lambda>q r. cs_union q (astral_set u r)) q (astral_ranges st)"
  have fc: "fold_class u items f ascii = (if hascased st then by_lower u q' f else plain_class u items ascii)"
    by (simp add: fold_class_def st_def low_def low'_def q_def q'_def Let_def)
  have low: "cs_ok low" "cs_set low = (\<Union>i \<in> set items. item_lowered u f i)"
    using st_facts(2) by (simp_all add: low_def)
  have fixes_only: "f \<noteq> UnicodeFold \<Longrightarrow> fixes_of u k f = []" for k
    using f by (cases f) (simp_all add: fixes_of_def)
  have low': "cs_ok low'" "lo \<in> cs_set low' \<longleftrightarrow> (\<exists>k \<in> cs_set low. lo = k \<or> lo \<in> set (fixes_of u k f))" for lo
    using low(1) extra_ranges_iff [OF u low(1)] by (auto simp: low'_def fixes_only)
  have q': "cs_ok q'" "lo \<in> cs_set q' \<longleftrightarrow> (\<exists>i \<in> set items. item_folded u f ascii i lo)" for lo
  proof -
    have "cs_ok q" by (simp add: q_def)
    from foldl_astral [OF this] show "cs_ok q'" by (simp add: q'_def)
    have "lo \<in> cs_set q' \<longleftrightarrow> lo \<in> cs_set low' \<or> lo \<in> rset (as_written st) \<or> lo \<in> cs_set (fs_cats st)
      \<or> (\<exists>r \<in> set (astral_ranges st). lo \<in> cs_set (astral_set u r))"
      using foldl_astral [OF \<open>cs_ok q\<close>, of u "astral_ranges st"] by (auto simp: q'_def q_def)
    moreover have "lo \<in> rset (as_written st) \<longleftrightarrow>
      (\<exists>a b. CRange a b \<in> set items \<and> BMP \<le> b \<and> f = AsciiFold \<and> a \<le> lo \<and> lo \<le> b)"
      using st_facts(3) by (auto simp: rset_def)
    moreover have "lo \<in> cs_set (fs_cats st) \<longleftrightarrow> (\<exists>k. CCat k \<in> set items \<and> category_accepts u ascii k lo)"
      using st_facts(5) by simp
    moreover have "(\<exists>r \<in> set (astral_ranges st). lo \<in> cs_set (astral_set u r)) \<longleftrightarrow>
      (\<exists>a b. CRange a b \<in> set items \<and> BMP \<le> b \<and> f \<noteq> AsciiFold \<and>
        (a \<le> lo \<and> lo \<le> b \<or> a \<le> sre_upper u lo \<and> sre_upper u lo \<le> b))"
      using st_facts(4) by (auto simp: astral_set_iff [OF u])
    ultimately show "lo \<in> cs_set q' \<longleftrightarrow> (\<exists>i \<in> set items. item_folded u f ascii i lo)"
      unfolding bex_items low' low(2) lowered_fixes by (simp only: item_folded.simps) blast
  qed
  show ?thesis
    using st_facts(1) q' by (simp add: fc by_lower_iff [OF u] plain_class_iff [OF u])
qed

definition class_accepts :: "unidata \<Rightarrow> fold \<Rightarrow> bool \<Rightarrow> class_item list \<Rightarrow> u32 \<Rightarrow> bool" where
  "class_accepts u f ascii items c \<longleftrightarrow>
     (if f \<noteq> NoFold \<and> (\<exists>i \<in> set items. item_cased u f i)
      then \<exists>i \<in> set items. item_folded u f ascii i (lower_of u c f)
      else \<exists>i \<in> set items. item_plain u ascii i c)"

lemma class_set_ok [simp]: "cs_ok (class_set u items negated f ascii)"
  by (simp add: class_set_def Let_def)

lemma class_set_iff:
  "unidata_ok u \<Longrightarrow>
   c \<in> cs_set (class_set u items negated f ascii) \<longleftrightarrow> class_accepts u f ascii items c \<noteq> negated"
  by (auto simp: class_set_def Let_def class_accepts_def plain_class_iff fold_class_iff)

lemma any_set_ok [simp]: "cs_ok (any_set dotall)"
  and any_set_iff: "c \<in> cs_set (any_set dotall) \<longleftrightarrow> dotall \<or> c \<noteq> 0x0A"
  by (simp_all add: any_set_def)

section \<open>Properties\<close>

text \<open>
  C21: \<^verbatim>\<open>CharSet::from_ranges\<close> of any list of ranges (unsorted, overlapping, adjacent or empty ones
  included) is in canonical form (sorted, disjoint, not adjacent, none empty) and accepts exactly the
  characters of the ranges.
\<close>

theorem from_ranges_exact:
  "cs_ok (from_ranges v) \<and>
   (contains (from_ranges v) c \<longleftrightarrow> (\<exists>a b. (a, b) \<in> set v \<and> a \<le> c \<and> c \<le> b))"
  by (fastforce simp: contains_iff rset_def)

text \<open>
  C7: On canonical sets the operations of \<^verbatim>\<open>CharSet\<close> keep the canonical form and are the Boolean ones:
  membership, decided by the ASCII scan or the binary search of \<^verbatim>\<open>contains\<close>, in a complement, union,
  intersection or difference is the negation, disjunction, conjunction or difference of memberships,
  and \<^verbatim>\<open>intersects\<close> says whether a character is in both.
\<close>

theorem set_operations_exact:
  assumes "cs_ok s" and "cs_ok t"
  shows "cs_ok (complement s) \<and> cs_ok (cs_union s t) \<and> cs_ok (cs_intersect s t) \<and> cs_ok (cs_minus s t) \<and>
    (contains (complement s) c \<longleftrightarrow> \<not> contains s c) \<and>
    (contains (cs_union s t) c \<longleftrightarrow> contains s c \<or> contains t c) \<and>
    (contains (cs_intersect s t) c \<longleftrightarrow> contains s c \<and> contains t c) \<and>
    (contains (cs_minus s t) c \<longleftrightarrow> contains s c \<and> \<not> contains t c) \<and>
    (intersects s t \<longleftrightarrow> (\<exists>d. contains s d \<and> contains t d))"
  using assms by (auto simp: contains_iff intersects_iff)

theorem set_operations_exact_witness:
  "contains (complement (from_ranges [(0x41, 0x5A), (0x30, 0x39)])) 0x61 \<and>
   contains (cs_minus (from_ranges [(0x41, 0x5A), (0x30, 0x39)]) (cs_one 0x42)) 0x41"
  using set_operations_exact [of "from_ranges [(0x41, 0x5A), (0x30, 0x39)]" "cs_one 0x42", where c = "0x61"]
    set_operations_exact [of "from_ranges [(0x41, 0x5A), (0x30, 0x39)]" "cs_one 0x42", where c = "0x41"]
  by (simp add: contains_iff)

text \<open>
  C22: Two canonical sets are the same value exactly when they accept the same characters, so the map
  from sets to numbers that lowering keeps (\<^verbatim>\<open>HashMap<CharSet, u32>\<close>) gives one number per set of
  characters; with it the laws of a Boolean algebra hold as equations between values.
\<close>

theorem charset_equality:
  assumes "cs_ok s" and "cs_ok t"
  shows "(s = t \<longleftrightarrow> (\<forall>c. contains s c \<longleftrightarrow> contains t c)) \<and>
    complement (complement s) = s \<and>
    complement (cs_union s t) = cs_intersect (complement s) (complement t) \<and>
    complement (cs_intersect s t) = cs_union (complement s) (complement t)"
  using assms cs.ext [OF assms]
  by (auto simp: contains_iff cs.compl_compl cs.compl_union cs.compl_inter)

theorem charset_equality_witness:
  "from_chars [0x61, 0x61] = cs_one 0x61 \<and>
   complement (complement (from_chars [0x61, 0x61])) = from_chars [0x61, 0x61]"
  using charset_equality [of "from_chars [0x61, 0x61]" "cs_one 0x61"] by (auto simp: contains_iff)

text \<open>
  C23: \<^verbatim>\<open>CharSet::count\<close> is the number of characters of the set, at most \<open>2 ^ 32\<close>: the plain \<^verbatim>\<open>u64\<close> sum
  never overflows. \<^verbatim>\<open>chars_upto\<close> answers exactly when there are at most \<open>n\<close> characters, and then lists
  them; \<^verbatim>\<open>single\<close> answers exactly for a set of one character.
\<close>

theorem count_exact:
  assumes "cs_ok s"
  shows "cs_count s = card {c. contains s c} \<and> cs_count s \<le> 2 ^ 32 \<and>
    (single s = Some d \<longleftrightarrow> {c. contains s c} = {d}) \<and>
    (case chars_upto s n of
       None \<Rightarrow> card {c. contains s c} > n
     | Some cs \<Rightarrow> card {c. contains s c} \<le> n \<and> set cs = {c. contains s c})"
proof -
  have "{c. contains s c} = cs_set s" using assms by (simp add: contains_iff)
  moreover have "chars_upto s n = None \<or> chars_upto s n = Some (range_chars s)"
    using chars_upto_Some [OF assms, of n] by (cases "chars_upto s n") auto
  ultimately show ?thesis
    using assms chars_upto_Some [OF assms, of n "range_chars s"] cs_count_bound [OF assms]
    by (auto simp: cs_count_card single_iff)
qed

theorem count_exact_witness:
  "cs_count (cs_range 0x30 0x39) = card {c. contains (cs_range 0x30 0x39) c} \<and>
   chars_upto (cs_range 0x30 0x39) 8 = None"
proof -
  have "chars_upto (cs_range 0x30 0x39) 8 = None" by code_simp
  then show ?thesis using count_exact [of "cs_range 0x30 0x39"] by simp
qed

text \<open>
  C24: The ASCII bitmap of a set has bit \<open>c\<close> exactly when the set accepts \<open>c\<close> (for \<open>c < 128\<close>), and
  \<^verbatim>\<open>has_non_ascii\<close> says whether it accepts any other character: together they decide every quick test on
  the first character that is built from them.
\<close>

theorem ascii_mask_exact:
  assumes "cs_ok s"
  shows "(c < 128 \<longrightarrow> (bit (ascii_mask s) (unat c) \<longleftrightarrow> contains s c)) \<and>
    (has_non_ascii s \<longleftrightarrow> (\<exists>d. contains s d \<and> 128 \<le> d))"
  using assms by (auto simp: contains_iff ascii_mask_iff has_non_ascii_iff)

theorem ascii_mask_exact_witness:
  "bit (ascii_mask (cs_range 0x41 0xFF)) (unat (0x42 :: u32)) \<and> has_non_ascii (cs_range 0x41 0xFF)"
proof -
  have "contains (cs_range 0x41 0xFF) 0x42" "contains (cs_range 0x41 0xFF) 0x90" by code_simp+
  moreover have "(0x42 :: u32) < 128" "128 \<le> (0x90 :: u32)" by simp_all
  ultimately show ?thesis using ascii_mask_exact [of "cs_range 0x41 0xFF" "0x42"] cs_range_ok by blast
qed

text \<open>
  C20: The sets of the categories \<^verbatim>\<open>\d \D \s \S \w \W\<close>, built from the table of runs of properties or from
  the ASCII predicates, accept exactly the characters the one-character predicates of \<^verbatim>\<open>unicode.rs\<close>
  accept (or refuse, for the negated ones).
\<close>

theorem category_set_exact:
  assumes "unidata_ok u"
  shows "cs_ok (category_set u k ascii) \<and>
    (contains (category_set u k ascii) c \<longleftrightarrow> category_accepts u ascii k c)"
  using assms by (simp add: contains_iff category_set_iff)

theorem category_set_exact_witness:
  "contains (category_set sample_unidata NotDigit False) 0x41 \<longleftrightarrow>
   category_accepts sample_unidata False NotDigit 0x41"
  using category_set_exact [OF sample_unidata_ok] by blast

text \<open>
  C19: The set a literal compiles to (\<^verbatim>\<open>literal_set\<close>) accepts exactly the characters sre's comparison
  accepts: the literal itself when case counts or the literal has no case; otherwise the characters
  with the same lower case, plus those of the lower case's group of look-alikes (\<^verbatim>\<open>_ignorecase_fixes\<close>).
\<close>

theorem literal_set_exact:
  assumes "unidata_ok u"
  shows "cs_ok (literal_set u d negated f) \<and>
    (contains (literal_set u d negated f) c \<longleftrightarrow> literal_accepts u f d c \<noteq> negated)"
  using assms by (simp add: contains_iff literal_set_iff)

theorem literal_set_exact_witness:
  "contains (literal_set sample_unidata 0x4B False UnicodeFold) 0x6B \<longleftrightarrow>
   literal_accepts sample_unidata UnicodeFold 0x4B 0x6B"
  using literal_set_exact [OF sample_unidata_ok, of "0x4B" False UnicodeFold "0x6B"] by simp

text \<open>
  C18: The set a bracketed class compiles to (\<^verbatim>\<open>class_set\<close>) accepts exactly the characters sre accepts for
  the class under the flags: an item as written when nothing in the class has case, otherwise the
  items with their characters lowered (ranges below and above U+10000 by sre's two different rules),
  compared with the lowered text character; negation reverses it.
\<close>

theorem class_set_exact:
  assumes "unidata_ok u"
  shows "cs_ok (class_set u items negated f ascii) \<and>
    (contains (class_set u items negated f ascii) c \<longleftrightarrow> class_accepts u f ascii items c \<noteq> negated)"
  using assms by (simp add: contains_iff class_set_iff)

theorem class_set_exact_witness:
  "contains (class_set sample_unidata [CRange 0x41 0x4B, CCat Digit] True UnicodeFold False) 0x6B \<longleftrightarrow>
   \<not> class_accepts sample_unidata UnicodeFold False [CRange 0x41 0x4B, CCat Digit] 0x6B"
  using class_set_exact [OF sample_unidata_ok, of "[CRange 0x41 0x4B, CCat Digit]" True UnicodeFold False "0x6B"]
  by simp

end
