(* ===== verification/Ast.thy ===== *)
theory Ast
  imports Charset
begin

text \<open>
  The trees of the engine: what the parser makes of a pattern (\<open>node\<close>, \<^verbatim>\<open>linre/syntax.rs\<close>), what
  lowering makes of that (\<open>hir\<close> and \<open>look\<close>, \<^verbatim>\<open>linre/hir.rs\<close>), and the errors of both.
\<close>

datatype error = Syntax string | Refused string

text \<open>The flags of a pattern (\<^verbatim>\<open>FLAG_*\<close>) and Python's bound on repeat counts.\<close>

definition FLAG_TEMPLATE :: u32 where "FLAG_TEMPLATE = 1"
definition FLAG_IGNORECASE :: u32 where "FLAG_IGNORECASE = 2"
definition FLAG_LOCALE :: u32 where "FLAG_LOCALE = 4"
definition FLAG_MULTILINE :: u32 where "FLAG_MULTILINE = 8"
definition FLAG_DOTALL :: u32 where "FLAG_DOTALL = 16"
definition FLAG_UNICODE :: u32 where "FLAG_UNICODE = 32"
definition FLAG_VERBOSE :: u32 where "FLAG_VERBOSE = 64"
definition FLAG_DEBUG :: u32 where "FLAG_DEBUG = 128"
definition FLAG_ASCII :: u32 where "FLAG_ASCII = 256"

definition TYPE_FLAGS :: u32 where
  "TYPE_FLAGS = or (or FLAG_ASCII FLAG_LOCALE) FLAG_UNICODE"

definition MAXREPEAT :: nat where "MAXREPEAT = 0xFFFFFFFF"

text \<open>Is a flag of the mask set?\<close>

definition has_flag :: "u32 \<Rightarrow> u32 \<Rightarrow> bool" where
  "has_flag flags bits \<longleftrightarrow> and flags bits \<noteq> 0"

datatype at = At_Beginning | At_BeginningString | At_End | At_EndString | At_Boundary | At_NonBoundary

datatype rep_kind = Greedy | Lazy | Possessive

text \<open>\<open>N_Group\<close>: the group's number (None: not capturing), the flags it turns on and off.\<close>

datatype node =
    N_Lit u32
  | N_NotLit u32
  | N_Class "class_item list" bool
  | N_Any
  | N_At at
  | N_Group "nat option" u32 u32 node
  | N_Seq "node list"
  | N_Alt "node list"
  | N_Repeat nat nat rep_kind node
  | N_Look bool bool node
  | N_Backref nat
  | N_Cond nat node "node option"
  | N_Atomic node
  | N_Named

text \<open>
  \<open>H_Char\<close> and \<open>H_Look\<close> index the sets and the looks of the lowered pattern. \<open>H_Repeat\<close>: the least and
  the greatest number of times, greedy or lazy, whether it is sre's single-character repeat, the body.
\<close>

datatype hir =
    H_Empty
  | H_Char nat
  | H_Look nat
  | H_Group nat hir
  | H_Concat "hir list"
  | H_Alt "hir list"
  | H_Repeat nat "nat option" bool bool hir

text \<open>\<open>L_Word ascii negate\<close>, \<open>L_Behind1 set negate\<close>, \<open>L_Ahead1 set negate\<close>, \<open>L_Around behind negate body lo hi\<close>.\<close>

datatype look =
    L_Begin
  | L_BeginLine
  | L_End
  | L_EndLine
  | L_EndString
  | L_Word bool bool
  | L_Behind1 nat bool
  | L_Ahead1 nat bool
  | L_Around bool bool hir nat nat

text \<open>A parsed pattern: the tree, the capturing groups, their names and the flags in force.\<close>

record parsed =
  p_node :: node
  p_groups :: nat
  p_names :: "(u32 list \<times> nat) list"
  p_flags :: u32

end
