(* ===== verification/Nfa.thy ===== *)
theory Nfa
  imports Ast
begin

unbundle bit_operations_syntax

text \<open>
  Programs (\<^verbatim>\<open>linre/nfa.rs\<close>): a pattern as a Thompson automaton whose alternatives are ordered by
  priority. The builder, the compiler from \<open>hir\<close>, the flat form of a lookaround, and the programs of a
  pattern. A program counter is an index into the instruction list; \<open>HOLE\<close> stands for a target to be
  patched.
\<close>

section \<open>Instructions\<close>

definition HOLE :: nat where
  "HOLE = 4294967295"

text \<open>\<open>I_Run set min max greedy next\<close>; \<open>max = HOLE\<close> (\<^verbatim>\<open>u32::MAX\<close>) is no bound.\<close>

datatype inst =
    I_Char nat nat
  | I_Split nat nat
  | I_Jmp nat
  | I_Save nat nat
  | I_Look nat nat
  | I_Guard nat
  | I_Run nat nat nat bool nat
  | I_Match

record prog =
  insts :: "inst list"
  p_start :: nat
  start_unanchored :: nat

datatype flat = F_Char nat | F_Look nat

record first_test =
  ft_ascii :: u128
  ft_other :: bool

text \<open>\<open>D_Around behind negate prog width max memo flat first\<close>.\<close>

datatype lookdef =
    D_Begin
  | D_BeginLine
  | D_End
  | D_EndLine
  | D_EndString
  | D_Word bool bool
  | D_Behind1 nat bool
  | D_Ahead1 nat bool
  | D_Around bool bool nat nat nat bool "flat list list option" "first_test option"

section \<open>The flat form of a lookaround\<close>

fun first_test_of :: "charset list \<Rightarrow> flat list list \<Rightarrow> first_test \<Rightarrow> first_test option" where
  "first_test_of sets [] t = Some t"
| "first_test_of sets (s # seqs) t =
     (case s of
        F_Char si # _ \<Rightarrow>
          first_test_of sets seqs
            \<lparr>ft_ascii = ft_ascii t OR ascii_mask (sets ! si),
             ft_other = ft_other t \<or> has_non_ascii (sets ! si)\<rparr>
      | _ \<Rightarrow> None)"

definition FirstTest_of :: "flat list list \<Rightarrow> charset list \<Rightarrow> first_test option" where
  "FirstTest_of seqs sets = first_test_of sets seqs \<lparr>ft_ascii = 0, ft_other = False\<rparr>"

definition may_begin :: "first_test \<Rightarrow> u32 \<Rightarrow> bool" where
  "may_begin t c = (if c < 128 then ft_ascii t AND push_bit (unat c) 1 \<noteq> 0 else ft_other t)"

definition MAX_FLAT :: nat where
  "MAX_FLAT = 64"

text \<open>Every sequence of the first list followed by every one of the second, within the limits.\<close>

definition flat_product :: "flat list list \<Rightarrow> flat list list \<Rightarrow> flat list list option" where
  "flat_product acc f =
     (if length acc * length f > MAX_FLAT then None
      else (let next = concat (map (\<lambda>a. map (\<lambda>b. a @ b) f) acc)
            in if list_all (\<lambda>s. length s \<le> MAX_FLAT) next then Some next else None))"

fun flat_concat :: "flat list list option list \<Rightarrow> flat list list \<Rightarrow> flat list list option" where
  "flat_concat [] acc = Some acc"
| "flat_concat (None # fs) acc = None"
| "flat_concat (Some f # fs) acc =
     (case flat_product acc f of None \<Rightarrow> None | Some next \<Rightarrow> flat_concat fs next)"

fun flat_alt :: "flat list list option list \<Rightarrow> flat list list \<Rightarrow> flat list list option" where
  "flat_alt [] acc = Some acc"
| "flat_alt (None # fs) acc = None"
| "flat_alt (Some f # fs) acc =
     (let acc = acc @ f in if length acc > MAX_FLAT then None else flat_alt fs acc)"

text \<open>The loop \<^verbatim>\<open>for k in 1..=m\<close> of a counted repeat: \<open>left\<close> iterations to go, the next one being \<open>k\<close>.\<close>

fun flat_repeat ::
    "nat \<Rightarrow> nat \<Rightarrow> nat \<Rightarrow> flat list list \<Rightarrow> flat list list \<Rightarrow> flat list list \<Rightarrow> flat list list option" where
  "flat_repeat 0 k mn f pow acc = Some acc"
| "flat_repeat (Suc left) k mn f pow acc =
     (case flat_product pow f of
        None \<Rightarrow> None
      | Some pow \<Rightarrow>
          (if k \<ge> mn
           then (let acc = acc @ pow
                 in if length acc > MAX_FLAT then None else flat_repeat left (Suc k) mn f pow acc)
           else flat_repeat left (Suc k) mn f pow acc))"

primrec flatten :: "look list \<Rightarrow> hir \<Rightarrow> flat list list option" where
  "flatten looks H_Empty = Some [[]]"
| "flatten looks (H_Char s) = Some [[F_Char s]]"
| "flatten looks (H_Look l) =
     (case get_at looks l of
        None \<Rightarrow> None
      | Some (L_Around _ _ _ _ _) \<Rightarrow> None
      | Some _ \<Rightarrow> Some [[F_Look l]])"
| "flatten looks (H_Group g b) = flatten looks b"
| "flatten looks (H_Concat v) = flat_concat (map (flatten looks) v) [[]]"
| "flatten looks (H_Alt v) = flat_alt (map (flatten looks) v) []"
| "flatten looks (H_Repeat mn mx greedy simple body) =
     (case mx of
        None \<Rightarrow> None
      | Some m \<Rightarrow>
          (case flatten looks body of
             None \<Rightarrow> None
           | Some f \<Rightarrow> flat_repeat m 1 mn f [[]] (if mn = 0 then [[]] else [])))"

definition lookdef_is_simple :: "lookdef \<Rightarrow> bool" where
  "lookdef_is_simple d = (case d of D_Around _ _ _ _ _ _ _ _ \<Rightarrow> False | _ \<Rightarrow> True)"

section \<open>The builder\<close>

definition MAX_INSTS :: nat where
  "MAX_INSTS = 30000"

text \<open>A hole is an instruction and which of its targets (1: the second one of a split).\<close>

record frag =
  f_start :: nat
  f_holes :: "(nat \<times> nat) list"

record builder =
  b_insts :: "inst list"
  saves :: bool
  reverse :: bool
  guards :: bool
  runs :: bool
  look_ids :: "nat list"

type_synonym 'a build = "builder \<Rightarrow> (error, 'a \<times> builder) result"

definition too_large :: "(error, 'a) result" where
  "too_large = Inl (Refused ''too large: the program would exceed 30000 instructions (counted repeats are expanded)'')"

definition push :: "inst \<Rightarrow> nat build" where
  "push i b =
     (if length (b_insts b) \<ge> MAX_INSTS then too_large
      else Inr (length (b_insts b), b\<lparr>b_insts := b_insts b @ [i]\<rparr>))"

fun set_target :: "inst \<Rightarrow> nat \<Rightarrow> nat \<Rightarrow> inst" where
  "set_target (I_Char s n) w t = I_Char s t"
| "set_target (I_Jmp n) w t = I_Jmp t"
| "set_target (I_Save s n) w t = I_Save s t"
| "set_target (I_Look l n) w t = I_Look l t"
| "set_target (I_Guard n) w t = I_Guard t"
| "set_target (I_Run s mn mx g n) w t = I_Run s mn mx g t"
| "set_target (I_Split x y) w t = (if w = 0 then I_Split t y else I_Split x t)"
| "set_target I_Match w t = I_Match"

fun patch_insts :: "(nat \<times> nat) list \<Rightarrow> nat \<Rightarrow> inst list \<Rightarrow> inst list" where
  "patch_insts [] t is = is"
| "patch_insts ((i, w) # holes) t is = patch_insts holes t (is[i := set_target (is ! i) w t])"

definition patch :: "(nat \<times> nat) list \<Rightarrow> nat \<Rightarrow> builder \<Rightarrow> builder" where
  "patch holes t b = b\<lparr>b_insts := patch_insts holes t (b_insts b)\<rparr>"

definition frag_at :: "nat \<Rightarrow> frag" where
  "frag_at i = \<lparr>f_start = i, f_holes = [(i, 0)]\<rparr>"

text \<open>One instruction with a hole: \<^verbatim>\<open>push\<close> and the fragment that starts and ends at it.\<close>

definition emit :: "inst \<Rightarrow> frag build" where
  "emit i b = andthen (push i b) (\<lambda>(n, b). Inr (frag_at n, b))"

definition empty_frag :: "frag build" where
  "empty_frag = emit (I_Jmp HOLE)"

fun chain :: "nat \<Rightarrow> (nat \<times> nat) list \<Rightarrow> frag list \<Rightarrow> builder \<Rightarrow> frag \<times> builder" where
  "chain start holes [] b = (\<lparr>f_start = start, f_holes = holes\<rparr>, b)"
| "chain start holes (f # fs) b = chain start (f_holes f) fs (patch holes (f_start f) b)"

fun concat_frags :: "frag list \<Rightarrow> frag build" where
  "concat_frags [] b = empty_frag b"
| "concat_frags (f # fs) b = Inr (chain (f_start f) (f_holes f) fs b)"

section \<open>Compiling a pattern\<close>

text \<open>The parts of a sequence, compiled one after the other.\<close>

fun comp_each :: "frag build list \<Rightarrow> frag list build" where
  "comp_each [] b = Inr ([], b)"
| "comp_each (c # cs) b =
     andthen (c b) (\<lambda>(f, b). andthen (comp_each cs b) (\<lambda>(fs, b). Inr (f # fs, b)))"

text \<open>
  The loop over the alternatives: each but the last is entered by the first side of a split, whose
  second side goes to the next entry.
\<close>

fun comp_alts ::
    "frag build list \<Rightarrow> (nat \<times> nat) list \<Rightarrow> nat \<Rightarrow> nat option \<Rightarrow> frag build" where
  "comp_alts [] holes start last_split b = Inr (\<lparr>f_start = start, f_holes = holes\<rparr>, b)"
| "comp_alts (c # cs) holes start last_split b =
     (if cs \<noteq> []
      then andthen (push (I_Split HOLE HOLE) b) (\<lambda>(s, b).
           andthen (c b) (\<lambda>(f, b).
             let b = patch [(s, 0)] (f_start f) b;
                 (start, b) = (case last_split of
                                 None \<Rightarrow> (s, b)
                               | Some l \<Rightarrow> (start, patch [(l, 1)] s b))
             in comp_alts cs (holes @ f_holes f) start (Some s) b))
      else andthen (c b) (\<lambda>(f, b).
             let (start, b) = (case last_split of
                                 None \<Rightarrow> (f_start f, b)
                               | Some l \<Rightarrow> (start, patch [(l, 1)] (f_start f) b))
             in comp_alts cs (holes @ f_holes f) start last_split b))"

text \<open>The sides of a repeat's split: another iteration, and leaving.\<close>

definition body_side :: "bool \<Rightarrow> nat" where "body_side greedy = (if greedy then 0 else 1)"
definition exit_side :: "bool \<Rightarrow> nat" where "exit_side greedy = (if greedy then 1 else 0)"

text \<open>An unbounded repeat's loop.\<close>

definition comp_loop :: "bool \<Rightarrow> frag build \<Rightarrow> frag build" where
  "comp_loop greedy c b =
     andthen (push (I_Split HOLE HOLE) b) (\<lambda>(s, b).
     andthen (c b) (\<lambda>(f, b).
       let b = patch [(s, body_side greedy)] (f_start f) b;
           b = patch (f_holes f) s b
       in Inr (\<lparr>f_start = s, f_holes = [(s, exit_side greedy)]\<rparr>, b)))"

text \<open>The optional iterations of a bounded repeat, nested: the exits so far, the start, the last body's holes.\<close>

fun comp_opts ::
    "nat \<Rightarrow> bool \<Rightarrow> frag build \<Rightarrow> (nat \<times> nat) list \<Rightarrow> nat \<Rightarrow> (nat \<times> nat) list option \<Rightarrow> frag build" where
  "comp_opts 0 greedy c exits start prev b =
     Inr (\<lparr>f_start = start, f_holes = exits @ (case prev of None \<Rightarrow> [] | Some h \<Rightarrow> h)\<rparr>, b)"
| "comp_opts (Suc n) greedy c exits start prev b =
     andthen (push (I_Split HOLE HOLE) b) (\<lambda>(s, b).
     andthen (c b) (\<lambda>(f, b).
       let b = patch [(s, body_side greedy)] (f_start f) b;
           (start, b) = (case prev of None \<Rightarrow> (s, b) | Some h \<Rightarrow> (start, patch h s b))
       in comp_opts n greedy c (exits @ [(s, exit_side greedy)]) start (Some (f_holes f)) b))"

definition comp_repeat :: "nat \<Rightarrow> nat option \<Rightarrow> bool \<Rightarrow> bool \<Rightarrow> frag build \<Rightarrow> frag build" where
  "comp_repeat mn mx greedy simple c b =
     andthen (if simple \<and> guards b
              then andthen (emit (I_Guard HOLE) b) (\<lambda>(f, b). Inr ([f], b))
              else Inr ([], b)) (\<lambda>(guard, b).
     andthen (comp_each (replicate mn c) b) (\<lambda>(must, b).
     andthen (case mx of
                None \<Rightarrow> andthen (comp_loop greedy c b) (\<lambda>(f, b). Inr ([f], b))
              | Some m \<Rightarrow>
                  (if m - mn > 0
                   then andthen (comp_opts (m - mn) greedy c [] HOLE None b) (\<lambda>(f, b). Inr ([f], b))
                   else Inr ([], b))) (\<lambda>(more, b).
     concat_frags (guard @ must @ more) b)))"

primrec comp_hir :: "hir \<Rightarrow> frag build" where
  "comp_hir H_Empty = empty_frag"
| "comp_hir (H_Char si) = emit (I_Char si HOLE)"
| "comp_hir (H_Look l) = (\<lambda>b. emit (I_Look (look_ids b ! l) HOLE) b)"
| "comp_hir (H_Group g body) =
     (\<lambda>b. if \<not> saves b then comp_hir body b
          else andthen (push (I_Save (2 * (g - 1)) HOLE) b) (\<lambda>(a, b).
               andthen (comp_hir body b) (\<lambda>(f, b).
                 let b = patch [(a, 0)] (f_start f) b
                 in andthen (push (I_Save (2 * (g - 1) + 1) HOLE) b) (\<lambda>(z, b).
                      Inr (\<lparr>f_start = a, f_holes = [(z, 0)]\<rparr>, patch (f_holes f) z b)))))"
| "comp_hir (H_Concat v) =
     (\<lambda>b. andthen (comp_each (if reverse b then rev (map comp_hir v) else map comp_hir v) b)
            (\<lambda>(parts, b). concat_frags parts b))"
| "comp_hir (H_Alt v) =
     (\<lambda>b. if v = [] then empty_frag b else comp_alts (map comp_hir v) [] HOLE None b)"
| "comp_hir (H_Repeat mn mx greedy simple body) =
     (\<lambda>b. case (runs b, body) of
            (True, H_Char si) \<Rightarrow>
              emit (I_Run si mn (case mx of None \<Rightarrow> HOLE | Some m \<Rightarrow> m) greedy HOLE) b
          | _ \<Rightarrow> comp_repeat mn mx greedy simple (comp_hir body) b)"

text \<open>The tail: zero or more tests, then \<open>I_Match\<close>.\<close>

fun push_tail :: "inst list \<Rightarrow> (nat \<times> nat) list \<Rightarrow> builder \<Rightarrow> (error, builder) result" where
  "push_tail [] holes b = Inr b"
| "push_tail (t # ts) holes b =
     andthen (push t b) (\<lambda>(i, b).
       push_tail ts (if t = I_Match then [] else [(i, 0)]) (patch holes i b))"

definition finish :: "builder \<Rightarrow> frag \<Rightarrow> inst list \<Rightarrow> (error, prog) result" where
  "finish b f tail =
     andthen (push_tail tail (f_holes f) b) (\<lambda>b.
       Inr \<lparr>insts = b_insts b, p_start = f_start f, start_unanchored = f_start f\<rparr>)"

definition build_with ::
    "hir \<Rightarrow> bool \<Rightarrow> bool \<Rightarrow> bool \<Rightarrow> bool \<Rightarrow> nat list \<Rightarrow> nat option \<Rightarrow> inst list \<Rightarrow> (error, prog) result" where
  "build_with h sv rv gd rn ids head tail =
     andthen (comp_hir h \<lparr>b_insts = [], saves = sv, reverse = rv, guards = gd, runs = rn,
                          look_ids = ids\<rparr>) (\<lambda>(f, b).
     andthen (case head of
                None \<Rightarrow> Inr (f, b)
              | Some slot \<Rightarrow>
                  andthen (push (I_Save slot (f_start f)) b) (\<lambda>(s, b).
                    Inr (\<lparr>f_start = s, f_holes = f_holes f\<rparr>, b))) (\<lambda>(f, b).
     finish b f tail))"

definition build ::
    "hir \<Rightarrow> bool \<Rightarrow> bool \<Rightarrow> bool \<Rightarrow> nat list \<Rightarrow> nat option \<Rightarrow> inst list \<Rightarrow> (error, prog) result" where
  "build h sv rv gd ids head tail = build_with h sv rv gd False ids head tail"

section \<open>The programs of a pattern\<close>

record programs =
  sets :: "charset list"
  looks :: "lookdef list"
  fwd :: prog
  full :: prog
  rev_prog :: prog
  fwd_bt :: prog
  full_bt :: prog
  subs :: "prog list"
  slots :: nat
  any_set_id :: nat

definition MAX_LOOK :: nat where
  "MAX_LOOK = 1000"

text \<open>One lookaround: a test as it is, a sub-pattern with a program of its own.\<close>

fun comp_look ::
    "charset list \<Rightarrow> look list \<Rightarrow> nat list \<Rightarrow> look \<Rightarrow> prog list \<Rightarrow> (error, lookdef \<times> prog list) result" where
  "comp_look ss ls ids L_Begin sb = Inr (D_Begin, sb)"
| "comp_look ss ls ids L_BeginLine sb = Inr (D_BeginLine, sb)"
| "comp_look ss ls ids L_End sb = Inr (D_End, sb)"
| "comp_look ss ls ids L_EndLine sb = Inr (D_EndLine, sb)"
| "comp_look ss ls ids L_EndString sb = Inr (D_EndString, sb)"
| "comp_look ss ls ids (L_Word ascii negate) sb = Inr (D_Word ascii negate, sb)"
| "comp_look ss ls ids (L_Behind1 si negate) sb = Inr (D_Behind1 si negate, sb)"
| "comp_look ss ls ids (L_Ahead1 si negate) sb = Inr (D_Ahead1 si negate, sb)"
| "comp_look ss ls ids (L_Around behind negate body lo hi) sb =
     andthen (build body False False True ids None [I_Match]) (\<lambda>p.
       let memo = (\<not> behind \<and> hi > MAX_LOOK);
           seqs = (if memo then None else flatten ls body);
           first = (case seqs of None \<Rightarrow> None | Some v \<Rightarrow> FirstTest_of v ss)
       in Inr (D_Around behind negate (length sb) lo hi memo seqs first, sb @ [p]))"

fun comp_looks ::
    "charset list \<Rightarrow> look list \<Rightarrow> nat list \<Rightarrow> look list \<Rightarrow> lookdef list \<Rightarrow> prog list
     \<Rightarrow> (error, lookdef list \<times> prog list) result" where
  "comp_looks ss ls ids [] defs sb = Inr (defs, sb)"
| "comp_looks ss ls ids (l # rest) defs sb =
     andthen (comp_look ss ls ids l sb) (\<lambda>(d, sb). comp_looks ss ls ids rest (defs @ [d]) sb)"

text \<open>The index of the set of any character, which is added when the pattern has none.\<close>

definition with_any :: "charset list \<Rightarrow> nat \<times> charset list" where
  "with_any ss =
     (let i = length (takeWhile (\<lambda>s. \<not> is_all s) ss)
      in if i < length ss then (i, ss) else (length ss, ss @ [cs_all]))"

definition compile :: "hir \<Rightarrow> charset list \<Rightarrow> look list \<Rightarrow> nat \<Rightarrow> (error, programs) result" where
  "compile h ss ls groups =
     (let (any, ss) = with_any ss; ids = [0..<length ls]
      in andthen (comp_looks ss ls ids ls [] []) (\<lambda>(defs, subs).
         let defs = defs @ [D_EndString]; end_look = length defs - 1;
             slots = 2 * groups + 2; start_slot = slots - 1
         in andthen (build h True False True ids (Some start_slot) [I_Match]) (\<lambda>fwd.
            let u = length (insts fwd)
            in if u + 2 > MAX_INSTS then too_large
               else
                 (let fwd = fwd\<lparr>insts := insts fwd @ [I_Split (p_start fwd) (u + 1), I_Char any u],
                                start_unanchored := u\<rparr>
                  in andthen (build h True False True ids (Some start_slot) [I_Look end_look HOLE, I_Match]) (\<lambda>full.
                     andthen (build h False True False ids None [I_Match]) (\<lambda>rev.
                     andthen (build_with h True False False True ids (Some start_slot) [I_Match]) (\<lambda>fwd_bt.
                     andthen (build_with h True False False True ids (Some start_slot)
                                [I_Look end_look HOLE, I_Match]) (\<lambda>full_bt.
                       Inr \<lparr>sets = ss, looks = defs, fwd = fwd, full = full, rev_prog = rev,
                            fwd_bt = fwd_bt, full_bt = full_bt, subs = subs, slots = slots,
                            any_set_id = any\<rparr>))))))))"

end
