(* ===== verification/Sem.thy ===== *)
theory Sem
  imports Nfa
begin

text \<open>
  What a pattern means, independently of any matcher: \<open>hir_all\<close> lists the ways a pattern can match from
  a position, as (end, capture slots), in the order a backtracking matcher tries them (the order sre
  answers by). And what a program means: \<open>out\<close> relates a program counter, a position and slots to the
  list of the ends and slots of all the paths to \<open>I_Match\<close>, in priority order. The compiler is correct
  when both lists agree (\<open>comp_hir_good\<close>, \<open>build_correct\<close>).
\<close>

section \<open>The setting of a match\<close>

text \<open>
  The text, the window's end, the sets and the capture slots of the pattern, whether groups are saved
  and single-character repeats guarded, and which zero-width tests hold where.
\<close>

record env =
  e_text :: "u32 list"
  e_end :: nat
  e_sets :: "charset list"
  e_slots :: nat
  e_saves :: bool
  e_guards :: bool
  e_look :: "nat \<Rightarrow> nat \<Rightarrow> bool"

type_synonym outcome = "nat \<times> int list"
type_synonym ways = "nat \<Rightarrow> int list \<Rightarrow> outcome list"

definition hits :: "env \<Rightarrow> nat \<Rightarrow> nat \<Rightarrow> bool" where
  "hits E si pos \<longleftrightarrow>
     pos < e_end E \<and> (case get_at (e_text E) pos of None \<Rightarrow> False | Some c \<Rightarrow> contains (e_sets E ! si) c)"

text \<open>
  A \<open>I_Save\<close>: the position goes to the slot; at a group's end, the slot before the last records the
  group as the last one closed.
\<close>

definition save_slot :: "nat \<Rightarrow> nat \<Rightarrow> nat \<Rightarrow> int list \<Rightarrow> int list" where
  "save_slot ns slot pos sl =
     (let sl = (if odd slot \<and> slot < ns - 2 then sl[ns - 2 := int (slot div 2 + 1)] else sl)
      in sl[slot := int pos])"

section \<open>The ways a pattern matches, in order\<close>

fun seq_all :: "ways list \<Rightarrow> ways" where
  "seq_all [] pos sl = [(pos, sl)]"
| "seq_all (f # fs) pos sl = concat (map (\<lambda>x. seq_all fs (fst x) (snd x)) (f pos sl))"

definition alt_all :: "ways list \<Rightarrow> ways" where
  "alt_all fs pos sl = concat (map (\<lambda>f. f pos sl) fs)"

text \<open>Another iteration or leaving, in the order of the repeat.\<close>

definition in_order :: "bool \<Rightarrow> 'a list \<Rightarrow> 'a list \<Rightarrow> 'a list" where
  "in_order greedy go leave = (if greedy then go @ leave else leave @ go)"

fun opts_all :: "nat \<Rightarrow> bool \<Rightarrow> ways \<Rightarrow> ways" where
  "opts_all 0 greedy f pos sl = [(pos, sl)]"
| "opts_all (Suc n) greedy f pos sl =
     in_order greedy (concat (map (\<lambda>x. opts_all n greedy f (fst x) (snd x)) (f pos sl))) [(pos, sl)]"

text \<open>An unbounded repeat, each iteration of which reads at least a character of the window.\<close>

function star_all :: "nat \<Rightarrow> bool \<Rightarrow> ways \<Rightarrow> ways" where
  "star_all e greedy f pos sl =
     in_order greedy
       (concat (map (\<lambda>x. if pos < fst x \<and> fst x \<le> e then star_all e greedy f (fst x) (snd x) else []) (f pos sl)))
       [(pos, sl)]"
  by pat_completeness auto
termination
  by (relation "measure (\<lambda>(e, greedy, f, pos, sl). e - pos)") auto

declare star_all.simps [simp del]

definition rep_all :: "env \<Rightarrow> nat \<Rightarrow> nat option \<Rightarrow> bool \<Rightarrow> bool \<Rightarrow> ways \<Rightarrow> ways" where
  "rep_all E mn mx greedy simple f pos sl =
     (if simple \<and> e_guards E \<and> e_end E < pos then []
      else seq_all (replicate mn f @
             [case mx of None \<Rightarrow> star_all (e_end E) greedy f | Some m \<Rightarrow> opts_all (m - mn) greedy f]) pos sl)"

primrec hir_all :: "env \<Rightarrow> hir \<Rightarrow> ways" where
  "hir_all E H_Empty = (\<lambda>pos sl. [(pos, sl)])"
| "hir_all E (H_Char si) = (\<lambda>pos sl. if hits E si pos then [(pos + 1, sl)] else [])"
| "hir_all E (H_Look l) = (\<lambda>pos sl. if e_look E l pos then [(pos, sl)] else [])"
| "hir_all E (H_Group g body) =
     (\<lambda>pos sl.
        if \<not> e_saves E then hir_all E body pos sl
        else map (\<lambda>(p, s). (p, save_slot (e_slots E) (2 * (g - 1) + 1) p s))
               (hir_all E body pos (save_slot (e_slots E) (2 * (g - 1)) pos sl)))"
| "hir_all E (H_Concat v) = seq_all (map (hir_all E) v)"
| "hir_all E (H_Alt v) = (if v = [] then (\<lambda>pos sl. [(pos, sl)]) else alt_all (map (hir_all E) v))"
| "hir_all E (H_Repeat mn mx greedy simple body) = rep_all E mn mx greedy simple (hir_all E body)"

section \<open>A repeat of one set\<close>

text \<open>How many characters of a set follow a position; where a repeat of it may stop, in order.\<close>

definition run_len :: "env \<Rightarrow> nat \<Rightarrow> nat \<Rightarrow> nat" where
  "run_len E si pos = length (takeWhile (hits E si) [pos..<e_end E])"

definition run_stops :: "env \<Rightarrow> nat \<Rightarrow> nat \<Rightarrow> nat \<Rightarrow> bool \<Rightarrow> nat \<Rightarrow> nat list" where
  "run_stops E si mn mx greedy pos =
     (let n = (if mx = HOLE then run_len E si pos else min mx (run_len E si pos));
          qs = map (\<lambda>k. pos + k) [mn..<Suc n]
      in if greedy then rev qs else qs)"

section \<open>The paths of a program, in order\<close>

text \<open>
  \<open>out E P h pc pos sl L\<close>: the paths from \<open>pc\<close> at \<open>pos\<close> with slots \<open>sl\<close> all end, after at most \<open>h\<close> steps, and
  those that reach \<open>I_Match\<close> do so with the ends and slots \<open>L\<close>, in priority order. An \<open>I_Run\<close> goes on from
  each of its stops in turn.
\<close>

inductive out :: "env \<Rightarrow> inst list \<Rightarrow> nat \<Rightarrow> nat \<Rightarrow> nat \<Rightarrow> int list \<Rightarrow> outcome list \<Rightarrow> bool"
  for E :: env and P :: "inst list" where
  out_hit: "\<lbrakk>get_at P pc = Some (I_Char si nx); hits E si pos; out E P h nx (pos + 1) sl L\<rbrakk>
    \<Longrightarrow> out E P (Suc h) pc pos sl L"
| out_miss: "\<lbrakk>get_at P pc = Some (I_Char si nx); \<not> hits E si pos\<rbrakk> \<Longrightarrow> out E P 0 pc pos sl []"
| out_split: "\<lbrakk>get_at P pc = Some (I_Split x y); out E P h1 x pos sl L1; out E P h2 y pos sl L2\<rbrakk>
    \<Longrightarrow> out E P (Suc (max h1 h2)) pc pos sl (L1 @ L2)"
| out_jmp: "\<lbrakk>get_at P pc = Some (I_Jmp nx); out E P h nx pos sl L\<rbrakk> \<Longrightarrow> out E P (Suc h) pc pos sl L"
| out_save: "\<lbrakk>get_at P pc = Some (I_Save slot nx); out E P h nx pos (save_slot (e_slots E) slot pos sl) L\<rbrakk>
    \<Longrightarrow> out E P (Suc h) pc pos sl L"
| out_look: "\<lbrakk>get_at P pc = Some (I_Look l nx); e_look E l pos; out E P h nx pos sl L\<rbrakk>
    \<Longrightarrow> out E P (Suc h) pc pos sl L"
| out_look_no: "\<lbrakk>get_at P pc = Some (I_Look l nx); \<not> e_look E l pos\<rbrakk> \<Longrightarrow> out E P 0 pc pos sl []"
| out_guard: "\<lbrakk>get_at P pc = Some (I_Guard nx); pos \<le> e_end E; out E P h nx pos sl L\<rbrakk>
    \<Longrightarrow> out E P (Suc h) pc pos sl L"
| out_guard_no: "\<lbrakk>get_at P pc = Some (I_Guard nx); e_end E < pos\<rbrakk> \<Longrightarrow> out E P 0 pc pos sl []"
| out_match: "get_at P pc = Some I_Match \<Longrightarrow> out E P 0 pc pos sl [(pos, sl)]"
| out_run: "\<lbrakk>get_at P pc = Some (I_Run si mn mx greedy nx); qs = run_stops E si mn mx greedy pos;
      \<And>q. q \<in> set qs \<Longrightarrow> out E P (H q) nx q sl (K q)\<rbrakk>
    \<Longrightarrow> out E P (Suc (Max (insert 0 (H ` set qs)))) pc pos sl (concat (map K qs))"

definition outs :: "env \<Rightarrow> inst list \<Rightarrow> nat \<Rightarrow> nat \<Rightarrow> int list \<Rightarrow> outcome list \<Rightarrow> bool" where
  "outs E P pc pos sl L \<longleftrightarrow> (\<exists>h. out E P h pc pos sl L)"

lemma outs_intros:
  "\<lbrakk>get_at P pc = Some (I_Char si nx); hits E si pos; outs E P nx (pos + 1) sl L\<rbrakk> \<Longrightarrow> outs E P pc pos sl L"
  "\<lbrakk>get_at P pc = Some (I_Char si nx); \<not> hits E si pos\<rbrakk> \<Longrightarrow> outs E P pc pos sl []"
  "\<lbrakk>get_at P pc = Some (I_Split x y); outs E P x pos sl L1; outs E P y pos sl L2\<rbrakk>
    \<Longrightarrow> outs E P pc pos sl (L1 @ L2)"
  "\<lbrakk>get_at P pc = Some (I_Jmp nx); outs E P nx pos sl L\<rbrakk> \<Longrightarrow> outs E P pc pos sl L"
  "\<lbrakk>get_at P pc = Some (I_Save slot nx); outs E P nx pos (save_slot (e_slots E) slot pos sl) L\<rbrakk>
    \<Longrightarrow> outs E P pc pos sl L"
  "\<lbrakk>get_at P pc = Some (I_Look l nx); e_look E l pos; outs E P nx pos sl L\<rbrakk> \<Longrightarrow> outs E P pc pos sl L"
  "\<lbrakk>get_at P pc = Some (I_Look l nx); \<not> e_look E l pos\<rbrakk> \<Longrightarrow> outs E P pc pos sl []"
  "\<lbrakk>get_at P pc = Some (I_Guard nx); pos \<le> e_end E; outs E P nx pos sl L\<rbrakk> \<Longrightarrow> outs E P pc pos sl L"
  "\<lbrakk>get_at P pc = Some (I_Guard nx); e_end E < pos\<rbrakk> \<Longrightarrow> outs E P pc pos sl []"
  "get_at P pc = Some I_Match \<Longrightarrow> outs E P pc pos sl [(pos, sl)]"
  unfolding outs_def by (blast intro: out.intros)+

lemma outs_run:
  assumes "get_at P pc = Some (I_Run si mn mx greedy nx)"
    and "\<And>q. q \<in> set (run_stops E si mn mx greedy pos) \<Longrightarrow> outs E P nx q sl (K q)"
  shows "outs E P pc pos sl (concat (map K (run_stops E si mn mx greedy pos)))"
proof -
  have "\<forall>q \<in> set (run_stops E si mn mx greedy pos). \<exists>h. out E P h nx q sl (K q)"
    using assms(2) by (auto simp: outs_def)
  then obtain H where "\<forall>q \<in> set (run_stops E si mn mx greedy pos). out E P (H q) nx q sl (K q)" by (rule bchoice [THEN exE])
  then show ?thesis unfolding outs_def using out_run [OF assms(1) refl, where H = H and K = K] by blast
qed

text \<open>Paths do not look at the slots: the height and the ends are the same whatever they hold.\<close>

lemma out_determ:
  "out E P h pc pos sl L \<Longrightarrow> out E P h' pc pos sl' L' \<Longrightarrow> h = h' \<and> map fst L = map fst L' \<and> (sl = sl' \<longrightarrow> L = L')"
proof (induction arbitrary: h' sl' L' rule: out.induct)
  case (out_split pc x y h1 pos sl L1 h2 L2)
  from out_split.prems out_split.hyps(1) obtain k1 k2 M1 M2 where
    "h' = Suc (max k1 k2)" "L' = M1 @ M2" "out E P k1 x pos sl' M1" "out E P k2 y pos sl' M2"
    by (cases rule: out.cases) auto
  with out_split.IH show ?case by fastforce
next
  case (out_hit pc si nx pos h sl L)
  from out_hit.prems out_hit.hyps(1,2) obtain k where "h' = Suc k" "out E P k nx (pos + 1) sl' L'"
    by (cases rule: out.cases) auto
  with out_hit.IH show ?case by fastforce
next
  case (out_jmp pc nx h pos sl L)
  from out_jmp.prems out_jmp.hyps(1) obtain k where "h' = Suc k" "out E P k nx pos sl' L'"
    by (cases rule: out.cases) auto
  with out_jmp.IH show ?case by fastforce
next
  case (out_save pc slot nx h pos sl L)
  from out_save.prems out_save.hyps(1) obtain k where
    "h' = Suc k" "out E P k nx pos (save_slot (e_slots E) slot pos sl') L'"
    by (cases rule: out.cases) auto
  with out_save.IH show ?case by fastforce
next
  case (out_look pc l nx pos h sl L)
  from out_look.prems out_look.hyps(1,2) obtain k where "h' = Suc k" "out E P k nx pos sl' L'"
    by (cases rule: out.cases) auto
  with out_look.IH show ?case by fastforce
next
  case (out_guard pc nx pos h sl L)
  from out_guard.prems out_guard.hyps(1,2) obtain k where "h' = Suc k" "out E P k nx pos sl' L'"
    by (cases rule: out.cases) auto
  with out_guard.IH show ?case by fastforce
next
  case (out_run pc si mn mx greedy nx qs pos H sl K)
  from out_run.prems out_run.hyps(1,2) obtain H' K' where h: "h' = Suc (Max (insert 0 (H' ` set qs)))" "L' = concat (map K' qs)"
    and o: "\<And>q. q \<in> set qs \<Longrightarrow> out E P (H' q) nx q sl' (K' q)"
    by (cases rule: out.cases) auto
  have q: "H q = H' q \<and> map fst (K q) = map fst (K' q) \<and> (sl = sl' \<longrightarrow> K q = K' q)" if "q \<in> set qs" for q
    by (rule out_run.IH [OF that o [OF that]])
  then have "H ` set qs = H' ` set qs" by auto
  moreover have "map fst (concat (map K qs)) = map fst (concat (map K' qs))"
    using q by (auto simp: map_concat intro!: arg_cong [where f = concat])
  moreover have "sl = sl' \<longrightarrow> concat (map K qs) = concat (map K' qs)" using q by (auto intro!: arg_cong [where f = concat])
  ultimately show ?case by (simp add: h)
qed (erule out.cases, simp_all)+

end
