(* ===== verification/Compile.thy ===== *)
theory Compile
  imports Sem
begin

text \<open>
  The compiler of \<^verbatim>\<open>linre/nfa.rs\<close> is correct: the program \<^verbatim>\<open>build\<close> makes of a pattern has, from its start
  at any position, exactly the paths the pattern has ways to match, in the same order and with the same
  capture slots (\<open>build_correct\<close>).

  A fragment of a program under construction is described by what it does in every finished program
  that contains it with its holes filled (\<open>laid\<close>, \<open>piece\<close>), so that the cases of the compiler are
  lemmas on adjacent fragments.
\<close>

section \<open>Fragments of a finished program\<close>

text \<open>From \<open>start\<close>, control leaves to \<open>ex\<close> once for each way of \<open>A\<close>, in order.\<close>

definition flows :: "env \<Rightarrow> inst list \<Rightarrow> nat \<Rightarrow> nat \<Rightarrow> ways \<Rightarrow> bool" where
  "flows E P start ex A \<longleftrightarrow>
     (\<forall>pos sl K. (\<forall>x \<in> set (A pos sl). outs E P ex (fst x) (snd x) (K x)) \<longrightarrow>
        outs E P start pos sl (concat (map K (A pos sl))))"

definition then_all :: "ways \<Rightarrow> ways \<Rightarrow> ways" where
  "then_all A B pos sl = concat (map (\<lambda>x. B (fst x) (snd x)) (A pos sl))"

definition stay :: ways where
  "stay pos sl = [(pos, sl)]"

lemma flowsI:
  "(\<And>pos sl K. (\<And>x. x \<in> set (A pos sl) \<Longrightarrow> outs E P ex (fst x) (snd x) (K x)) \<Longrightarrow>
     outs E P start pos sl (concat (map K (A pos sl)))) \<Longrightarrow> flows E P start ex A"
  by (simp add: flows_def)

lemma flowsD:
  "flows E P start ex A \<Longrightarrow> (\<And>x. x \<in> set (A pos sl) \<Longrightarrow> outs E P ex (fst x) (snd x) (K x)) \<Longrightarrow>
     outs E P start pos sl (concat (map K (A pos sl)))"
  by (simp add: flows_def)

lemma concat_map_concat: "concat (map K (concat xss)) = concat (map (\<lambda>xs. concat (map K xs)) xss)"
  by (induction xss) auto

lemma concat_singles [simp]: "concat (map (\<lambda>x. [(fst x, snd x)]) xs) = xs"
  by (induction xs) auto

lemma flows_stay: "flows E P ex ex stay"
  by (rule flowsI) (force simp: stay_def)

lemma flows_then:
  assumes "flows E P start mid A" and "flows E P mid ex B"
  shows "flows E P start ex (then_all A B)"
proof (rule flowsI)
  fix pos sl K
  assume K: "\<And>x. x \<in> set (then_all A B pos sl) \<Longrightarrow> outs E P ex (fst x) (snd x) (K x)"
  have "outs E P start pos sl (concat (map (\<lambda>y. concat (map K (B (fst y) (snd y)))) (A pos sl)))"
    by (rule flowsD [OF assms(1)], rule flowsD [OF assms(2)], rule K) (force simp: then_all_def)
  then show "outs E P start pos sl (concat (map K (then_all A B pos sl)))"
    by (simp add: then_all_def concat_map_concat comp_def)
qed

lemma then_all_stay [simp]: "then_all A stay = A"
  by (rule ext)+ (simp add: then_all_def stay_def concat_singles)

lemma seq_all_then: "seq_all (then_all A B # As) = seq_all (A # B # As)"
  by (rule ext)+ (simp add: then_all_def concat_map_concat comp_def)

lemma seq_all_single: "seq_all [A] = A"
  by (rule ext)+ (simp add: concat_singles)

lemma seq_all_Cons: "seq_all (A # As) = then_all A (seq_all As)"
  by (rule ext)+ (simp add: then_all_def)

subsection \<open>One instruction\<close>

lemma flows_char: "get_at P pc = Some (I_Char si ex) \<Longrightarrow>
    flows E P pc ex (\<lambda>pos sl. if hits E si pos then [(pos + 1, sl)] else [])"
  by (rule flowsI) (auto intro: outs_intros)

lemma flows_jmp: "get_at P pc = Some (I_Jmp ex) \<Longrightarrow> flows E P pc ex stay"
  by (rule flowsI) (auto simp: stay_def intro: outs_intros)

lemma flows_look: "get_at P pc = Some (I_Look l ex) \<Longrightarrow>
    flows E P pc ex (\<lambda>pos sl. if e_look E l pos then [(pos, sl)] else [])"
  by (rule flowsI) (auto intro: outs_intros)

lemma flows_guard: "get_at P pc = Some (I_Guard ex) \<Longrightarrow>
    flows E P pc ex (\<lambda>pos sl. if pos \<le> e_end E then [(pos, sl)] else [])"
  by (rule flowsI) (auto intro: outs_intros)

lemma flows_save: "get_at P pc = Some (I_Save slot ex) \<Longrightarrow>
    flows E P pc ex (\<lambda>pos sl. [(pos, save_slot (e_slots E) slot pos sl)])"
  by (rule flowsI) (auto intro: outs_intros)

text \<open>A split whose one side goes on and whose other leaves.\<close>

lemma flows_split:
  assumes "get_at P pc = Some (if first then I_Split x y else I_Split y x)"
    and "flows E P x ex A" and "flows E P y ex B"
  shows "flows E P pc ex (\<lambda>pos sl. in_order first (A pos sl) (B pos sl))"
proof (rule flowsI)
  fix pos sl K
  assume K: "\<And>z. z \<in> set (in_order first (A pos sl) (B pos sl)) \<Longrightarrow> outs E P ex (fst z) (snd z) (K z)"
  have "outs E P x pos sl (concat (map K (A pos sl)))"
    by (rule flowsD [OF assms(2)], rule K) (simp add: in_order_def)
  moreover have "outs E P y pos sl (concat (map K (B pos sl)))"
    by (rule flowsD [OF assms(3)], rule K) (simp add: in_order_def)
  ultimately show "outs E P pc pos sl (concat (map K (in_order first (A pos sl) (B pos sl))))"
    using assms(1) by (auto simp: in_order_def intro: outs_intros split: if_splits)
qed

text \<open>A body that always reads something, within the window.\<close>

definition advances :: "env \<Rightarrow> ways \<Rightarrow> bool" where
  "advances E A \<longleftrightarrow> (\<forall>pos sl. \<forall>x \<in> set (A pos sl). pos < fst x \<and> fst x \<le> e_end E)"

lemma star_all_advances:
  "advances E A \<Longrightarrow>
   star_all (e_end E) greedy A pos sl =
     in_order greedy (then_all A (star_all (e_end E) greedy A) pos sl) (stay pos sl)"
  by (subst star_all.simps) (auto simp: then_all_def stay_def advances_def intro!: arg_cong [where f = concat]
      arg_cong [where f = "\<lambda>m. in_order greedy m _"])

lemma flows_star:
  assumes split: "get_at P s = Some (if greedy then I_Split b ex else I_Split ex b)"
    and body: "flows E P b s A" and adv: "advances E A"
  shows "flows E P s ex (star_all (e_end E) greedy A)"
proof (rule flowsI)
  fix pos sl K
  assume "\<And>x. x \<in> set (star_all (e_end E) greedy A pos sl) \<Longrightarrow> outs E P ex (fst x) (snd x) (K x)"
  then show "outs E P s pos sl (concat (map K (star_all (e_end E) greedy A pos sl)))"
  proof (induction "e_end E - pos" arbitrary: pos sl rule: less_induct)
    case less
    let ?S = "star_all (e_end E) greedy A"
    note unf = star_all_advances [OF adv, of greedy pos sl]
    have "outs E P b pos sl (concat (map (\<lambda>y. concat (map K (?S (fst y) (snd y)))) (A pos sl)))"
    proof (rule flowsD [OF body])
      fix y assume y: "y \<in> set (A pos sl)"
      then have "pos < fst y" "fst y \<le> e_end E" using adv by (auto simp: advances_def)
      then show "outs E P s (fst y) (snd y) (concat (map K (?S (fst y) (snd y))))"
        by (intro less) (use y in \<open>auto simp: unf then_all_def in_order_def\<close>)
    qed
    then have more: "outs E P b pos sl (concat (map K (then_all A ?S pos sl)))"
      by (simp add: then_all_def concat_map_concat comp_def)
    moreover have "outs E P ex pos sl (K (pos, sl))"
      using less.prems [of "(pos, sl)"] by (simp add: unf stay_def in_order_def)
    ultimately show ?case
      using split by (auto simp: unf stay_def in_order_def intro: outs_intros split: if_splits)
  qed
qed

section \<open>Fragments under construction\<close>

subsection \<open>Patching\<close>

definition patched :: "(nat \<times> nat) list \<Rightarrow> nat \<Rightarrow> nat \<Rightarrow> inst \<Rightarrow> inst" where
  "patched holes t i x = foldl (\<lambda>x h. if fst h = i then set_target x (snd h) t else x) x holes"

definition within :: "(nat \<times> nat) list \<Rightarrow> nat \<Rightarrow> nat \<Rightarrow> bool" where
  "within holes lo hi \<longleftrightarrow> (\<forall>h \<in> set holes. lo \<le> fst h \<and> fst h < hi)"

lemma length_patch_insts [simp]: "length (patch_insts holes t is) = length is"
  by (induction holes t "is" rule: patch_insts.induct) auto

lemma nth_patch_insts: "i < length is \<Longrightarrow> patch_insts holes t is ! i = patched holes t i (is ! i)"
  by (induction holes t "is" rule: patch_insts.induct) (auto simp: patched_def nth_list_update)

lemma patched_simps [simp]:
  "patched [] t i x = x"
  "patched (h # hs) t i x = patched hs t i (if fst h = i then set_target x (snd h) t else x)"
  by (simp_all add: patched_def)

lemma patched_append [simp]: "patched (H @ G) t i x = patched G t i (patched H t i x)"
  by (simp add: patched_def)

lemma patched_outside: "within holes lo hi \<Longrightarrow> i < lo \<or> hi \<le> i \<Longrightarrow> patched holes t i x = x"
  by (induction holes arbitrary: x) (auto simp: within_def)

lemma set_target_commute: "set_target (set_target x w t) v t = set_target (set_target x v t) w t"
  by (cases x) auto

lemma patched_set_target: "patched H t i (set_target x v t) = set_target (patched H t i x) v t"
proof (induction H arbitrary: x)
  case (Cons h H)
  show ?case by (simp add: Cons set_target_commute [of x v t "snd h"])
qed simp

lemma patched_commute: "patched H t i (patched G t i x) = patched G t i (patched H t i x)"
  by (induction G arbitrary: x) (simp_all add: patched_set_target)

lemma within_simps [simp]:
  "within [] lo hi"
  "within (h # hs) lo hi \<longleftrightarrow> (lo \<le> fst h \<and> fst h < hi) \<and> within hs lo hi"
  "within (H @ G) lo hi \<longleftrightarrow> within H lo hi \<and> within G lo hi"
  by (auto simp: within_def)

lemma within_mono: "within holes lo hi \<Longrightarrow> lo' \<le> lo \<Longrightarrow> hi \<le> hi' \<Longrightarrow> within holes lo' hi'"
  by (fastforce simp: within_def)

lemma take_patch_insts: "within holes lo hi \<Longrightarrow> take lo (patch_insts holes t is) = take lo is"
  by (rule nth_equalityI) (auto simp: nth_patch_insts patched_outside)

subsection \<open>One exit: \<open>laid\<close>; two exits: \<open>piece\<close>\<close>

text \<open>
  \<open>laid E is lo hi f A\<close>: the instructions \<open>lo..<hi\<close> of \<open>is\<close> make the fragment \<open>f\<close>; in a program that has
  them with the holes of \<open>f\<close> filled with \<open>ex\<close>, control flows from its start to \<open>ex\<close> by the ways of \<open>A\<close>.
  \<open>piece\<close> has holes of two kinds: those in \<open>holes\<close> leave for good, those in \<open>h\<close> to what follows, and
  the whole is a transformer of the ways of what follows.
\<close>

definition laid :: "env \<Rightarrow> inst list \<Rightarrow> nat \<Rightarrow> nat \<Rightarrow> frag \<Rightarrow> ways \<Rightarrow> bool" where
  "laid E is lo hi f A \<longleftrightarrow>
     lo \<le> f_start f \<and> f_start f < hi \<and> hi \<le> length is \<and> within (f_holes f) lo hi \<and>
     (\<forall>P ex. hi \<le> length P \<longrightarrow> (\<forall>i. lo \<le> i \<longrightarrow> i < hi \<longrightarrow> P ! i = patched (f_holes f) ex i (is ! i)) \<longrightarrow>
        flows E P (f_start f) ex A)"

definition piece ::
    "env \<Rightarrow> inst list \<Rightarrow> nat \<Rightarrow> nat \<Rightarrow> nat \<Rightarrow> (nat \<times> nat) list \<Rightarrow> (nat \<times> nat) list \<Rightarrow> (ways \<Rightarrow> ways) \<Rightarrow> bool" where
  "piece E is lo hi start holes h T \<longleftrightarrow>
     lo \<le> start \<and> start < hi \<and> hi \<le> length is \<and> within holes lo hi \<and> within h lo hi \<and>
     (\<forall>P ex y B. hi \<le> length P \<longrightarrow>
        (\<forall>i. lo \<le> i \<longrightarrow> i < hi \<longrightarrow> P ! i = patched holes ex i (patched h y i (is ! i))) \<longrightarrow>
        flows E P y ex B \<longrightarrow> flows E P start ex (T B))"

lemma laidD:
  "laid E is lo hi f A \<Longrightarrow> hi \<le> length P \<Longrightarrow>
   (\<And>i. lo \<le> i \<Longrightarrow> i < hi \<Longrightarrow> P ! i = patched (f_holes f) ex i (is ! i)) \<Longrightarrow> flows E P (f_start f) ex A"
  unfolding laid_def by blast

lemma pieceD:
  "piece E is lo hi start holes h T \<Longrightarrow> hi \<le> length P \<Longrightarrow>
   (\<And>i. lo \<le> i \<Longrightarrow> i < hi \<Longrightarrow> P ! i = patched holes ex i (patched h y i (is ! i))) \<Longrightarrow>
   flows E P y ex B \<Longrightarrow> flows E P start ex (T B)"
  unfolding piece_def by blast

lemma laid_cong:
  "laid E is lo hi f A \<Longrightarrow> hi \<le> length is' \<Longrightarrow> (\<And>i. lo \<le> i \<Longrightarrow> i < hi \<Longrightarrow> is' ! i = is ! i) \<Longrightarrow> laid E is' lo hi f A"
  unfolding laid_def by auto

lemma piece_cong:
  assumes p: "piece E is lo hi start holes h T" and "hi \<le> length is'"
    and eq: "\<And>i. lo \<le> i \<Longrightarrow> i < hi \<Longrightarrow> is' ! i = is ! i"
  shows "piece E is' lo hi start holes h T"
  unfolding piece_def
proof (intro conjI allI impI)
  fix P ex y B
  assume "hi \<le> length P" "flows E P y ex B"
    "\<forall>i. lo \<le> i \<longrightarrow> i < hi \<longrightarrow> P ! i = patched holes ex i (patched h y i (is' ! i))"
  then show "flows E P start ex (T B)" by (intro pieceD [OF p, of P ex y B]) (simp_all add: eq)
qed (use assms in \<open>auto simp: piece_def\<close>)

lemma laid_piece: "laid E is lo hi f A \<Longrightarrow> piece E is lo hi (f_start f) [] (f_holes f) (then_all A)"
  unfolding laid_def piece_def by (auto intro!: flows_then)

lemma piece_laid:
  assumes "piece E is lo hi start holes h T"
  shows "laid E is lo hi \<lparr>f_start = start, f_holes = holes @ h\<rparr> (T stay)"
  unfolding laid_def
proof (intro conjI allI impI)
  fix P ex
  assume "hi \<le> length P"
    "\<forall>i. lo \<le> i \<longrightarrow> i < hi \<longrightarrow> P ! i = patched (f_holes \<lparr>f_start = start, f_holes = holes @ h\<rparr>) ex i (is ! i)"
  then show "flows E P (f_start \<lparr>f_start = start, f_holes = holes @ h\<rparr>) ex (T stay)"
    using pieceD [OF assms, of P ex ex stay] flows_stay by (simp add: patched_commute [of h])
qed (use assms in \<open>auto simp: piece_def\<close>)

lemma piece_close:
  assumes p: "piece E is lo m start holes h T" and f: "laid E is m hi f A"
  shows "laid E (patch_insts h (f_start f) is) lo hi \<lparr>f_start = start, f_holes = holes @ f_holes f\<rparr> (T A)"
    (is "laid E ?is lo hi ?F _")
  unfolding laid_def
proof (intro conjI allI impI)
  have r: "lo \<le> start" "start < m" "m \<le> f_start f" "f_start f < hi" "hi \<le> length is"
    "within holes lo m" "within h lo m" "within (f_holes f) m hi"
    using p f by (auto simp: piece_def laid_def)
  then show "lo \<le> f_start ?F" "f_start ?F < hi" "hi \<le> length ?is" "within (f_holes ?F) lo hi"
    by (auto intro: within_mono)
  fix P ex
  assume len: "hi \<le> length P" and P: "\<forall>i. lo \<le> i \<longrightarrow> i < hi \<longrightarrow> P ! i = patched (f_holes ?F) ex i (?is ! i)"
  have "P ! i = patched holes ex i (patched h (f_start f) i (is ! i))" if "lo \<le> i" "i < m" for i
    using P r that patched_outside [OF r(8), of i] by (simp add: nth_patch_insts)
  moreover have "P ! i = patched (f_holes f) ex i (is ! i)" if "m \<le> i" "i < hi" for i
    using P r that patched_outside [OF r(6), of i] patched_outside [OF r(7), of i]
    by (simp add: nth_patch_insts)
  ultimately show "flows E P (f_start ?F) ex (T A)"
    using pieceD [OF p, of P ex "f_start f" A] laidD [OF f, of P ex] len r by simp
qed

lemma piece_join:
  assumes p: "piece E is lo m start holes h T" and q: "piece E is m hi start' holes' h' T'"
  shows "piece E (patch_insts h start' is) lo hi start (holes @ holes') h' (\<lambda>B. T (T' B))"
    (is "piece E ?is _ _ _ _ _ _")
  unfolding piece_def
proof (intro conjI allI impI)
  have r: "lo \<le> start" "start < m" "m \<le> start'" "start' < hi" "hi \<le> length is"
    "within holes lo m" "within h lo m" "within holes' m hi" "within h' m hi"
    using p q by (auto simp: piece_def)
  then show "lo \<le> start" "start < hi" "hi \<le> length ?is" "within (holes @ holes') lo hi" "within h' lo hi"
    by (auto intro: within_mono)
  fix P ex y B
  assume len: "hi \<le> length P" and y: "flows E P y ex B"
    and P: "\<forall>i. lo \<le> i \<longrightarrow> i < hi \<longrightarrow> P ! i = patched (holes @ holes') ex i (patched h' y i (?is ! i))"
  have "P ! i = patched holes ex i (patched h start' i (is ! i))" if "lo \<le> i" "i < m" for i
    using P r that patched_outside [OF r(8), of i] patched_outside [OF r(9), of i]
    by (simp add: nth_patch_insts)
  moreover have "P ! i = patched holes' ex i (patched h' y i (is ! i))" if "m \<le> i" "i < hi" for i
    using P r that patched_outside [OF r(6), of i] patched_outside [OF r(7), of i]
    by (simp add: nth_patch_insts)
  moreover from this have "flows E P start' ex (T' B)"
    using pieceD [OF q, of P ex y B] len y by simp
  ultimately show "flows E P start ex (T (T' B))"
    using pieceD [OF p, of P ex start' "T' B"] len r by simp
qed

text \<open>Two fragments one after the other.\<close>

lemma laid_join:
  assumes "laid E is lo m f A" and "laid E is m hi g B"
  shows "laid E (patch_insts (f_holes f) (f_start g) is) lo hi \<lparr>f_start = f_start f, f_holes = f_holes g\<rparr>
           (then_all A B)"
  using piece_close [OF laid_piece [OF assms(1)] assms(2)] by simp


section \<open>The builder\<close>

definition mode :: "env \<Rightarrow> nat \<Rightarrow> builder \<Rightarrow> bool" where
  "mode E nl b \<longleftrightarrow>
     saves b = e_saves E \<and> guards b = e_guards E \<and> \<not> reverse b \<and> (runs b \<longrightarrow> \<not> e_guards E) \<and> (\<forall>l < nl. look_ids b ! l = l)"

text \<open>A step of the builder that only adds instructions, in the same mode.\<close>

definition grows :: "builder \<Rightarrow> builder \<Rightarrow> bool" where
  "grows b b' \<longleftrightarrow>
     b\<lparr>b_insts := []\<rparr> = b'\<lparr>b_insts := []\<rparr> \<and> length (b_insts b) \<le> length (b_insts b') \<and>
     (\<forall>i < length (b_insts b). b_insts b' ! i = b_insts b ! i)"

lemma grows_refl [simp]: "grows b b"
  by (simp add: grows_def)

lemma grows_trans [trans]: "grows a b \<Longrightarrow> grows b c \<Longrightarrow> grows a c"
  by (simp add: grows_def)

lemma grows_length: "grows a b \<Longrightarrow> length (b_insts a) \<le> length (b_insts b)"
  by (simp add: grows_def)

lemma grows_nth: "grows a b \<Longrightarrow> i < length (b_insts a) \<Longrightarrow> b_insts b ! i = b_insts a ! i"
  by (simp add: grows_def)

lemma grows_mode: "grows b b' \<Longrightarrow> mode E nl b' = mode E nl b"
  by (cases b; cases b') (simp add: grows_def mode_def)

lemma grows_patch: "grows a b \<Longrightarrow> within holes (length (b_insts a)) hi \<Longrightarrow> grows a (patch holes t b)"
  by (auto simp: grows_def patch_def nth_patch_insts patched_outside)

lemma b_insts_patch [simp]: "b_insts (patch holes t b) = patch_insts holes t (b_insts b)"
  by (simp add: patch_def)

lemma push_Inr:
  assumes "push i b = Inr (n, b')"
  shows "n = length (b_insts b)" "b_insts b' = b_insts b @ [i]" "grows b b'"
  using assms by (auto simp: push_def too_large_def grows_def nth_append split: if_splits)

definition good :: "env \<Rightarrow> nat \<Rightarrow> frag build \<Rightarrow> ways \<Rightarrow> bool" where
  "good E nl c A \<longleftrightarrow>
     (\<forall>b f b'. mode E nl b \<longrightarrow> c b = Inr (f, b') \<longrightarrow>
        grows b b' \<and> laid E (b_insts b') (length (b_insts b)) (length (b_insts b')) f A)"

lemma goodI:
  "(\<And>b f b'. mode E nl b \<Longrightarrow> c b = Inr (f, b') \<Longrightarrow> grows b b') \<Longrightarrow>
   (\<And>b f b'. mode E nl b \<Longrightarrow> c b = Inr (f, b') \<Longrightarrow> grows b b' \<Longrightarrow>
      laid E (b_insts b') (length (b_insts b)) (length (b_insts b')) f A) \<Longrightarrow> good E nl c A"
  by (auto simp: good_def)

lemma goodD:
  assumes "good E nl c A" and "mode E nl b" and "c b = Inr (f, b')"
  shows "grows b b'" "laid E (b_insts b') (length (b_insts b)) (length (b_insts b')) f A"
  using assms by (auto simp: good_def)

subsection \<open>One instruction\<close>

lemma laid_one:
  assumes "\<And>P ex. get_at P n = Some (set_target i 0 ex) \<Longrightarrow> flows E P n ex A"
    and "is ! n = i" and "n < length is"
  shows "laid E is n (Suc n) (frag_at n) A"
  using assms by (auto simp: laid_def frag_at_def get_at_def)

lemma good_emit:
  assumes "\<And>P ex n. get_at P n = Some (set_target i 0 ex) \<Longrightarrow> flows E P n ex A"
  shows "good E nl (emit i) A"
proof (rule goodI)
  fix b f b'
  assume e: "emit i b = Inr (f, b')"
  then obtain n where "push i b = Inr (n, b')" "f = frag_at n" by (auto simp: emit_def)
  note p = push_Inr [OF this(1)] this(2)
  show "grows b b'" by (rule p)
  show "laid E (b_insts b') (length (b_insts b)) (length (b_insts b')) f A"
    using laid_one [of n i E A "b_insts b'"] assms p by simp
qed

lemma good_empty: "good E nl empty_frag stay"
  unfolding empty_frag_def by (rule good_emit) (simp add: flows_jmp)

lemma good_char: "good E nl (emit (I_Char si HOLE)) (\<lambda>pos sl. if hits E si pos then [(pos + 1, sl)] else [])"
  by (rule good_emit) (simp add: flows_char)

lemma good_guard: "good E nl (emit (I_Guard HOLE)) (\<lambda>pos sl. if pos \<le> e_end E then [(pos, sl)] else [])"
  by (rule good_emit) (simp add: flows_guard)

lemma good_look:
  assumes "l < nl"
  shows "good E nl (\<lambda>b. emit (I_Look (look_ids b ! l) HOLE) b) (\<lambda>pos sl. if e_look E l pos then [(pos, sl)] else [])"
proof -
  have "good E nl (emit (I_Look l HOLE)) (\<lambda>pos sl. if e_look E l pos then [(pos, sl)] else [])"
    by (rule good_emit) (simp add: flows_look)
  then show ?thesis using assms by (auto simp: good_def mode_def)
qed

subsection \<open>Sequences\<close>

fun laids :: "env \<Rightarrow> inst list \<Rightarrow> nat \<Rightarrow> nat \<Rightarrow> frag list \<Rightarrow> ways list \<Rightarrow> bool" where
  "laids E is lo hi [] As \<longleftrightarrow> As = [] \<and> lo = hi"
| "laids E is lo hi (f # fs) As \<longleftrightarrow>
     (\<exists>A Bs m. As = A # Bs \<and> laid E is lo m f A \<and> laids E is m hi fs Bs)"

lemma laid_bounds: "laid E is lo hi f A \<Longrightarrow> lo < hi \<and> hi \<le> length is"
  by (auto simp: laid_def)

lemma laids_le: "laids E is lo hi fs As \<Longrightarrow> lo \<le> hi"
  by (induction fs arbitrary: lo As) (fastforce dest!: laid_bounds)+

lemma laids_end: "laids E is lo hi fs As \<Longrightarrow> lo \<le> length is \<Longrightarrow> hi \<le> length is"
  by (induction fs arbitrary: lo As) (fastforce dest!: laid_bounds)+

lemma seq_all_Nil: "seq_all [] = stay"
  by (rule ext)+ (simp add: stay_def)

lemma laids_cong:
  "laids E is lo hi fs As \<Longrightarrow> hi \<le> length is' \<Longrightarrow> (\<And>i. lo \<le> i \<Longrightarrow> i < hi \<Longrightarrow> is' ! i = is ! i) \<Longrightarrow>
   laids E is' lo hi fs As"
proof (induction E "is" lo hi fs As rule: laids.induct)
  case (2 E "is" lo hi f fs As)
  from 2(2) obtain A Bs m where *: "As = A # Bs" "laid E is lo m f A" "laids E is m hi fs Bs" by auto
  then have "m \<le> hi" "lo < m" using laids_le laid_bounds by blast+
  with * have "laid E is' lo m f A" using 2(3,4) by (auto intro: laid_cong)
  moreover have "laids E is' m hi fs Bs"
    by (rule 2(1) [OF _ 2(3)]) (use * \<open>lo < m\<close> 2(4) in auto)
  ultimately show ?case using * by auto
qed simp

lemma comp_each_laids:
  assumes "list_all2 (good E nl) cs As" and "mode E nl b" and "comp_each cs b = Inr (fs, b')"
  shows "grows b b' \<and> laids E (b_insts b') (length (b_insts b)) (length (b_insts b')) fs As"
  using assms
proof (induction cs As arbitrary: b fs rule: list_all2_induct)
  case (Cons c cs A As)
  from Cons.prems obtain f b1 fs' where c: "c b = Inr (f, b1)" and r: "comp_each cs b1 = Inr (fs', b')"
    and fs: "fs = f # fs'" by auto
  note g = goodD [OF Cons.hyps(1) Cons.prems(1) c]
  have ih: "grows b1 b'" "laids E (b_insts b') (length (b_insts b1)) (length (b_insts b')) fs' As"
    using Cons.IH [OF _ r] Cons.prems(1) g(1) by (simp_all add: grows_mode)
  have "laid E (b_insts b') (length (b_insts b)) (length (b_insts b1)) f A"
    by (rule laid_cong [OF g(2)]) (use ih(1) in \<open>auto simp: grows_length grows_nth\<close>)
  then show ?case using fs ih g(1) grows_trans by auto
qed simp

lemma grows_patch_laid:
  "grows a b \<Longrightarrow> laid E (b_insts b) (length (b_insts a)) hi f A \<Longrightarrow> grows a (patch (f_holes f) t b)"
  by (auto simp: laid_def intro: grows_patch)

lemma chain_laid:
  assumes "laid E (b_insts b) lo m \<lparr>f_start = start, f_holes = holes\<rparr> A"
    and "laids E (b_insts b) m hi fs As" and "chain start holes fs b = (F, b')"
    and "grows a b" and "lo = length (b_insts a)"
  shows "grows a b' \<and> length (b_insts b') = length (b_insts b) \<and> laid E (b_insts b') lo hi F (seq_all (A # As))"
  using assms
proof (induction fs arbitrary: b m holes A As)
  case Nil
  then show ?case by (auto simp: seq_all_single)
next
  case (Cons f fs)
  from Cons.prems(2) obtain B Bs k where As: "As = B # Bs" and f: "laid E (b_insts b) m k f B"
    and rest: "laids E (b_insts b) k hi fs Bs" by auto
  let ?b = "patch holes (f_start f) b"
  have j: "laid E (b_insts ?b) lo k \<lparr>f_start = start, f_holes = f_holes f\<rparr> (then_all A B)"
    using laid_join [OF Cons.prems(1) f] by simp
  have w: "within holes lo m" "m < k" using Cons.prems(1) f by (auto simp: laid_def)
  have "hi \<le> length (b_insts b)"
    using laids_end [OF rest] laid_bounds [OF f] by simp
  then have r: "laids E (b_insts ?b) k hi fs Bs"
    using w by (intro laids_cong [OF rest]) (auto simp: nth_patch_insts patched_outside)
  have g: "grows a ?b" using Cons.prems(4,5) w by (auto intro: grows_patch)
  from Cons.IH [OF j r _ g] Cons.prems(3,5) show ?case
    by (simp add: As seq_all_then del: seq_all.simps)
qed

lemma good_seq:
  assumes "list_all2 (good E nl) cs As"
  shows "good E nl (\<lambda>b. andthen (comp_each cs b) (\<lambda>(fs, b). concat_frags fs b)) (seq_all As)"
proof -
  have "grows b b' \<and> laid E (b_insts b') (length (b_insts b)) (length (b_insts b')) f (seq_all As)"
    if b: "mode E nl b" and c: "comp_each cs b = Inr (fs, b1)" and f: "concat_frags fs b1 = Inr (f, b')"
    for b fs b1 f b'
  proof (cases fs)
    case Nil
    then have cs: "cs = []" "b1 = b" using c by (cases cs; auto)+
    then have "As = []" using assms by simp
    with f Nil cs goodD [OF good_empty b, of f b'] show ?thesis
      by (simp add: seq_all_Nil)
  next
    case (Cons g gs)
    note e = comp_each_laids [OF assms b c]
    then obtain A Bs m where As: "As = A # Bs" and g: "laid E (b_insts b1) (length (b_insts b)) m g A"
      and gs: "laids E (b_insts b1) m (length (b_insts b1)) gs Bs" using Cons by auto
    have "chain (f_start g) (f_holes g) gs b1 = (f, b')" using f Cons by simp
    from chain_laid [OF _ gs this conjunct1 [OF e] refl, of A] g show ?thesis
      by (cases g) (simp add: As del: seq_all.simps)
  qed
  then show ?thesis by (auto simp: good_def)
qed


subsection \<open>Alternatives\<close>

definition both :: "ways \<Rightarrow> ways \<Rightarrow> ways" where
  "both A B pos sl = A pos sl @ B pos sl"

lemma alt_all_simps:
  "alt_all [A] = A" "alt_all (A # As) = both A (alt_all As)"
  by (rule ext, rule ext, simp add: alt_all_def both_def)+

text \<open>A split into a fragment: its second side is still open.\<close>

lemma split_piece:
  assumes "laid E is (Suc s) hi f A" and "is ! s = I_Split HOLE HOLE"
  shows "piece E (patch_insts [(s, 0)] (f_start f) is) s hi s (f_holes f) [(s, 1)] (both A)"
  unfolding piece_def
proof (intro conjI allI impI)
  have r: "within (f_holes f) (Suc s) hi" "s < hi" "hi \<le> length is" using assms(1) by (auto simp: laid_def)
  then show "within (f_holes f) s hi" "s < hi" "hi \<le> length (patch_insts [(s, 0)] (f_start f) is)"
    "within [(s, 1)] s hi" by (auto intro: within_mono)
  fix P ex y B
  assume len: "hi \<le> length P" and y: "flows E P y ex B"
    and P: "\<forall>i. s \<le> i \<longrightarrow> i < hi \<longrightarrow>
      P ! i = patched (f_holes f) ex i (patched [(s, 1)] y i (patch_insts [(s, 0)] (f_start f) is ! i))"
  have "get_at P s = Some (I_Split (f_start f) y)"
    using P [rule_format, of s] len r assms(2) patched_outside [OF r(1), of s]
    by (simp add: get_at_def nth_patch_insts del: patch_insts.simps)
  moreover have "flows E P (f_start f) ex A"
    by (rule laidD [OF assms(1) len]) (use P r in \<open>auto simp: nth_patch_insts simp del: patch_insts.simps\<close>)
  ultimately show "flows E P s ex (both A B)"
    using flows_split [of P s True "f_start f" y E ex A B] y
    by (simp add: in_order_def both_def [abs_def])
qed simp

lemma comp_alts_open:
  assumes "list_all2 (good E nl) cs As" and "cs \<noteq> []" and "mode E nl b" and "grows a b"
    and "piece E (b_insts b) (length (b_insts a)) (length (b_insts b)) start holes [(l, 1)] T"
    and "comp_alts cs holes start (Some l) b = Inr (F, b')"
  shows "grows a b' \<and> laid E (b_insts b') (length (b_insts a)) (length (b_insts b')) F (T (alt_all As))"
  using assms
proof (induction cs As arbitrary: b holes l T rule: list_all2_induct)
  case (Cons c cs A As)
  note p = Cons.prems(4)
  then have w: "within [(l, 1)] (length (b_insts a)) (length (b_insts b))" by (simp add: piece_def)
  show ?case
  proof (cases "cs = []")
    case True
    then have As: "As = []" using Cons.hyps by simp
    from Cons.prems(5) True obtain f b1 where c: "c b = Inr (f, b1)"
      and F: "F = \<lparr>f_start = start, f_holes = holes @ f_holes f\<rparr>" and b': "b' = patch [(l, 1)] (f_start f) b1"
      by (auto simp: Let_def)
    note g = goodD [OF Cons.hyps(1) Cons.prems(2) c]
    have "piece E (b_insts b1) (length (b_insts a)) (length (b_insts b)) start holes [(l, 1)] T"
      by (rule piece_cong [OF p]) (use g(1) in \<open>auto simp: grows_length grows_nth\<close>)
    from piece_close [OF this g(2)] show ?thesis
      using grows_patch [OF grows_trans [OF Cons.prems(3) g(1)] w] by (simp add: F b' As alt_all_simps(1))
  next
    case False
    then obtain s b1 f b2 where s: "push (I_Split HOLE HOLE) b = Inr (s, b1)" and c: "c b1 = Inr (f, b2)"
      and rest: "comp_alts cs (holes @ f_holes f) start (Some s)
                   (patch [(l, 1)] s (patch [(s, 0)] (f_start f) b2)) = Inr (F, b')"
      using Cons.prems(5) by (auto simp: Let_def)
    note p1 = push_Inr [OF s]
    have m1: "mode E nl b1" using Cons.prems(2) p1(3) by (simp add: grows_mode)
    note g = goodD [OF Cons.hyps(1) m1 c]
    let ?b3 = "patch [(s, 0)] (f_start f) b2"
    have "b_insts b2 ! s = I_Split HOLE HOLE" using g(1) p1(1,2) by (simp add: grows_nth)
    with g(2) p1 have q: "piece E (b_insts ?b3) s (length (b_insts b2)) s (f_holes f) [(s, 1)] (both A)"
      using split_piece [of E "b_insts b2" s "length (b_insts b2)" f A] by simp
    have gb3: "grows b ?b3"
      by (rule grows_patch [OF grows_trans [OF p1(3) g(1)], where hi = "Suc s"]) (use p1(1) in simp)
    have "piece E (b_insts ?b3) (length (b_insts a)) s start holes [(l, 1)] T"
      unfolding p1(1)
      by (rule piece_cong [OF p]) (use gb3 in \<open>auto simp: grows_length grows_nth p1(1) simp del: b_insts_patch patch_insts.simps\<close>)
    from piece_join [OF this q]
    have j: "piece E (b_insts (patch [(l, 1)] s ?b3)) (length (b_insts a)) (length (b_insts (patch [(l, 1)] s ?b3)))
        start (holes @ f_holes f) [(s, 1)] (\<lambda>B. T (both A B))" by simp
    have ga: "grows a (patch [(l, 1)] s ?b3)"
      using grows_patch [OF grows_trans [OF Cons.prems(3) gb3] w] .
    have m3: "mode E nl (patch [(l, 1)] s ?b3)" using Cons.prems(2,3) ga by (simp add: grows_mode)
    from Cons.IH [OF False m3 ga j rest] show ?thesis by (simp add: alt_all_simps)
  qed
qed simp

lemma good_alts:
  assumes "list_all2 (good E nl) cs As" and "cs \<noteq> []"
  shows "good E nl (comp_alts cs [] HOLE None) (alt_all As)"
proof -
  obtain c cs' A As' where cs: "cs = c # cs'" "As = A # As'" and c: "good E nl c A"
    and rest: "list_all2 (good E nl) cs' As'" using assms by (cases cs; cases As) auto
  have "grows b b' \<and> laid E (b_insts b') (length (b_insts b)) (length (b_insts b')) F (alt_all As)"
    if b: "mode E nl b" and r: "comp_alts cs [] HOLE None b = Inr (F, b')" for b F b'
  proof (cases "cs' = []")
    case True
    with r cs have "c b = Inr (F, b')" by (cases F) (auto simp: Let_def)
    with goodD [OF c b] True rest show ?thesis by (simp add: cs alt_all_simps(1))
  next
    case False
    with r cs obtain s b1 f b2 where s: "push (I_Split HOLE HOLE) b = Inr (s, b1)" and f: "c b1 = Inr (f, b2)"
      and r': "comp_alts cs' (f_holes f) s (Some s) (patch [(s, 0)] (f_start f) b2) = Inr (F, b')"
      by (auto simp: Let_def)
    note p1 = push_Inr [OF s]
    have m1: "mode E nl b1" using b p1(3) by (simp add: grows_mode)
    note g = goodD [OF c m1 f]
    let ?b3 = "patch [(s, 0)] (f_start f) b2"
    have "b_insts b2 ! s = I_Split HOLE HOLE" using g(1) p1(1,2) by (simp add: grows_nth)
    with g(2) p1 have q: "piece E (b_insts ?b3) (length (b_insts b)) (length (b_insts ?b3)) s (f_holes f) [(s, 1)] (both A)"
      using split_piece [of E "b_insts b2" s "length (b_insts b2)" f A] by simp
    have gb: "grows b ?b3" by (rule grows_patch [OF grows_trans [OF p1(3) g(1)], where hi = "Suc s"]) (use p1(1) in simp)
    have "mode E nl ?b3" using b gb by (simp add: grows_mode)
    from comp_alts_open [OF rest False this gb q r'] show ?thesis by (simp add: cs alt_all_simps)
  qed
  then show ?thesis by (simp add: good_def)
qed

subsection \<open>Repeats\<close>

lemma split_target:
  "set_target (set_target (I_Split HOLE HOLE) (body_side greedy) x) (exit_side greedy) y =
     (if greedy then I_Split x y else I_Split y x)"
  by (simp add: body_side_def exit_side_def)

lemma good_loop:
  assumes c: "good E nl c A" and adv: "advances E A"
  shows "good E nl (comp_loop greedy c) (star_all (e_end E) greedy A)"
proof -
  have "grows b b' \<and> laid E (b_insts b') (length (b_insts b)) (length (b_insts b')) F (star_all (e_end E) greedy A)"
    if b: "mode E nl b" and r: "comp_loop greedy c b = Inr (F, b')" for b F b'
  proof -
    from r obtain s b1 f b2 where s: "push (I_Split HOLE HOLE) b = Inr (s, b1)" and f: "c b1 = Inr (f, b2)"
      and F: "F = \<lparr>f_start = s, f_holes = [(s, exit_side greedy)]\<rparr>"
      and b': "b' = patch (f_holes f) s (patch [(s, body_side greedy)] (f_start f) b2)"
      by (auto simp: comp_loop_def Let_def)
    note p1 = push_Inr [OF s]
    have m1: "mode E nl b1" using b p1(3) by (simp add: grows_mode)
    note g = goodD [OF c m1 f]
    have w: "within (f_holes f) (Suc s) (length (b_insts b2))" "s < length (b_insts b2)"
      using g(2) p1 by (auto simp: laid_def)
    have at_s: "b_insts b2 ! s = I_Split HOLE HOLE" using g(1) p1(1,2) by (simp add: grows_nth)
    have gb: "grows b b'" unfolding b'
      by (intro grows_patch [where hi = "length (b_insts b2)"] grows_trans [OF p1(3) g(1)])
        (use w p1(1) in \<open>auto intro: within_mono\<close>)
    have "flows E P s ex (star_all (e_end E) greedy A)"
      if len: "length (b_insts b2) \<le> length P"
        and P: "\<And>i. s \<le> i \<Longrightarrow> i < length (b_insts b2) \<Longrightarrow> P ! i = patched [(s, exit_side greedy)] ex i (b_insts b' ! i)"
      for P ex
    proof (rule flows_star)
      show "get_at P s = Some (if greedy then I_Split (f_start f) ex else I_Split ex (f_start f))"
        using P [of s] len w at_s split_target patched_outside [OF w(1), of s]
        by (simp add: get_at_def b' nth_patch_insts del: patch_insts.simps)
      show "flows E P (f_start f) s A"
        by (rule laidD [OF g(2)])
          (use P p1 len w(2) in \<open>auto simp: b' nth_patch_insts simp del: patch_insts.simps\<close>)
    qed (rule adv)
    then show ?thesis using gb w p1(1)
      by (auto simp: laid_def F b')
  qed
  then show ?thesis by (simp add: good_def)
qed

definition opt :: "bool \<Rightarrow> ways \<Rightarrow> ways \<Rightarrow> ways" where
  "opt greedy A B pos sl = in_order greedy (then_all A B pos sl) (stay pos sl)"

lemma opts_all_Suc: "opts_all (Suc n) greedy A = opt greedy A (opts_all n greedy A)"
  by (rule ext)+ (simp add: opt_def then_all_def stay_def)

lemma opts_all_0: "opts_all 0 greedy A = stay"
  by (rule ext)+ (simp add: stay_def)

text \<open>A split into one more iteration: its exit leaves for good, the body's holes go on.\<close>

lemma opt_piece:
  assumes "laid E is (Suc s) hi f A" and "is ! s = I_Split HOLE HOLE"
  shows "piece E (patch_insts [(s, body_side greedy)] (f_start f) is) s hi s [(s, exit_side greedy)] (f_holes f)
           (opt greedy A)"
    (is "piece E ?is _ _ _ _ _ _")
  unfolding piece_def
proof (intro conjI allI impI)
  have r: "within (f_holes f) (Suc s) hi" "s < hi" "hi \<le> length is" using assms(1) by (auto simp: laid_def)
  then show "within (f_holes f) s hi" "s < hi" "hi \<le> length ?is" "within [(s, exit_side greedy)] s hi"
    by (auto intro: within_mono)
  fix P ex y B
  assume len: "hi \<le> length P" and y: "flows E P y ex B"
    and P: "\<forall>i. s \<le> i \<longrightarrow> i < hi \<longrightarrow>
      P ! i = patched [(s, exit_side greedy)] ex i (patched (f_holes f) y i (?is ! i))"
  have "get_at P s = Some (if greedy then I_Split (f_start f) ex else I_Split ex (f_start f))"
    using P [rule_format, of s] len r assms(2) split_target patched_outside [OF r(1), of s]
    by (simp add: get_at_def nth_patch_insts del: patch_insts.simps)
  moreover have "flows E P (f_start f) y A"
    by (rule laidD [OF assms(1) len]) (use P r in \<open>auto simp: nth_patch_insts simp del: patch_insts.simps\<close>)
  ultimately show "flows E P s ex (opt greedy A B)"
    using flows_split [of P s greedy "f_start f" ex E ex "then_all A B" stay] flows_then [OF _ y] flows_stay
    by (simp add: opt_def [abs_def])
qed simp

lemma opts_step:
  fixes greedy :: bool
  assumes c: "good E nl c A" and b: "mode E nl b"
    and s: "push (I_Split HOLE HOLE) b = Inr (s, b1)" and f: "c b1 = Inr (f, b2)"
  defines "b3 \<equiv> patch [(s, body_side greedy)] (f_start f) b2"
  shows "grows b b3"
    "piece E (b_insts b3) s (length (b_insts b3)) s [(s, exit_side greedy)] (f_holes f) (opt greedy A)"
proof -
  note p1 = push_Inr [OF s]
  have m1: "mode E nl b1" using b p1(3) by (simp add: grows_mode)
  note g = goodD [OF c m1 f]
  have at_s: "b_insts b2 ! s = I_Split HOLE HOLE" using g(1) p1(1,2) by (simp add: grows_nth)
  show "grows b b3" unfolding b3_def
    by (rule grows_patch [OF grows_trans [OF p1(3) g(1)], where hi = "Suc s"]) (use p1(1) in simp)
  show "piece E (b_insts b3) s (length (b_insts b3)) s [(s, exit_side greedy)] (f_holes f) (opt greedy A)"
    using opt_piece [of E "b_insts b2" s "length (b_insts b2)" f A greedy] at_s g(2) p1
    by (simp add: b3_def)
qed

lemma comp_opts_open:
  assumes c: "good E nl c A" and "mode E nl b" and "grows a b"
    and "piece E (b_insts b) (length (b_insts a)) (length (b_insts b)) start exits h T"
    and "comp_opts n greedy c exits start (Some h) b = Inr (F, b')"
  shows "grows a b' \<and> laid E (b_insts b') (length (b_insts a)) (length (b_insts b')) F (T (opts_all n greedy A))"
  using assms(2-)
proof (induction n arbitrary: b exits h T)
  case 0
  then show ?case using piece_laid [OF 0(3)] by (auto simp: opts_all_0)
next
  case (Suc n)
  from Suc.prems(4) obtain s b1 f b2 where s: "push (I_Split HOLE HOLE) b = Inr (s, b1)" and f: "c b1 = Inr (f, b2)"
    and r: "comp_opts n greedy c (exits @ [(s, exit_side greedy)]) start (Some (f_holes f))
              (patch h s (patch [(s, body_side greedy)] (f_start f) b2)) = Inr (F, b')"
    by (auto simp: Let_def)
  note st = opts_step [OF c Suc.prems(1) s f, where greedy = greedy]
  let ?b3 = "patch [(s, body_side greedy)] (f_start f) b2"
  have w: "within h (length (b_insts a)) (length (b_insts b))" using Suc.prems(3) by (simp add: piece_def)
  have "piece E (b_insts ?b3) (length (b_insts a)) s start exits h T"
    unfolding push_Inr(1) [OF s]
    by (rule piece_cong [OF Suc.prems(3)])
      (use st(1) push_Inr(1) [OF s] in \<open>auto simp: grows_length grows_nth simp del: b_insts_patch patch_insts.simps\<close>)
  from piece_join [OF this st(2)]
  have j: "piece E (b_insts (patch h s ?b3)) (length (b_insts a)) (length (b_insts (patch h s ?b3)))
      start (exits @ [(s, exit_side greedy)]) (f_holes f) (\<lambda>B. T (opt greedy A B))" by simp
  have ga: "grows a (patch h s ?b3)" using grows_patch [OF grows_trans [OF Suc.prems(2) st(1)] w] .
  have m3: "mode E nl (patch h s ?b3)" using Suc.prems(1,2) ga by (simp add: grows_mode)
  from Suc.IH [OF m3 ga j r] show ?case by (simp add: opts_all_Suc)
qed

lemma good_opts:
  assumes c: "good E nl c A" and "0 < n"
  shows "good E nl (comp_opts n greedy c [] HOLE None) (opts_all n greedy A)"
proof -
  obtain k where n: "n = Suc k" using assms(2) by (cases n) auto
  have "grows b b' \<and> laid E (b_insts b') (length (b_insts b)) (length (b_insts b')) F (opts_all n greedy A)"
    if b: "mode E nl b" and r: "comp_opts n greedy c [] HOLE None b = Inr (F, b')" for b F b'
  proof -
    from r n obtain s b1 f b2 where s: "push (I_Split HOLE HOLE) b = Inr (s, b1)" and f: "c b1 = Inr (f, b2)"
      and r': "comp_opts k greedy c [(s, exit_side greedy)] s (Some (f_holes f))
                (patch [(s, body_side greedy)] (f_start f) b2) = Inr (F, b')"
      by (auto simp: Let_def)
    note st = opts_step [OF c b s f, where greedy = greedy]
    have "mode E nl (patch [(s, body_side greedy)] (f_start f) b2)" using b st(1) by (simp add: grows_mode)
    from comp_opts_open [OF c this st(1) _ r'] st(2) push_Inr(1) [OF s] show ?thesis by (simp add: n opts_all_Suc)
  qed
  then show ?thesis by (simp add: good_def)
qed


definition guard_ways :: "env \<Rightarrow> ways" where
  "guard_ways E pos sl = (if pos \<le> e_end E then [(pos, sl)] else [])"

lemma comp_each_append:
  "comp_each (cs @ ds) b =
     andthen (comp_each cs b) (\<lambda>(fs, b). andthen (comp_each ds b) (\<lambda>(gs, b). Inr (fs @ gs, b)))"
proof (induction cs arbitrary: b)
  case Nil
  then show ?case by (cases "comp_each ds b") auto
next
  case (Cons c cs)
  then show ?case
    by (cases "c b") (auto simp: andthen_def split: sum.splits)
qed

text \<open>The parts of a repeat as one sequence.\<close>

lemma comp_repeat_seq:
  "comp_repeat mn mx greedy simple c b =
     andthen (comp_each
       ((if simple \<and> guards b then [emit (I_Guard HOLE)] else []) @ replicate mn c @
        (case mx of None \<Rightarrow> [comp_loop greedy c]
         | Some m \<Rightarrow> if m - mn > 0 then [comp_opts (m - mn) greedy c [] HOLE None] else [])) b)
       (\<lambda>(fs, b). concat_frags fs b)"
  by (cases mx)
    (auto simp: comp_repeat_def comp_each_append andthen_def split: sum.splits prod.splits)

lemma seq_all_replicate_stay: "seq_all (fs @ [stay]) = seq_all fs"
proof (induction fs)
  case Nil
  show ?case by (rule ext)+ (simp add: stay_def)
next
  case (Cons f fs)
  then show ?case by (simp only: append_Cons seq_all_Cons)
qed

lemma rep_all_seq:
  "rep_all E mn mx greedy simple A =
     seq_all ((if simple \<and> e_guards E then [guard_ways E] else []) @ replicate mn A @
       (case mx of None \<Rightarrow> [star_all (e_end E) greedy A]
        | Some m \<Rightarrow> if m - mn > 0 then [opts_all (m - mn) greedy A] else []))"
proof -
  have "seq_all (replicate mn A @ (case mx of None \<Rightarrow> [star_all (e_end E) greedy A]
      | Some m \<Rightarrow> if m - mn > 0 then [opts_all (m - mn) greedy A] else [])) =
    seq_all (replicate mn A @ [case mx of None \<Rightarrow> star_all (e_end E) greedy A | Some m \<Rightarrow> opts_all (m - mn) greedy A])"
    by (cases mx) (auto simp: opts_all_0 seq_all_replicate_stay)
  then show ?thesis
    by (intro ext) (auto simp: rep_all_def guard_ways_def)
qed

lemma good_repeat:
  assumes c: "good E nl c A" and adv: "mx = None \<Longrightarrow> advances E A"
  shows "good E nl (comp_repeat mn mx greedy simple c) (rep_all E mn mx greedy simple A)"
proof -
  let ?cs = "\<lambda>gd. (if simple \<and> gd then [emit (I_Guard HOLE)] else []) @ replicate mn c @
    (case mx of None \<Rightarrow> [comp_loop greedy c]
     | Some m \<Rightarrow> if m - mn > 0 then [comp_opts (m - mn) greedy c [] HOLE None] else [])"
  have "list_all2 (good E nl) (?cs (e_guards E))
    ((if simple \<and> e_guards E then [guard_ways E] else []) @ replicate mn A @
       (case mx of None \<Rightarrow> [star_all (e_end E) greedy A]
        | Some m \<Rightarrow> if m - mn > 0 then [opts_all (m - mn) greedy A] else []))"
    using c adv good_guard [of E nl]
    by (intro list_all2_appendI)
      (auto simp: list_all2_conv_all_nth good_loop good_opts guard_ways_def [abs_def] split: option.splits)
  from good_seq [OF this]
  show ?thesis unfolding rep_all_seq good_def mode_def comp_repeat_seq by simp
qed

subsection \<open>Groups\<close>

lemma concat_map_single: "concat (map (\<lambda>x. [g x]) xs) = map g xs"
  by (induction xs) auto

lemma good_group:
  assumes c: "good E nl c A" and "e_saves E"
  shows "good E nl
    (\<lambda>b. andthen (push (I_Save k HOLE) b) (\<lambda>(a, b). andthen (c b) (\<lambda>(f, b).
           let b = patch [(a, 0)] (f_start f) b
           in andthen (push (I_Save j HOLE) b) (\<lambda>(z, b).
                Inr (\<lparr>f_start = a, f_holes = [(z, 0)]\<rparr>, patch (f_holes f) z b)))))
    (\<lambda>pos sl. map (\<lambda>(p, s). (p, save_slot (e_slots E) j p s)) (A pos (save_slot (e_slots E) k pos sl)))"
    (is "good E nl ?c ?A")
proof -
  let ?S = "\<lambda>k pos sl. [(pos, save_slot (e_slots E) k pos sl)]"
  have A: "?A = then_all (then_all (?S k) A) (?S j)"
    by (intro ext) (simp add: then_all_def concat_map_single case_prod_beta)
  have "grows b b' \<and> laid E (b_insts b') (length (b_insts b)) (length (b_insts b')) F ?A"
    if b: "mode E nl b" and r: "?c b = Inr (F, b')" for b F b'
  proof -
    from r obtain a b1 f b2 z b4 where a: "push (I_Save k HOLE) b = Inr (a, b1)" and f: "c b1 = Inr (f, b2)"
      and z: "push (I_Save j HOLE) (patch [(a, 0)] (f_start f) b2) = Inr (z, b4)"
      and F: "F = \<lparr>f_start = a, f_holes = [(z, 0)]\<rparr>" and b': "b' = patch (f_holes f) z b4"
      by (auto simp: Let_def)
    let ?b3 = "patch [(a, 0)] (f_start f) b2"
    note pa = push_Inr [OF a] and pz = push_Inr [OF z]
    have m1: "mode E nl b1" using b pa(3) by (simp add: grows_mode)
    note g = goodD [OF c m1 f]
    have "laid E (b_insts b2) a (Suc a) (frag_at a) (?S k)"
      by (rule laid_one) (use g(1) pa in \<open>auto simp: flows_save grows_nth dest: grows_length\<close>)
    from laid_join [OF this, of "length (b_insts b2)" f A] g(2) pa
    have l3: "laid E (b_insts ?b3) a (length (b_insts ?b3)) \<lparr>f_start = a, f_holes = f_holes f\<rparr> (then_all (?S k) A)"
      by (simp add: frag_at_def)
    have gb3: "grows b ?b3"
      by (rule grows_patch [OF grows_trans [OF pa(3) g(1)], where hi = "Suc a"]) (use pa(1) in simp)
    have l4: "laid E (b_insts b4) a z \<lparr>f_start = a, f_holes = f_holes f\<rparr> (then_all (?S k) A)"
      unfolding pz(1) by (rule laid_cong [OF l3]) (use pz in \<open>auto simp: nth_append simp del: patch_insts.simps\<close>)
    have "laid E (b_insts b4) z (length (b_insts b4)) (frag_at z) (?S j)"
      using laid_one [of z "I_Save j HOLE" E "?S j" "b_insts b4"] pz by (simp add: flows_save nth_append)
    from laid_join [OF l4 this]
    have "laid E (b_insts b') a (length (b_insts b')) F ?A" by (simp add: F b' A frag_at_def)
    moreover have "grows b b'"
      unfolding b' by (rule grows_patch [OF grows_trans [OF gb3 pz(3)], where hi = z])
        (use l4 pa(1) in \<open>auto simp: laid_def\<close>)
    ultimately show ?thesis using pa(1) by simp
  qed
  then show ?thesis by (simp only: good_def) blast
qed


section \<open>The compiler\<close>

text \<open>
  What a lowered pattern satisfies: its tests are among the \<open>nl\<close> of the pattern, there is an
  alternative wherever there is a choice, the bounds of a repeat
  are in order, and the body of an unbounded repeat reads at least one character (lowering refuses the
  others).
\<close>

fun least :: "hir \<Rightarrow> nat" where
  "least H_Empty = 0"
| "least (H_Char s) = 1"
| "least (H_Look l) = 0"
| "least (H_Group g b) = least b"
| "least (H_Concat v) = sum_list (map least v)"
| "least (H_Alt v) = (if v = [] then 0 else Min (set (map least v)))"
| "least (H_Repeat mn mx greedy simple b) = mn * least b"

primrec hir_ok :: "nat \<Rightarrow> hir \<Rightarrow> bool" where
  "hir_ok nl H_Empty \<longleftrightarrow> True"
| "hir_ok nl (H_Char s) \<longleftrightarrow> True"
| "hir_ok nl (H_Look l) \<longleftrightarrow> l < nl"
| "hir_ok nl (H_Group g b) \<longleftrightarrow> hir_ok nl b"
| "hir_ok nl (H_Concat v) \<longleftrightarrow> list_all (\<lambda>x. x) (map (hir_ok nl) v)"
| "hir_ok nl (H_Alt v) \<longleftrightarrow> v \<noteq> [] \<and> list_all (\<lambda>x. x) (map (hir_ok nl) v)"
| "hir_ok nl (H_Repeat mn mx greedy simple b) \<longleftrightarrow>
     hir_ok nl b \<and> (case mx of None \<Rightarrow> 0 < least b | Some m \<Rightarrow> mn \<le> m \<and> m \<noteq> HOLE)"

text \<open>Every way of a pattern reads at least \<open>least\<close> characters, and none past the window's end.\<close>

definition reads :: "env \<Rightarrow> nat \<Rightarrow> ways \<Rightarrow> bool" where
  "reads E n A \<longleftrightarrow>
     (\<forall>pos sl. \<forall>x \<in> set (A pos sl). pos + n \<le> fst x \<and> (fst x \<le> e_end E \<or> fst x = pos))"

lemma readsI:
  "(\<And>pos sl p s. (p, s) \<in> set (A pos sl) \<Longrightarrow> pos + n \<le> p \<and> (p \<le> e_end E \<or> p = pos)) \<Longrightarrow> reads E n A"
  unfolding reads_def by (metis prod.collapse)

lemma readsD: "reads E n A \<Longrightarrow> (p, s) \<in> set (A pos sl) \<Longrightarrow> pos + n \<le> p \<and> (p \<le> e_end E \<or> p = pos)"
  by (auto simp: reads_def dest!: spec [of _ pos] spec [of _ sl] bspec)

lemma reads_mono: "reads E n A \<Longrightarrow> m \<le> n \<Longrightarrow> reads E m A"
  by (fastforce simp: reads_def)

lemma reads_advances: "reads E n A \<Longrightarrow> 0 < n \<Longrightarrow> advances E A"
  by (fastforce simp: reads_def advances_def)

lemma reads_stay: "reads E 0 stay"
  by (simp add: reads_def stay_def)

lemma reads_then: "reads E n A \<Longrightarrow> reads E m B \<Longrightarrow> reads E (n + m) (then_all A B)"
  unfolding reads_def then_all_def by (fastforce simp: add.assoc [symmetric])

lemma reads_seq: "list_all2 (reads E) ns As \<Longrightarrow> reads E (sum_list ns) (seq_all As)"
  by (induction rule: list_all2_induct) (simp_all add: seq_all_Nil seq_all_Cons reads_stay reads_then del: seq_all.simps)

lemma reads_in_order:
  "reads E n A \<Longrightarrow> reads E n B \<Longrightarrow> reads E n (\<lambda>pos sl. in_order greedy (A pos sl) (B pos sl))"
  by (rule readsI) (auto simp: in_order_def dest: readsD split: if_splits)

lemma reads_opts: "reads E n A \<Longrightarrow> reads E 0 (opts_all k greedy A)"
proof (induction k)
  case (Suc k)
  have "reads E (n + 0) (then_all A (opts_all k greedy A))" using Suc by (intro reads_then) auto
  then have "reads E 0 (then_all A (opts_all k greedy A))" by (rule reads_mono) simp
  then show ?case
    unfolding opts_all_Suc opt_def [abs_def] by (intro reads_in_order reads_stay)
qed (simp add: opts_all_0 reads_stay)

lemma reads_star: "reads E n A \<Longrightarrow> reads E 0 (star_all (e_end E) greedy A)"
  unfolding reads_def
proof (intro allI ballI)
  fix pos sl x
  assume "x \<in> set (star_all (e_end E) greedy A pos sl)"
  then show "pos + 0 \<le> fst x \<and> (fst x \<le> e_end E \<or> fst x = pos)"
  proof (induction "e_end E" greedy A pos sl rule: star_all.induct)
    case (1 greedy f pos sl)
    from 1(2) consider "x = (pos, sl)" |
        y where "y \<in> set (f pos sl)" "pos < fst y" "fst y \<le> e_end E" "x \<in> set (star_all (e_end E) greedy f (fst y) (snd y))"
      by (subst (asm) star_all.simps) (auto simp: in_order_def split: if_splits)
    then show ?case by cases (use 1(1) in force)+
  qed
qed

lemma reads_rep:
  assumes "reads E n A"
  shows "reads E (mn * n) (rep_all E mn mx greedy simple A)"
proof -
  let ?tail = "case mx of None \<Rightarrow> star_all (e_end E) greedy A | Some m \<Rightarrow> opts_all (m - mn) greedy A"
  have "reads E 0 ?tail" using assms by (cases mx) (simp_all add: reads_star reads_opts)
  then have "list_all2 (reads E) (replicate mn n @ [0]) (replicate mn A @ [?tail])"
    using assms by (intro list_all2_appendI) (auto simp: list_all2_conv_all_nth)
  from reads_seq [OF this] show ?thesis
    by (auto simp: reads_def rep_all_def sum_list_replicate)
qed

lemma reads_alt: "list_all2 (reads E) ns As \<Longrightarrow> ns \<noteq> [] \<Longrightarrow> reads E (Min (set ns)) (alt_all As)"
proof -
  assume a: "list_all2 (reads E) ns As" "ns \<noteq> []"
  have "reads E (Min (set ns)) A" if A: "A \<in> set As" for A
  proof -
    from A obtain i where "i < length As" "A = As ! i" by (auto simp: in_set_conv_nth)
    with a(1) have "ns ! i \<in> set ns" "reads E (ns ! i) A" by (auto simp: list_all2_conv_all_nth)
    then show ?thesis by (auto intro: reads_mono)
  qed
  then show ?thesis by (auto simp: reads_def alt_all_def)
qed

lemma hir_all_reads: "reads E (least h) (hir_all E h)"
proof (induction h)
  case (H_Group g b)
  then show ?case by (intro readsI) (auto dest: readsD split: if_splits)
next
  case (H_Concat v)
  then show ?case by (auto intro!: reads_seq simp: list_all2_conv_all_nth)
next
  case (H_Alt v)
  have "list_all2 (reads E) (map least v) (map (hir_all E) v)"
    using H_Alt by (auto simp: list_all2_conv_all_nth)
  from reads_alt [OF this] show ?case using reads_stay [of E] by (auto simp: stay_def [abs_def])
next
  case (H_Repeat mn mx greedy simple b)
  then show ?case by (simp add: reads_rep)
qed (auto simp: reads_def hits_def)

section \<open>Repeats of one set\<close>

lemma hits_end: "hits E si pos \<Longrightarrow> pos < e_end E"
  by (simp add: hits_def)

lemma run_len_step: "run_len E si pos = (if hits E si pos then Suc (run_len E si (Suc pos)) else 0)"
  by (cases "pos < e_end E") (auto simp: run_len_def upt_conv_Cons dest: hits_end)

lemma run_len_none: "\<not> hits E si pos \<Longrightarrow> run_len E si pos = 0"
  by (simp add: run_len_step)

lemma run_len_bound: "pos \<le> e_end E \<Longrightarrow> pos + run_len E si pos \<le> e_end E"
  using length_takeWhile_le [of "hits E si" "[pos..<e_end E]"] by (simp add: run_len_def)

lemma run_len_hits: "k < run_len E si pos \<Longrightarrow> hits E si (pos + k)"
  using nth_mem [of k "takeWhile (hits E si) [pos..<e_end E]"] length_takeWhile_le [of "hits E si" "[pos..<e_end E]"]
  by (auto simp: run_len_def takeWhile_nth dest: set_takeWhileD)

lemma run_len_tail: "k \<le> run_len E si pos \<Longrightarrow> run_len E si (pos + k) = run_len E si pos - k"
proof (induction k)
  case (Suc k)
  then have "hits E si (pos + k)" by (simp add: run_len_hits)
  then show ?case using Suc run_len_step [of E si "pos + k"] by simp
qed simp

text \<open>The ways of a greedy repeat of one set: the longest run first.\<close>

definition run_ways :: "nat \<Rightarrow> int list \<Rightarrow> nat \<Rightarrow> nat \<Rightarrow> outcome list" where
  "run_ways pos sl lo hi = map (\<lambda>k. (pos + k, sl)) (rev [lo..<Suc hi])"

lemma run_ways_Suc: "run_ways pos sl 0 (Suc n) = run_ways (Suc pos) sl 0 n @ [(pos, sl)]"
proof -
  have "[0..<Suc (Suc n)] = 0 # map Suc [0..<Suc n]" by (simp add: upt_conv_Cons map_Suc_upt del: upt_Suc)
  then show ?thesis by (simp add: run_ways_def rev_map del: upt_Suc)
qed

lemma opts_run: "opts_all n True (hir_all E (H_Char si)) pos sl = run_ways pos sl 0 (min n (run_len E si pos))"
proof (induction n arbitrary: pos)
  case (Suc n)
  show ?case using Suc [of "Suc pos"] run_len_step [of E si pos] by (auto simp: in_order_def run_ways_Suc) (simp add: run_ways_def)
qed (simp add: run_ways_def)

lemma star_run: "star_all (e_end E) True (hir_all E (H_Char si)) pos sl = run_ways pos sl 0 (run_len E si pos)"
proof (induction "e_end E - pos" arbitrary: pos rule: less_induct)
  case less
  show ?case
  proof (cases "hits E si pos")
    case True
    then have "pos < e_end E" by (rule hits_end)
    then show ?thesis using less [of "Suc pos"] True run_len_step [of E si pos]
      by (subst star_all.simps) (simp add: in_order_def run_ways_Suc)
  next
    case False
    then show ?thesis using run_len_step [of E si pos] by (subst star_all.simps) (simp add: in_order_def run_ways_def)
  qed
qed

lemma must_run:
  "seq_all (replicate n (hir_all E (H_Char si)) @ [A]) pos sl = (if n \<le> run_len E si pos then A (pos + n) sl else [])"
proof (induction n arbitrary: pos)
  case 0
  show ?case by simp
next
  case (Suc n)
  show ?case using Suc [of "Suc pos"] run_len_step [of E si pos] by simp
qed

lemma run_ways_shift: "run_ways (pos + n) sl 0 (h - n) = (if n \<le> h then run_ways pos sl n h else [(pos + n, sl)])"
proof (cases "n \<le> h")
  case True
  then have "[n..<Suc h] = map (\<lambda>k. n + k) [0..<Suc (h - n)]"
    by (intro nth_equalityI) (simp_all del: upt_Suc)
  then show ?thesis using True by (simp add: run_ways_def rev_map add.assoc comp_def del: upt_Suc)
qed (simp add: run_ways_def)

lemma lazy_run_Suc: "map (\<lambda>k. (pos + k, sl)) [0..<Suc (Suc n)] = (pos, sl) # map (\<lambda>k. (Suc pos + k, sl)) [0..<Suc n]"
  by (simp add: upt_conv_Cons map_Suc_upt [symmetric] del: upt_Suc)

lemma opts_lazy:
  "opts_all n False (hir_all E (H_Char si)) pos sl = map (\<lambda>k. (pos + k, sl)) [0..<Suc (min n (run_len E si pos))]"
proof (induction n arbitrary: pos)
  case (Suc n)
  show ?case
  proof (cases "hits E si pos")
    case True
    then have "min (Suc n) (run_len E si pos) = Suc (min n (run_len E si (Suc pos)))" using run_len_step [of E si pos] by simp
    then show ?thesis using Suc [of "Suc pos"] True by (simp add: in_order_def lazy_run_Suc del: upt_Suc)
  next
    case False
    then show ?thesis using run_len_step [of E si pos] by (simp add: in_order_def)
  qed
qed simp

lemma star_lazy:
  "star_all (e_end E) False (hir_all E (H_Char si)) pos sl = map (\<lambda>k. (pos + k, sl)) [0..<Suc (run_len E si pos)]"
proof (induction "e_end E - pos" arbitrary: pos rule: less_induct)
  case less
  show ?case
  proof (cases "hits E si pos")
    case True
    then have "pos < e_end E" by (rule hits_end)
    then show ?thesis using less [of "Suc pos"] True run_len_step [of E si pos]
      by (subst star_all.simps) (simp add: in_order_def lazy_run_Suc del: upt_Suc)
  next
    case False
    then show ?thesis using run_len_step [of E si pos] by (subst star_all.simps) (simp add: in_order_def)
  qed
qed

text \<open>The ways of an unguarded repeat of one set are its stops.\<close>

definition run_bound :: "nat option \<Rightarrow> nat" where
  "run_bound mx = (case mx of None \<Rightarrow> HOLE | Some m \<Rightarrow> m)"

lemma rep_all_stops:
  assumes "\<not> e_guards E" and m: "\<And>m. mx = Some m \<Longrightarrow> mn \<le> m \<and> m \<noteq> HOLE"
  shows "rep_all E mn mx greedy simple (hir_all E (H_Char si)) pos sl =
    map (\<lambda>q. (q, sl)) (run_stops E si mn (run_bound mx) greedy pos)"
proof -
  let ?r = "run_len E si pos" and ?n = "if run_bound mx = HOLE then run_len E si pos else min (run_bound mx) (run_len E si pos)"
  show ?thesis
  proof (cases "mn \<le> ?r")
    case True
    then have t: "run_len E si (pos + mn) = ?r - mn" using run_len_tail [of mn E si pos] by simp
    have le: "mn \<le> ?n" using True m by (cases mx) (auto simp: run_bound_def)
    have sh: "[mn..<Suc ?n] = map (\<lambda>k. mn + k) [0..<Suc (?n - mn)]" using le by (intro nth_equalityI) (simp_all del: upt_Suc)
    have "(case mx of None \<Rightarrow> star_all (e_end E) greedy (hir_all E (H_Char si)) | Some m \<Rightarrow> opts_all (m - mn) greedy (hir_all E (H_Char si)))
        (pos + mn) sl = (if greedy then rev else (\<lambda>x. x)) (map (\<lambda>k. (pos + mn + k, sl)) [0..<Suc (?n - mn)])"
      using m by (cases mx; cases greedy)
        (auto simp: star_run opts_run star_lazy opts_lazy t run_ways_def run_bound_def rev_map min_diff simp del: hir_all.simps upt_Suc)
    then show ?thesis using True assms(1) unfolding run_stops_def Let_def sh
      by (simp add: rep_all_def must_run rev_map comp_def add.assoc del: hir_all.simps upt_Suc)
  next
    case False
    then have "\<not> mn \<le> ?n" by auto
    then show ?thesis using False assms(1) by (simp add: rep_all_def must_run run_stops_def Let_def del: hir_all.simps)
  qed
qed

lemma good_choice:
  assumes "\<And>b. mode E nl b \<Longrightarrow> \<exists>c. good E nl c A \<and> c0 b = c b"
  shows "good E nl c0 A"
  unfolding good_def
proof (intro allI impI)
  fix b f b'
  assume m: "mode E nl b" and r: "c0 b = Inr (f, b')"
  obtain c where "good E nl c A" "c0 b = c b" using assms [OF m] by blast
  then show "grows b b' \<and> laid E (b_insts b') (length (b_insts b)) (length (b_insts b')) f A"
    using goodD [of E nl c A b f b'] m r by simp
qed

lemma flows_run:
  assumes "get_at P pc = Some (I_Run si mn mx greedy ex)"
  shows "flows E P pc ex (\<lambda>pos sl. map (\<lambda>q. (q, sl)) (run_stops E si mn mx greedy pos))"
proof (rule flowsI)
  fix pos sl K
  assume "\<And>x. x \<in> set (map (\<lambda>q. (q, sl)) (run_stops E si mn mx greedy pos)) \<Longrightarrow> outs E P ex (fst x) (snd x) (K x)"
  then have "outs E P ex q sl (K (q, sl))" if "q \<in> set (run_stops E si mn mx greedy pos)" for q using that by force
  from outs_run [OF assms this] show "outs E P pc pos sl (concat (map K (map (\<lambda>q. (q, sl)) (run_stops E si mn mx greedy pos))))"
    by (simp add: comp_def)
qed

lemma good_run:
  "good E nl (emit (I_Run si mn mx greedy HOLE)) (\<lambda>pos sl. map (\<lambda>q. (q, sl)) (run_stops E si mn mx greedy pos))"
  by (rule good_emit) (auto intro: flows_run)

lemma comp_hir_good: "hir_ok nl h \<Longrightarrow> good E nl (comp_hir h) (hir_all E h)"
proof (induction h)
  case H_Empty
  show ?case using good_empty [of E nl] by (simp add: stay_def [abs_def])
next
  case (H_Char si)
  show ?case using good_char [of E nl si] by simp
next
  case (H_Look l)
  then show ?case using good_look [of l nl E] by simp
next
  case (H_Group g b)
  then have b: "good E nl (comp_hir b) (hir_all E b)" by simp
  show ?case
  proof (cases "e_saves E")
    case True
    from good_group [OF b True, of "2 * (g - 1)" "2 * (g - 1) + 1"] True show ?thesis
      by (simp add: good_def mode_def)
  next
    case False
    with b show ?thesis by (simp add: good_def mode_def)
  qed
next
  case (H_Concat v)
  then have "list_all2 (good E nl) (map comp_hir v) (map (hir_all E) v)"
    by (auto simp: list_all2_conv_all_nth list_all_length)
  from good_seq [OF this] show ?case by (simp add: good_def mode_def)
next
  case (H_Alt v)
  then have "list_all2 (good E nl) (map comp_hir v) (map (hir_all E) v)"
    by (auto simp: list_all2_conv_all_nth list_all_length)
  from good_alts [OF this] good_empty [of E nl] show ?case by (auto simp: stay_def [abs_def] good_def)
next
  case (H_Repeat mn mx greedy simple b)
  then have r: "good E nl (comp_repeat mn mx greedy simple (comp_hir b)) (rep_all E mn mx greedy simple (hir_all E b))"
    by (intro good_repeat) (auto intro: reads_advances [OF hir_all_reads] split: option.splits)
  have "good E nl (emit (I_Run si mn (run_bound mx) greedy HOLE)) (rep_all E mn mx greedy simple (hir_all E b))"
    if "b = H_Char si" "\<not> e_guards E" for si
  proof -
    have "mn \<le> m \<and> m \<noteq> HOLE" if "mx = Some m" for m using H_Repeat.prems that by simp
    then have "rep_all E mn mx greedy simple (hir_all E (H_Char si)) = (\<lambda>pos sl. map (\<lambda>q. (q, sl)) (run_stops E si mn (run_bound mx) greedy pos))"
      by (intro ext rep_all_stops [OF that(2)])
    then show ?thesis using good_run [of E nl si mn "run_bound mx" greedy] that(1) by (simp only:)
  qed
  note run = this
  show ?case
  proof (rule good_choice)
    fix x assume m: "mode E nl x"
    show "\<exists>c. good E nl c (hir_all E (H_Repeat mn mx greedy simple b)) \<and> comp_hir (H_Repeat mn mx greedy simple b) x = c x"
    proof (cases "\<exists>si. runs x \<and> b = H_Char si")
      case True
      then obtain si where si: "runs x" "b = H_Char si" by blast
      then have "\<not> e_guards E" using m by (simp add: mode_def)
      from run [OF si(2) this] si show ?thesis by (intro exI) (auto simp: run_bound_def)
    next
      case False
      then have "comp_hir (H_Repeat mn mx greedy simple b) x = comp_repeat mn mx greedy simple (comp_hir b) x"
        by (cases "runs x"; cases b) simp_all
      with r show ?thesis by (intro exI [of _ "comp_repeat mn mx greedy simple (comp_hir b)"]) simp
    qed
  qed
qed


section \<open>Programs\<close>

definition build_mode :: "bool \<Rightarrow> bool \<Rightarrow> bool \<Rightarrow> nat list \<Rightarrow> builder" where
  "build_mode sv gd rn ids = \<lparr>b_insts = [], saves = sv, reverse = False, guards = gd, runs = rn, look_ids = ids\<rparr>"

lemma mode_build: "\<forall>l < nl. ids ! l = l \<Longrightarrow> (rn \<longrightarrow> \<not> e_guards E) \<Longrightarrow> mode E nl (build_mode (e_saves E) (e_guards E) rn ids)"
  by (simp add: mode_def build_mode_def)

text \<open>The ways after an optional test of the tail: a fullmatch ends at the window's end.\<close>

definition tail_look :: "env \<Rightarrow> nat option \<Rightarrow> ways" where
  "tail_look E t pos sl = (case t of None \<Rightarrow> [(pos, sl)] | Some l \<Rightarrow> if e_look E l pos then [(pos, sl)] else [])"

definition tail_of :: "nat option \<Rightarrow> inst list" where
  "tail_of t = (case t of None \<Rightarrow> [I_Match] | Some l \<Rightarrow> [I_Look l HOLE, I_Match])"

definition tail_at :: "nat \<Rightarrow> nat option \<Rightarrow> inst list" where
  "tail_at n t = (case t of None \<Rightarrow> [I_Match] | Some l \<Rightarrow> [I_Look l (Suc n), I_Match])"

lemma finish_insts:
  assumes w: "within (f_holes f) lo (length (b_insts b))" and "finish b f (tail_of t) = Inr p"
  shows "insts p = patch_insts (f_holes f) (length (b_insts b)) (b_insts b) @ tail_at (length (b_insts b)) t"
    "p_start p = f_start f" "start_unanchored p = f_start f"
proof -
  let ?n = "length (b_insts b)"
  have "insts p = patch_insts (f_holes f) ?n (b_insts b) @ tail_at ?n t \<and> p_start p = f_start f \<and>
    start_unanchored p = f_start f"
  proof (cases t)
    case None
    with assms(2) obtain i b1 where q: "push I_Match b = Inr (i, b1)" and p: "insts p = patch_insts (f_holes f) i (b_insts b1)"
      "p_start p = f_start f" "start_unanchored p = f_start f"
      by (auto simp: finish_def tail_of_def)
    note pu = push_Inr [OF q]
    have "insts p = patch_insts (f_holes f) ?n (b_insts b) @ [I_Match]"
      by (rule nth_equalityI)
        (use w in \<open>auto simp: p pu nth_patch_insts nth_append patched_outside less_Suc_eq\<close>)
    with p None show ?thesis by (simp add: tail_at_def)
  next
    case (Some l)
    with assms(2) obtain i b1 j b2 where q: "push (I_Look l HOLE) b = Inr (i, b1)"
      and q2: "push I_Match (patch (f_holes f) i b1) = Inr (j, b2)"
      and p: "insts p = patch_insts [(i, 0)] j (b_insts b2)"
      "p_start p = f_start f" "start_unanchored p = f_start f"
      by (auto simp: finish_def tail_of_def)
    note pu = push_Inr [OF q] push_Inr [OF q2]
    have "insts p = patch_insts (f_holes f) ?n (b_insts b) @ [I_Look l (Suc ?n), I_Match]"
      by (rule nth_equalityI)
        (use w in \<open>auto simp: p pu nth_patch_insts nth_append patched_outside less_Suc_eq
           simp del: patch_insts.simps\<close>)
    with p Some show ?thesis by (simp add: tail_at_def)
  qed
  then show "insts p = patch_insts (f_holes f) ?n (b_insts b) @ tail_at ?n t"
    "p_start p = f_start f" "start_unanchored p = f_start f" by auto
qed

text \<open>\<open>P\<close> starts with the instructions \<open>Q\<close>.\<close>

definition extends :: "inst list \<Rightarrow> inst list \<Rightarrow> bool" where
  "extends P Q \<longleftrightarrow> length Q \<le> length P \<and> (\<forall>i < length Q. P ! i = Q ! i)"

lemma extends_refl [simp]: "extends P P" "extends (P @ Q) P"
  by (simp_all add: extends_def nth_append)

lemma tail_correct:
  assumes "extends P (Q @ tail_at (length Q) t)"
  shows "outs E P (length Q) pos sl (tail_look E t pos sl)"
proof (cases t)
  case None
  then have "get_at P (length Q) = Some I_Match"
    using assms by (simp add: extends_def get_at_def nth_append tail_at_def)
  then show ?thesis using None by (auto simp: tail_look_def intro: outs_intros)
next
  case (Some l)
  then have "get_at P (length Q) = Some (I_Look l (Suc (length Q)))" "get_at P (Suc (length Q)) = Some I_Match"
    using assms by (simp_all add: extends_def get_at_def nth_append tail_at_def)
  then show ?thesis using Some by (auto simp: tail_look_def intro: outs_intros)
qed

lemma finish_correct:
  assumes f: "laid E (b_insts b) lo hi f A" and fin: "finish b f (tail_of t) = Inr p"
    and P: "extends P (insts p)"
  shows "outs E P (f_start f) pos sl (then_all A (tail_look E t) pos sl)"
proof -
  let ?n = "length (b_insts b)"
  have w: "within (f_holes f) lo hi" "hi \<le> ?n" using f by (auto simp: laid_def)
  then have ins: "insts p = patch_insts (f_holes f) ?n (b_insts b) @ tail_at ?n t"
    by (intro finish_insts(1) [OF _ fin]) (auto intro: within_mono)
  have "flows E P (f_start f) ?n A"
    by (rule laidD [OF f]) (use P w in \<open>auto simp: ins extends_def nth_append nth_patch_insts\<close>)
  moreover have "outs E P ?n q s (tail_look E t q s)" for q s
    using tail_correct [of P "patch_insts (f_holes f) ?n (b_insts b)" t E q s] P by (simp add: ins)
  ultimately show ?thesis unfolding then_all_def by (intro flowsD) auto
qed

text \<open>
  The program \<^verbatim>\<open>build\<close> makes, with an optional \<open>I_Save\<close> of the match's start before the pattern and an
  optional test after it: from its start, its paths are the pattern's ways, in order.
\<close>

definition head_slots :: "env \<Rightarrow> nat option \<Rightarrow> nat \<Rightarrow> int list \<Rightarrow> int list" where
  "head_slots E head pos sl = (case head of None \<Rightarrow> sl | Some slot \<Rightarrow> save_slot (e_slots E) slot pos sl)"

lemma build_with_correct:
  assumes ok: "hir_ok nl h" and ids: "\<forall>l < nl. ids ! l = l" and rn: "rn \<longrightarrow> \<not> e_guards E"
    and b: "build_with h (e_saves E) False (e_guards E) rn ids head (tail_of t) = Inr p"
    and P: "extends P (insts p)"
  shows "outs E P (p_start p) pos sl
    (then_all (hir_all E h) (tail_look E t) pos (head_slots E head pos sl))"
proof -
  let ?b0 = "build_mode (e_saves E) (e_guards E) rn ids"
  from b obtain f b1 f' b2 where c: "comp_hir h ?b0 = Inr (f, b1)"
    and hd: "(case head of None \<Rightarrow> Inr (f, b1)
         | Some slot \<Rightarrow> andthen (push (I_Save slot (f_start f)) b1) (\<lambda>(s, b).
                          Inr (\<lparr>f_start = s, f_holes = f_holes f\<rparr>, b))) = Inr (f', b2)"
    and fin: "finish b2 f' (tail_of t) = Inr p"
    by (auto simp: build_with_def build_mode_def)
  note g = goodD [OF comp_hir_good [OF ok] mode_build [OF ids rn] c]
  show ?thesis
  proof (cases head)
    case None
    with hd have "f' = f" "b2 = b1" by auto
    with fin have fin: "finish b1 f (tail_of t) = Inr p" by simp
    have "p_start p = f_start f"
      using g(2) finish_insts(2) [OF _ fin] by (auto simp: laid_def)
    with finish_correct [OF g(2) fin P] show ?thesis by (simp add: head_slots_def None)
  next
    case (Some slot)
    with hd obtain s where s: "push (I_Save slot (f_start f)) b1 = Inr (s, b2)"
      and f': "f' = \<lparr>f_start = s, f_holes = f_holes f\<rparr>" by auto
    note pu = push_Inr [OF s]
    let ?n = "length (b_insts b2)"
    have w: "within (f_holes f) 0 (length (b_insts b1))" using g(2) by (auto simp: laid_def intro: within_mono)
    then have w2: "within (f_holes f') 0 ?n" using pu f' by (auto intro: within_mono)
    have ins: "insts p = patch_insts (f_holes f) ?n (b_insts b2) @ tail_at ?n t" "p_start p = s"
      using finish_insts [OF w2 fin] by (simp_all add: f')
    have sv: "get_at P s = Some (I_Save slot (f_start f))"
      using P pu(1,2) patched_outside [OF w, of s]
      by (simp add: ins extends_def get_at_def nth_append nth_patch_insts)
    have fl: "flows E P (f_start f) ?n (hir_all E h)"
      by (rule laidD [OF g(2)])
        (use P pu(1,2) in \<open>auto simp: ins extends_def nth_append nth_patch_insts\<close>)
    have "outs E P ?n q u (tail_look E t q u)" for q u
      using tail_correct [of P "patch_insts (f_holes f) ?n (b_insts b2)" t E q u] P by (simp add: ins)
    then have "outs E P (f_start f) pos (head_slots E head pos sl)
        (then_all (hir_all E h) (tail_look E t) pos (head_slots E head pos sl))"
      unfolding then_all_def by (intro flowsD [OF fl])
    then show ?thesis by (simp add: ins(2) head_slots_def Some outs_intros(5) [OF sv])
  qed
qed

lemmas build_correct = build_with_correct [where rn = False, simplified, folded build_def]

end
