(* ===== verification/Sparse_Set.thy ===== *)
theory Sparse_Set
  imports Prelude "HOL-Library.Monad_Syntax"
begin

text \<open>
  \<^verbatim>\<open>SparseSet\<close> (\<^verbatim>\<open>linre/looks.rs\<close>): a set of small integers with constant-time insert, test and clear, as
  two arrays and a length. An index out of an array's range is a panic of the source: the value \<open>None\<close>.
  The interface the matchers rely on (a set that remembers the order of insertion) is the locale
  \<open>ordered_set\<close>.
\<close>

definition put_at :: "'a list \<Rightarrow> nat \<Rightarrow> 'a \<Rightarrow> 'a list option" where
  "put_at xs i v = (if i < length xs then Some (xs[i := v]) else None)"

text \<open>\<^verbatim>\<open>Vec::resize\<close> to a greater length.\<close>

definition grow_to :: "nat \<Rightarrow> 'a \<Rightarrow> 'a list \<Rightarrow> 'a list" where
  "grow_to n v xs = xs @ replicate (n - length xs) v"

lemma put_at_simps [simp]: "i < length xs \<Longrightarrow> put_at xs i v = Some (xs[i := v])"
  by (simp add: put_at_def)

lemma get_at_Some [simp]: "i < length xs \<Longrightarrow> get_at xs i = Some (xs ! i)"
  by (simp add: get_at_def)

lemma get_at_eq_Some: "get_at xs i = Some x \<longleftrightarrow> i < length xs \<and> xs ! i = x"
  by (simp add: get_at_def)

section \<open>The arrays\<close>

record sparse_set =
  dense :: "nat list"
  sparse :: "nat list"
  ss_len :: nat

definition ss_new :: "nat \<Rightarrow> sparse_set" where
  "ss_new n = \<lparr>dense = replicate n 0, sparse = replicate n 0, ss_len = 0\<rparr>"

definition ss_capacity :: "sparse_set \<Rightarrow> nat" where
  "ss_capacity s = length (dense s)"

definition ss_resize :: "nat \<Rightarrow> sparse_set \<Rightarrow> sparse_set" where
  "ss_resize n s =
     (let s = (if n > length (dense s)
               then s\<lparr>dense := grow_to n 0 (dense s), sparse := grow_to n 0 (sparse s)\<rparr> else s)
      in s\<lparr>ss_len := 0\<rparr>)"

definition ss_clear :: "sparse_set \<Rightarrow> sparse_set" where
  "ss_clear s = s\<lparr>ss_len := 0\<rparr>"

definition ss_is_empty :: "sparse_set \<Rightarrow> bool" where
  "ss_is_empty s \<longleftrightarrow> ss_len s = 0"

definition ss_contains :: "sparse_set \<Rightarrow> nat \<Rightarrow> bool option" where
  "ss_contains s x =
     do { i \<leftarrow> get_at (sparse s) x;
          if i < ss_len s then do { d \<leftarrow> get_at (dense s) i; Some (d = x) } else Some False }"

definition ss_insert :: "sparse_set \<Rightarrow> nat \<Rightarrow> (bool \<times> sparse_set) option" where
  "ss_insert s x =
     do { c \<leftarrow> ss_contains s x;
          if c then Some (False, s)
          else do { dense' \<leftarrow> put_at (dense s) (ss_len s) x;
                    sparse' \<leftarrow> put_at (sparse s) x (ss_len s);
                    Some (True, \<lparr>dense = dense', sparse = sparse', ss_len = ss_len s + 1\<rparr>) } }"

definition ss_get :: "sparse_set \<Rightarrow> nat \<Rightarrow> nat option" where
  "ss_get s i = get_at (dense s) i"

definition as_slice :: "sparse_set \<Rightarrow> nat list" where
  "as_slice s = take (ss_len s) (dense s)"

section \<open>Invariant\<close>

definition ss_ok :: "sparse_set \<Rightarrow> bool" where
  "ss_ok s \<longleftrightarrow>
     length (sparse s) = length (dense s) \<and> ss_len s \<le> length (dense s) \<and>
     (\<forall>i < ss_len s. dense s ! i < length (dense s) \<and> sparse s ! (dense s ! i) = i)"

lemma ss_okD:
  assumes "ss_ok s"
  shows "length (sparse s) = length (dense s)" "ss_len s \<le> length (dense s)"
    "i < ss_len s \<Longrightarrow> dense s ! i < length (dense s)" "i < ss_len s \<Longrightarrow> sparse s ! (dense s ! i) = i"
  using assms by (auto simp: ss_ok_def)

lemma ss_new_ok [simp]: "ss_ok (ss_new n)" "as_slice (ss_new n) = []" "ss_capacity (ss_new n) = n"
  by (simp_all add: ss_ok_def ss_new_def as_slice_def ss_capacity_def)

lemma ss_clear_ok [simp]:
  "ss_ok s \<Longrightarrow> ss_ok (ss_clear s)" "as_slice (ss_clear s) = []" "ss_capacity (ss_clear s) = ss_capacity s"
  by (simp_all add: ss_ok_def ss_clear_def as_slice_def ss_capacity_def)

lemma ss_resize_ok [simp]:
  "ss_ok s \<Longrightarrow> ss_ok (ss_resize n s)" "as_slice (ss_resize n s) = []"
  "ss_capacity (ss_resize n s) = max n (ss_capacity s)"
  by (auto simp: ss_ok_def ss_resize_def as_slice_def ss_capacity_def grow_to_def)

lemma length_as_slice [simp]: "ss_ok s \<Longrightarrow> length (as_slice s) = ss_len s"
  by (simp add: ss_ok_def as_slice_def)

lemma ss_is_empty_iff: "ss_ok s \<Longrightarrow> ss_is_empty s \<longleftrightarrow> as_slice s = []"
  by (auto simp: ss_is_empty_def as_slice_def ss_ok_def)

lemma ss_get_slice: "ss_ok s \<Longrightarrow> i < length (as_slice s) \<Longrightarrow> ss_get s i = Some (as_slice s ! i)"
  by (simp add: ss_get_def as_slice_def get_at_def ss_ok_def)

lemma as_slice_bounds: "ss_ok s \<Longrightarrow> x \<in> set (as_slice s) \<Longrightarrow> x < ss_capacity s"
  by (auto simp: as_slice_def ss_ok_def ss_capacity_def in_set_conv_nth)

lemma as_slice_distinct: "ss_ok s \<Longrightarrow> distinct (as_slice s)"
  unfolding distinct_conv_nth
proof (intro allI impI)
  fix i j assume ok: "ss_ok s" and "i < length (as_slice s)" "j < length (as_slice s)" "i \<noteq> j"
  then have "i < ss_len s" "j < ss_len s" by simp_all
  with \<open>i \<noteq> j\<close> show "as_slice s ! i \<noteq> as_slice s ! j"
    using ss_okD(4) [OF ok, of i] ss_okD(4) [OF ok, of j] by (auto simp: as_slice_def)
qed

lemma ss_contains_slice:
  assumes "ss_ok s" and "x < ss_capacity s"
  shows "ss_contains s x = Some (x \<in> set (as_slice s))"
proof -
  note ok = ss_okD [OF assms(1)]
  have "x \<in> set (as_slice s) \<longleftrightarrow> sparse s ! x < ss_len s \<and> dense s ! (sparse s ! x) = x"
    using ok by (force simp: as_slice_def in_set_conv_nth)
  then show ?thesis using assms(2) ok(1,2) by (simp add: ss_contains_def ss_capacity_def)
qed

text \<open>The elements are distinct and below the capacity: there is room for one more.\<close>

lemma ss_room:
  assumes "ss_ok s" and "x < ss_capacity s" and "x \<notin> set (as_slice s)"
  shows "ss_len s < length (dense s)"
proof -
  have "insert x (set (as_slice s)) \<subseteq> {..<ss_capacity s}" using assms as_slice_bounds by auto
  from card_mono [OF _ this] have "Suc (card (set (as_slice s))) \<le> ss_capacity s" using assms(3) by simp
  then show ?thesis
    using distinct_card [OF as_slice_distinct [OF assms(1)]] assms(1) by (simp add: ss_capacity_def)
qed

lemma ss_insert_new:
  assumes "ss_ok s" and "x < ss_capacity s" and "x \<notin> set (as_slice s)"
  shows "\<exists>s'. ss_insert s x = Some (True, s') \<and> ss_ok s' \<and> as_slice s' = as_slice s @ [x] \<and>
    ss_capacity s' = ss_capacity s"
proof -
  note ok = ss_okD [OF assms(1)]
  let ?s = "\<lparr>dense = (dense s)[ss_len s := x], sparse = (sparse s)[x := ss_len s], ss_len = ss_len s + 1\<rparr>"
  have r: "ss_len s < length (dense s)" "x < length (dense s)"
    using ss_room [OF assms] assms(2) by (simp_all add: ss_capacity_def)
  have x: "dense s ! i \<noteq> x" if "i < ss_len s" for i
    using assms(3) that r(1) by (auto simp: as_slice_def in_set_conv_nth)
  have "ss_ok ?s"
    using ok r x by (auto simp: ss_ok_def nth_list_update less_Suc_eq)
  moreover have "as_slice ?s = as_slice s @ [x]"
    using r(1) by (simp add: as_slice_def take_Suc_conv_app_nth)
  moreover have "ss_insert s x = Some (True, ?s)"
    using assms r ok(1) by (simp add: ss_insert_def ss_contains_slice)
  ultimately show ?thesis by (auto simp: ss_capacity_def)
qed

lemma ss_insert_old:
  "ss_ok s \<Longrightarrow> x \<in> set (as_slice s) \<Longrightarrow> ss_insert s x = Some (False, s)"
  using as_slice_bounds [of s x] by (simp add: ss_insert_def ss_contains_slice)

section \<open>The interface\<close>

text \<open>
  What the matchers use of it: a set that lists its elements in the order they were inserted, with the
  test, the insertion that says whether the element is new, and the removal of all of them.
\<close>

locale ordered_set =
  fixes ok :: "'s \<Rightarrow> bool" and cap :: "'s \<Rightarrow> nat" and elems :: "'s \<Rightarrow> nat list"
    and mem :: "'s \<Rightarrow> nat \<Rightarrow> bool option" and ins :: "'s \<Rightarrow> nat \<Rightarrow> (bool \<times> 's) option"
    and clear :: "'s \<Rightarrow> 's"
  assumes mem_elems: "ok s \<Longrightarrow> x < cap s \<Longrightarrow> mem s x = Some (x \<in> set (elems s))"
    and ins_new: "ok s \<Longrightarrow> x < cap s \<Longrightarrow> x \<notin> set (elems s) \<Longrightarrow>
      \<exists>s'. ins s x = Some (True, s') \<and> ok s' \<and> elems s' = elems s @ [x] \<and> cap s' = cap s"
    and ins_old: "ok s \<Longrightarrow> x \<in> set (elems s) \<Longrightarrow> ins s x = Some (False, s)"
    and clear_ok: "ok s \<Longrightarrow> ok (clear s) \<and> elems (clear s) = [] \<and> cap (clear s) = cap s"
    and distinct_elems: "ok s \<Longrightarrow> distinct (elems s)"
    and elems_bound: "ok s \<Longrightarrow> x \<in> set (elems s) \<Longrightarrow> x < cap s"
begin

text \<open>An insertion never panics on an element below the capacity, and adds it at the end if new.\<close>

lemma insE:
  assumes "ok s" and "x < cap s"
  obtains s' where "ins s x = Some (x \<notin> set (elems s), s')" "ok s'" "cap s' = cap s"
    "elems s' = (if x \<in> set (elems s) then elems s else elems s @ [x])"
  using assms ins_new [of s x] ins_old [of s x] by (cases "x \<in> set (elems s)") auto

lemma ins_mem:
  assumes "ok s" and "x < cap s" and "ins s x = Some (new, s')" and "y < cap s"
  shows "mem s' y = Some (y = x \<or> y \<in> set (elems s))" "mem s x = Some (\<not> new)"
proof -
  obtain t where t: "ins s x = Some (x \<notin> set (elems s), t)" "ok t" "cap t = cap s"
    "elems t = (if x \<in> set (elems s) then elems s else elems s @ [x])"
    using insE [OF assms(1,2)] .
  then show "mem s' y = Some (y = x \<or> y \<in> set (elems s))" "mem s x = Some (\<not> new)"
    using assms mem_elems [of t y] mem_elems [of s x] by auto
qed

text \<open>A list of insertions leaves the old elements and the new ones in the order of their first occurrence.\<close>

fun ins_all :: "nat list \<Rightarrow> 's \<Rightarrow> 's option" where
  "ins_all [] s = Some s"
| "ins_all (x # xs) s = (case ins s x of None \<Rightarrow> None | Some (new, s) \<Rightarrow> ins_all xs s)"

lemma ins_all_elems:
  "ok s \<Longrightarrow> \<forall>x \<in> set xs. x < cap s \<Longrightarrow>
   \<exists>s'. ins_all xs s = Some s' \<and> ok s' \<and> cap s' = cap s \<and> set (elems s') = set (elems s) \<union> set xs"
proof (induction xs arbitrary: s)
  case (Cons x xs)
  from Cons.prems obtain t where t: "ins s x = Some (x \<notin> set (elems s), t)" "ok t" "cap t = cap s"
    "elems t = (if x \<in> set (elems s) then elems s else elems s @ [x])"
    by (metis insE list.set_intros(1))
  from Cons.IH [OF t(2)] Cons.prems t(1,3,4) show ?case by auto
qed simp

lemma card_elems: "ok s \<Longrightarrow> length (elems s) \<le> cap s"
  using distinct_card [OF distinct_elems, of s] card_mono [of "{..<cap s}" "set (elems s)"] elems_bound
  by (metis card_lessThan finite_lessThan lessThan_iff subsetI)

end

interpretation ss: ordered_set ss_ok ss_capacity as_slice ss_contains ss_insert ss_clear
  by unfold_locales
    (simp_all add: ss_contains_slice ss_insert_new ss_insert_old as_slice_distinct as_slice_bounds)

section \<open>Properties\<close>

text \<open>
  C25: An insertion into a well-formed \<^verbatim>\<open>SparseSet\<close> of an integer below its capacity never indexes out of
  its arrays, answers whether the integer was absent, keeps the set well formed and its capacity, and
  puts a new integer at the end of \<^verbatim>\<open>as_slice\<close>; whatever the stale contents of the two arrays, which
  \<^verbatim>\<open>clear\<close> and \<^verbatim>\<open>resize\<close> do not reset, \<^verbatim>\<open>contains\<close> then answers membership exactly.
\<close>

theorem sparse_set_insert:
  assumes "ss_ok s" and "x < ss_capacity s" and "y < ss_capacity s"
  shows "\<exists>s'. ss_insert s x = Some (x \<notin> set (as_slice s), s') \<and> ss_ok s' \<and> ss_capacity s' = ss_capacity s \<and>
    as_slice s' = (if x \<in> set (as_slice s) then as_slice s else as_slice s @ [x]) \<and>
    ss_contains s' y = Some (y = x \<or> y \<in> set (as_slice s)) \<and>
    ss_contains (ss_clear s') y = Some False"
proof -
  obtain s' where s': "ss_insert s x = Some (x \<notin> set (as_slice s), s')" "ss_ok s'" "ss_capacity s' = ss_capacity s"
    "as_slice s' = (if x \<in> set (as_slice s) then as_slice s else as_slice s @ [x])"
    using ss.insE [OF assms(1,2)] .
  with assms show ?thesis
    using ss.ins_mem [OF assms(1,2) s'(1) assms(3)] ss.clear_ok [OF s'(2)] ss.mem_elems [of "ss_clear s'" y]
    by auto
qed

theorem sparse_set_insert_witness:
  "\<exists>s'. ss_insert (ss_new 3) 2 = Some (True, s') \<and> ss_contains s' 2 = Some True"
  using sparse_set_insert [of "ss_new 3" 2 2] by auto

end
