(* ===== verification/Pike.thy ===== *)
theory Pike
  imports Compile Sparse_Set
begin

text \<open>
  The Pike VM (\<^verbatim>\<open>linre/pike.rs\<close>): every state of the program at once, one character at a time, each
  thread with its capture slots. The model keeps the source's state (the two thread lists with their
  sparse sets and flat slot arrays, the explicit stack of jobs, the scratch slots, the memo of the tests
  at the position); an index out of range, and a loop that does not end, are \<open>None\<close>.

  The tests are asked through \<open>hold\<close> (\<^verbatim>\<open>looks::holds\<close> on the text and window at hand), which may change
  the oracle it caches in; what the VM relies on is the locale \<open>look_oracle\<close>. The VM answers the first
  path of the program in priority order whose end is accepted (\<open>search_correct\<close>), always.
\<close>

section \<open>State\<close>

record threads =
  t_set :: sparse_set
  t_slots :: "int list"

definition threads_new :: threads where
  "threads_new = \<lparr>t_set = ss_new 0, t_slots = []\<rparr>"

definition threads_reset :: "nat \<Rightarrow> nat \<Rightarrow> threads \<Rightarrow> threads" where
  "threads_reset n nslots t =
     \<lparr>t_set = ss_resize n (t_set t),
      t_slots = (if length (t_slots t) < n * nslots then grow_to (n * nslots) (-1) (t_slots t) else t_slots t)\<rparr>"

datatype job = Explore nat | Restore nat int

record 'o pike_cache =
  clist :: threads
  nlist :: threads
  scratch :: "int list"
  p_oracle :: 'o
  memo :: "nat list"
  memo_touched :: "nat list"

definition pike_new :: "'o \<Rightarrow> 'o pike_cache" where
  "pike_new o0 = \<lparr>clist = threads_new, nlist = threads_new, scratch = [], p_oracle = o0, memo = [], memo_touched = []\<rparr>"

record want =
  anchored :: bool
  must_advance :: bool
  end_at :: "nat option"

text \<open>Slices of the flat array of slots: \<^verbatim>\<open>slots[base..base + n]\<close>, and \<^verbatim>\<open>copy_from_slice\<close> into it.\<close>

definition slice :: "'a list \<Rightarrow> nat \<Rightarrow> nat \<Rightarrow> 'a list option" where
  "slice xs base n = (if base + n \<le> length xs then Some (take n (drop base xs)) else None)"

definition blit :: "'a list \<Rightarrow> nat \<Rightarrow> nat \<Rightarrow> 'a list \<Rightarrow> 'a list option" where
  "blit xs base n ys =
     (if base + n \<le> length xs \<and> length ys = n then Some (take base xs @ ys @ drop (base + n) xs) else None)"

section \<open>Adding a thread\<close>

record 'o add_state =
  a_list :: threads
  a_scratch :: "int list"
  a_oracle :: 'o
  a_memo :: "nat list"
  a_touched :: "nat list"

type_synonym 'o hold = "nat \<Rightarrow> nat \<Rightarrow> 'o \<Rightarrow> (bool \<times> 'o) option"

text \<open>A test, answered from the memo of the position or asked and remembered.\<close>

definition ask :: "'o hold \<Rightarrow> nat \<Rightarrow> nat \<Rightarrow> 'o add_state \<Rightarrow> (bool \<times> 'o add_state) option" where
  "ask hold pos look st =
     do { m \<leftarrow> get_at (a_memo st) look;
          if m \<noteq> 0 then Some (m = 2, st)
          else do { (v, o1) \<leftarrow> hold look pos (a_oracle st);
                    memo1 \<leftarrow> put_at (a_memo st) look (if v then 2 else 1);
                    Some (v, st\<lparr>a_oracle := o1, a_memo := memo1, a_touched := a_touched st @ [look]\<rparr>) } }"

text \<open>One instruction newly reached: the jobs it pushes (the top of the stack first).\<close>

definition add_inst ::
    "'o hold \<Rightarrow> inst list \<Rightarrow> nat \<Rightarrow> nat \<Rightarrow> nat \<Rightarrow> nat \<Rightarrow> 'o add_state \<Rightarrow> (job list \<times> 'o add_state) option" where
  "add_inst hold P ns pos e pc st =
     do { i \<leftarrow> get_at P pc;
          case i of
            I_Split x y \<Rightarrow> Some ([Explore x, Explore y], st)
          | I_Jmp n \<Rightarrow> Some ([Explore n], st)
          | I_Guard n \<Rightarrow> Some (if pos \<le> e then [Explore n] else [], st)
          | I_Save slot n \<Rightarrow>
              do { old \<leftarrow> get_at (a_scratch st) slot;
                   if odd slot \<and> slot < ns - 2
                   then do { old_last \<leftarrow> get_at (a_scratch st) (ns - 2);
                             sc \<leftarrow> put_at (a_scratch st) (ns - 2) (int (slot div 2 + 1));
                             sc \<leftarrow> put_at sc slot (int pos);
                             Some ([Explore n, Restore (ns - 2) old_last, Restore slot old], st\<lparr>a_scratch := sc\<rparr>) }
                   else do { sc \<leftarrow> put_at (a_scratch st) slot (int pos);
                             Some ([Explore n, Restore slot old], st\<lparr>a_scratch := sc\<rparr>) } }
          | I_Look look n \<Rightarrow>
              do { (ok, st) \<leftarrow> ask hold pos look st;
                   Some (if ok then [Explore n] else [], st) }
          | I_Run _ _ _ _ _ \<Rightarrow> Some ([], st)
          | _ \<Rightarrow>
              do { sls \<leftarrow> blit (t_slots (a_list st)) (pc * ns) ns (a_scratch st);
                   Some ([], st\<lparr>a_list := (a_list st)\<lparr>t_slots := sls\<rparr>\<rparr>) } }"

partial_function (option) add_loop ::
    "'o hold \<Rightarrow> inst list \<Rightarrow> nat \<Rightarrow> nat \<Rightarrow> nat \<Rightarrow> job list \<Rightarrow> 'o add_state \<Rightarrow> 'o add_state option" where
  "add_loop hold P ns pos e stack st =
     (case stack of
        [] \<Rightarrow> Some st
      | job # stack \<Rightarrow>
          (case job of
             Restore slot old \<Rightarrow>
               do { sc \<leftarrow> put_at (a_scratch st) slot old;
                    add_loop hold P ns pos e stack (st\<lparr>a_scratch := sc\<rparr>) }
           | Explore pc \<Rightarrow>
               do { (new, s) \<leftarrow> ss_insert (t_set (a_list st)) pc;
                    if \<not> new then add_loop hold P ns pos e stack st
                    else do { (jobs, st) \<leftarrow> add_inst hold P ns pos e pc (st\<lparr>a_list := (a_list st)\<lparr>t_set := s\<rparr>\<rparr>);
                              add_loop hold P ns pos e (jobs @ stack) st } }))"

definition add ::
    "'o hold \<Rightarrow> inst list \<Rightarrow> nat \<Rightarrow> nat \<Rightarrow> nat \<Rightarrow> nat \<Rightarrow> 'o add_state \<Rightarrow> 'o add_state option" where
  "add hold P ns from pos e st = add_loop hold P ns pos e [Explore from] st"

section \<open>The search\<close>

fun clear_memo :: "nat list \<Rightarrow> nat list \<Rightarrow> nat list option" where
  "clear_memo m [] = Some m"
| "clear_memo m (l # touched) = do { m \<leftarrow> put_at m l 0; clear_memo m touched }"

definition cleared :: "'o pike_cache \<Rightarrow> 'o pike_cache option" where
  "cleared c = do { m \<leftarrow> clear_memo (memo c) (memo_touched c); Some (c\<lparr>memo := m, memo_touched := []\<rparr>) }"

text \<open>Does the character at \<open>p\<close> (within the window) belong to the set?\<close>

definition char_here :: "charset list \<Rightarrow> u32 list \<Rightarrow> nat \<Rightarrow> nat \<Rightarrow> nat \<Rightarrow> bool option" where
  "char_here ss text e si p =
     (if p < e
      then (case get_at text p of
              None \<Rightarrow> Some False
            | Some c \<Rightarrow> do { cs \<leftarrow> get_at ss si; Some (contains cs c) })
      else Some False)"

definition accepts :: "want \<Rightarrow> nat \<Rightarrow> nat \<Rightarrow> bool" where
  "accepts w start p \<longleftrightarrow>
     (\<not> must_advance w \<or> p \<noteq> start) \<and> (case end_at w of None \<Rightarrow> True | Some e \<Rightarrow> e = p)"

text \<open>\<open>add\<close> to the next list, from the slots of the thread at \<open>pc\<close>.\<close>

definition add_next ::
    "'o hold \<Rightarrow> inst list \<Rightarrow> nat \<Rightarrow> nat \<Rightarrow> nat \<Rightarrow> nat \<Rightarrow> nat \<Rightarrow> 'o pike_cache \<Rightarrow> 'o pike_cache option" where
  "add_next hold P ns pc nx pos e c =
     do { sl \<leftarrow> slice (t_slots (clist c)) (pc * ns) ns;
          st \<leftarrow> add hold P ns nx pos e
                 \<lparr>a_list = nlist c, a_scratch = sl, a_oracle = p_oracle c, a_memo = memo c,
                  a_touched = memo_touched c\<rparr>;
          Some (c\<lparr>nlist := a_list st, scratch := a_scratch st, p_oracle := a_oracle st, memo := a_memo st,
                  memo_touched := a_touched st\<rparr>) }"

text \<open>The threads of the current list, in order; a match drops those after it.\<close>

fun step_threads ::
    "'o hold \<Rightarrow> charset list \<Rightarrow> inst list \<Rightarrow> u32 list \<Rightarrow> nat \<Rightarrow> nat \<Rightarrow> nat \<Rightarrow> want \<Rightarrow> nat \<Rightarrow> nat list
     \<Rightarrow> 'o pike_cache \<Rightarrow> (int list \<times> nat) option \<Rightarrow> ('o pike_cache \<times> (int list \<times> nat) option) option" where
  "step_threads hold ss P text ns start e w p [] c matched = Some (c, matched)"
| "step_threads hold ss P text ns start e w p (i # is) c matched =
     do { pc \<leftarrow> ss_get (t_set (clist c)) i;
          inst \<leftarrow> get_at P pc;
          case inst of
            I_Char si nx \<Rightarrow>
              do { hit \<leftarrow> char_here ss text e si p;
                   if hit
                   then do { c \<leftarrow> add_next hold P ns pc nx (p + 1) e c;
                             step_threads hold ss P text ns start e w p is c matched }
                   else step_threads hold ss P text ns start e w p is c matched }
          | I_Match \<Rightarrow>
              (if accepts w start p
               then do { sl \<leftarrow> slice (t_slots (clist c)) (pc * ns) ns; Some (c, Some (sl, p)) }
               else step_threads hold ss P text ns start e w p is c matched)
          | _ \<Rightarrow> step_threads hold ss P text ns start e w p is c matched }"

partial_function (option) search_loop ::
    "'o hold \<Rightarrow> charset list \<Rightarrow> inst list \<Rightarrow> u32 list \<Rightarrow> nat \<Rightarrow> nat \<Rightarrow> nat \<Rightarrow> want \<Rightarrow> nat
     \<Rightarrow> 'o pike_cache \<Rightarrow> (int list \<times> nat) option \<Rightarrow> ('o pike_cache \<times> (int list \<times> nat) option) option" where
  "search_loop hold ss P text ns start e w p c matched =
     do { c \<leftarrow> cleared c;
          (c, matched) \<leftarrow> step_threads hold ss P text ns start e w p [0..<ss_len (t_set (clist c))] c matched;
          if p \<ge> e \<or> ss_is_empty (t_set (nlist c)) then Some (c, matched)
          else if (case end_at w of None \<Rightarrow> False | Some x \<Rightarrow> matched \<noteq> None \<or> p \<ge> x) then Some (c, matched)
          else search_loop hold ss P text ns start e w (p + 1)
                 (c\<lparr>clist := nlist c, nlist := (clist c)\<lparr>t_set := ss_clear (t_set (clist c))\<rparr>\<rparr>) matched }"

definition search ::
    "'o hold \<Rightarrow> programs \<Rightarrow> prog \<Rightarrow> u32 list \<Rightarrow> nat \<Rightarrow> nat \<Rightarrow> want \<Rightarrow> 'o pike_cache
     \<Rightarrow> ('o pike_cache \<times> (int list \<times> nat) option) option" where
  "search hold pr prog text start e w c =
     (let n = length (insts prog); ns = slots pr;
          c = c\<lparr>clist := threads_reset n ns (clist c), nlist := threads_reset n ns (nlist c),
                scratch := replicate ns (-1),
                memo := (if length (memo c) < length (looks pr) then grow_to (length (looks pr)) 0 (memo c) else memo c)\<rparr>;
          entry = (if anchored w then p_start prog else start_unanchored prog)
      in do { st \<leftarrow> add hold (insts prog) ns entry start e
                      \<lparr>a_list = clist c, a_scratch = scratch c, a_oracle = p_oracle c, a_memo = memo c,
                       a_touched = memo_touched c\<rparr>;
              (c, matched) \<leftarrow> search_loop hold (sets pr) (insts prog) text ns start e w start
                (c\<lparr>clist := a_list st, scratch := a_scratch st, p_oracle := a_oracle st, memo := a_memo st,
                   memo_touched := a_touched st\<rparr>) None;
              c \<leftarrow> cleared c;
              Some (c, matched) })"

section \<open>What the VM relies on\<close>

text \<open>
  The tests: asked with a good oracle, \<open>hold\<close> answers the truth and leaves a good oracle.
\<close>

locale look_oracle =
  fixes hold :: "'o hold" and lk :: "nat \<Rightarrow> nat \<Rightarrow> bool" and okO :: "'o \<Rightarrow> bool" and nl :: nat
  assumes hold_correct: "okO o1 \<Longrightarrow> l < nl \<Longrightarrow> \<exists>o2. hold l p o1 = Some (lk l p, o2) \<and> okO o2"

text \<open>The indices of a program's instructions are in range.\<close>

fun inst_ok :: "nat \<Rightarrow> nat \<Rightarrow> nat \<Rightarrow> inst \<Rightarrow> bool" where
  "inst_ok ns nl nset (I_Char si n) \<longleftrightarrow> si < nset"
| "inst_ok ns nl nset (I_Save slot n) \<longleftrightarrow> slot < ns"
| "inst_ok ns nl nset (I_Look l n) \<longleftrightarrow> l < nl"
| "inst_ok ns nl nset (I_Run si mn mx g n) \<longleftrightarrow> False"
| "inst_ok ns nl nset i \<longleftrightarrow> True"

definition prog_ok :: "nat \<Rightarrow> nat \<Rightarrow> nat \<Rightarrow> inst list \<Rightarrow> bool" where
  "prog_ok ns nl nset P \<longleftrightarrow> 2 \<le> ns \<and> list_all (inst_ok ns nl nset) P"

section \<open>Slots in the flat array\<close>

lemma slice_Some: "(pc + 1) * ns \<le> length xs \<Longrightarrow> slice xs (pc * ns) ns = Some (take ns (drop (pc * ns) xs))"
  by (simp add: slice_def algebra_simps)

lemma blit_slice:
  assumes "blit xs (pc * ns) ns ys = Some zs" and "(qc + 1) * ns \<le> length xs"
  shows "slice zs (qc * ns) ns = (if qc = pc then Some ys else slice xs (qc * ns) ns)"
proof -
  have b: "pc * ns + ns \<le> length xs" "length ys = ns" and zs: "zs = take (pc * ns) xs @ ys @ drop (pc * ns + ns) xs"
    using assms(1) by (auto simp: blit_def split: if_splits)
  have q: "qc * ns + ns \<le> length xs" using assms(2) by (simp add: algebra_simps)
  have len: "length zs = length xs" using b by (simp add: zs)
  show ?thesis
  proof (cases "qc = pc")
    case True
    then show ?thesis using b len by (simp add: slice_def zs)
  next
    case False
    then consider "qc * ns + ns \<le> pc * ns" | "pc * ns + ns \<le> qc * ns"
      by (metis Suc_leI add.commute linorder_neqE_nat mult.commute mult_Suc_right mult_le_mono2)
    then have "take ns (drop (qc * ns) zs) = take ns (drop (qc * ns) xs)"
    proof cases
      case 1
      then show ?thesis using b by (simp add: zs drop_take)
    next
      case 2
      then obtain d where d: "qc * ns = pc * ns + ns + d" using le_iff_add by blast
      have "drop (qc * ns) zs = drop (qc * ns) xs"
        using b by (simp add: zs d add.commute add.left_commute)
      then show ?thesis by simp
    qed
    then show ?thesis using False q len by (simp add: slice_def)
  qed
qed

lemma blit_Some:
  "(pc + 1) * ns \<le> length xs \<Longrightarrow> length ys = ns \<Longrightarrow> \<exists>zs. blit xs (pc * ns) ns ys = Some zs \<and> length zs = length xs"
  by (simp add: blit_def algebra_simps)


section \<open>Threads and their futures\<close>

definition leaf :: "inst \<Rightarrow> bool" where
  "leaf i \<longleftrightarrow> (case i of I_Char _ _ \<Rightarrow> True | I_Match \<Rightarrow> True | _ \<Rightarrow> False)"

definition thread_slots :: "nat \<Rightarrow> threads \<Rightarrow> nat \<Rightarrow> int list" where
  "thread_slots ns t pc = take ns (drop (pc * ns) (t_slots t))"

definition thread_list :: "inst list \<Rightarrow> nat \<Rightarrow> threads \<Rightarrow> (nat \<times> int list) list" where
  "thread_list P ns t = map (\<lambda>pc. (pc, thread_slots ns t pc)) (filter (\<lambda>pc. leaf (P ! pc)) (as_slice (t_set t)))"

definition paths :: "env \<Rightarrow> inst list \<Rightarrow> nat \<Rightarrow> nat \<Rightarrow> int list \<Rightarrow> outcome list" where
  "paths E P pc pos sl = (THE L. outs E P pc pos sl L)"

lemma paths_outs: "outs E P pc pos sl L \<Longrightarrow> paths E P pc pos sl = L"
  unfolding paths_def outs_def by (rule the_equality) (auto dest: out_determ)

lemma paths_out: "out E P h pc pos sl L \<Longrightarrow> paths E P pc pos sl = L"
  using paths_outs outs_def by metis

text \<open>The ends and slots the threads of a list can still reach, in priority order.\<close>

definition future :: "env \<Rightarrow> inst list \<Rightarrow> nat \<Rightarrow> threads \<Rightarrow> outcome list" where
  "future E P pos t = concat (map (\<lambda>x. paths E P (fst x) pos (snd x)) (thread_list P (e_slots E) t))"

definition some_acc :: "(nat \<Rightarrow> bool) \<Rightarrow> outcome list \<Rightarrow> bool" where
  "some_acc acc L \<longleftrightarrow> (\<exists>x \<in> set L. acc (fst x))"

definition first_acc :: "(nat \<Rightarrow> bool) \<Rightarrow> outcome list \<Rightarrow> outcome option" where
  "first_acc acc L = find (\<lambda>x. acc (fst x)) L"

lemma some_acc_append [simp]: "some_acc acc (L @ M) \<longleftrightarrow> some_acc acc L \<or> some_acc acc M"
  by (auto simp: some_acc_def)

lemma some_acc_Nil [simp]: "\<not> some_acc acc []"
  by (simp add: some_acc_def)

lemma first_acc_None [simp]: "first_acc acc L = None \<longleftrightarrow> \<not> some_acc acc L"
  by (auto simp: first_acc_def some_acc_def find_None_iff)

lemma first_acc_append:
  "first_acc acc (L @ M) = (case first_acc acc L of None \<Rightarrow> first_acc acc M | Some x \<Rightarrow> Some x)"
  by (induction L) (auto simp: first_acc_def)

lemma first_acc_simps [simp]:
  "first_acc acc [] = None" "first_acc acc (x # L) = (if acc (fst x) then Some x else first_acc acc L)"
  by (simp_all add: first_acc_def)

lemma some_acc_ends: "map fst L = map fst M \<Longrightarrow> some_acc acc L = some_acc acc M"
proof -
  have *: "some_acc acc N \<longleftrightarrow> (\<exists>p \<in> set (map fst N). acc p)" for N by (auto simp: some_acc_def)
  assume "map fst L = map fst M"
  then show ?thesis by (simp only: *)
qed

definition hgt :: "env \<Rightarrow> inst list \<Rightarrow> nat \<Rightarrow> nat \<Rightarrow> nat \<Rightarrow> bool" where
  "hgt E P pos pc h \<longleftrightarrow> (\<exists>sl L. out E P h pc pos sl L)"

definition live :: "env \<Rightarrow> inst list \<Rightarrow> (nat \<Rightarrow> bool) \<Rightarrow> nat \<Rightarrow> nat \<Rightarrow> bool" where
  "live E P acc pos pc \<longleftrightarrow> (\<exists>h sl L. out E P h pc pos sl L \<and> some_acc acc L)"

lemma hgt_unique: "hgt E P pos pc h \<Longrightarrow> hgt E P pos pc k \<Longrightarrow> h = k"
  by (auto simp: hgt_def dest: out_determ)

lemma live_iff: "out E P h pc pos sl L \<Longrightarrow> live E P acc pos pc \<longleftrightarrow> some_acc acc L"
  unfolding live_def using out_determ some_acc_ends by blast

text \<open>
  \<open>covered h\<close>: an instruction already in the list, of at most that height, that can reach an accepted
  end, is no loss to skip: the list has a thread that can.
\<close>

definition covered :: "env \<Rightarrow> inst list \<Rightarrow> (nat \<Rightarrow> bool) \<Rightarrow> nat \<Rightarrow> nat \<Rightarrow> threads \<Rightarrow> bool" where
  "covered E P acc pos h t \<longleftrightarrow>
     (\<forall>q \<in> set (as_slice (t_set t)). \<forall>k \<le> h. hgt E P pos q k \<longrightarrow> live E P acc pos q \<longrightarrow> some_acc acc (future E P pos t))"

text \<open>Adding a thread of height \<open>h\<close> whose paths are \<open>L\<close>.\<close>

definition adds :: "env \<Rightarrow> inst list \<Rightarrow> (nat \<Rightarrow> bool) \<Rightarrow> nat \<Rightarrow> nat \<Rightarrow> outcome list \<Rightarrow> threads \<Rightarrow> threads \<Rightarrow> bool" where
  "adds E P acc pos h L t t' \<longleftrightarrow>
     (\<exists>new. as_slice (t_set t') = as_slice (t_set t) @ new \<and>
        (\<forall>q \<in> set new. (\<exists>k \<le> h. hgt E P pos q k) \<and> (live E P acc pos q \<longrightarrow> some_acc acc (future E P pos t')))) \<and>
     (\<exists>T. future E P pos t' = future E P pos t @ T) \<and>
     (\<forall>R. first_acc acc (future E P pos t' @ R) = first_acc acc (future E P pos t @ L @ R))"

lemma covered_mono: "covered E P acc pos h t \<Longrightarrow> k \<le> h \<Longrightarrow> covered E P acc pos k t"
  unfolding covered_def by (meson order_trans)

lemma covered_adds: "covered E P acc pos h t \<Longrightarrow> adds E P acc pos k L t t' \<Longrightarrow> covered E P acc pos h t'"
  unfolding covered_def adds_def by (metis UnE set_append some_acc_append)

lemma adds_seen:
  assumes "pc \<in> set (as_slice (t_set t))" and "out E P h pc pos sl L" and "covered E P acc pos h t"
  shows "adds E P acc pos h L t t"
proof -
  have "some_acc acc L \<Longrightarrow> some_acc acc (future E P pos t)"
    using assms live_iff [OF assms(2)] by (auto simp: covered_def hgt_def)
  then have "first_acc acc (future E P pos t) = None \<Longrightarrow> first_acc acc L = None" by auto
  then have "first_acc acc (future E P pos t @ R) = first_acc acc (future E P pos t @ L @ R)" for R
    by (cases "first_acc acc (future E P pos t)") (simp_all add: first_acc_append del: first_acc_None)
  then show ?thesis by (simp add: adds_def)
qed

lemma adds_first: "adds E P acc pos h L t t' \<Longrightarrow> some_acc acc (future E P pos t') \<longleftrightarrow> some_acc acc (future E P pos t) \<or> some_acc acc L"
  unfolding adds_def by (metis append_Nil2 first_acc_None some_acc_append)

text \<open>An instruction that is not a thread of its own: entered in the set, then what follows it.\<close>

definition enter :: "nat \<Rightarrow> sparse_set \<Rightarrow> sparse_set \<Rightarrow> bool" where
  "enter pc s s' \<longleftrightarrow> pc \<notin> set (as_slice s) \<and> as_slice s' = as_slice s @ [pc]"

lemma future_enter:
  "enter pc (t_set t) s' \<Longrightarrow> \<not> leaf (P ! pc) \<Longrightarrow> future E P pos (t\<lparr>t_set := s'\<rparr>) = future E P pos t"
  by (simp add: future_def thread_list_def enter_def thread_slots_def)

lemma covered_enter:
  assumes "enter pc (t_set t) s'" and "\<not> leaf (P ! pc)" and "covered E P acc pos h t" and "hgt E P pos pc h" and "k < h"
  shows "covered E P acc pos k (t\<lparr>t_set := s'\<rparr>)"
  unfolding covered_def future_enter [OF assms(1,2)]
proof (intro ballI allI impI)
  fix q j
  assume q: "q \<in> set (as_slice (t_set (t\<lparr>t_set := s'\<rparr>)))" and j: "j \<le> k" "hgt E P pos q j" and l: "live E P acc pos q"
  have "q \<noteq> pc" using hgt_unique [OF assms(4), of j] j assms(5) by auto
  then have "q \<in> set (as_slice (t_set t))" using q assms(1) by (simp add: enter_def)
  then show "some_acc acc (future E P pos t)" using assms(3,5) j l unfolding covered_def
    by (meson less_imp_le order_trans)
qed

lemma adds_enter:
  assumes "enter pc (t_set t) s'" and nl: "\<not> leaf (P ! pc)" and o: "out E P h pc pos sl L"
    and a: "adds E P acc pos k L (t\<lparr>t_set := s'\<rparr>) t'" and "k < h"
  shows "adds E P acc pos h L t t'"
proof -
  note fe = future_enter [OF assms(1) nl]
  obtain new where new: "as_slice (t_set t') = (as_slice (t_set t) @ [pc]) @ new"
    "\<And>q. q \<in> set new \<Longrightarrow> (\<exists>k' \<le> k. hgt E P pos q k') \<and> (live E P acc pos q \<longrightarrow> some_acc acc (future E P pos t'))"
    using a assms(1) by (auto simp: adds_def enter_def)
  have "live E P acc pos pc \<longrightarrow> some_acc acc (future E P pos t')"
    using adds_first [OF a] live_iff [OF o] by simp
  moreover have "hgt E P pos pc h" using o by (auto simp: hgt_def)
  ultimately have "\<forall>q \<in> set (pc # new). (\<exists>k' \<le> h. hgt E P pos q k') \<and>
      (live E P acc pos q \<longrightarrow> some_acc acc (future E P pos t'))"
    using new(2) \<open>k < h\<close> by (metis less_imp_le order_refl order_trans set_ConsD)
  moreover have "as_slice (t_set t') = as_slice (t_set t) @ (pc # new)" using new(1) by simp
  ultimately show ?thesis using a by (auto simp: adds_def fe)
qed

lemma adds_trans:
  assumes "adds E P acc pos k1 L1 t t1" and "adds E P acc pos k2 L2 t1 t2"
  shows "adds E P acc pos (max k1 k2) (L1 @ L2) t t2"
proof -
  obtain n1 n2 where n1: "as_slice (t_set t1) = as_slice (t_set t) @ n1"
      "\<And>q. q \<in> set n1 \<Longrightarrow> (\<exists>k \<le> k1. hgt E P pos q k) \<and> (live E P acc pos q \<longrightarrow> some_acc acc (future E P pos t1))"
    and n2: "as_slice (t_set t2) = as_slice (t_set t1) @ n2"
      "\<And>q. q \<in> set n2 \<Longrightarrow> (\<exists>k \<le> k2. hgt E P pos q k) \<and> (live E P acc pos q \<longrightarrow> some_acc acc (future E P pos t2))"
    using assms by (auto simp: adds_def)
  obtain T2 where "future E P pos t2 = future E P pos t1 @ T2" using assms(2) by (auto simp: adds_def)
  then have "\<forall>q \<in> set (n1 @ n2). (\<exists>k \<le> max k1 k2. hgt E P pos q k) \<and>
      (live E P acc pos q \<longrightarrow> some_acc acc (future E P pos t2))"
    using n1(2) n2(2) by (fastforce simp: le_max_iff_disj)
  moreover have "as_slice (t_set t2) = as_slice (t_set t) @ (n1 @ n2)" using n1(1) n2(1) by simp
  moreover have "\<exists>T. future E P pos t2 = future E P pos t @ T" using assms by (auto simp: adds_def)
  moreover have "first_acc acc (future E P pos t2 @ R) = first_acc acc (future E P pos t @ (L1 @ L2) @ R)" for R
    using assms unfolding adds_def by (metis append.assoc)
  ultimately show ?thesis unfolding adds_def by blast
qed

lemma adds_none:
  assumes "enter pc (t_set t) s'" and "\<not> leaf (P ! pc)" and "out E P 0 pc pos sl []"
  shows "adds E P acc pos 0 [] t (t\<lparr>t_set := s'\<rparr>)"
  using assms live_iff [OF assms(3), of acc] by (auto simp: adds_def future_enter enter_def hgt_def)

text \<open>A thread of its own.\<close>

lemma adds_leaf:
  assumes s': "enter pc (t_set t) s'" and "leaf (P ! pc)" and o: "out E P h pc pos sl L"
    and sl: "thread_slots (e_slots E) t' pc = sl" and t': "t_set t' = s'"
    and old: "\<And>q. q \<in> set (as_slice (t_set t)) \<Longrightarrow> thread_slots (e_slots E) t' q = thread_slots (e_slots E) t q"
  shows "adds E P acc pos h L t t'"
proof -
  have "thread_list P (e_slots E) t' = thread_list P (e_slots E) t @ [(pc, sl)]"
    using assms by (auto simp: thread_list_def enter_def)
  then have f: "future E P pos t' = future E P pos t @ L" by (simp add: future_def paths_out [OF o])
  then show ?thesis
    using s' live_iff [OF o, of acc] o by (auto simp: adds_def t' enter_def hgt_def)
qed

section \<open>Adding a thread is adding its paths\<close>

text \<open>A well-formed state of \<open>add\<close>: the arrays are large enough and the memo tells the truth at the position.\<close>

definition memo_ok :: "(nat \<Rightarrow> nat \<Rightarrow> bool) \<Rightarrow> nat \<Rightarrow> nat list \<Rightarrow> nat list \<Rightarrow> bool" where
  "memo_ok lk pos m touched \<longleftrightarrow>
     (\<forall>l < length m. m ! l \<noteq> 0 \<longrightarrow> m ! l = (if lk l pos then 2 else 1) \<and> l \<in> set touched) \<and>
     (\<forall>l \<in> set touched. l < length m)"

definition list_ok :: "nat \<Rightarrow> nat \<Rightarrow> threads \<Rightarrow> bool" where
  "list_ok n ns t \<longleftrightarrow> ss_ok (t_set t) \<and> n \<le> ss_capacity (t_set t) \<and> n * ns \<le> length (t_slots t)"

definition add_ok ::
    "(nat \<Rightarrow> nat \<Rightarrow> bool) \<Rightarrow> ('o \<Rightarrow> bool) \<Rightarrow> nat \<Rightarrow> nat \<Rightarrow> nat \<Rightarrow> nat \<Rightarrow> 'o add_state \<Rightarrow> bool" where
  "add_ok lk okO nl n ns pos st \<longleftrightarrow>
     list_ok n ns (a_list st) \<and> set (as_slice (t_set (a_list st))) \<subseteq> {..<n} \<and> length (a_scratch st) = ns \<and> okO (a_oracle st) \<and> nl \<le> length (a_memo st) \<and>
     memo_ok lk pos (a_memo st) (a_touched st)"

lemma out_pc: "out E P h pc pos sl L \<Longrightarrow> pc < length P"
  by (induction rule: out.induct) (auto simp: get_at_eq_Some)

lemma prog_okD: "prog_ok ns nl nset P \<Longrightarrow> get_at P pc = Some i \<Longrightarrow> inst_ok ns nl nset i"
  by (auto simp: prog_ok_def get_at_eq_Some list_all_length)

lemma get_at_nth: "get_at P pc = Some i \<Longrightarrow> P ! pc = i"
  by (simp add: get_at_eq_Some)

lemma length_save_slot [simp]: "length (save_slot ns slot pos sl) = length sl"
  by (simp add: save_slot_def Let_def)

context look_oracle
begin

lemma ask_correct:
  assumes st: "add_ok lk okO nl n ns pos st" and l: "l < nl"
  shows "\<exists>st'. ask hold pos l st = Some (lk l pos, st') \<and> add_ok lk okO nl n ns pos st' \<and>
    a_list st' = a_list st \<and> a_scratch st' = a_scratch st"
proof -
  have len: "l < length (a_memo st)" using st l by (simp add: add_ok_def)
  show ?thesis
  proof (cases "a_memo st ! l = 0")
    case False
    then have "a_memo st ! l = (if lk l pos then 2 else 1)" using st len by (simp add: add_ok_def memo_ok_def)
    then show ?thesis using len st False by (auto simp: ask_def)
  next
    case True
    obtain o2 where h: "hold l pos (a_oracle st) = Some (lk l pos, o2)" "okO o2"
      using hold_correct [of "a_oracle st" l pos] st l by (auto simp: add_ok_def)
    let ?m = "(a_memo st)[l := if lk l pos then 2 else 1]"
    have "memo_ok lk pos ?m (a_touched st @ [l])"
      using st len by (auto simp: add_ok_def memo_ok_def nth_list_update)
    then show ?thesis using True len h st by (simp add: ask_def add_ok_def)
  qed
qed

text \<open>
  The loop's step on a job that explores \<open>pc\<close>: skipped when \<open>pc\<close> is in the set, otherwise entered and
  its instruction taken.
\<close>

lemma explore_seen:
  "add_ok lk okO nl n ns pos st \<Longrightarrow> pc \<in> set (as_slice (t_set (a_list st))) \<Longrightarrow>
   add_loop hold P ns pos e (Explore pc # stack) st = add_loop hold P ns pos e stack st"
  by (subst add_loop.simps) (simp add: add_ok_def list_ok_def ss.ins_old)

lemma explore_new:
  assumes st: "add_ok lk okO nl n ns pos st" and pc: "pc < n" and new: "pc \<notin> set (as_slice (t_set (a_list st)))"
  shows "\<exists>s. enter pc (t_set (a_list st)) s \<and>
    add_ok lk okO nl n ns pos (st\<lparr>a_list := (a_list st)\<lparr>t_set := s\<rparr>\<rparr>) \<and>
    (\<forall>stack. add_loop hold P ns pos e (Explore pc # stack) st =
       do { (jobs, st) \<leftarrow> add_inst hold P ns pos e pc (st\<lparr>a_list := (a_list st)\<lparr>t_set := s\<rparr>\<rparr>);
            add_loop hold P ns pos e (jobs @ stack) st })"
proof -
  have ok: "ss_ok (t_set (a_list st))" "n \<le> ss_capacity (t_set (a_list st))"
    using st by (auto simp: add_ok_def list_ok_def)
  obtain s where s: "ss_insert (t_set (a_list st)) pc = Some (True, s)" "ss_ok s"
    "as_slice s = as_slice (t_set (a_list st)) @ [pc]" "ss_capacity s = ss_capacity (t_set (a_list st))"
    using ss.ins_new [OF ok(1) _ new] pc ok(2) by auto
  have "add_loop hold P ns pos e (Explore pc # stack) st =
       do { (jobs, st) \<leftarrow> add_inst hold P ns pos e pc (st\<lparr>a_list := (a_list st)\<lparr>t_set := s\<rparr>\<rparr>);
            add_loop hold P ns pos e (jobs @ stack) st }" for stack
    by (subst add_loop.simps) (simp add: s(1))
  then show ?thesis using s st pc new by (intro exI [of _ s]) (auto simp: add_ok_def list_ok_def enter_def)
qed

text \<open>\<open>st'\<close> is the state after exploring \<open>pc\<close> from \<open>st\<close>: the stack below is as it was, and so are the slots.\<close>

definition explores ::
    "env \<Rightarrow> inst list \<Rightarrow> (nat \<Rightarrow> bool) \<Rightarrow> nat \<Rightarrow> nat \<Rightarrow> nat \<Rightarrow> outcome list \<Rightarrow> 'o add_state \<Rightarrow> 'o add_state \<Rightarrow> bool" where
  "explores E P acc pos pc h L st st' \<longleftrightarrow>
     (\<forall>stack. add_loop hold P (e_slots E) pos (e_end E) (Explore pc # stack) st =
              add_loop hold P (e_slots E) pos (e_end E) stack st') \<and>
     add_ok lk okO nl (length P) (e_slots E) pos st' \<and> a_scratch st' = a_scratch st \<and>
     adds E P acc pos h L (a_list st) (a_list st')"

abbreviation ready :: "env \<Rightarrow> inst list \<Rightarrow> nat \<Rightarrow> 'o add_state \<Rightarrow> bool" where
  "ready E P pos st \<equiv> add_ok lk okO nl (length P) (e_slots E) pos st"

lemma explore_by:
  assumes o: "out E P h pc pos (a_scratch st) L" and st: "ready E P pos st"
    and cov: "covered E P acc pos h (a_list st)"
    and new: "\<And>s st1. \<lbrakk>enter pc (t_set (a_list st)) s; st1 = st\<lparr>a_list := (a_list st)\<lparr>t_set := s\<rparr>\<rparr>; ready E P pos st1\<rbrakk>
      \<Longrightarrow> \<exists>st'. (\<forall>stack. do { (jobs, st) \<leftarrow> add_inst hold P (e_slots E) pos (e_end E) pc st1;
                             add_loop hold P (e_slots E) pos (e_end E) (jobs @ stack) st } =
                  add_loop hold P (e_slots E) pos (e_end E) stack st') \<and>
           ready E P pos st' \<and> a_scratch st' = a_scratch st \<and> adds E P acc pos h L (a_list st) (a_list st')"
  shows "\<exists>st'. explores E P acc pos pc h L st st'"
proof (cases "pc \<in> set (as_slice (t_set (a_list st)))")
  case True
  then show ?thesis
    using explore_seen [OF st True, of P "e_end E"] adds_seen [OF True o cov] st
    by (auto simp: explores_def)
next
  case False
  from explore_new [OF st out_pc [OF o] False, of P "e_end E"] new show ?thesis
    unfolding explores_def by metis
qed

text \<open>An instruction that goes on at \<open>nx\<close>, having changed the slots, which the jobs below restore.\<close>

lemma explore_on:
  assumes o: "out E P (Suc h) pc pos (a_scratch st) L" and st: "ready E P pos st"
    and cov: "covered E P acc pos (Suc h) (a_list st)" and nl: "\<not> leaf (P ! pc)"
    and inst: "\<And>st1. \<lbrakk>ready E P pos st1; a_scratch st1 = a_scratch st\<rbrakk> \<Longrightarrow>
      \<exists>st2. add_inst hold P (e_slots E) pos (e_end E) pc st1 = Some (Explore nx # jobs, st2) \<and> ready E P pos st2 \<and>
        a_list st2 = a_list st1 \<and> a_scratch st2 = sl"
    and IH: "\<And>st2. \<lbrakk>ready E P pos st2; a_scratch st2 = sl; covered E P acc pos h (a_list st2)\<rbrakk>
      \<Longrightarrow> \<exists>st3. explores E P acc pos nx h L st2 st3"
    and restore: "\<And>st3 stack. a_scratch st3 = sl \<Longrightarrow>
      add_loop hold P (e_slots E) pos (e_end E) (jobs @ stack) st3 =
      add_loop hold P (e_slots E) pos (e_end E) stack (st3\<lparr>a_scratch := a_scratch st\<rparr>)"
  shows "\<exists>st'. explores E P acc pos pc (Suc h) L st st'"
proof (rule explore_by [OF o st cov])
  fix s st1
  assume en: "enter pc (t_set (a_list st)) s" and st1: "st1 = st\<lparr>a_list := (a_list st)\<lparr>t_set := s\<rparr>\<rparr>"
    and ok1: "ready E P pos st1"
  obtain st2 where st2: "add_inst hold P (e_slots E) pos (e_end E) pc st1 = Some (Explore nx # jobs, st2)"
      "ready E P pos st2" "a_list st2 = a_list st1" "a_scratch st2 = sl"
    using inst [OF ok1] by (auto simp: st1)
  have "hgt E P pos pc (Suc h)" using o by (auto simp: hgt_def)
  then have "covered E P acc pos h (a_list st2)"
    using covered_enter [OF en nl cov] by (simp add: st2(3) st1)
  from IH [OF st2(2,4) this] obtain st3 where st3: "explores E P acc pos nx h L st2 st3" ..
  let ?st = "st3\<lparr>a_scratch := a_scratch st\<rparr>"
  have len: "length (a_scratch st) = length sl" using st st2(2,4) by (simp add: add_ok_def)
  have "adds E P acc pos (Suc h) L (a_list st) (a_list ?st)"
    using adds_enter [OF en nl o _ lessI] st3 by (simp add: explores_def st2(3) st1)
  moreover have "ready E P pos ?st" using st3 st by (auto simp: explores_def add_ok_def)
  ultimately show "\<exists>st'. (\<forall>stack. do { (jobs, st) \<leftarrow> add_inst hold P (e_slots E) pos (e_end E) pc st1;
                             add_loop hold P (e_slots E) pos (e_end E) (jobs @ stack) st } =
                  add_loop hold P (e_slots E) pos (e_end E) stack st') \<and>
           ready E P pos st' \<and> a_scratch st' = a_scratch st \<and> adds E P acc pos (Suc h) L (a_list st) (a_list st')"
    using st3 restore [of st3] by (intro exI [of _ ?st]) (simp add: st2(1,4) explores_def)
qed

text \<open>An instruction that stops: a failed test.\<close>

lemma explore_stop:
  assumes o: "out E P 0 pc pos (a_scratch st) []" and st: "ready E P pos st"
    and cov: "covered E P acc pos 0 (a_list st)" and nl: "\<not> leaf (P ! pc)"
    and inst: "\<And>st1. ready E P pos st1 \<Longrightarrow>
      \<exists>st2. add_inst hold P (e_slots E) pos (e_end E) pc st1 = Some ([], st2) \<and> ready E P pos st2 \<and>
        a_list st2 = a_list st1 \<and> a_scratch st2 = a_scratch st1"
  shows "\<exists>st'. explores E P acc pos pc 0 [] st st'"
proof (rule explore_by [OF o st cov])
  fix s st1
  assume en: "enter pc (t_set (a_list st)) s" and st1: "st1 = st\<lparr>a_list := (a_list st)\<lparr>t_set := s\<rparr>\<rparr>"
    and ok1: "ready E P pos st1"
  from inst [OF ok1] adds_none [OF en nl o, of acc]
  show "\<exists>st'. (\<forall>stack. do { (jobs, st) \<leftarrow> add_inst hold P (e_slots E) pos (e_end E) pc st1;
                             add_loop hold P (e_slots E) pos (e_end E) (jobs @ stack) st } =
                  add_loop hold P (e_slots E) pos (e_end E) stack st') \<and>
           ready E P pos st' \<and> a_scratch st' = a_scratch st \<and> adds E P acc pos 0 [] (a_list st) (a_list st')"
    by (auto simp: st1)
qed

text \<open>A thread of its own: its slots are recorded.\<close>

lemma explore_leaf:
  assumes o: "out E P h pc pos (a_scratch st) L" and st: "ready E P pos st"
    and cov: "covered E P acc pos h (a_list st)" and lf: "leaf (P ! pc)"
  shows "\<exists>st'. explores E P acc pos pc h L st st'"
proof (rule explore_by [OF o st cov])
  fix s st1
  assume en: "enter pc (t_set (a_list st)) s" and st1: "st1 = st\<lparr>a_list := (a_list st)\<lparr>t_set := s\<rparr>\<rparr>"
    and ok1: "ready E P pos st1"
  let ?ns = "e_slots E" and ?xs = "t_slots (a_list st)"
  have pc: "pc < length P" by (rule out_pc [OF o])
  have room: "(q + 1) * ?ns \<le> length ?xs" if "q < length P" for q
    using st that mult_le_mono1 [of "q + 1" "length P" ?ns] by (auto simp: add_ok_def list_ok_def)
  obtain zs where zs: "blit ?xs (pc * ?ns) ?ns (a_scratch st) = Some zs" "length zs = length ?xs"
    using blit_Some [OF room [OF pc], of "a_scratch st"] st by (auto simp: add_ok_def)
  let ?t = "(a_list st1)\<lparr>t_slots := zs\<rparr>"
  have inst: "add_inst hold P ?ns pos (e_end E) pc st1 = Some ([], st1\<lparr>a_list := ?t\<rparr>)"
    using lf pc zs by (cases "P ! pc") (auto simp: add_inst_def leaf_def st1)
  have sl: "thread_slots ?ns ?t q = (if q = pc then a_scratch st else thread_slots ?ns (a_list st) q)"
    if "q < length P" for q
    using blit_slice [OF zs(1) room [OF that]] room [OF that] zs(2)
    by (auto simp: thread_slots_def slice_Some split: if_splits)
  have "adds E P acc pos h L (a_list st) ?t"
  proof (rule adds_leaf [OF en lf o])
    show "thread_slots ?ns ?t pc = a_scratch st" using sl [OF pc] by simp
    show "t_set ?t = s" by (simp add: st1)
    fix q assume "q \<in> set (as_slice (t_set (a_list st)))"
    then show "thread_slots ?ns ?t q = thread_slots ?ns (a_list st) q"
      using sl [of q] st en by (auto simp: add_ok_def enter_def)
  qed
  moreover have "ready E P pos (st1\<lparr>a_list := ?t\<rparr>)"
    using ok1 zs(2) by (simp add: add_ok_def list_ok_def st1)
  ultimately show "\<exists>st'. (\<forall>stack. do { (jobs, st) \<leftarrow> add_inst hold P (e_slots E) pos (e_end E) pc st1;
                             add_loop hold P (e_slots E) pos (e_end E) (jobs @ stack) st } =
                  add_loop hold P (e_slots E) pos (e_end E) stack st') \<and>
           ready E P pos st' \<and> a_scratch st' = a_scratch st \<and> adds E P acc pos h L (a_list st) (a_list st')"
    using inst by (intro exI [of _ "st1\<lparr>a_list := ?t\<rparr>"]) (simp add: st1)
qed

lemma explore_split:
  assumes o: "out E P (Suc (max h1 h2)) pc pos (a_scratch st) (L1 @ L2)" and st: "ready E P pos st"
    and cov: "covered E P acc pos (Suc (max h1 h2)) (a_list st)" and i: "get_at P pc = Some (I_Split x y)"
    and IH1: "\<And>st2. \<lbrakk>ready E P pos st2; a_scratch st2 = a_scratch st; covered E P acc pos h1 (a_list st2)\<rbrakk>
      \<Longrightarrow> \<exists>st3. explores E P acc pos x h1 L1 st2 st3"
    and IH2: "\<And>st2. \<lbrakk>ready E P pos st2; a_scratch st2 = a_scratch st; covered E P acc pos h2 (a_list st2)\<rbrakk>
      \<Longrightarrow> \<exists>st3. explores E P acc pos y h2 L2 st2 st3"
  shows "\<exists>st'. explores E P acc pos pc (Suc (max h1 h2)) (L1 @ L2) st st'"
proof (rule explore_by [OF o st cov])
  fix s st1
  let ?k = "max h1 h2"
  assume en: "enter pc (t_set (a_list st)) s" and st1: "st1 = st\<lparr>a_list := (a_list st)\<lparr>t_set := s\<rparr>\<rparr>"
    and ok1: "ready E P pos st1"
  have nl: "\<not> leaf (P ! pc)" using i by (simp add: leaf_def get_at_nth)
  have inst: "add_inst hold P (e_slots E) pos (e_end E) pc st1 = Some ([Explore x, Explore y], st1)"
    by (simp add: add_inst_def i)
  have "hgt E P pos pc (Suc ?k)" using o by (auto simp: hgt_def)
  then have c1: "covered E P acc pos ?k (a_list st1)" using covered_enter [OF en nl cov] by (simp add: st1)
  have "covered E P acc pos h1 (a_list st1)" using covered_mono [OF c1] by simp
  from IH1 [OF ok1 _ this] obtain st2 where st2: "explores E P acc pos x h1 L1 st1 st2" by (auto simp: st1)
  then have "covered E P acc pos ?k (a_list st2)" using covered_adds [OF c1, of h1 L1 "a_list st2"] by (simp add: explores_def)
  then have "covered E P acc pos h2 (a_list st2)" by (rule covered_mono) simp
  from IH2 [OF _ _ this] st2 obtain st3 where st3: "explores E P acc pos y h2 L2 st2 st3"
    by (auto simp: explores_def st1)
  have "adds E P acc pos ?k (L1 @ L2) (a_list st1) (a_list st3)"
    using st2 st3 by (intro adds_trans) (auto simp: explores_def)
  from adds_enter [OF en nl o, of acc ?k "a_list st3"] this
  have "adds E P acc pos (Suc ?k) (L1 @ L2) (a_list st) (a_list st3)" by (simp add: st1)
  then show "\<exists>st'. (\<forall>stack. do { (jobs, st) \<leftarrow> add_inst hold P (e_slots E) pos (e_end E) pc st1;
                             add_loop hold P (e_slots E) pos (e_end E) (jobs @ stack) st } =
                  add_loop hold P (e_slots E) pos (e_end E) stack st') \<and>
           ready E P pos st' \<and> a_scratch st' = a_scratch st \<and>
           adds E P acc pos (Suc ?k) (L1 @ L2) (a_list st) (a_list st')"
    using st2 st3 by (intro exI [of _ st3]) (simp add: inst explores_def, simp add: st1)
qed

text \<open>The jobs \<open>I_Save\<close> leaves undo it.\<close>

definition save_jobs :: "nat \<Rightarrow> nat \<Rightarrow> int list \<Rightarrow> job list" where
  "save_jobs ns slot sl =
     (if odd slot \<and> slot < ns - 2 then [Restore (ns - 2) (sl ! (ns - 2)), Restore slot (sl ! slot)]
      else [Restore slot (sl ! slot)])"

lemma save_jobs_undo:
  assumes "slot < ns" and "2 \<le> ns" and "length sl = ns" and "a_scratch st = save_slot ns slot pos sl"
  shows "add_loop hold P ns pos e (save_jobs ns slot sl @ stack) st =
    add_loop hold P ns pos e stack (st\<lparr>a_scratch := sl\<rparr>)"
proof (cases "odd slot \<and> slot < ns - 2")
  case True
  have "(a_scratch st)[ns - 2 := sl ! (ns - 2), slot := sl ! slot] = sl"
    using True assms by (auto simp: save_slot_def Let_def list_eq_iff_nth_eq nth_list_update)
  then show ?thesis using True assms
    by (subst add_loop.simps) (simp add: save_jobs_def, subst add_loop.simps, simp)
next
  case False
  have "(a_scratch st)[slot := sl ! slot] = sl"
    using False assms by (auto simp: save_slot_def Let_def list_eq_iff_nth_eq nth_list_update)
  then show ?thesis using False assms
    by (subst add_loop.simps) (auto simp: save_jobs_def)
qed

lemma save_inst:
  assumes "get_at P pc = Some (I_Save slot nx)" and "slot < ns" and "2 \<le> ns" and "length (a_scratch st) = ns"
  shows "add_inst hold P ns pos e pc st =
    Some (Explore nx # save_jobs ns slot (a_scratch st), st\<lparr>a_scratch := save_slot ns slot pos (a_scratch st)\<rparr>)"
  using assms by (simp add: add_inst_def save_jobs_def save_slot_def)

lemma add_explore:
  assumes P: "prog_ok (e_slots E) nl nset P" and lk: "e_look E = lk"
  shows "out E P h pc pos sl L \<Longrightarrow> ready E P pos st \<Longrightarrow> a_scratch st = sl \<Longrightarrow> covered E P acc pos h (a_list st) \<Longrightarrow>
    \<exists>st'. explores E P acc pos pc h L st st'"
proof (induction arbitrary: st rule: out.induct)
  case (out_hit pc si nx pos h sl L)
  then show ?case by (intro explore_leaf) (auto intro: out.out_hit simp: leaf_def get_at_nth)
next
  case (out_miss pc si nx pos sl)
  then show ?case by (intro explore_leaf) (auto intro: out.out_miss simp: leaf_def get_at_nth)
next
  case (out_split pc x y h1 pos sl L1 h2 L2)
  show ?case
    by (rule explore_split [OF _ out_split.prems(1,3) out_split.hyps(1)])
      (use out_split in \<open>auto intro: out.out_split\<close>)
next
  case (out_jmp pc nx h pos sl L)
  show ?case
    by (rule explore_on [where jobs = "[]" and sl = sl and nx = nx, OF _ out_jmp.prems(1,3)])
      (use out_jmp in \<open>auto intro: out.out_jmp simp: leaf_def get_at_nth add_inst_def\<close>)
next
  case (out_save pc slot nx h pos sl L)
  have slot: "slot < e_slots E" "2 \<le> e_slots E" "length sl = e_slots E"
    using prog_okD [OF P out_save.hyps(1)] P out_save.prems by (auto simp: prog_ok_def add_ok_def)
  show ?case
    by (rule explore_on [where jobs = "save_jobs (e_slots E) slot sl" and sl = "save_slot (e_slots E) slot pos sl"
          and nx = nx, OF _ out_save.prems(1,3)])
      (use out_save slot in \<open>auto intro: out.out_save simp: leaf_def get_at_nth save_inst save_jobs_undo add_ok_def\<close>)
next
  case (out_look pc l nx pos h sl L)
  have l: "l < nl" using prog_okD [OF P out_look.hyps(1)] by simp
  have i: "\<exists>st2. add_inst hold P (e_slots E) pos (e_end E) pc st1 = Some ([Explore nx], st2) \<and> ready E P pos st2 \<and>
        a_list st2 = a_list st1 \<and> a_scratch st2 = a_scratch st1" if "ready E P pos st1" for st1
    using ask_correct [OF that l] out_look.hyps lk by (auto simp: add_inst_def)
  show ?case
    by (rule explore_on [where jobs = "[]" and sl = sl and nx = nx, OF _ out_look.prems(1,3)])
      (use out_look i in \<open>auto intro: out.out_look simp: leaf_def get_at_nth\<close>)
next
  case (out_look_no pc l nx pos sl)
  have l: "l < nl" using prog_okD [OF P out_look_no.hyps(1)] by simp
  have i: "\<exists>st2. add_inst hold P (e_slots E) pos (e_end E) pc st1 = Some ([], st2) \<and> ready E P pos st2 \<and>
        a_list st2 = a_list st1 \<and> a_scratch st2 = a_scratch st1" if "ready E P pos st1" for st1
    using ask_correct [OF that l] out_look_no.hyps lk by (auto simp: add_inst_def)
  show ?case
    by (rule explore_stop [OF _ out_look_no.prems(1,3)])
      (use out_look_no i in \<open>auto intro: out.out_look_no simp: leaf_def get_at_nth\<close>)
next
  case (out_guard pc nx pos h sl L)
  show ?case
    by (rule explore_on [where jobs = "[]" and sl = sl and nx = nx, OF _ out_guard.prems(1,3)])
      (use out_guard in \<open>auto intro: out.out_guard simp: leaf_def get_at_nth add_inst_def\<close>)
next
  case (out_guard_no pc nx pos sl)
  show ?case
    by (rule explore_stop [OF _ out_guard_no.prems(1,3)])
      (use out_guard_no in \<open>auto intro: out.out_guard_no simp: leaf_def get_at_nth add_inst_def\<close>)
next
  case (out_match pc pos sl)
  then show ?case by (intro explore_leaf) (auto intro: out.out_match simp: leaf_def get_at_nth)
next
  case (out_run pc si mn mx greedy nx qs pos H sl K)
  then show ?case using prog_okD [OF P out_run.hyps(1)] by simp
qed

lemma add_correct:
  assumes "prog_ok (e_slots E) nl nset P" and "e_look E = lk" and "out E P h pc pos (a_scratch st) L"
    and "ready E P pos st" and "\<And>k. covered E P acc pos k (a_list st)"
  shows "\<exists>st'. add hold P (e_slots E) pc pos (e_end E) st = Some st' \<and> ready E P pos st' \<and>
    adds E P acc pos h L (a_list st) (a_list st') \<and> (\<forall>k. covered E P acc pos k (a_list st'))"
proof -
  from add_explore [OF assms(1-4) refl, of acc] assms(5)
  obtain st' where st': "explores E P acc pos pc h L st st'" by blast
  have "add hold P (e_slots E) pc pos (e_end E) st = Some st'"
    using st' by (simp add: add_def explores_def add_loop.simps [where stack = "[]"])
  then show ?thesis using st' covered_adds [OF assms(5)] by (auto simp: explores_def)
qed

end

section \<open>One character, every thread\<close>

lemma out_any_slots: "out E P h pc pos sl L \<Longrightarrow> \<exists>L'. out E P h pc pos sl' L'"
proof (induction arbitrary: sl' rule: out.induct)
  case (out_split pc x y h1 pos sl L1 h2 L2)
  then show ?case by (meson out.out_split)
next
  case (out_run pc si mn mx greedy nx qs pos H sl K)
  then have "\<forall>q \<in> set qs. \<exists>L'. out E P (H q) nx q sl' L'" by blast
  then obtain K' where "\<forall>q \<in> set qs. out E P (H q) nx q sl' (K' q)" by (rule bchoice [THEN exE])
  then show ?case using out.out_run [OF out_run.hyps(1,2), of H sl' K'] by blast
qed (meson out.intros)+

lemma out_ends: "out E P h pc pos sl L \<Longrightarrow> x \<in> set L \<Longrightarrow> pos \<le> fst x"
proof (induction rule: out.induct)
  case (out_run pc si mn mx greedy nx qs pos H sl K)
  then obtain q where "q \<in> set qs" "x \<in> set (K q)" by auto
  then have "pos \<le> q" "q \<le> fst x" using out_run by (auto simp: run_stops_def Let_def split: if_splits)
  then show ?case by simp
qed auto

lemma hgt_out: "hgt E P pos pc h \<Longrightarrow> \<exists>L. out E P h pc pos sl L"
  by (auto simp: hgt_def dest: out_any_slots)

definition derived :: "env \<Rightarrow> inst list \<Rightarrow> nat \<Rightarrow> threads \<Rightarrow> bool" where
  "derived E P pos t \<longleftrightarrow> (\<forall>q \<in> set (as_slice (t_set t)). \<exists>k. hgt E P pos q k)"

lemma derived_adds: "derived E P pos t \<Longrightarrow> adds E P acc pos h L t t' \<Longrightarrow> derived E P pos t'"
  by (auto simp: derived_def adds_def)

lemma derived_pc: "derived E P pos t \<Longrightarrow> q \<in> set (as_slice (t_set t)) \<Longrightarrow> q < length P"
  using out_pc by (auto simp: derived_def hgt_def)

lemma future_ends:
  assumes "derived E P pos t" and "x \<in> set (future E P pos t)"
  shows "pos \<le> fst x"
proof -
  obtain q sl where q: "q \<in> set (as_slice (t_set t))" and x: "x \<in> set (paths E P q pos sl)"
    using assms(2) by (auto simp: future_def thread_list_def)
  from assms(1) q obtain k where "hgt E P pos q k" by (auto simp: derived_def)
  from hgt_out [OF this] obtain L where "out E P k q pos sl L" by auto
  with x show ?thesis using paths_out out_ends by metis
qed

text \<open>What a thread can reach, by its instruction.\<close>

lemma paths_char_hit:
  "get_at P pc = Some (I_Char si nx) \<Longrightarrow> hits E si pos \<Longrightarrow> out E P h pc pos sl L \<Longrightarrow>
   \<exists>k. h = Suc k \<and> out E P k nx (Suc pos) sl L"
  by (erule out.cases) auto

lemma paths_char_miss:
  "get_at P pc = Some (I_Char si nx) \<Longrightarrow> \<not> hits E si pos \<Longrightarrow> out E P h pc pos sl L \<Longrightarrow> L = []"
  by (erule out.cases) auto

lemma paths_match: "get_at P pc = Some I_Match \<Longrightarrow> paths E P pc pos sl = [(pos, sl)]"
  by (auto intro: paths_out out.out_match)

definition answer :: "(nat \<Rightarrow> bool) \<Rightarrow> outcome list \<Rightarrow> (int list \<times> nat) option \<Rightarrow> (int list \<times> nat) option" where
  "answer acc F m = (case first_acc acc F of None \<Rightarrow> m | Some x \<Rightarrow> Some (snd x, fst x))"

text \<open>A search at \<open>p\<close> with the current list there, the next list at the next position.\<close>

definition cache_ok ::
    "(nat \<Rightarrow> nat \<Rightarrow> bool) \<Rightarrow> ('o \<Rightarrow> bool) \<Rightarrow> nat \<Rightarrow> env \<Rightarrow> inst list \<Rightarrow> nat \<Rightarrow> 'o pike_cache \<Rightarrow> bool" where
  "cache_ok lk okO nl E P p c \<longleftrightarrow>
     list_ok (length P) (e_slots E) (clist c) \<and> list_ok (length P) (e_slots E) (nlist c) \<and>
     derived E P p (clist c) \<and> derived E P (Suc p) (nlist c) \<and>
     okO (p_oracle c) \<and> nl \<le> length (memo c) \<and> memo_ok lk (Suc p) (memo c) (memo_touched c)"

definition rest_paths :: "env \<Rightarrow> inst list \<Rightarrow> nat \<Rightarrow> threads \<Rightarrow> nat list \<Rightarrow> outcome list" where
  "rest_paths E P p t pcs =
     concat (map (\<lambda>pc. paths E P pc p (thread_slots (e_slots E) t pc)) (filter (\<lambda>pc. leaf (P ! pc)) pcs))"

lemma future_rest: "future E P p t = rest_paths E P p t (as_slice (t_set t))"
  by (simp add: future_def rest_paths_def thread_list_def comp_def)

lemma rest_paths_Cons:
  "rest_paths E P p t (pc # pcs) =
     (if leaf (P ! pc) then paths E P pc p (thread_slots (e_slots E) t pc) else []) @ rest_paths E P p t pcs"
  by (simp add: rest_paths_def)

lemma slice_thread:
  assumes "list_ok n ns t" and "pc < n"
  shows "slice (t_slots t) (pc * ns) ns = Some (thread_slots ns t pc)" "length (thread_slots ns t pc) = ns"
proof -
  have "(pc + 1) * ns \<le> n * ns" using assms(2) by (intro mult_le_mono1) simp
  then have *: "(pc + 1) * ns \<le> length (t_slots t)" using assms(1) by (simp add: list_ok_def)
  then show "slice (t_slots t) (pc * ns) ns = Some (thread_slots ns t pc)"
    by (simp add: slice_Some thread_slots_def)
  show "length (thread_slots ns t pc) = ns" using * by (simp add: thread_slots_def algebra_simps)
qed

lemma char_here_hits:
  "si < length (e_sets E) \<Longrightarrow> char_here (e_sets E) (e_text E) (e_end E) si p = Some (hits E si p)"
  by (auto simp: char_here_def hits_def split: option.splits)

lemma find_append_skip: "\<not> Q x \<Longrightarrow> find Q (F @ x # R) = find Q (F @ R)"
  by (induction F) auto

context look_oracle
begin

abbreviation cache :: "env \<Rightarrow> inst list \<Rightarrow> nat \<Rightarrow> 'o pike_cache \<Rightarrow> bool" where
  "cache E P p c \<equiv> cache_ok lk okO nl E P p c"

abbreviation all_covered :: "env \<Rightarrow> inst list \<Rightarrow> (nat \<Rightarrow> bool) \<Rightarrow> nat \<Rightarrow> threads \<Rightarrow> bool" where
  "all_covered E P acc pos t \<equiv> \<forall>k. covered E P acc pos k t"

lemma add_next_correct:
  assumes P: "prog_ok (e_slots E) nl nset P" and lk: "e_look E = lk" and c: "cache E P p c"
    and pc: "pc < length P" and o: "out E P h nx (Suc p) (thread_slots (e_slots E) (clist c) pc) L"
    and cov: "all_covered E P acc (Suc p) (nlist c)"
  shows "\<exists>c'. add_next hold P (e_slots E) pc nx (Suc p) (e_end E) c = Some c' \<and> cache E P p c' \<and>
    clist c' = clist c \<and> adds E P acc (Suc p) h L (nlist c) (nlist c') \<and> all_covered E P acc (Suc p) (nlist c')"
proof -
  let ?ns = "e_slots E" and ?sl = "thread_slots (e_slots E) (clist c) pc"
  let ?st = "\<lparr>a_list = nlist c, a_scratch = ?sl, a_oracle = p_oracle c, a_memo = memo c, a_touched = memo_touched c\<rparr>"
  have l: "list_ok (length P) ?ns (clist c)" using c by (simp add: cache_ok_def)
  have "set (as_slice (t_set (nlist c))) \<subseteq> {..<length P}"
    using c derived_pc [of E P "Suc p" "nlist c"] by (auto simp: cache_ok_def)
  then have "ready E P (Suc p) ?st" using c slice_thread [OF l pc] by (simp add: cache_ok_def add_ok_def)
  from add_correct [OF P lk _ this, of h nx L acc] o cov
  obtain st' where st': "add hold P ?ns nx (Suc p) (e_end E) ?st = Some st'" "ready E P (Suc p) st'"
    "adds E P acc (Suc p) h L (nlist c) (a_list st')" "all_covered E P acc (Suc p) (a_list st')" by auto
  then show ?thesis
    using c slice_thread [OF l pc] derived_adds [OF _ st'(3)]
    by (auto simp: add_next_def cache_ok_def add_ok_def)
qed

lemma step_threads_correct:
  assumes P: "prog_ok (e_slots E) nl (length (e_sets E)) P" and lk: "e_look E = lk"
    and "cache E P p c" and "all_covered E P (accepts w start) (Suc p) (nlist c)"
    and "\<forall>i \<in> set is. i < length (as_slice (t_set (clist c)))"
  shows "\<exists>c' m'. step_threads hold (e_sets E) P (e_text E) (e_slots E) start (e_end E) w p is c m = Some (c', m') \<and>
    cache E P p c' \<and> clist c' = clist c \<and> (p \<ge> e_end E \<longrightarrow> nlist c' = nlist c) \<and>
    all_covered E P (accepts w start) (Suc p) (nlist c') \<and>
    (m' = m \<or> (\<exists>sl. m' = Some (sl, p) \<and> accepts w start p)) \<and>
    answer (accepts w start) (future E P (Suc p) (nlist c')) m' =
    answer (accepts w start) (future E P (Suc p) (nlist c) @
      rest_paths E P p (clist c) (map (\<lambda>i. as_slice (t_set (clist c)) ! i) is)) m"
  using assms(3-)
proof (induction "is" arbitrary: c)
  case Nil
  then show ?case by (simp add: rest_paths_def)
next
  case (Cons i js)
  let ?acc = "accepts w start" and ?ns = "e_slots E"
  let ?pc = "as_slice (t_set (clist c)) ! i" and ?sl = "thread_slots (e_slots E) (clist c) (as_slice (t_set (clist c)) ! i)"
  have ok: "list_ok (length P) ?ns (clist c)" "derived E P p (clist c)" using Cons.prems(1) by (auto simp: cache_ok_def)
  have i: "i < length (as_slice (t_set (clist c)))" using Cons.prems(3) by simp
  then have mem: "?pc \<in> set (as_slice (t_set (clist c)))" by simp
  note pc = derived_pc [OF ok(2) mem]
  have g: "ss_get (t_set (clist c)) i = Some ?pc"
    using i ok(1) by (simp add: ss_get_slice list_ok_def)
  obtain k L where o: "out E P k ?pc p ?sl L" using ok(2) mem hgt_out by (meson derived_def)
  have gp: "get_at P ?pc = Some (P ! ?pc)" using pc by simp
  note IH = Cons.IH [OF Cons.prems(1,2)]
  show ?case
  proof (cases "P ! ?pc")
    case (I_Char si nx)
    then have gi: "get_at P ?pc = Some (I_Char si nx)" using gp by simp
    have ch: "char_here (e_sets E) (e_text E) (e_end E) si p = Some (hits E si p)"
      using prog_okD [OF P gi] by (simp add: char_here_hits)
    show ?thesis
    proof (cases "hits E si p")
      case True
      from paths_char_hit [OF gi True o] obtain k' where o': "out E P k' nx (Suc p) ?sl L" by auto
      from add_next_correct [OF P lk Cons.prems(1) pc o' Cons.prems(2)]
      obtain c1 where c1: "add_next hold P ?ns ?pc nx (Suc p) (e_end E) c = Some c1" "cache E P p c1"
        "clist c1 = clist c" "adds E P ?acc (Suc p) k' L (nlist c) (nlist c1)" "all_covered E P ?acc (Suc p) (nlist c1)"
        by blast
      have "p < e_end E" using True by (simp add: hits_def)
      moreover have "first_acc ?acc (future E P (Suc p) (nlist c1) @ R) = first_acc ?acc (future E P (Suc p) (nlist c) @ L @ R)" for R
        using c1(4) by (simp add: adds_def)
      ultimately show ?thesis
        using Cons.IH [OF c1(2,5)] Cons.prems(3) True
        by (simp add: g gi ch c1(1,3) I_Char leaf_def rest_paths_Cons paths_out [OF o] answer_def)
    next
      case False
      then show ?thesis using IH Cons.prems(3) paths_char_miss [OF gi False o]
        by (simp add: g gi ch I_Char leaf_def rest_paths_Cons paths_out [OF o])
    qed
  next
    case I_Match
    then have gi: "get_at P ?pc = Some I_Match" using gp by simp
    show ?thesis
    proof (cases "?acc p")
      case True
      have "answer ?acc (future E P (Suc p) (nlist c)) (Some (?sl, p)) =
        answer ?acc (future E P (Suc p) (nlist c) @ (p, ?sl) # R) m" for R
        using True
        by (cases "first_acc ?acc (future E P (Suc p) (nlist c))")
          (simp_all add: answer_def first_acc_append del: first_acc_None)
      then show ?thesis using True slice_thread [OF ok(1) pc] Cons.prems(1,2)
        by (simp add: g gi I_Match leaf_def rest_paths_Cons paths_match [OF gi])
    next
      case False
      then have "answer ?acc (F @ (p, sl) # R) m = answer ?acc (F @ R) m" for F sl R
        by (simp add: answer_def first_acc_def find_append_skip)
      then show ?thesis using IH Cons.prems(3) False
        by (simp add: g gi I_Match leaf_def rest_paths_Cons paths_match [OF gi])
    qed
  qed (use IH Cons.prems(3) gp in \<open>simp_all add: g leaf_def rest_paths_Cons\<close>)
qed

end

section \<open>The search\<close>

lemma clear_memo_correct:
  "\<forall>l \<in> set touched. l < length m \<Longrightarrow>
   \<exists>m'. clear_memo m touched = Some m' \<and> length m' = length m \<and>
     (\<forall>l < length m. m' ! l = (if l \<in> set touched then 0 else m ! l))"
proof (induction touched arbitrary: m)
  case (Cons t ts)
  then have t: "t < length m" by simp
  from Cons.IH [of "m[t := 0]"] Cons.prems
  obtain m' where m': "clear_memo (m[t := 0]) ts = Some m'" "length m' = length m"
    "\<forall>l < length m. m' ! l = (if l \<in> set ts then 0 else m[t := 0] ! l)" by auto
  then show ?case using t by (simp add: nth_list_update)
qed simp

lemma cleared_correct:
  assumes "memo_ok lk pos (memo c) (memo_touched c)"
  shows "\<exists>m. cleared c = Some (c\<lparr>memo := m, memo_touched := []\<rparr>) \<and> length m = length (memo c) \<and>
    (\<forall>pos. memo_ok lk pos m []) \<and> (\<forall>l < length m. m ! l = 0)"
proof -
  obtain m where m: "clear_memo (memo c) (memo_touched c) = Some m" "length m = length (memo c)"
    "\<forall>l < length (memo c). m ! l = (if l \<in> set (memo_touched c) then 0 else memo c ! l)"
    using clear_memo_correct [of "memo_touched c" "memo c"] assms by (auto simp: memo_ok_def)
  then have "\<forall>l < length m. m ! l = 0" using assms by (fastforce simp: memo_ok_def)
  then show ?thesis using m(1,2) by (intro exI [of _ m]) (simp add: cleared_def memo_ok_def)
qed

lemma all_indices: "map (\<lambda>i. xs ! i) [0..<length xs] = xs"
  by (rule map_nth)

lemma covered_empty: "as_slice (t_set t) = [] \<Longrightarrow> covered E P acc pos h t"
  by (simp add: covered_def)

lemma future_empty: "as_slice (t_set t) = [] \<Longrightarrow> future E P pos t = []"
  by (simp add: future_def thread_list_def)

text \<open>At the head of the loop: the current list is closed at \<open>p\<close>, the next one is empty.\<close>

definition loop_ok ::
    "(nat \<Rightarrow> nat \<Rightarrow> bool) \<Rightarrow> ('o \<Rightarrow> bool) \<Rightarrow> nat \<Rightarrow> env \<Rightarrow> inst list \<Rightarrow> nat \<Rightarrow> 'o pike_cache \<Rightarrow> bool" where
  "loop_ok lk okO nl E P p c \<longleftrightarrow>
     list_ok (length P) (e_slots E) (clist c) \<and> list_ok (length P) (e_slots E) (nlist c) \<and>
     derived E P p (clist c) \<and> as_slice (t_set (nlist c)) = [] \<and>
     okO (p_oracle c) \<and> nl \<le> length (memo c) \<and> memo_ok lk p (memo c) (memo_touched c)"

text \<open>A cache between two searches.\<close>

definition pike_ok :: "('o \<Rightarrow> bool) \<Rightarrow> 'o pike_cache \<Rightarrow> bool" where
  "pike_ok okO c \<longleftrightarrow>
     ss_ok (t_set (clist c)) \<and> ss_ok (t_set (nlist c)) \<and> okO (p_oracle c) \<and> memo_touched c = [] \<and>
     (\<forall>l < length (memo c). memo c ! l = 0)"

lemma pike_new_ok [simp]: "pike_ok okO (pike_new o1) \<longleftrightarrow> okO o1"
  by (simp add: pike_ok_def pike_new_def threads_new_def)

lemma no_later_match:
  assumes "derived E P (Suc p) t" and "end_at w = Some x" and "x \<le> p"
  shows "\<not> some_acc (accepts w start) (future E P (Suc p) t)"
  using future_ends [OF assms(1)] assms(2,3) by (fastforce simp: some_acc_def accepts_def)

context look_oracle
begin

abbreviation stops :: "want \<Rightarrow> nat \<Rightarrow> (int list \<times> nat) option \<Rightarrow> bool" where
  "stops w p m \<equiv> (case end_at w of None \<Rightarrow> False | Some x \<Rightarrow> m \<noteq> None \<or> p \<ge> x)"

lemma search_loop_correct:
  assumes P: "prog_ok (e_slots E) nl (length (e_sets E)) P" and lk: "e_look E = lk"
  shows "loop_ok lk okO nl E P p c \<Longrightarrow> \<forall>sl q. m = Some (sl, q) \<longrightarrow> accepts w start q \<and> q < p \<Longrightarrow>
    \<exists>c'. search_loop hold (e_sets E) P (e_text E) (e_slots E) start (e_end E) w p c m =
      Some (c', answer (accepts w start) (future E P p (clist c)) m) \<and>
      ss_ok (t_set (clist c')) \<and> ss_ok (t_set (nlist c')) \<and> okO (p_oracle c') \<and>
      (\<exists>pos. memo_ok lk pos (memo c') (memo_touched c'))"
proof (induction "e_end E - p" arbitrary: p c m rule: less_induct)
  case less
  let ?acc = "accepts w start"
  note c = less.prems(1) [unfolded loop_ok_def]
  obtain mm where mm: "cleared c = Some (c\<lparr>memo := mm, memo_touched := []\<rparr>)" "length mm = length (memo c)"
    "memo_ok lk (Suc p) mm []"
    using cleared_correct [of lk p c] c by auto
  let ?c1 = "c\<lparr>memo := mm, memo_touched := []\<rparr>"
  have c1: "cache_ok lk okO nl E P p ?c1" using c mm by (simp add: cache_ok_def derived_def)
  have cov: "\<forall>k. covered E P ?acc (Suc p) k (nlist ?c1)" using c by (simp add: covered_empty)
  have len: "length (as_slice (t_set (clist c))) = ss_len (t_set (clist c))"
    using c by (simp add: list_ok_def)
  obtain c2 m2 where st: "step_threads hold (e_sets E) P (e_text E) (e_slots E) start (e_end E) w p
        [0..<ss_len (t_set (clist c))] ?c1 m = Some (c2, m2)"
    and c2: "cache_ok lk okO nl E P p c2" "clist c2 = clist c" "p \<ge> e_end E \<longrightarrow> nlist c2 = nlist c"
      "\<forall>k. covered E P ?acc (Suc p) k (nlist c2)"
    and m2: "m2 = m \<or> (\<exists>sl. m2 = Some (sl, p) \<and> ?acc p)"
    and ans: "answer ?acc (future E P (Suc p) (nlist c2)) m2 = answer ?acc (future E P p (clist c)) m"
    using step_threads_correct [OF P lk c1 cov, of "[0..<ss_len (t_set (clist c))]" m] c len
    by (auto simp: future_empty future_rest [symmetric] all_indices [of "as_slice (t_set (clist c))", unfolded len])
  have m2': "\<forall>sl q. m2 = Some (sl, q) \<longrightarrow> ?acc q \<and> q < Suc p"
    using m2 less.prems(2) by fastforce
  have dn: "derived E P (Suc p) (nlist c2)" using c2(1) by (simp add: cache_ok_def)
  have okc2: "ss_ok (t_set (clist c2)) \<and> ss_ok (t_set (nlist c2)) \<and> okO (p_oracle c2) \<and>
      (\<exists>pos. memo_ok lk pos (memo c2) (memo_touched c2))"
    using c2(1) by (auto simp: cache_ok_def list_ok_def)
  show ?case
  proof (cases "p \<ge> e_end E \<or> ss_is_empty (t_set (nlist c2)) \<or> stops w p m2")
    case True
    have "\<not> some_acc ?acc (future E P (Suc p) (nlist c2))"
    proof (cases "p \<ge> e_end E \<or> ss_is_empty (t_set (nlist c2))")
      case True
      then have "as_slice (t_set (nlist c2)) = []" using c2(3) c okc2 ss_is_empty_iff by auto
      then show ?thesis by (simp add: future_empty)
    next
      case False
      with True obtain x where x: "end_at w = Some x" and "m2 \<noteq> None \<or> x \<le> p" by (auto split: option.splits)
      then have "x \<le> p" using m2' by (auto simp: accepts_def)
      then show ?thesis by (rule no_later_match [OF dn x])
    qed
    then have "answer ?acc (future E P (Suc p) (nlist c2)) m2 = m2" by (simp add: answer_def split: option.splits, metis first_acc_None option.distinct(1))
    then have "search_loop hold (e_sets E) P (e_text E) (e_slots E) start (e_end E) w p c m =
      Some (c2, answer ?acc (future E P p (clist c)) m)"
      using True ans by (subst search_loop.simps) (auto simp: mm(1) st)
    with okc2 show ?thesis by blast
  next
    case False
    let ?c3 = "c2\<lparr>clist := nlist c2, nlist := (clist c2)\<lparr>t_set := ss_clear (t_set (clist c2))\<rparr>\<rparr>"
    have "loop_ok lk okO nl E P (Suc p) ?c3"
      using c2(1) by (auto simp: loop_ok_def cache_ok_def list_ok_def)
    moreover have "e_end E - Suc p < e_end E - p" using False by auto
    ultimately obtain c' where c': "search_loop hold (e_sets E) P (e_text E) (e_slots E) start (e_end E) w (Suc p) ?c3 m2 =
      Some (c', answer ?acc (future E P (Suc p) (clist ?c3)) m2)"
      "ss_ok (t_set (clist c')) \<and> ss_ok (t_set (nlist c')) \<and> okO (p_oracle c') \<and>
      (\<exists>pos. memo_ok lk pos (memo c') (memo_touched c'))"
      using less.hyps [of "Suc p" ?c3 m2] m2' by blast
    have "search_loop hold (e_sets E) P (e_text E) (e_slots E) start (e_end E) w p c m =
      Some (c', answer ?acc (future E P p (clist c)) m)"
      using False c'(1) ans by (subst search_loop.simps) (simp add: mm(1) st)
    with c'(2) show ?thesis by blast
  qed
qed

end

lemma threads_reset_ok:
  assumes "ss_ok (t_set t)"
  shows "list_ok n ns (threads_reset n ns t)" "as_slice (t_set (threads_reset n ns t)) = []"
  using assms by (auto simp: threads_reset_def list_ok_def grow_to_def)

context look_oracle
begin

lemma search_correct:
  assumes P: "prog_ok (e_slots E) nl (length (e_sets E)) (insts prog)" and lk: "e_look E = lk"
    and pr: "sets pr = e_sets E" "slots pr = e_slots E" "length (looks pr) = nl"
    and c: "pike_ok okO c"
    and o: "outs E (insts prog) (if anchored w then p_start prog else start_unanchored prog) start
              (replicate (e_slots E) (-1)) L"
  shows "\<exists>c'. search hold pr prog (e_text E) start (e_end E) w c =
      Some (c', map_option (\<lambda>x. (snd x, fst x)) (first_acc (accepts w start) L)) \<and> pike_ok okO c'"
proof -
  let ?P = "insts prog" and ?ns = "e_slots E" and ?acc = "accepts w start"
  let ?entry = "if anchored w then p_start prog else start_unanchored prog"
  let ?memo = "if length (memo c) < nl then grow_to nl 0 (memo c) else memo c"
  let ?c1 = "c\<lparr>clist := threads_reset (length ?P) ?ns (clist c), nlist := threads_reset (length ?P) ?ns (nlist c),
    scratch := replicate ?ns (-1), memo := ?memo\<rparr>"
  let ?st = "\<lparr>a_list = clist ?c1, a_scratch = scratch ?c1, a_oracle = p_oracle c, a_memo = ?memo, a_touched = memo_touched c\<rparr>"
  have zero: "\<forall>l < length ?memo. ?memo ! l = 0" and nlm: "nl \<le> length ?memo"
    using c by (auto simp: pike_ok_def grow_to_def nth_append)
  have ss: "ss_ok (t_set (clist c))" "ss_ok (t_set (nlist c))" using c by (auto simp: pike_ok_def)
  note r = threads_reset_ok [OF ss(1), of "length ?P" ?ns] threads_reset_ok [OF ss(2), of "length ?P" ?ns]
  have rd: "ready E ?P start ?st"
    using c r zero nlm by (simp add: add_ok_def pike_ok_def memo_ok_def)
  have empty: "as_slice (t_set (a_list ?st)) = []" using r by simp
  obtain h where h: "out E ?P h ?entry start (a_scratch ?st) L" using o by (auto simp: outs_def)
  obtain st' where st': "add hold ?P ?ns ?entry start (e_end E) ?st = Some st'" "ready E ?P start st'"
    "adds E ?P ?acc start h L (a_list ?st) (a_list st')"
    using add_correct [OF P lk h rd covered_empty [OF empty]] by blast
  let ?c2 = "?c1\<lparr>clist := a_list st', scratch := a_scratch st', p_oracle := a_oracle st', memo := a_memo st',
    memo_touched := a_touched st'\<rparr>"
  have "derived E ?P start (a_list st')"
    by (rule derived_adds [OF _ st'(3)]) (use empty in \<open>simp add: derived_def\<close>)
  then have "loop_ok lk okO nl E ?P start ?c2"
    using st'(2) r by (simp add: loop_ok_def add_ok_def)
  from search_loop_correct [OF P lk this, of None w start]
  obtain c3 where c3: "search_loop hold (e_sets E) ?P (e_text E) ?ns start (e_end E) w start ?c2 None =
      Some (c3, answer ?acc (future E ?P start (a_list st')) None)"
    "ss_ok (t_set (clist c3))" "ss_ok (t_set (nlist c3))" "okO (p_oracle c3)"
    "\<exists>pos. memo_ok lk pos (memo c3) (memo_touched c3)" by auto
  have "first_acc ?acc (future E ?P start (a_list st') @ []) = first_acc ?acc (future E ?P start (a_list ?st) @ L @ [])"
    using st'(3) unfolding adds_def by blast
  then have ans: "answer ?acc (future E ?P start (a_list st')) None = map_option (\<lambda>x. (snd x, fst x)) (first_acc ?acc L)"
    using future_empty [OF empty] by (cases "first_acc ?acc L") (simp_all add: answer_def del: first_acc_None)
  obtain mm where mm: "cleared c3 = Some (c3\<lparr>memo := mm, memo_touched := []\<rparr>)" "\<forall>l < length mm. mm ! l = 0"
    using c3(5) cleared_correct by blast
  have "search hold pr prog (e_text E) start (e_end E) w c =
      Some (c3\<lparr>memo := mm, memo_touched := []\<rparr>, map_option (\<lambda>x. (snd x, fst x)) (first_acc ?acc L))"
    using st'(1) c3(1) mm(1) ans unfolding search_def Let_def pr by (simp split del: if_split)
  then show ?thesis using c3 mm(2) by (auto simp: pike_ok_def)
qed

end

end
