(* ===== verification/Looks.thy ===== *)
theory Looks
  imports Pike
begin

unbundle bit_operations_syntax

text \<open>
  Zero-width tests at a position (\<^verbatim>\<open>linre/looks.rs\<close>): anchors, word boundaries, tests of one character,
  lookarounds as fixed sequences, and lookarounds as programs of their own, walked as a set of states
  (\<open>run\<close>), with the walks memoized for lookaheads that may read far (\<open>run_memo\<close>), and decided at every
  position at once when the walks cost too much (\<open>sweep\<close>).

  A lookaround inside another is tried one level deeper, with that level's buffers: the functions below
  take the test of the next level as an argument (\<open>inner\<close>), and \<open>holds_at\<close> ties the knot by the depth of
  nesting. An index out of range, and a loop that does not end, are \<open>None\<close>.
\<close>

section \<open>Tests of the characters around a position\<close>

definition is_word_char :: "unidata \<Rightarrow> bool \<Rightarrow> u32 \<Rightarrow> bool" where
  "is_word_char u ascii c =
     (if ascii then c < 128 \<and> (is_ascii_alphanumeric c \<or> c = 0x5F) else Unicode.is_word u c)"

definition text_at :: "u32 list \<Rightarrow> nat \<Rightarrow> (u32 \<Rightarrow> bool) \<Rightarrow> bool" where
  "text_at text p Q = (case get_at text p of None \<Rightarrow> False | Some c \<Rightarrow> Q c)"

text \<open>\<^verbatim>\<open>pr.sets[set].contains(c)\<close>, an index out of range being a panic.\<close>

definition set_at :: "charset list \<Rightarrow> nat \<Rightarrow> u32 list \<Rightarrow> nat \<Rightarrow> bool option" where
  "set_at ss si text p =
     (case get_at text p of None \<Rightarrow> Some False | Some c \<Rightarrow> do { cs \<leftarrow> get_at ss si; Some (contains cs c) })"

fun simple_holds :: "unidata \<Rightarrow> charset list \<Rightarrow> lookdef \<Rightarrow> u32 list \<Rightarrow> nat \<Rightarrow> nat \<Rightarrow> bool option" where
  "simple_holds u ss D_Begin text p e = Some (p = 0)"
| "simple_holds u ss D_BeginLine text p e = Some (p = 0 \<or> text_at text (p - 1) (\<lambda>c. c = 0x0A))"
| "simple_holds u ss D_End text p e = Some (p = e \<or> p + 1 = e \<and> text_at text p (\<lambda>c. c = 0x0A))"
| "simple_holds u ss D_EndLine text p e = Some (p = e \<or> text_at text p (\<lambda>c. c = 0x0A))"
| "simple_holds u ss D_EndString text p e = Some (p = e)"
| "simple_holds u ss (D_Word ascii negate) text p e =
     Some (if e = 0 then False
           else (let that = (p > 0 \<and> text_at text (p - 1) (is_word_char u ascii));
                     this = (p < e \<and> text_at text p (is_word_char u ascii))
                 in if negate then this = that else this \<noteq> that))"
| "simple_holds u ss (D_Behind1 si negate) text p e =
     do { hit \<leftarrow> (if p \<ge> 1 \<and> p - 1 < e then set_at ss si text (p - 1) else Some False); Some (hit \<noteq> negate) }"
| "simple_holds u ss (D_Ahead1 si negate) text p e =
     do { hit \<leftarrow> (if p < e then set_at ss si text p else Some False); Some (hit \<noteq> negate) }"
| "simple_holds u ss (D_Around _ _ _ _ _ _ _ _) text p e = Some False"

section \<open>A lookaround as fixed sequences\<close>

fun flat_seq :: "unidata \<Rightarrow> programs \<Rightarrow> u32 list \<Rightarrow> nat \<Rightarrow> flat list \<Rightarrow> nat \<Rightarrow> bool option" where
  "flat_seq u pr text e [] pos = Some True"
| "flat_seq u pr text e (F_Char si # s) pos =
     do { hit \<leftarrow> (if pos < e then set_at (sets pr) si text pos else Some False);
          if hit then flat_seq u pr text e s (pos + 1) else Some False }"
| "flat_seq u pr text e (F_Look l # s) pos =
     do { d \<leftarrow> get_at (looks pr) l;
          ok \<leftarrow> simple_holds u (sets pr) d text pos e;
          if ok then flat_seq u pr text e s pos else Some False }"

fun flat_any :: "unidata \<Rightarrow> programs \<Rightarrow> flat list list \<Rightarrow> u32 list \<Rightarrow> nat \<Rightarrow> nat \<Rightarrow> bool option" where
  "flat_any u pr [] text q e = Some False"
| "flat_any u pr (s # seqs) text q e =
     do { hit \<leftarrow> flat_seq u pr text e s q; if hit then Some True else flat_any u pr seqs text q e }"

definition flat_holds :: "unidata \<Rightarrow> programs \<Rightarrow> flat list list \<Rightarrow> u32 list \<Rightarrow> nat \<Rightarrow> nat \<Rightarrow> bool option" where
  "flat_holds u pr seqs text q e = flat_any u pr seqs text q (min e (length text))"

section \<open>The oracle\<close>

text \<open>
  The sets of one level of nesting (its stack and path are empty between two uses). A memo: the sets met
  by their character instructions, per set the runs of positions with a known outcome (from \<open>\<mapsto>\<close> (to,
  outcome)), the lowest position tried, the steps taken and the swept outcomes. The key of the memos is
  the text's address and length and the window's end.
\<close>

record level =
  lv_cur :: sparse_set
  lv_next :: sparse_set

definition level_new :: level where
  "level_new = \<lparr>lv_cur = ss_new 0, lv_next = ss_new 0\<rparr>"

record look_memo =
  m_gen :: nat
  m_ids :: "nat list \<rightharpoonup> nat"
  m_count :: nat
  m_runs :: "(nat \<rightharpoonup> nat \<times> bool) list"
  m_lo :: nat
  m_steps :: nat
  m_swept :: "(nat \<times> bool list) option"

definition memo_new :: look_memo where
  "memo_new = \<lparr>m_gen = 0, m_ids = Map.empty, m_count = 0, m_runs = [], m_lo = 0, m_steps = 0, m_swept = None\<rparr>"

record oracle_state =
  o_levels :: "level list"
  o_key :: "nat \<times> nat \<times> nat"
  o_gen :: nat
  o_memos :: "look_memo list"
  o_walked :: nat

definition oracle_new :: oracle_state where
  "oracle_new = \<lparr>o_levels = [], o_key = (0, 0, 0), o_gen = 0, o_memos = [], o_walked = 0\<rparr>"

definition USIZE_MAX :: nat where
  "USIZE_MAX = 2 ^ 64 - 1"

definition sat_usize :: "nat \<Rightarrow> nat" where
  "sat_usize n = min n USIZE_MAX"

definition MEMO_AFTER :: nat where "MEMO_AFTER = 8"
definition MEMO_SETS :: nat where "MEMO_SETS = 4096"
definition SWEEP_AFTER :: nat where "SWEEP_AFTER = 4"
definition SWEEP_SLACK :: nat where "SWEEP_SLACK = 4096"

text \<open>\<^verbatim>\<open>LookMemo::known\<close>: the last run that starts at or before the position.\<close>

definition memo_known :: "look_memo \<Rightarrow> nat \<Rightarrow> nat \<Rightarrow> bool option option" where
  "memo_known m k pos =
     do { r \<leftarrow> get_at (m_runs m) k;
          Some (case filter (\<lambda>f. r f \<noteq> None) (rev [0..<pos + 1]) of
                  [] \<Rightarrow> None
                | f # _ \<Rightarrow> (case r f of None \<Rightarrow> None | Some (to, v) \<Rightarrow> if pos < to then Some v else None)) }"

definition memo_clear :: "look_memo \<Rightarrow> look_memo" where
  "memo_clear m = m\<lparr>m_ids := Map.empty, m_count := 0, m_runs := []\<rparr>"

definition memo_reset :: "nat \<Rightarrow> look_memo \<Rightarrow> look_memo" where
  "memo_reset gen m = (memo_clear m)\<lparr>m_gen := gen, m_lo := USIZE_MAX, m_steps := 0, m_swept := None\<rparr>"

definition swept_at :: "look_memo \<Rightarrow> nat \<Rightarrow> nat \<Rightarrow> bool option option" where
  "swept_at m q e =
     (case m_swept m of
        None \<Rightarrow> Some None
      | Some (from, bits) \<Rightarrow>
          if q < from \<or> q > e then Some None else do { b \<leftarrow> get_at bits (q - from); Some (Some b) })"

definition sweep_due :: "look_memo \<Rightarrow> nat \<Rightarrow> bool" where
  "sweep_due m e =
     (let stretch = sat_usize (e - m_lo m + 1)
      in m_steps m > sat_usize (sat_usize (stretch * SWEEP_AFTER) + SWEEP_SLACK))"

text \<open>\<^verbatim>\<open>Oracle::begin\<close> and \<^verbatim>\<open>check_key\<close>: another text or window is another generation (a \<^verbatim>\<open>u64\<close> that wraps).\<close>

definition next_gen :: "nat \<Rightarrow> nat" where
  "next_gen g = (g + 1) mod 2 ^ 64"

definition oracle_begin :: "nat \<Rightarrow> u32 list \<Rightarrow> nat \<Rightarrow> bool \<Rightarrow> oracle_state \<Rightarrow> oracle_state" where
  "oracle_begin addr text e keep ora =
     (let key = (addr, length text, e);
          ora = (if \<not> keep \<or> key \<noteq> o_key ora then ora\<lparr>o_gen := next_gen (o_gen ora), o_key := key\<rparr> else ora)
      in ora\<lparr>o_walked := 0\<rparr>)"

definition check_key :: "nat \<Rightarrow> u32 list \<Rightarrow> nat \<Rightarrow> oracle_state \<Rightarrow> oracle_state" where
  "check_key addr text e ora =
     (let key = (addr, length text, e)
      in if key \<noteq> o_key ora then ora\<lparr>o_gen := next_gen (o_gen ora), o_key := key\<rparr> else ora)"

section \<open>Walking a program\<close>

type_synonym inner = "nat \<Rightarrow> nat \<Rightarrow> nat \<Rightarrow> oracle_state \<Rightarrow> (bool \<times> oracle_state) option"

text \<open>
  \<^verbatim>\<open>closure\<close>: the instructions reached from those on the stack without reading, into the set. The test of
  the next level: \<open>inner e look pos\<close>.
\<close>

definition closure_inst ::
    "inner \<Rightarrow> inst list \<Rightarrow> nat \<Rightarrow> nat \<Rightarrow> nat \<Rightarrow> oracle_state \<Rightarrow> (nat list \<times> oracle_state) option" where
  "closure_inst inner P pos e pc ora =
     do { i \<leftarrow> get_at P pc;
          case i of
            I_Split x y \<Rightarrow> Some ([x, y], ora)
          | I_Jmp n \<Rightarrow> Some ([n], ora)
          | I_Save _ n \<Rightarrow> Some ([n], ora)
          | I_Guard n \<Rightarrow> Some (if pos \<le> e then [n] else [], ora)
          | I_Look look n \<Rightarrow> do { (ok, ora) \<leftarrow> inner e look pos ora; Some (if ok then [n] else [], ora) }
          | _ \<Rightarrow> Some ([], ora) }"

partial_function (option) closure_loop ::
    "inner \<Rightarrow> inst list \<Rightarrow> nat \<Rightarrow> nat \<Rightarrow> nat list \<Rightarrow> sparse_set \<Rightarrow> oracle_state
     \<Rightarrow> (sparse_set \<times> oracle_state) option" where
  "closure_loop inner P pos e stack s ora =
     (case stack of
        [] \<Rightarrow> Some (s, ora)
      | pc # stack \<Rightarrow>
          do { (new, s) \<leftarrow> ss_insert s pc;
               if \<not> new then closure_loop inner P pos e stack s ora
               else do { (pcs, ora) \<leftarrow> closure_inst inner P pos e pc ora;
                         closure_loop inner P pos e (pcs @ stack) s ora } })"

definition closure ::
    "inner \<Rightarrow> inst list \<Rightarrow> nat \<Rightarrow> nat \<Rightarrow> nat \<Rightarrow> sparse_set \<Rightarrow> oracle_state \<Rightarrow> (sparse_set \<times> oracle_state) option" where
  "closure inner P from pos e s ora = closure_loop inner P pos e [from] s ora"

text \<open>One position of \<^verbatim>\<open>run\<close>: each thread steps over the character, or the walk has found its end.\<close>

fun run_threads ::
    "inner \<Rightarrow> charset list \<Rightarrow> inst list \<Rightarrow> u32 list \<Rightarrow> nat \<Rightarrow> nat option \<Rightarrow> nat \<Rightarrow> nat list
     \<Rightarrow> level \<Rightarrow> oracle_state \<Rightarrow> (bool \<times> level \<times> oracle_state) option" where
  "run_threads inner ss P text e at pos [] lv ora = Some (False, lv, ora)"
| "run_threads inner ss P text e at pos (i # is) lv ora =
     do { pc \<leftarrow> ss_get (lv_cur lv) i;
          inst \<leftarrow> get_at P pc;
          case inst of
            I_Char si nx \<Rightarrow>
              do { hit \<leftarrow> char_here ss text e si pos;
                   if hit
                   then do { (s, ora) \<leftarrow> closure inner P nx (pos + 1) e (lv_next lv) ora;
                             run_threads inner ss P text e at pos is (lv\<lparr>lv_next := s\<rparr>) ora }
                   else run_threads inner ss P text e at pos is lv ora }
          | I_Match \<Rightarrow>
              (if at = None \<or> at = Some pos then Some (True, lv, ora)
               else run_threads inner ss P text e at pos is lv ora)
          | _ \<Rightarrow> run_threads inner ss P text e at pos is lv ora }"

partial_function (option) run_loop ::
    "inner \<Rightarrow> charset list \<Rightarrow> inst list \<Rightarrow> u32 list \<Rightarrow> nat \<Rightarrow> nat option \<Rightarrow> nat
     \<Rightarrow> level \<Rightarrow> oracle_state \<Rightarrow> (bool \<times> level \<times> oracle_state) option" where
  "run_loop inner ss P text e at pos lv ora =
     do { (found, lv, ora) \<leftarrow> run_threads inner ss P text e at pos [0..<ss_len (lv_cur lv)] lv ora;
          if found \<or> ss_is_empty (lv_next lv) \<or> pos \<ge> e then Some (found, lv, ora)
          else (let lv = \<lparr>lv_cur = lv_next lv, lv_next = ss_clear (lv_cur lv)\<rparr>;
                    pos = pos + 1
                in if (case at of None \<Rightarrow> False | Some a \<Rightarrow> pos > a) then Some (False, lv, ora)
                   else run_loop inner ss P text e at pos lv ora) }"

text \<open>The level's buffers taken out for the walk, the level being there.\<close>

definition take_level :: "nat \<Rightarrow> oracle_state \<Rightarrow> level \<times> oracle_state" where
  "take_level depth ora =
     (let ls = grow_to (depth + 1) level_new (o_levels ora)
      in (ls ! depth, ora\<lparr>o_levels := ls[depth := level_new]\<rparr>))"

definition give_level :: "nat \<Rightarrow> level \<Rightarrow> oracle_state \<Rightarrow> oracle_state option" where
  "give_level depth lv ora =
     do { ls \<leftarrow> put_at (o_levels ora) depth lv; Some (ora\<lparr>o_levels := ls\<rparr>) }"

definition run ::
    "inner \<Rightarrow> charset list \<Rightarrow> prog \<Rightarrow> u32 list \<Rightarrow> nat \<Rightarrow> nat \<Rightarrow> nat option \<Rightarrow> nat \<Rightarrow> oracle_state
     \<Rightarrow> (bool \<times> oracle_state) option" where
  "run inner ss prog text q e at depth ora =
     (let n = length (insts prog);
          (lv, ora) = take_level depth ora;
          lv = \<lparr>lv_cur = ss_resize n (lv_cur lv), lv_next = ss_resize n (lv_next lv)\<rparr>
      in do { (s, ora) \<leftarrow> closure inner (insts prog) (p_start prog) q e (lv_cur lv) ora;
              (found, lv, ora) \<leftarrow> run_loop inner ss (insts prog) text e at q (lv\<lparr>lv_cur := s\<rparr>) ora;
              ora \<leftarrow> give_level depth \<lparr>lv_cur = ss_clear (lv_cur lv), lv_next = ss_clear (lv_next lv)\<rparr> ora;
              Some (found, ora) })"

section \<open>The memoized walk\<close>

text \<open>The character instructions of a set, sorted: what decides its future.\<close>

definition inst_is :: "(inst \<Rightarrow> bool) \<Rightarrow> inst list \<Rightarrow> nat \<Rightarrow> bool" where
  "inst_is Q P pc = (case get_at P pc of None \<Rightarrow> False | Some i \<Rightarrow> Q i)"

definition is_char :: "inst \<Rightarrow> bool" where
  "is_char i = (case i of I_Char _ _ \<Rightarrow> True | _ \<Rightarrow> False)"

definition memo_key :: "inst list \<Rightarrow> sparse_set \<Rightarrow> nat list" where
  "memo_key P s = sort (filter (inst_is is_char P) (as_slice s))"

type_synonym path = "(nat \<times> nat \<times> nat) list"

text \<open>The number of a set, a new one for a set not met before; past \<open>MEMO_SETS\<close> all are forgotten.\<close>

definition memo_id :: "nat list \<Rightarrow> look_memo \<Rightarrow> path \<Rightarrow> nat \<times> look_memo \<times> path" where
  "memo_id key m path =
     (case m_ids m key of
        Some k \<Rightarrow> (k, m, path)
      | None \<Rightarrow>
          (let (m, path) = (if m_count m \<ge> MEMO_SETS then (memo_clear m, []) else (m, path));
               k = m_count m
           in (k, m\<lparr>m_ids := (m_ids m)(key \<mapsto> k), m_count := k + 1, m_runs := m_runs m @ [Map.empty]\<rparr>, path)))"

definition path_add :: "nat \<Rightarrow> nat \<Rightarrow> path \<Rightarrow> path" where
  "path_add k pos path =
     (if path \<noteq> [] \<and> fst (last path) = k \<and> snd (snd (last path)) = pos
      then butlast path @ [(k, fst (snd (last path)), pos + 1)]
      else path @ [(k, pos, pos + 1)])"

fun path_record :: "path \<Rightarrow> bool \<Rightarrow> (nat \<rightharpoonup> nat \<times> bool) list \<Rightarrow> (nat \<rightharpoonup> nat \<times> bool) list option" where
  "path_record [] v rs = Some rs"
| "path_record ((k, from, to) # path) v rs =
     do { r \<leftarrow> get_at rs k;
          rs \<leftarrow> put_at rs k (r(from \<mapsto> (to, v)));
          path_record path v rs }"

fun memo_threads ::
    "inner \<Rightarrow> charset list \<Rightarrow> inst list \<Rightarrow> nat \<Rightarrow> u32 \<Rightarrow> nat \<Rightarrow> nat list \<Rightarrow> level \<Rightarrow> oracle_state
     \<Rightarrow> (level \<times> oracle_state) option" where
  "memo_threads inner ss P e c pos [] lv ora = Some (lv, ora)"
| "memo_threads inner ss P e c pos (i # is) lv ora =
     do { pc \<leftarrow> ss_get (lv_cur lv) i;
          inst \<leftarrow> get_at P pc;
          case inst of
            I_Char si nx \<Rightarrow>
              do { cs \<leftarrow> get_at ss si;
                   if contains cs c
                   then do { (s, ora) \<leftarrow> closure inner P nx (pos + 1) e (lv_next lv) ora;
                             memo_threads inner ss P e c pos is (lv\<lparr>lv_next := s\<rparr>) ora }
                   else memo_threads inner ss P e c pos is lv ora }
          | _ \<Rightarrow> memo_threads inner ss P e c pos is lv ora }"

record walk =
  w_steps :: nat
  w_memo :: look_memo
  w_path :: path
  w_level :: level
  w_oracle :: oracle_state

text \<open>Before a step: the set is looked up once the walk is \<open>MEMO_AFTER\<close> long.\<close>

definition walk_known :: "inst list \<Rightarrow> nat \<Rightarrow> walk \<Rightarrow> (bool option \<times> walk) option" where
  "walk_known P pos w =
     (if w_steps w \<ge> MEMO_AFTER
      then (let (k, m, path) = memo_id (memo_key P (lv_cur (w_level w))) (w_memo w) (w_path w)
            in do { v \<leftarrow> memo_known m k pos;
                    case v of
                      Some v \<Rightarrow> Some (Some v, w\<lparr>w_memo := m, w_path := path\<rparr>)
                    | None \<Rightarrow> Some (None, w\<lparr>w_memo := m, w_path := path_add k pos path\<rparr>) })
      else Some (None, w))"

partial_function (option) walk_loop ::
    "inner \<Rightarrow> charset list \<Rightarrow> inst list \<Rightarrow> u32 list \<Rightarrow> nat \<Rightarrow> nat \<Rightarrow> walk \<Rightarrow> (bool \<times> walk) option" where
  "walk_loop inner ss P text e pos w =
     (if list_ex (inst_is (\<lambda>i. i = I_Match) P) (as_slice (lv_cur (w_level w))) then Some (True, w)
      else do { (known, w) \<leftarrow> walk_known P pos w;
                case known of
                  Some v \<Rightarrow> Some (v, w)
                | None \<Rightarrow>
                    (if pos \<ge> e then Some (False, w)
                     else do { c \<leftarrow> get_at text pos;
                               (lv, ora) \<leftarrow> memo_threads inner ss P e c pos [0..<ss_len (lv_cur (w_level w))]
                                 ((w_level w)\<lparr>lv_next := ss_clear (lv_next (w_level w))\<rparr>) (w_oracle w);
                               if ss_is_empty (lv_next lv) then Some (False, w\<lparr>w_level := lv, w_oracle := ora\<rparr>)
                               else walk_loop inner ss P text e (pos + 1)
                                 (w\<lparr>w_level := \<lparr>lv_cur = lv_next lv, lv_next = lv_cur lv\<rparr>, w_oracle := ora,
                                    w_steps := w_steps w + 1\<rparr>) }) })"

section \<open>The sweep\<close>

text \<open>
  The instructions that step to each instruction without reading, in the order the source's arrays
  \<^verbatim>\<open>starts\<close> and \<^verbatim>\<open>preds\<close> list them.
\<close>

fun free_steps :: "inst \<Rightarrow> nat list" where
  "free_steps (I_Split x y) = [x, y]"
| "free_steps (I_Jmp n) = [n]"
| "free_steps (I_Save _ n) = [n]"
| "free_steps (I_Guard n) = [n]"
| "free_steps (I_Look _ n) = [n]"
| "free_steps _ = []"

definition preds_of :: "inst list \<Rightarrow> nat \<Rightarrow> nat list" where
  "preds_of P t = concat (map (\<lambda>pc. replicate (count_list (free_steps (P ! pc)) t) pc) [0..<length P])"

definition targets_in_range :: "inst list \<Rightarrow> bool" where
  "targets_in_range P = list_all (\<lambda>i. list_all (\<lambda>t. t < length P) (free_steps i)) P"

fun sweep_seed :: "nat list \<Rightarrow> sparse_set \<Rightarrow> nat list \<Rightarrow> (sparse_set \<times> nat list) option" where
  "sweep_seed [] s stack = Some (s, stack)"
| "sweep_seed (m # ms) s stack =
     do { (new, s) \<leftarrow> ss_insert s m; sweep_seed ms s (if new then m # stack else stack) }"

fun sweep_chars ::
    "charset list \<Rightarrow> u32 \<Rightarrow> sparse_set \<Rightarrow> (nat \<times> nat \<times> nat) list \<Rightarrow> sparse_set \<Rightarrow> nat list
     \<Rightarrow> (sparse_set \<times> nat list) option" where
  "sweep_chars ss c nxt [] s stack = Some (s, stack)"
| "sweep_chars ss c nxt ((pc, si, n) # chars) s stack =
     do { r \<leftarrow> ss_contains nxt n;
          if r then do { cs \<leftarrow> get_at ss si;
                         if contains cs c
                         then do { (new, s) \<leftarrow> ss_insert s pc;
                                   sweep_chars ss c nxt chars s (if new then pc # stack else stack) }
                         else sweep_chars ss c nxt chars s stack }
          else sweep_chars ss c nxt chars s stack }"

text \<open>The predecessors of one instruction.\<close>

fun sweep_preds ::
    "inner \<Rightarrow> inst list \<Rightarrow> nat \<Rightarrow> nat \<Rightarrow> nat list \<Rightarrow> sparse_set \<Rightarrow> nat list \<Rightarrow> oracle_state
     \<Rightarrow> (sparse_set \<times> nat list \<times> oracle_state) option" where
  "sweep_preds inner P p e [] s stack ora = Some (s, stack, ora)"
| "sweep_preds inner P p e (t # ts) s stack ora =
     do { r \<leftarrow> ss_contains s t;
          if r then sweep_preds inner P p e ts s stack ora
          else do { i \<leftarrow> get_at P t;
                    (pass, ora) \<leftarrow> (case i of
                        I_Look look _ \<Rightarrow> inner e look p ora
                      | I_Guard _ \<Rightarrow> Some (p \<le> e, ora)
                      | _ \<Rightarrow> Some (True, ora));
                    if pass then do { (new, s) \<leftarrow> ss_insert s t; sweep_preds inner P p e ts s (t # stack) ora }
                    else sweep_preds inner P p e ts s stack ora } }"

partial_function (option) sweep_close ::
    "inner \<Rightarrow> inst list \<Rightarrow> nat \<Rightarrow> nat \<Rightarrow> sparse_set \<Rightarrow> nat list \<Rightarrow> oracle_state
     \<Rightarrow> (sparse_set \<times> oracle_state) option" where
  "sweep_close inner P p e s stack ora =
     (case stack of
        [] \<Rightarrow> Some (s, ora)
      | t # stack \<Rightarrow>
          do { (s, stack, ora) \<leftarrow> sweep_preds inner P p e (preds_of P t) s stack ora;
               sweep_close inner P p e s stack ora })"

definition match_insts :: "inst list \<Rightarrow> nat list" where
  "match_insts P = filter (inst_is (\<lambda>i. i = I_Match) P) [0..<length P]"

definition char_insts :: "inst list \<Rightarrow> (nat \<times> nat \<times> nat) list" where
  "char_insts P = concat (map (\<lambda>pc. case P ! pc of I_Char si n \<Rightarrow> [(pc, si, n)] | _ \<Rightarrow> []) [0..<length P])"

text \<open>One position: the seeds, the characters that go on, and their predecessors.\<close>

definition sweep_at ::
    "inner \<Rightarrow> charset list \<Rightarrow> inst list \<Rightarrow> u32 list \<Rightarrow> nat \<Rightarrow> nat \<Rightarrow> sparse_set \<Rightarrow> sparse_set \<Rightarrow> oracle_state
     \<Rightarrow> (sparse_set \<times> oracle_state) option" where
  "sweep_at inner ss P text p e s nxt ora =
     do { (s, stack) \<leftarrow> sweep_seed (match_insts P) (ss_clear s) [];
          (s, stack) \<leftarrow> (if p < e
                         then do { c \<leftarrow> get_at text p; sweep_chars ss c nxt (char_insts P) s stack }
                         else Some (s, stack));
          sweep_close inner P p e s stack ora }"

text \<open>
  From the window's end back to \<open>from\<close>, \<open>k\<close> positions above it: the outcomes of the positions from \<open>p = from + k\<close>
  on are in \<open>bits\<close>.
\<close>

fun sweep_loop ::
    "inner \<Rightarrow> charset list \<Rightarrow> prog \<Rightarrow> u32 list \<Rightarrow> nat \<Rightarrow> nat \<Rightarrow> nat \<Rightarrow> bool list \<Rightarrow> level \<Rightarrow> oracle_state
     \<Rightarrow> (bool list \<times> level \<times> oracle_state) option" where
  "sweep_loop inner ss prog text from e k bits lv ora =
     do { (s, ora) \<leftarrow> sweep_at inner ss (insts prog) text (from + k) e (lv_cur lv) (lv_next lv) ora;
          b \<leftarrow> ss_contains s (p_start prog);
          case k of
            0 \<Rightarrow> Some (b # bits, lv\<lparr>lv_cur := s\<rparr>, ora)
          | Suc k \<Rightarrow> sweep_loop inner ss prog text from e k (b # bits) \<lparr>lv_cur = lv_next lv, lv_next = s\<rparr> ora }"

definition sweep ::
    "inner \<Rightarrow> charset list \<Rightarrow> prog \<Rightarrow> u32 list \<Rightarrow> nat \<Rightarrow> nat \<Rightarrow> level \<Rightarrow> oracle_state
     \<Rightarrow> (bool list \<times> level \<times> oracle_state) option" where
  "sweep inner ss prog text from e lv ora =
     (let n = length (insts prog)
      in if \<not> targets_in_range (insts prog) then None
         else do { (bits, lv, ora) \<leftarrow> sweep_loop inner ss prog text from e (e - from) []
                     \<lparr>lv_cur = ss_resize n (lv_cur lv), lv_next = ss_resize n (lv_next lv)\<rparr> ora;
                   Some (bits, \<lparr>lv_cur = ss_clear (lv_cur lv), lv_next = ss_clear (lv_next lv)\<rparr>, ora) })"

section \<open>Tests of a pattern\<close>

definition give_memo :: "nat \<Rightarrow> look_memo \<Rightarrow> oracle_state \<Rightarrow> oracle_state option" where
  "give_memo look m ora = do { ms \<leftarrow> put_at (o_memos ora) look m; Some (ora\<lparr>o_memos := ms\<rparr>) }"

text \<open>The walk itself, when nothing swept answers.\<close>

definition run_walk ::
    "inner \<Rightarrow> charset list \<Rightarrow> nat \<Rightarrow> prog \<Rightarrow> u32 list \<Rightarrow> nat \<Rightarrow> nat \<Rightarrow> nat \<Rightarrow> look_memo \<Rightarrow> level \<Rightarrow> oracle_state
     \<Rightarrow> (bool \<times> oracle_state) option" where
  "run_walk inner ss look prog text q e depth m lv ora =
     (let n = length (insts prog);
          lv = \<lparr>lv_cur = ss_resize n (lv_cur lv), lv_next = ss_resize n (lv_next lv)\<rparr>
      in do { (s, ora) \<leftarrow> closure inner (insts prog) (p_start prog) q e (lv_cur lv) ora;
              (v, w) \<leftarrow> walk_loop inner ss (insts prog) text e q
                \<lparr>w_steps = 0, w_memo = m, w_path = [], w_level = lv\<lparr>lv_cur := s\<rparr>, w_oracle = ora\<rparr>;
              rs \<leftarrow> path_record (w_path w) v (m_runs (w_memo w));
              ora \<leftarrow> give_level depth
                \<lparr>lv_cur = ss_clear (lv_cur (w_level w)), lv_next = ss_clear (lv_next (w_level w))\<rparr>
                ((w_oracle w)\<lparr>o_walked := sat_usize (o_walked (w_oracle w) + w_steps w)\<rparr>);
              ora \<leftarrow> give_memo look
                ((w_memo w)\<lparr>m_steps := sat_usize (m_steps (w_memo w) + w_steps w), m_runs := rs\<rparr>) ora;
              Some (v, ora) })"

definition memo_answer ::
    "inner \<Rightarrow> charset list \<Rightarrow> nat \<Rightarrow> prog \<Rightarrow> u32 list \<Rightarrow> nat \<Rightarrow> nat \<Rightarrow> nat \<Rightarrow> look_memo \<Rightarrow> oracle_state
     \<Rightarrow> (bool \<times> oracle_state) option" where
  "memo_answer inner ss look prog text q e depth m ora =
     do { sw \<leftarrow> swept_at m q e;
          case sw of
            Some v \<Rightarrow> do { ora \<leftarrow> give_memo look m ora; Some (v, ora) }
          | None \<Rightarrow>
              (let (lv, ora) = take_level depth ora;
                   m = (if q \<le> e then m\<lparr>m_lo := min (m_lo m) q\<rparr> else m)
               in if q \<le> e \<and> sweep_due m e
                  then do { (bits, lv, ora) \<leftarrow> sweep inner ss prog text (m_lo m) e lv ora;
                            m \<leftarrow> Some (m\<lparr>m_swept := Some (m_lo m, bits), m_steps := 0\<rparr>);
                            v \<leftarrow> swept_at m q e;
                            ora \<leftarrow> give_level depth lv
                              (ora\<lparr>o_walked := sat_usize (o_walked ora + (e - m_lo m + 1))\<rparr>);
                            ora \<leftarrow> give_memo look m ora;
                            Some (v = Some True, ora) }
                  else run_walk inner ss look prog text q e depth m lv ora) }"

definition run_memo ::
    "inner \<Rightarrow> charset list \<Rightarrow> nat \<Rightarrow> nat \<Rightarrow> prog \<Rightarrow> u32 list \<Rightarrow> nat \<Rightarrow> nat \<Rightarrow> nat \<Rightarrow> oracle_state
     \<Rightarrow> (bool \<times> oracle_state) option" where
  "run_memo inner ss addr look prog text q e0 depth ora =
     (let ora = check_key addr text e0 ora;
          ora = ora\<lparr>o_levels := grow_to (depth + 1) level_new (o_levels ora),
                    o_memos := grow_to (look + 1) memo_new (o_memos ora)\<rparr>;
          e = min e0 (length text);
          m = o_memos ora ! look;
          ora = ora\<lparr>o_memos := (o_memos ora)[look := memo_new]\<rparr>;
          m = (if m_gen m \<noteq> o_gen ora then memo_reset (o_gen ora) m else m)
      in memo_answer inner ss look prog text q e depth m ora)"

text \<open>\<^verbatim>\<open>holds_at_depth\<close>, with at most \<open>n\<close> levels of nesting below.\<close>

fun holds_at ::
    "nat \<Rightarrow> unidata \<Rightarrow> programs \<Rightarrow> nat \<Rightarrow> u32 list \<Rightarrow> nat \<Rightarrow> nat \<Rightarrow> nat \<Rightarrow> nat \<Rightarrow> oracle_state
     \<Rightarrow> (bool \<times> oracle_state) option" where
  "holds_at 0 u pr addr text depth e look p ora = None"
| "holds_at (Suc n) u pr addr text depth e look p ora =
     do { d \<leftarrow> get_at (looks pr) look;
          case d of
            D_Around behind negate prog width mx memoized flat first \<Rightarrow>
              (let inner = holds_at n u pr addr text (depth + 1)
               in if \<not> behind \<and> memoized
                  then do { sub \<leftarrow> get_at (subs pr) prog;
                            (v, ora) \<leftarrow> run_memo inner (sets pr) addr look sub text p e depth ora;
                            Some (v \<noteq> negate, ora) }
                  else if behind \<and> p < width then Some (negate, ora)
                  else (let q = (if behind then p - width else p)
                        in case flat of
                             Some seqs \<Rightarrow>
                               (if p \<le> e
                                then (let begins = (case first of
                                                      None \<Rightarrow> True
                                                    | Some f \<Rightarrow> q < e \<and> q < length text \<and> may_begin f (text ! q))
                                      in do { hit \<leftarrow> (if begins then flat_holds u pr seqs text q e else Some False);
                                              Some (hit \<noteq> negate, ora) })
                                else do { sub \<leftarrow> get_at (subs pr) prog;
                                          (hit, ora) \<leftarrow> run inner (sets pr) sub text q e
                                            (if behind then Some p else None) depth ora;
                                          Some (hit \<noteq> negate, ora) })
                           | None \<Rightarrow>
                               do { sub \<leftarrow> get_at (subs pr) prog;
                                    (hit, ora) \<leftarrow> run inner (sets pr) sub text q e
                                      (if behind then Some p else None) depth ora;
                                    Some (hit \<noteq> negate, ora) }))
          | d \<Rightarrow> do { v \<leftarrow> simple_holds u (sets pr) d text p e; Some (v, ora) } }"

text \<open>
  \<^verbatim>\<open>holds\<close>: a lookaround's own lookarounds come before it, so that there are never more levels than tests.
\<close>

definition holds ::
    "unidata \<Rightarrow> programs \<Rightarrow> nat \<Rightarrow> u32 list \<Rightarrow> nat \<Rightarrow> nat \<Rightarrow> nat \<Rightarrow> oracle_state \<Rightarrow> (bool \<times> oracle_state) option" where
  "holds u pr addr text e look p ora = holds_at (length (looks pr)) u pr addr text 0 e look p ora"

text \<open>The sets a one-character test reads.\<close>

definition test_sets :: "programs \<Rightarrow> charset list" where
  "test_sets pr =
     concat (map (\<lambda>d. case d of D_Behind1 si _ \<Rightarrow> [sets pr ! si] | D_Ahead1 si _ \<Rightarrow> [sets pr ! si] | _ \<Rightarrow> []) (looks pr))"

section \<open>A walk finds whether a path exists\<close>

text \<open>The level below: its test answers the truth and leaves the oracle good.\<close>

locale level_below = look_oracle "inner e" lk okO nl
  for inner :: inner and e :: nat and lk :: "nat \<Rightarrow> nat \<Rightarrow> bool" and okO :: "oracle_state \<Rightarrow> bool" and nl :: nat

text \<open>A set of instructions as threads without slots.\<close>

definition bare :: "sparse_set \<Rightarrow> threads" where
  "bare s = \<lparr>t_set = s, t_slots = []\<rparr>"

lemma bare_simps [simp]: "t_set (bare s) = s" "t_slots (bare s) = []" "thread_slots ns (bare s) pc = []"
  "(bare s)\<lparr>t_set := s'\<rparr> = bare s'"
  by (simp_all add: bare_def thread_slots_def)

lemma save_slot_Nil [simp]: "save_slot ns slot pos [] = []"
  by (simp add: save_slot_def)

definition set_ok :: "inst list \<Rightarrow> sparse_set \<Rightarrow> bool" where
  "set_ok P s \<longleftrightarrow> ss_ok s \<and> length P \<le> ss_capacity s"

text \<open>Ending anywhere, or at a given position.\<close>

definition ends :: "nat option \<Rightarrow> nat \<Rightarrow> bool" where
  "ends at p \<longleftrightarrow> at = None \<or> at = Some p"

context level_below
begin

definition closes ::
    "env \<Rightarrow> inst list \<Rightarrow> (nat \<Rightarrow> bool) \<Rightarrow> nat \<Rightarrow> nat \<Rightarrow> nat \<Rightarrow> outcome list
     \<Rightarrow> sparse_set \<times> oracle_state \<Rightarrow> sparse_set \<times> oracle_state \<Rightarrow> bool" where
  "closes E P acc pos pc h L x y \<longleftrightarrow>
     (\<forall>stack. closure_loop inner P pos e (pc # stack) (fst x) (snd x) = closure_loop inner P pos e stack (fst y) (snd y)) \<and>
     set_ok P (fst y) \<and> okO (snd y) \<and> adds E P acc pos h L (bare (fst x)) (bare (fst y))"

lemma close_by:
  assumes o: "out E P h pc pos [] L" and s: "set_ok P s" and ora: "okO ora"
    and cov: "covered E P acc pos h (bare s)"
    and new: "\<And>s1. \<lbrakk>enter pc s s1; set_ok P s1\<rbrakk> \<Longrightarrow>
      \<exists>s2 ora2. (\<forall>stack. do { (pcs, ora) \<leftarrow> closure_inst inner P pos e pc ora;
                         closure_loop inner P pos e (pcs @ stack) s1 ora } = closure_loop inner P pos e stack s2 ora2) \<and>
        set_ok P s2 \<and> okO ora2 \<and> adds E P acc pos h L (bare s) (bare s2)"
  shows "\<exists>y. closes E P acc pos pc h L (s, ora) y"
proof (cases "pc \<in> set (as_slice s)")
  case True
  have "closure_loop inner P pos e (pc # stack) s ora = closure_loop inner P pos e stack s ora" for stack
    using s True by (subst closure_loop.simps) (simp add: set_ok_def ss.ins_old)
  moreover have "adds E P acc pos h L (bare s) (bare s)"
    using adds_seen [of pc "bare s", OF _ o cov] True by simp
  ultimately show ?thesis using s ora by (intro exI [of _ "(s, ora)"]) (simp add: closes_def)
next
  case False
  have "pc < ss_capacity s" using out_pc [OF o] s by (simp add: set_ok_def)
  with False s obtain s1 where s1: "ss_insert s pc = Some (True, s1)" "ss_ok s1" "as_slice s1 = as_slice s @ [pc]"
    "ss_capacity s1 = ss_capacity s" using ss.ins_new [of s pc] by (auto simp: set_ok_def)
  then have "enter pc s s1" "set_ok P s1" using False s by (auto simp: enter_def set_ok_def)
  from new [OF this] obtain s2 ora2 where r: "\<And>stack. do { (pcs, ora) \<leftarrow> closure_inst inner P pos e pc ora;
      closure_loop inner P pos e (pcs @ stack) s1 ora } = closure_loop inner P pos e stack s2 ora2"
    "set_ok P s2" "okO ora2" "adds E P acc pos h L (bare s) (bare s2)" by blast
  have "closure_loop inner P pos e (pc # stack) s ora = closure_loop inner P pos e stack s2 ora2" for stack
    using s1(1) r(1) by (subst closure_loop.simps) simp
  then show ?thesis using r by (intro exI [of _ "(s2, ora2)"]) (simp add: closes_def)
qed

lemma close_on:
  assumes o: "out E P (Suc h) pc pos [] L" and s: "set_ok P s" and ora: "okO ora"
    and cov: "covered E P acc pos (Suc h) (bare s)" and nl: "\<not> leaf (P ! pc)"
    and inst: "\<exists>ora1. closure_inst inner P pos e pc ora = Some ([nx], ora1) \<and> okO ora1"
    and IH: "\<And>s ora. \<lbrakk>set_ok P s; okO ora; covered E P acc pos h (bare s)\<rbrakk> \<Longrightarrow> \<exists>y. closes E P acc pos nx h L (s, ora) y"
  shows "\<exists>y. closes E P acc pos pc (Suc h) L (s, ora) y"
proof (rule close_by [OF o s ora cov])
  fix s1 assume en: "enter pc s s1" and s1: "set_ok P s1"
  obtain ora1 where i: "closure_inst inner P pos e pc ora = Some ([nx], ora1)" "okO ora1" using inst by blast
  have hg: "hgt E P pos pc (Suc h)" using o by (auto simp: hgt_def)
  have "covered E P acc pos h (bare s1)"
    using covered_enter [of pc "bare s" s1 P, OF _ nl cov hg] en by simp
  from IH [OF s1 i(2) this] obtain y where y: "closes E P acc pos nx h L (s1, ora1) y" ..
  have "adds E P acc pos (Suc h) L (bare s) (bare (fst y))"
    using adds_enter [of pc "bare s" s1 P, OF _ nl o, of acc h] en y by (simp add: closes_def)
  then show "\<exists>s2 ora2. (\<forall>stack. do { (pcs, ora) \<leftarrow> closure_inst inner P pos e pc ora;
                         closure_loop inner P pos e (pcs @ stack) s1 ora } = closure_loop inner P pos e stack s2 ora2) \<and>
        set_ok P s2 \<and> okO ora2 \<and> adds E P acc pos (Suc h) L (bare s) (bare s2)"
    using y i by (intro exI [of _ "fst y"] exI [of _ "snd y"]) (simp add: closes_def)
qed

lemma close_stop:
  assumes o: "out E P h pc pos [] L" and s: "set_ok P s" and ora: "okO ora"
    and cov: "covered E P acc pos h (bare s)"
    and inst: "\<exists>ora1. closure_inst inner P pos e pc ora = Some ([], ora1) \<and> okO ora1"
    and stop: "leaf (P ! pc) \<or> h = 0 \<and> L = []"
  shows "\<exists>y. closes E P acc pos pc h L (s, ora) y"
proof (rule close_by [OF o s ora cov])
  fix s1 assume en: "enter pc s s1" and s1: "set_ok P s1"
  have "adds E P acc pos h L (bare s) (bare s1)"
  proof (cases "leaf (P ! pc)")
    case True
    show ?thesis by (rule adds_leaf [OF _ True o]) (use en in simp_all)
  next
    case False
    with stop have "h = 0" "L = []" by auto
    with adds_none [of pc "bare s" s1 P, OF _ False] o en show ?thesis by simp
  qed
  then show "\<exists>s2 ora2. (\<forall>stack. do { (pcs, ora) \<leftarrow> closure_inst inner P pos e pc ora;
                         closure_loop inner P pos e (pcs @ stack) s1 ora } = closure_loop inner P pos e stack s2 ora2) \<and>
        set_ok P s2 \<and> okO ora2 \<and> adds E P acc pos h L (bare s) (bare s2)"
    using inst s1 by (metis append_Nil bind.bind_lunit case_prod_conv)
qed

lemma close_split:
  assumes o: "out E P (Suc (max h1 h2)) pc pos [] (L1 @ L2)" and s: "set_ok P s" and ora: "okO ora"
    and cov: "covered E P acc pos (Suc (max h1 h2)) (bare s)" and i: "get_at P pc = Some (I_Split x y)"
    and IH1: "\<And>s ora. \<lbrakk>set_ok P s; okO ora; covered E P acc pos h1 (bare s)\<rbrakk> \<Longrightarrow> \<exists>z. closes E P acc pos x h1 L1 (s, ora) z"
    and IH2: "\<And>s ora. \<lbrakk>set_ok P s; okO ora; covered E P acc pos h2 (bare s)\<rbrakk> \<Longrightarrow> \<exists>z. closes E P acc pos y h2 L2 (s, ora) z"
  shows "\<exists>z. closes E P acc pos pc (Suc (max h1 h2)) (L1 @ L2) (s, ora) z"
proof (rule close_by [OF o s ora cov])
  fix s1 assume en: "enter pc s s1" and s1: "set_ok P s1"
  let ?k = "max h1 h2"
  have nl: "\<not> leaf (P ! pc)" using i by (simp add: leaf_def get_at_nth)
  have hg: "hgt E P pos pc (Suc ?k)" using o by (auto simp: hgt_def)
  have c1: "covered E P acc pos ?k (bare s1)"
    using covered_enter [of pc "bare s" s1 P, OF _ nl cov hg] en by simp
  from IH1 [OF s1 ora covered_mono [OF c1]] obtain y1 where y1: "closes E P acc pos x h1 L1 (s1, ora) y1" by auto
  then have "covered E P acc pos ?k (bare (fst y1))"
    using covered_adds [OF c1, of h1 L1 "bare (fst y1)"] by (simp add: closes_def)
  then have "covered E P acc pos h2 (bare (fst y1))" by (rule covered_mono) simp
  moreover have "set_ok P (fst y1)" "okO (snd y1)" using y1 by (simp_all add: closes_def)
  ultimately have "\<exists>z. closes E P acc pos y h2 L2 (fst y1, snd y1) z" by (intro IH2)
  then obtain y2 where y2: "closes E P acc pos y h2 L2 y1 y2" by auto
  have "adds E P acc pos ?k (L1 @ L2) (bare s1) (bare (fst y2))"
    using y1 y2 by (intro adds_trans) (auto simp: closes_def)
  then have "adds E P acc pos (Suc ?k) (L1 @ L2) (bare s) (bare (fst y2))"
    using adds_enter [of pc "bare s" s1 P, OF _ nl o, of acc ?k] en by simp
  then show "\<exists>s2 ora2. (\<forall>stack. do { (pcs, ora) \<leftarrow> closure_inst inner P pos e pc ora;
                         closure_loop inner P pos e (pcs @ stack) s1 ora } = closure_loop inner P pos e stack s2 ora2) \<and>
        set_ok P s2 \<and> okO ora2 \<and> adds E P acc pos (Suc ?k) (L1 @ L2) (bare s) (bare s2)"
    using y1 y2 by (intro exI [of _ "fst y2"] exI [of _ "snd y2"]) (simp add: closure_inst_def i closes_def)
qed

lemma closure_explore:
  assumes P: "prog_ok ns nl nset P" and lk: "e_look E = lk" and e: "e_end E = e"
  shows "out E P h pc pos sl L \<Longrightarrow> sl = [] \<Longrightarrow> set_ok P s \<Longrightarrow> okO ora \<Longrightarrow> covered E P acc pos h (bare s) \<Longrightarrow>
    \<exists>y. closes E P acc pos pc h L (s, ora) y"
proof (induction arbitrary: s ora rule: out.induct)
  case (out_hit pc si nx pos h sl L)
  then show ?case by (intro close_stop) (auto intro: out.out_hit simp: leaf_def get_at_nth closure_inst_def)
next
  case (out_miss pc si nx pos sl)
  then show ?case by (intro close_stop) (auto intro: out.out_miss simp: leaf_def get_at_nth closure_inst_def)
next
  case (out_split pc x y h1 pos sl L1 h2 L2)
  then show ?case by (intro close_split) (auto intro: out.out_split)
next
  case (out_jmp pc nx h pos sl L)
  then show ?case by (intro close_on [where nx = nx]) (auto intro: out.out_jmp simp: leaf_def get_at_nth closure_inst_def)
next
  case (out_save pc slot nx h pos sl L)
  then show ?case by (intro close_on [where nx = nx]) (auto intro: out.out_save simp: leaf_def get_at_nth closure_inst_def)
next
  case (out_look pc l nx pos h sl L)
  have "l < nl" using prog_okD [OF P out_look.hyps(1)] by simp
  from hold_correct [OF out_look.prems(3) this, of pos] out_look.hyps
  have i: "\<exists>ora1. closure_inst inner P pos e pc ora = Some ([nx], ora1) \<and> okO ora1" by (auto simp: closure_inst_def lk)
  show ?case
    by (rule close_on [where nx = nx, OF _ out_look.prems(2-4) _ i])
      (use out_look in \<open>auto intro: out.out_look simp: leaf_def get_at_nth\<close>)
next
  case (out_look_no pc l nx pos sl)
  have "l < nl" using prog_okD [OF P out_look_no.hyps(1)] by simp
  from hold_correct [OF out_look_no.prems(3) this, of pos] out_look_no.hyps
  have i: "\<exists>ora1. closure_inst inner P pos e pc ora = Some ([], ora1) \<and> okO ora1" by (auto simp: closure_inst_def lk)
  show ?case
    by (rule close_stop [OF _ out_look_no.prems(2-4) i])
      (use out_look_no in \<open>auto intro: out.out_look_no\<close>)
next
  case (out_guard pc nx pos h sl L)
  then show ?case by (intro close_on [where nx = nx]) (auto intro: out.out_guard simp: leaf_def get_at_nth closure_inst_def e)
next
  case (out_guard_no pc nx pos sl)
  then show ?case by (intro close_stop) (auto intro: out.out_guard_no simp: closure_inst_def e)
next
  case (out_match pc pos sl)
  then show ?case by (intro close_stop) (auto intro: out.out_match simp: leaf_def get_at_nth closure_inst_def)
next
  case (out_run pc si mn mx greedy nx qs pos H sl K)
  then show ?case using prog_okD [OF P out_run.hyps(1)] by simp
qed

lemma closure_correct:
  assumes "prog_ok ns nl nset P" and "e_look E = lk" and "e_end E = e" and "out E P h pc pos [] L"
    and "set_ok P s" and "okO ora" and "\<And>k. covered E P acc pos k (bare s)"
  shows "\<exists>s' ora'. closure inner P pc pos e s ora = Some (s', ora') \<and> set_ok P s' \<and> okO ora' \<and>
    adds E P acc pos h L (bare s) (bare s') \<and> (\<forall>k. covered E P acc pos k (bare s'))"
proof -
  from closure_explore [OF assms(1-4) refl assms(5,6), of acc] assms(7)
  obtain y where y: "closes E P acc pos pc h L (s, ora) y" by blast
  have "closure inner P pc pos e s ora = Some y"
    using y by (cases y) (simp add: closure_def closes_def closure_loop.simps [where stack = "[]"])
  then show ?thesis using y covered_adds [OF assms(7)] by (cases y) (auto simp: closes_def)
qed


text \<open>One position of a walk.\<close>

definition walk_ok :: "env \<Rightarrow> inst list \<Rightarrow> nat \<Rightarrow> level \<Rightarrow> bool" where
  "walk_ok E P pos lv \<longleftrightarrow>
     set_ok P (lv_cur lv) \<and> set_ok P (lv_next lv) \<and> derived E P pos (bare (lv_cur lv)) \<and>
     derived E P (Suc pos) (bare (lv_next lv))"

lemma run_threads_correct:
  assumes P: "prog_ok ns nl (length (e_sets E)) P" and lk: "e_look E = lk" and e: "e_end E = e"
    and "walk_ok E P pos lv" and "okO ora" and "\<forall>k. covered E P (ends at) (Suc pos) k (bare (lv_next lv))"
    and "\<forall>i \<in> set is. i < length (as_slice (lv_cur lv))"
  shows "\<exists>found lv' ora'. run_threads inner (e_sets E) P (e_text E) e at pos is lv ora = Some (found, lv', ora') \<and>
    walk_ok E P pos lv' \<and> okO ora' \<and> lv_cur lv' = lv_cur lv \<and> (pos \<ge> e \<longrightarrow> lv_next lv' = lv_next lv) \<and>
    (\<forall>k. covered E P (ends at) (Suc pos) k (bare (lv_next lv'))) \<and>
    (found \<or> some_acc (ends at) (future E P (Suc pos) (bare (lv_next lv'))) \<longleftrightarrow>
     some_acc (ends at) (future E P (Suc pos) (bare (lv_next lv))) \<or>
     some_acc (ends at) (rest_paths E P pos (bare (lv_cur lv)) (map (\<lambda>i. as_slice (lv_cur lv) ! i) is)))"
  using assms(4-)
proof (induction "is" arbitrary: lv ora)
  case Nil
  then show ?case by (auto simp: rest_paths_def)
next
  case (Cons i js)
  let ?pc = "as_slice (lv_cur lv) ! i"
  have d: "derived E P pos (bare (lv_cur lv))" "set_ok P (lv_cur lv)" using Cons.prems(1) by (auto simp: walk_ok_def)
  have i: "i < length (as_slice (lv_cur lv))" using Cons.prems(4) by simp
  then have mem: "?pc \<in> set (as_slice (t_set (bare (lv_cur lv))))" by simp
  note pc = derived_pc [OF d(1) mem]
  have g: "ss_get (lv_cur lv) i = Some ?pc" using i d(2) by (simp add: ss_get_slice set_ok_def)
  obtain k L where o: "out E P k ?pc pos [] L" using d(1) mem hgt_out by (meson derived_def)
  have gp: "get_at P ?pc = Some (P ! ?pc)" using pc by simp
  note IH = Cons.IH [OF Cons.prems(1-3)]
  show ?case
  proof (cases "P ! ?pc")
    case (I_Char si nx)
    then have gi: "get_at P ?pc = Some (I_Char si nx)" using gp by simp
    have ch: "char_here (e_sets E) (e_text E) e si pos = Some (hits E si pos)"
      using prog_okD [OF P gi] char_here_hits [of si E pos] by (simp add: e)
    show ?thesis
    proof (cases "hits E si pos")
      case True
      from paths_char_hit [OF gi True o] obtain k' where o': "out E P k' nx (Suc pos) [] L" by auto
      obtain s' ora' where s': "closure inner P nx (Suc pos) e (lv_next lv) ora = Some (s', ora')" "set_ok P s'" "okO ora'"
        "adds E P (ends at) (Suc pos) k' L (bare (lv_next lv)) (bare s')"
        "\<forall>k. covered E P (ends at) (Suc pos) k (bare s')"
        using closure_correct [OF P lk e o' _ Cons.prems(2), of "lv_next lv" "ends at"] Cons.prems(1,3)
        by (auto simp: walk_ok_def)
      let ?lv = "lv\<lparr>lv_next := s'\<rparr>"
      have "walk_ok E P pos ?lv" using Cons.prems(1) s'(2) derived_adds [OF _ s'(4)] by (simp add: walk_ok_def)
      moreover have "pos < e" using True e by (simp add: hits_def)
      ultimately show ?thesis
        using Cons.IH [of ?lv ora'] s'(3,5) Cons.prems(4) True adds_first [OF s'(4)]
        by (simp add: g gi ch s'(1) I_Char leaf_def rest_paths_Cons paths_out [OF o] disj_assoc)
    next
      case False
      then show ?thesis using IH Cons.prems(4) paths_char_miss [OF gi False o]
        by (simp add: g gi ch I_Char leaf_def rest_paths_Cons paths_out [OF o])
    qed
  next
    case I_Match
    then have gi: "get_at P ?pc = Some I_Match" using gp by simp
    show ?thesis
    proof (cases "ends at pos")
      case True
      then show ?thesis using Cons.prems(1-3)
        by (auto simp: g gi I_Match leaf_def rest_paths_Cons paths_match [OF gi] some_acc_def simp flip: ends_def)
    next
      case False
      then have skip: "some_acc (ends at) ((pos, []) # R) = some_acc (ends at) R" for R
        by (simp add: some_acc_def)
      show ?thesis using IH Cons.prems(4) False
        by (simp add: g gi I_Match leaf_def rest_paths_Cons paths_match [OF gi] skip flip: ends_def)
    qed
  qed (use IH Cons.prems(4) gp in \<open>simp_all add: g leaf_def rest_paths_Cons\<close>)
qed


lemma run_loop_correct:
  assumes P: "prog_ok ns nl (length (e_sets E)) P" and lk: "e_look E = lk" and e: "e_end E = e"
  shows "set_ok P (lv_cur lv) \<Longrightarrow> set_ok P (lv_next lv) \<Longrightarrow> derived E P pos (bare (lv_cur lv)) \<Longrightarrow>
    as_slice (lv_next lv) = [] \<Longrightarrow> okO ora \<Longrightarrow> \<forall>a. at = Some a \<longrightarrow> pos \<le> a \<Longrightarrow>
    \<exists>lv' ora'. run_loop inner (e_sets E) P (e_text E) e at pos lv ora =
      Some (some_acc (ends at) (future E P pos (bare (lv_cur lv))), lv', ora') \<and>
      ss_ok (lv_cur lv') \<and> ss_ok (lv_next lv') \<and> okO ora'"
proof (induction "e - pos" arbitrary: pos lv ora rule: less_induct)
  case less
  let ?acc = "ends at"
  have w: "walk_ok E P pos lv" using less.prems by (simp add: walk_ok_def derived_def)
  have cov: "\<forall>k. covered E P ?acc (Suc pos) k (bare (lv_next lv))"
    using less.prems(4) by (simp add: covered_empty)
  have len: "length (as_slice (lv_cur lv)) = ss_len (lv_cur lv)" using less.prems(1) by (simp add: set_ok_def)
  obtain found lv2 ora2 where st: "run_threads inner (e_sets E) P (e_text E) e at pos [0..<ss_len (lv_cur lv)] lv ora =
      Some (found, lv2, ora2)"
    and w2: "walk_ok E P pos lv2" "okO ora2" "lv_cur lv2 = lv_cur lv" "pos \<ge> e \<longrightarrow> lv_next lv2 = lv_next lv"
    and r: "found \<or> some_acc ?acc (future E P (Suc pos) (bare (lv_next lv2))) \<longleftrightarrow>
       some_acc ?acc (future E P pos (bare (lv_cur lv)))"
    using run_threads_correct [OF P lk e w less.prems(5) cov, of "[0..<ss_len (lv_cur lv)]"] len less.prems(4)
    by (auto simp: future_empty future_rest [symmetric] all_indices [of "as_slice (lv_cur lv)", unfolded len]
        future_rest [of E P pos "bare (lv_cur lv)", simplified, symmetric])
  have ok2: "ss_ok (lv_cur lv2)" "ss_ok (lv_next lv2)" using w2(1) by (simp_all add: walk_ok_def set_ok_def)
  show ?case
  proof (cases "found \<or> ss_is_empty (lv_next lv2) \<or> pos \<ge> e")
    case True
    have "found = some_acc ?acc (future E P pos (bare (lv_cur lv)))"
    proof (cases found)
      case False
      then have "as_slice (lv_next lv2) = []" using True w2(4) less.prems(4) ok2 ss_is_empty_iff by auto
      then show ?thesis using r by (simp add: future_empty)
    qed (use r in simp)
    moreover have "run_loop inner (e_sets E) P (e_text E) e at pos lv ora = Some (found, lv2, ora2)"
      using True by (subst run_loop.simps) (simp add: st)
    ultimately show ?thesis using ok2 w2(2) by auto
  next
    case False
    let ?lv = "\<lparr>lv_cur = lv_next lv2, lv_next = ss_clear (lv_cur lv2)\<rparr>"
    have dn: "derived E P (Suc pos) (bare (lv_next lv2))" using w2(1) by (simp add: walk_ok_def)
    have unf: "run_loop inner (e_sets E) P (e_text E) e at pos lv ora =
      (if (case at of None \<Rightarrow> False | Some a \<Rightarrow> Suc pos > a) then Some (False, ?lv, ora2)
       else run_loop inner (e_sets E) P (e_text E) e at (Suc pos) ?lv ora2)"
      using False by (subst run_loop.simps) (simp add: st Let_def)
    show ?thesis
    proof (cases "case at of None \<Rightarrow> False | Some a \<Rightarrow> Suc pos > a")
      case True
      then obtain a where a: "at = Some a" "a \<le> pos" by (auto split: option.splits)
      have "\<not> some_acc ?acc (future E P (Suc pos) (bare (lv_next lv2)))"
        using future_ends [OF dn] a by (fastforce simp: some_acc_def ends_def)
      then have "\<not> some_acc ?acc (future E P pos (bare (lv_cur lv)))" using r False by blast
      then show ?thesis using unf True ok2 w2(2) by auto
    next
      case no: False
      have "\<exists>lv' ora'. run_loop inner (e_sets E) P (e_text E) e at (Suc pos) ?lv ora2 =
        Some (some_acc ?acc (future E P (Suc pos) (bare (lv_cur ?lv))), lv', ora') \<and>
        ss_ok (lv_cur lv') \<and> ss_ok (lv_next lv') \<and> okO ora'"
        by (rule less.hyps)
          (use False no w2 dn in \<open>auto simp: walk_ok_def set_ok_def split: option.splits\<close>)
      moreover have "some_acc ?acc (future E P (Suc pos) (bare (lv_next lv2))) =
          some_acc ?acc (future E P pos (bare (lv_cur lv)))" using r False by blast
      ultimately show ?thesis using unf no by simp
    qed
  qed
qed

end

section \<open>Oracles\<close>

definition level_ok :: "level \<Rightarrow> bool" where
  "level_ok lv \<longleftrightarrow> ss_ok (lv_cur lv) \<and> ss_ok (lv_next lv)"

definition levels_ok :: "oracle_state \<Rightarrow> bool" where
  "levels_ok ora \<longleftrightarrow> list_all level_ok (o_levels ora)"

lemma level_new_ok [simp]: "level_ok level_new"
  by (simp add: level_ok_def level_new_def)

lemma take_level_ok:
  assumes "levels_ok ora" and "take_level depth ora = (lv, ora')"
  shows "level_ok lv" "levels_ok ora'" "depth < length (o_levels ora')"
  using assms
  by (auto simp: take_level_def Let_def levels_ok_def grow_to_def list_all_length nth_list_update nth_append)

lemma give_level_ok:
  "levels_ok ora \<Longrightarrow> level_ok lv \<Longrightarrow> depth < length (o_levels ora) \<Longrightarrow>
   \<exists>ora'. give_level depth lv ora = Some ora' \<and> levels_ok ora' \<and> o_levels ora' = (o_levels ora)[depth := lv] \<and>
     o_memos ora' = o_memos ora \<and> o_key ora' = o_key ora \<and> o_gen ora' = o_gen ora"
  by (auto simp: give_level_def levels_ok_def list_all_length nth_list_update)

end
