(* ===== verification/Sweep.thy ===== *)
theory Sweep
  imports Looks
begin

text \<open>
  The backward sweep of \<^verbatim>\<open>looks.rs\<close> finds, position by position from the window's end, exactly the
  instructions from which a path reaches \<open>I_Match\<close> (\<open>reaches\<close>): its bits are the outcomes of the
  lookahead at every position (\<open>sweep_correct\<close>).
\<close>

section \<open>Instructions that reach the match\<close>

definition passes :: "env \<Rightarrow> inst \<Rightarrow> nat \<Rightarrow> bool" where
  "passes E i pos = (case i of I_Look l _ \<Rightarrow> e_look E l pos | I_Guard _ \<Rightarrow> pos \<le> e_end E | _ \<Rightarrow> True)"

inductive reaches :: "env \<Rightarrow> inst list \<Rightarrow> nat \<Rightarrow> nat \<Rightarrow> bool" for E :: env and P :: "inst list" where
  reaches_match: "get_at P pc = Some I_Match \<Longrightarrow> reaches E P pos pc"
| reaches_char: "\<lbrakk>get_at P pc = Some (I_Char si nx); hits E si pos; reaches E P (Suc pos) nx\<rbrakk> \<Longrightarrow> reaches E P pos pc"
| reaches_free: "\<lbrakk>get_at P pc = Some i; t \<in> set (free_steps i); passes E i pos; reaches E P pos t\<rbrakk> \<Longrightarrow> reaches E P pos pc"

inductive_cases reachesE: "reaches E P pos pc"

lemma reaches_pc: "reaches E P pos pc \<Longrightarrow> pc < length P"
  by (erule reachesE) (auto simp: get_at_eq_Some)

text \<open>Where all paths end, some path matches exactly if the match is reached.\<close>

lemma reaches_step:
  assumes "get_at P pc = Some i" and "i \<noteq> I_Match" and "\<nexists>si nx. i = I_Char si nx"
  shows "reaches E P pos pc \<longleftrightarrow> passes E i pos \<and> (\<exists>t \<in> set (free_steps i). reaches E P pos t)"
proof
  assume "reaches E P pos pc"
  then show "passes E i pos \<and> (\<exists>t \<in> set (free_steps i). reaches E P pos t)"
    by (cases rule: reaches.cases) (use assms in auto)
qed (use assms(1) in \<open>auto intro: reaches_free\<close>)

lemma reaches_char_iff:
  "get_at P pc = Some (I_Char si nx) \<Longrightarrow> reaches E P pos pc \<longleftrightarrow> hits E si pos \<and> reaches E P (Suc pos) nx"
proof
  assume "reaches E P pos pc" "get_at P pc = Some (I_Char si nx)"
  then show "hits E si pos \<and> reaches E P (Suc pos) nx" by (cases rule: reaches.cases) auto
qed (auto intro: reaches_char)

lemma out_reaches:
  assumes P: "prog_ok ns nl nset P"
  shows "out E P h pc pos sl L \<Longrightarrow> reaches E P pos pc \<longleftrightarrow> L \<noteq> []"
proof (induction rule: out.induct)
  case (out_run pc si mn mx greedy nx qs pos H sl K)
  then show ?case using prog_okD [OF P out_run.hyps(1)] by simp
qed (auto simp: reaches_step reaches_char_iff passes_def intro: reaches_match)

section \<open>Predecessors\<close>

lemma set_preds_of: "set (preds_of P t) = {pc. pc < length P \<and> t \<in> set (free_steps (P ! pc))}"
  by (auto simp: preds_of_def count_list_0_iff)

lemma preds_of_step: "pc \<in> set (preds_of P t) \<Longrightarrow> passes E (P ! pc) pos \<Longrightarrow> reaches E P pos t \<Longrightarrow> reaches E P pos pc"
  by (auto simp: set_preds_of intro: reaches_free)

section \<open>The closure of a position\<close>

text \<open>A set after insertions, with the stack of those to go on from.\<close>

definition pushed :: "nat set \<Rightarrow> sparse_set \<times> nat list \<Rightarrow> sparse_set \<times> nat list \<Rightarrow> bool" where
  "pushed A x y \<longleftrightarrow>
     ss_ok (fst y) \<and> ss_capacity (fst y) = ss_capacity (fst x) \<and>
     set (as_slice (fst y)) = set (as_slice (fst x)) \<union> A \<and>
     set (snd y) = set (snd x) \<union> (set (as_slice (fst y)) - set (as_slice (fst x))) \<and>
     length (as_slice (fst y)) + length (snd x) = length (as_slice (fst x)) + length (snd y)"

lemma pushed_insert:
  assumes "ss_ok s" and "t < ss_capacity s" and "ss_insert s t = Some (new, s')"
  shows "pushed {t} (s, stack) (s', if new then t # stack else stack)"
proof -
  from ss.insE [OF assms(1,2)] obtain s1 where s1: "ss_insert s t = Some (t \<notin> set (as_slice s), s1)" "ss_ok s1"
    "ss_capacity s1 = ss_capacity s" "as_slice s1 = (if t \<in> set (as_slice s) then as_slice s else as_slice s @ [t])" .
  then show ?thesis using assms(3) by (auto simp: pushed_def)
qed

lemma pushed_trans: "pushed A x y \<Longrightarrow> pushed B y z \<Longrightarrow> pushed (A \<union> B) x z"
  by (auto simp: pushed_def)

lemma pushed_refl: "ss_ok s \<Longrightarrow> A \<subseteq> set (as_slice s) \<Longrightarrow> pushed A (s, stack) (s, stack)"
  by (auto simp: pushed_def)

lemma sweep_seed_pushed:
  "ss_ok s \<Longrightarrow> \<forall>m \<in> set ms. m < ss_capacity s \<Longrightarrow>
   \<exists>y. sweep_seed ms s stack = Some y \<and> pushed (set ms) (s, stack) y"
proof (induction ms arbitrary: s stack)
  case (Cons m ms)
  obtain new s1 where i: "ss_insert s m = Some (new, s1)" by (rule ss.insE [of s m]) (use Cons.prems in auto)
  have p: "pushed {m} (s, stack) (s1, if new then m # stack else stack)"
    by (rule pushed_insert [OF _ _ i]) (use Cons.prems in simp_all)
  have "\<exists>y. sweep_seed ms s1 (if new then m # stack else stack) = Some y \<and> pushed (set ms) (s1, if new then m # stack else stack) y"
    by (rule Cons.IH) (use p Cons.prems in \<open>simp_all add: pushed_def\<close>)
  then show ?case using pushed_trans [OF p] i by auto
qed (simp add: pushed_refl)

lemma sweep_chars_pushed:
  assumes "ss_ok nxt"
  shows "ss_ok s \<Longrightarrow> \<forall>(pc, si, n) \<in> set cs. pc < ss_capacity s \<and> si < length ss \<and> n < ss_capacity nxt \<Longrightarrow>
   \<exists>y. sweep_chars ss c nxt cs s stack = Some y \<and>
     pushed {pc. \<exists>si n. (pc, si, n) \<in> set cs \<and> n \<in> set (as_slice nxt) \<and> contains (ss ! si) c} (s, stack) y"
proof (induction cs arbitrary: s stack)
  case (Cons x cs)
  obtain pc si n where x: "x = (pc, si, n)" by (cases x) auto
  let ?A = "\<lambda>cs. {pc. \<exists>si n. (pc, si, n) \<in> set cs \<and> n \<in> set (as_slice nxt) \<and> contains (ss ! si) c}"
  have b: "pc < ss_capacity s" "si < length ss" "n < ss_capacity nxt" using Cons.prems x by auto
  show ?case
  proof (cases "n \<in> set (as_slice nxt) \<and> contains (ss ! si) c")
    case True
    obtain new s1 where i: "ss_insert s pc = Some (new, s1)" by (rule ss.insE [OF Cons.prems(1) b(1)])
    have p: "pushed {pc} (s, stack) (s1, if new then pc # stack else stack)"
      by (rule pushed_insert [OF Cons.prems(1) b(1) i])
    have "\<exists>y. sweep_chars ss c nxt cs s1 (if new then pc # stack else stack) = Some y \<and>
        pushed (?A cs) (s1, if new then pc # stack else stack) y"
      by (rule Cons.IH) (use p Cons.prems in \<open>auto simp: pushed_def\<close>)
    moreover have "?A (x # cs) = {pc} \<union> ?A cs" using True x by auto
    ultimately show ?thesis using pushed_trans [OF p] True b assms i x by (auto simp: ss.mem_elems)
  next
    case False
    then have "?A (x # cs) = ?A cs" using x by auto
    then show ?thesis using Cons.IH [of s stack] Cons.prems False b assms x by (auto simp: ss.mem_elems)
  qed
qed (simp add: pushed_refl)

text \<open>No instruction of a program jumps past its end.\<close>

definition targets_ok :: "inst list \<Rightarrow> bool" where
  "targets_ok P \<longleftrightarrow> list_all (\<lambda>i. list_all (\<lambda>t. t < length P) (free_steps i) \<and>
     (case i of I_Char si n \<Rightarrow> n < length P | _ \<Rightarrow> True)) P"

context level_below
begin

lemma pass_correct:
  assumes "prog_ok ns nl nset P" and "e_look E = lk" and "e_end E = e" and "get_at P t = Some i" and "okO ora"
  shows "\<exists>ora'. (case i of I_Look look _ \<Rightarrow> inner e look p ora | I_Guard _ \<Rightarrow> Some (p \<le> e, ora) | _ \<Rightarrow> Some (True, ora)) =
    Some (passes E i p, ora') \<and> okO ora'"
  using hold_correct [OF assms(5)] prog_okD [OF assms(1,4)] assms(2,3,5) by (cases i) (auto simp: passes_def)

lemma sweep_preds_pushed:
  assumes P: "prog_ok ns nl nset P" and E: "e_look E = lk" "e_end E = e"
  shows "ss_ok s \<Longrightarrow> \<forall>t \<in> set ts. t < length P \<Longrightarrow> length P \<le> ss_capacity s \<Longrightarrow> okO ora \<Longrightarrow>
   \<exists>s' stack' ora'. sweep_preds inner P p e ts s stack ora = Some (s', stack', ora') \<and> okO ora' \<and>
     pushed {t \<in> set ts. passes E (P ! t) p \<or> t \<in> set (as_slice s)} (s, stack) (s', stack')"
proof (induction ts arbitrary: s stack ora)
  case (Cons t ts)
  let ?A = "\<lambda>ts s. {t \<in> set ts. passes E (P ! t) p \<or> t \<in> set (as_slice s)}"
  have t: "t < length P" "t < ss_capacity s" using Cons.prems by auto
  note IH = Cons.IH [OF _ _ _ _]
  show ?case
  proof (cases "t \<in> set (as_slice s)")
    case True
    then have c: "ss_contains s t = Some True" using Cons.prems(1) t by (simp add: ss.mem_elems)
    obtain s' stack' ora' where r: "sweep_preds inner P p e ts s stack ora = Some (s', stack', ora')" "okO ora'"
      "pushed (?A ts s) (s, stack) (s', stack')" using Cons.IH [of s ora stack] Cons.prems by auto
    have "pushed (?A (t # ts) s) (s, stack) (s', stack')" using r(3) True by (auto simp: pushed_def)
    then show ?thesis using r c by auto
  next
    case False
    then have c: "ss_contains s t = Some False" using Cons.prems(1) t by (simp add: ss.mem_elems)
    have g: "get_at P t = Some (P ! t)" using t by simp
    from pass_correct [OF P E g Cons.prems(4), of p] obtain ora1 where
      ps: "(case P ! t of I_Look look _ \<Rightarrow> inner e look p ora | I_Guard _ \<Rightarrow> Some (p \<le> e, ora) | _ \<Rightarrow> Some (True, ora)) =
        Some (passes E (P ! t) p, ora1)" "okO ora1" by blast
    show ?thesis
    proof (cases "passes E (P ! t) p")
      case True
      obtain s1 where i: "ss_insert s t = Some (True, s1)" by (rule ss.insE [OF Cons.prems(1) t(2)]) (use False in simp)
      have pu: "pushed {t} (s, stack) (s1, t # stack)" using pushed_insert [OF Cons.prems(1) t(2) i, of stack] by simp
      then have s1: "ss_ok s1" "ss_capacity s1 = ss_capacity s" "set (as_slice s1) = insert t (set (as_slice s))"
        by (auto simp: pushed_def)
      obtain s' stack' ora' where r: "sweep_preds inner P p e ts s1 (t # stack) ora1 = Some (s', stack', ora')" "okO ora'"
        "pushed (?A ts s1) (s1, t # stack) (s', stack')" using Cons.IH [of s1 ora1 "t # stack"] Cons.prems s1 ps by auto
      have "?A (t # ts) s \<union> {t} = {t} \<union> ?A ts s1" using True s1(3) by auto
      then have "pushed (?A (t # ts) s) (s, stack) (s', stack')" using pushed_trans [OF pu r(3)] True by (auto simp: insert_absorb)
      then show ?thesis using r c ps True i g by (auto simp del: get_at_Some)
    next
      case no: False
      obtain s' stack' ora' where r: "sweep_preds inner P p e ts s stack ora1 = Some (s', stack', ora')" "okO ora'"
        "pushed (?A ts s) (s, stack) (s', stack')" using Cons.IH [of s ora1 stack] Cons.prems ps by auto
      have "?A (t # ts) s = ?A ts s" using no False by auto
      then show ?thesis using r c ps no g by (auto simp del: get_at_Some)
    qed
  qed
qed (simp add: pushed_refl)

text \<open>
  The closure of a position, half done: the set holds only instructions that reach the match, and the
  predecessors that pass of those not on the stack.
\<close>

definition half_swept :: "env \<Rightarrow> inst list \<Rightarrow> nat \<Rightarrow> sparse_set \<Rightarrow> nat list \<Rightarrow> bool" where
  "half_swept E P p s stack \<longleftrightarrow>
     ss_ok s \<and> length P \<le> ss_capacity s \<and> set stack \<subseteq> set (as_slice s) \<and>
     (\<forall>t \<in> set (as_slice s). reaches E P p t) \<and>
     (\<forall>t \<in> set (as_slice s) - set stack. \<forall>pc \<in> set (preds_of P t). passes E (P ! pc) p \<longrightarrow> pc \<in> set (as_slice s))"

lemma reaching_few:
  assumes "ss_ok s" and "\<forall>t \<in> set (as_slice s). reaches E P p t"
  shows "length (as_slice s) \<le> length P"
proof -
  have "card (set (as_slice s)) \<le> card {..<length P}" using assms(2) reaches_pc by (intro card_mono) auto
  then show ?thesis using distinct_card [OF as_slice_distinct [OF assms(1)]] by simp
qed

lemma sweep_close_correct:
  assumes P: "prog_ok ns nl nset P" and E: "e_look E = lk" "e_end E = e"
  shows "half_swept E P p s stack \<Longrightarrow> okO ora \<Longrightarrow>
    \<exists>s' ora'. sweep_close inner P p e s stack ora = Some (s', ora') \<and> okO ora' \<and> half_swept E P p s' [] \<and>
      set (as_slice s) \<subseteq> set (as_slice s') \<and> ss_capacity s' = ss_capacity s"
proof (induction "2 * (length P - length (as_slice s)) + length stack" arbitrary: s stack ora rule: less_induct)
  case less
  show ?case
  proof (cases stack)
    case Nil
    then show ?thesis using less.prems by (subst sweep_close.simps) simp
  next
    case (Cons t rest)
    have h: "ss_ok s" "length P \<le> ss_capacity s" "t \<in> set (as_slice s)" "set rest \<subseteq> set (as_slice s)"
      "\<forall>t \<in> set (as_slice s). reaches E P p t"
      "\<And>x pc. x \<in> set (as_slice s) \<Longrightarrow> x \<noteq> t \<Longrightarrow> x \<notin> set rest \<Longrightarrow> pc \<in> set (preds_of P x) \<Longrightarrow> passes E (P ! pc) p \<Longrightarrow> pc \<in> set (as_slice s)"
      using less.prems(1) Cons by (auto simp: half_swept_def)
    have b: "\<forall>t \<in> set (preds_of P t). t < length P" by (simp add: set_preds_of)
    obtain s1 stack1 ora1 where r: "sweep_preds inner P p e (preds_of P t) s rest ora = Some (s1, stack1, ora1)" "okO ora1"
      and pu: "pushed {x \<in> set (preds_of P t). passes E (P ! x) p \<or> x \<in> set (as_slice s)} (s, rest) (s1, stack1)"
      using sweep_preds_pushed [OF P E h(1) b h(2) less.prems(2)] by blast
    have s1: "ss_ok s1" "ss_capacity s1 = ss_capacity s"
      "set (as_slice s1) = set (as_slice s) \<union> {x \<in> set (preds_of P t). passes E (P ! x) p}"
      "set stack1 = set rest \<union> (set (as_slice s1) - set (as_slice s))"
      "length (as_slice s1) + length rest = length (as_slice s) + length stack1"
      using pu by (auto simp: pushed_def)
    have reach: "\<forall>x \<in> set (as_slice s1). reaches E P p x"
      using h(3,5) preds_of_step [of _ P t E p] by (auto simp: s1(3))
    have half: "half_swept E P p s1 stack1"
      unfolding half_swept_def
    proof (intro conjI ballI impI)
      fix x pc assume x: "x \<in> set (as_slice s1) - set stack1" "pc \<in> set (preds_of P x)" "passes E (P ! pc) p"
      then have "x \<in> set (as_slice s)" "x \<notin> set rest" by (auto simp: s1(4))
      then show "pc \<in> set (as_slice s1)" using h(6) x by (cases "x = t") (auto simp: s1(3))
    qed (use s1 h(2,4) reach in auto)
    have "length (as_slice s1) \<le> length P" by (rule reaching_few [OF s1(1) reach])
    moreover have "card (set (as_slice s)) \<le> card (set (as_slice s1))" by (intro card_mono) (auto simp: s1(3))
    then have "length (as_slice s) \<le> length (as_slice s1)"
      by (simp only: distinct_card [OF as_slice_distinct [OF h(1)]] distinct_card [OF as_slice_distinct [OF s1(1)]])
    ultimately have "2 * (length P - length (as_slice s1)) + length stack1 < 2 * (length P - length (as_slice s)) + length stack"
      using s1(5) Cons by (simp only: list.size)
    with half have "\<exists>s' ora'. sweep_close inner P p e s1 stack1 ora1 = Some (s', ora') \<and> okO ora' \<and>
        half_swept E P p s' [] \<and> set (as_slice s1) \<subseteq> set (as_slice s') \<and> ss_capacity s' = ss_capacity s1"
      using less.hyps r(2) by blast
    then show ?thesis using r(1) Cons s1(2,3) by (subst sweep_close.simps) auto
  qed
qed

text \<open>With the match instructions and the character instructions that go on as seeds, all that reach are found.\<close>

lemma swept_all:
  assumes "half_swept E P p s []" and "set (match_insts P) \<subseteq> set (as_slice s)"
    and "\<And>pc si n. get_at P pc = Some (I_Char si n) \<Longrightarrow> hits E si p \<Longrightarrow> reaches E P (Suc p) n \<Longrightarrow> pc \<in> set (as_slice s)"
  shows "set (as_slice s) = {pc. reaches E P p pc}"
proof -
  have "reaches E P q pc \<Longrightarrow> q = p \<Longrightarrow> pc \<in> set (as_slice s)" for q pc
  proof (induction rule: reaches.induct)
    case (reaches_match pc pos)
    then show ?case using assms(2) by (auto simp: match_insts_def inst_is_def get_at_eq_Some)
  next
    case (reaches_free pc i t pos)
    then have "pc \<in> set (preds_of P t)" by (auto simp: set_preds_of get_at_eq_Some)
    then show ?case using reaches_free assms(1) by (auto simp: half_swept_def get_at_eq_Some)
  qed (use assms(3) in auto)
  moreover have "\<forall>t \<in> set (as_slice s). reaches E P p t" using assms(1) by (simp add: half_swept_def)
  ultimately show ?thesis by blast
qed

lemma char_insts_iff: "(pc, si, n) \<in> set (char_insts P) \<longleftrightarrow> get_at P pc = Some (I_Char si n)"
  by (auto simp: char_insts_def get_at_eq_Some split: inst.splits)

lemma sweep_at_correct:
  assumes P: "prog_ok ns nl (length (e_sets E)) P" and E: "e_look E = lk" "e_end E = e" and T: "e \<le> length (e_text E)"
    and tg: "list_all (\<lambda>i. case i of I_Char si n \<Rightarrow> n < length P | _ \<Rightarrow> True) P"
    and s0: "ss_ok s0" "length P \<le> ss_capacity s0" and ora: "okO ora"
    and nxt: "ss_ok nxt" "length P \<le> ss_capacity nxt" "p < e \<longrightarrow> set (as_slice nxt) = {pc. reaches E P (Suc p) pc}"
  shows "\<exists>s' ora'. sweep_at inner (e_sets E) P (e_text E) p e s0 nxt ora = Some (s', ora') \<and>
    okO ora' \<and> ss_ok s' \<and> length P \<le> ss_capacity s' \<and> set (as_slice s') = {pc. reaches E P p pc}"
proof -
  let ?s = "ss_clear s0"
  have s: "ss_ok ?s" "length P \<le> ss_capacity ?s" "as_slice ?s = []" using s0 by simp_all
  have m: "\<forall>m \<in> set (match_insts P). m < ss_capacity ?s" using s(2) by (auto simp: match_insts_def)
  obtain s1 st1 where s1: "sweep_seed (match_insts P) ?s [] = Some (s1, st1)" "pushed (set (match_insts P)) (?s, []) (s1, st1)"
    using sweep_seed_pushed [OF s(1) m, of "[]"] by auto
  let ?C = "{pc. p < e \<and> (\<exists>si n. (pc, si, n) \<in> set (char_insts P) \<and> reaches E P (Suc p) n \<and> hits E si p)}"
  have "\<exists>s2 st2. (if p < e then do { c \<leftarrow> get_at (e_text E) p; sweep_chars (e_sets E) c nxt (char_insts P) s1 st1 }
      else Some (s1, st1)) = Some (s2, st2) \<and> pushed (set (match_insts P) \<union> ?C) (?s, []) (s2, st2)"
  proof (cases "p < e")
    case True
    have cb: "\<forall>(pc, si, n) \<in> set (char_insts P). pc < ss_capacity s1 \<and> si < length (e_sets E) \<and> n < ss_capacity nxt"
    proof (clarify, intro conjI)
      fix pc si n assume "(pc, si, n) \<in> set (char_insts P)"
      then have g: "get_at P pc = Some (I_Char si n)" by (simp add: char_insts_iff)
      then show "pc < ss_capacity s1" using s1(2) s(2) by (auto simp: pushed_def get_at_eq_Some)
      show "si < length (e_sets E)" using prog_okD [OF P g] by simp
      show "n < ss_capacity nxt" using g tg nxt(2) by (fastforce simp: list_all_length get_at_eq_Some)
    qed
    have s1ok: "ss_ok s1" using s1(2) by (simp add: pushed_def)
    have g: "get_at (e_text E) p = Some (e_text E ! p)" using True T by simp
    have hit: "hits E si p \<longleftrightarrow> contains (e_sets E ! si) (e_text E ! p)" for si using True E(2) g by (simp add: hits_def)
    obtain s2 st2 where s2: "sweep_chars (e_sets E) (e_text E ! p) nxt (char_insts P) s1 st1 = Some (s2, st2)"
      "pushed {pc. \<exists>si n. (pc, si, n) \<in> set (char_insts P) \<and> n \<in> set (as_slice nxt) \<and> contains (e_sets E ! si) (e_text E ! p)} (s1, st1) (s2, st2)"
      using sweep_chars_pushed [OF nxt(1) s1ok cb] by fastforce
    have "pushed (set (match_insts P) \<union> ?C) (?s, []) (s2, st2)"
      using pushed_trans [OF s1(2) s2(2)] True nxt(3) by (simp add: hit conj_commute)
    then show ?thesis using True g s2(1) by auto
  next
    case False
    then show ?thesis using s1(2) by auto
  qed
  then obtain s2 st2 where s2: "(if p < e then do { c \<leftarrow> get_at (e_text E) p; sweep_chars (e_sets E) c nxt (char_insts P) s1 st1 }
      else Some (s1, st1)) = Some (s2, st2)" "pushed (set (match_insts P) \<union> ?C) (?s, []) (s2, st2)" by blast
  have sl: "set (as_slice s2) = set (match_insts P) \<union> ?C" "set st2 = set (as_slice s2)" "ss_ok s2" "length P \<le> ss_capacity s2"
    using s2(2) s by (auto simp: pushed_def)
  have "half_swept E P p s2 st2" unfolding half_swept_def
    using sl by (auto simp: match_insts_def inst_is_def char_insts_iff intro: reaches_match reaches_char)
  from sweep_close_correct [OF P E this ora] obtain s3 ora3 where
    c: "sweep_close inner P p e s2 st2 ora = Some (s3, ora3)" "okO ora3" "half_swept E P p s3 []"
       "set (as_slice s2) \<subseteq> set (as_slice s3)" by blast
  have "set (as_slice s3) = {pc. reaches E P p pc}"
  proof (rule swept_all [OF c(3)])
    show "set (match_insts P) \<subseteq> set (as_slice s3)" using c(4) sl by auto
    fix pc si n assume "get_at P pc = Some (I_Char si n)" "hits E si p" "reaches E P (Suc p) n"
    moreover from this have "p < e" using E(2) by (simp add: hits_def)
    ultimately show "pc \<in> set (as_slice s3)" using c(4) sl(1) by (auto simp: char_insts_iff)
  qed
  then show ?thesis using s1(1) s2(1) c by (auto simp: sweep_at_def half_swept_def)
qed

lemma sweep_loop_correct:
  assumes P: "prog_ok ns nl (length (e_sets E)) (insts prog)" and E: "e_look E = lk" "e_end E = e"
    and T: "e \<le> length (e_text E)" and tg: "targets_ok (insts prog)" and start: "p_start prog < length (insts prog)"
  shows "ss_ok (lv_cur lv) \<Longrightarrow> ss_ok (lv_next lv) \<Longrightarrow> length (insts prog) \<le> ss_capacity (lv_cur lv) \<Longrightarrow>
    length (insts prog) \<le> ss_capacity (lv_next lv) \<Longrightarrow> okO ora \<Longrightarrow>
    from + k < e \<longrightarrow> set (as_slice (lv_next lv)) = {pc. reaches E (insts prog) (Suc (from + k)) pc} \<Longrightarrow>
    \<exists>lv' ora'. sweep_loop inner (e_sets E) prog (e_text E) from e k bits lv ora =
      Some (map (\<lambda>p. reaches E (insts prog) p (p_start prog)) [from..<Suc (from + k)] @ bits, lv', ora') \<and>
      okO ora' \<and> ss_ok (lv_cur lv') \<and> ss_ok (lv_next lv')"
proof (induction k arbitrary: bits lv ora)
  case (0 bits lv ora)
  have tg': "list_all (\<lambda>i. case i of I_Char si n \<Rightarrow> n < length (insts prog) | _ \<Rightarrow> True) (insts prog)"
    using tg by (simp add: targets_ok_def list_all_iff)
  from sweep_at_correct [OF P E T tg' 0(1,3,5,2,4,6)] obtain s' ora' where
    s: "sweep_at inner (e_sets E) (insts prog) (e_text E) from e (lv_cur lv) (lv_next lv) ora = Some (s', ora')"
      "okO ora'" "ss_ok s'" "length (insts prog) \<le> ss_capacity s'" "set (as_slice s') = {pc. reaches E (insts prog) from pc}"
    by auto
  then show ?case using start 0(2) by (simp add: ss.mem_elems)
next
  case (Suc k bits lv ora)
  have tg': "list_all (\<lambda>i. case i of I_Char si n \<Rightarrow> n < length (insts prog) | _ \<Rightarrow> True) (insts prog)"
    using tg by (simp add: targets_ok_def list_all_iff)
  from sweep_at_correct [OF P E T tg' Suc.prems(1,3,5,2,4,6)] obtain s' ora' where
    s: "sweep_at inner (e_sets E) (insts prog) (e_text E) (from + Suc k) e (lv_cur lv) (lv_next lv) ora = Some (s', ora')"
      "okO ora'" "ss_ok s'" "length (insts prog) \<le> ss_capacity s'" "set (as_slice s') = {pc. reaches E (insts prog) (from + Suc k) pc}"
    by auto
  let ?b = "reaches E (insts prog) (from + Suc k) (p_start prog)"
  have c: "ss_contains s' (p_start prog) = Some ?b" using s start by (simp add: ss.mem_elems)
  have "\<exists>lv' ora''. sweep_loop inner (e_sets E) prog (e_text E) from e k (?b # bits) \<lparr>lv_cur = lv_next lv, lv_next = s'\<rparr> ora' =
      Some (map (\<lambda>p. reaches E (insts prog) p (p_start prog)) [from..<Suc (from + k)] @ ?b # bits, lv', ora'') \<and>
      okO ora'' \<and> ss_ok (lv_cur lv') \<and> ss_ok (lv_next lv')"
    by (rule Suc.IH) (use s Suc.prems in simp_all)
  then show ?case using s(1) c by (auto simp: sweep_loop.simps [where k = "Suc k"] simp del: sweep_loop.simps)
qed

lemma sweep_correct:
  assumes P: "prog_ok ns nl (length (e_sets E)) (insts prog)" and E: "e_look E = lk" "e_end E = e"
    and T: "e \<le> length (e_text E)" and tg: "targets_ok (insts prog)" and start: "p_start prog < length (insts prog)"
    and lv: "level_ok lv" and ora: "okO ora" and f: "from \<le> e"
  shows "\<exists>lv' ora'. sweep inner (e_sets E) prog (e_text E) from e lv ora =
      Some (map (\<lambda>p. reaches E (insts prog) p (p_start prog)) [from..<Suc e], lv', ora') \<and> okO ora' \<and> level_ok lv'"
proof -
  let ?n = "length (insts prog)"
  have tr: "targets_in_range (insts prog)" using tg by (simp add: targets_ok_def targets_in_range_def list_all_iff)
  obtain lv1 ora1 where r: "sweep_loop inner (e_sets E) prog (e_text E) from e (e - from) []
      \<lparr>lv_cur = ss_resize ?n (lv_cur lv), lv_next = ss_resize ?n (lv_next lv)\<rparr> ora =
      Some (map (\<lambda>p. reaches E (insts prog) p (p_start prog)) [from..<Suc (from + (e - from))] @ [], lv1, ora1)"
      "okO ora1" "ss_ok (lv_cur lv1)" "ss_ok (lv_next lv1)"
    using sweep_loop_correct [OF P E T tg start, of "\<lparr>lv_cur = ss_resize ?n (lv_cur lv), lv_next = ss_resize ?n (lv_next lv)\<rparr>" ora "from" "e - from" "[]"] lv ora f
    by (auto simp: level_ok_def simp del: sweep_loop.simps)
  then show ?thesis using tr f by (auto simp: sweep_def Let_def level_ok_def simp del: sweep_loop.simps)
qed

end

end
