(* ===== verification/Walks.thy ===== *)
theory Walks
  imports Sweep
begin

text \<open>
  Walks of a lookaround's program: good oracles and their buffers, the plain walk (\<open>run_correct\<close>), and the
  memoized walk of lookaheads that read far (\<open>run_memo_correct\<close>): what the memo holds are true outcomes,
  whether a walk, an earlier walk or the sweep found them.
\<close>

section \<open>Good oracles and walks\<close>

text \<open>
  A good oracle: the buffers of every level are well formed, and what \<open>M\<close> says of the memos (of their
  key, generation and contents) holds.
\<close>

type_synonym memos_ok = "nat \<times> nat \<times> nat \<Rightarrow> nat \<Rightarrow> look_memo list \<Rightarrow> bool"

definition oracle_ok :: "memos_ok \<Rightarrow> nat \<Rightarrow> oracle_state \<Rightarrow> bool" where
  "oracle_ok M depth ora \<longleftrightarrow>
     levels_ok ora \<and> depth \<le> length (o_levels ora) \<and> M (o_key ora) (o_gen ora) (o_memos ora)"

lemma oracle_ok_take:
  assumes "oracle_ok M depth ora" and "take_level depth ora = (lv, ora')"
  shows "level_ok lv" "oracle_ok M (Suc depth) ora'"
proof -
  have l: "levels_ok ora" using assms(1) by (simp add: oracle_ok_def)
  note t = take_level_ok [OF l assms(2)]
  show "level_ok lv" by (rule t)
  have "o_key ora' = o_key ora" "o_gen ora' = o_gen ora" "o_memos ora' = o_memos ora"
    using assms(2) by (auto simp: take_level_def Let_def)
  then show "oracle_ok M (Suc depth) ora'" using t assms(1) by (simp add: oracle_ok_def)
qed

lemma oracle_ok_give:
  assumes "oracle_ok M (Suc depth) ora" and "level_ok lv"
  shows "\<exists>ora'. give_level depth lv ora = Some ora' \<and> oracle_ok M depth ora'"
proof -
  from give_level_ok [of ora lv depth] assms
  obtain ora' where "give_level depth lv ora = Some ora'" "levels_ok ora'" "o_levels ora' = (o_levels ora)[depth := lv]"
    "o_memos ora' = o_memos ora" "o_key ora' = o_key ora" "o_gen ora' = o_gen ora"
    by (auto simp: oracle_ok_def)
  then show ?thesis using assms(1) by (auto simp: oracle_ok_def)
qed

lemma run_correct:
  assumes inner: "level_below inner e lk (oracle_ok M (Suc depth)) nl"
    and P: "prog_ok ns nl (length (e_sets E)) (insts prog)" and lk: "e_look E = lk" and e: "e_end E = e"
    and o: "outs E (insts prog) (p_start prog) q [] L" and ora: "oracle_ok M depth ora"
    and at: "\<forall>a. at = Some a \<longrightarrow> q \<le> a"
  shows "\<exists>ora'. run inner (e_sets E) prog (e_text E) q e at depth ora = Some (some_acc (ends at) L, ora') \<and>
    oracle_ok M depth ora'"
proof -
  let ?P = "insts prog"
  obtain lv ora1 where t: "take_level depth ora = (lv, ora1)" by fastforce
  note lv = oracle_ok_take [OF ora t]
  let ?lv = "\<lparr>lv_cur = ss_resize (length ?P) (lv_cur lv), lv_next = ss_resize (length ?P) (lv_next lv)\<rparr>"
  have ok: "set_ok ?P (lv_cur ?lv)" "set_ok ?P (lv_next ?lv)" using lv(1) by (auto simp: set_ok_def level_ok_def)
  have emp: "as_slice (t_set (bare (lv_cur ?lv))) = []" by simp
  obtain h where h: "out E ?P h (p_start prog) q [] L" using o by (auto simp: outs_def)
  obtain s ora2 where s: "closure inner ?P (p_start prog) q e (lv_cur ?lv) ora1 = Some (s, ora2)" "set_ok ?P s"
      "oracle_ok M (Suc depth) ora2" "adds E ?P (ends at) q h L (bare (lv_cur ?lv)) (bare s)"
    using level_below.closure_correct [OF inner P lk e h ok(1) lv(2) covered_empty [OF emp], of "ends at"] by blast
  have "derived E ?P q (bare s)" by (rule derived_adds [OF _ s(4)]) (simp add: derived_def)
  then obtain lv3 ora3 where r: "run_loop inner (e_sets E) ?P (e_text E) e at q (?lv\<lparr>lv_cur := s\<rparr>) ora2 =
      Some (some_acc (ends at) (future E ?P q (bare s)), lv3, ora3)"
      "ss_ok (lv_cur lv3)" "ss_ok (lv_next lv3)" "oracle_ok M (Suc depth) ora3"
    using level_below.run_loop_correct [OF inner P lk e, of "?lv\<lparr>lv_cur := s\<rparr>" q ora2 at] ok(2) s(2,3) at
    by auto
  have f: "some_acc (ends at) (future E ?P q (bare s)) = some_acc (ends at) L"
    using adds_first [OF s(4)] future_empty [OF emp] by simp
  let ?lv4 = "\<lparr>lv_cur = ss_clear (lv_cur lv3), lv_next = ss_clear (lv_next lv3)\<rparr>"
  have "level_ok ?lv4" using r by (simp add: level_ok_def)
  from oracle_ok_give [OF r(4) this] obtain ora4 where g: "give_level depth ?lv4 ora3 = Some ora4" "oracle_ok M depth ora4" by blast
  show ?thesis using t s(1) r(1) g f by (simp add: run_def)
qed

section \<open>What a memo holds\<close>

text \<open>Does a path from one of the instructions reach the match?\<close>

definition alive :: "env \<Rightarrow> inst list \<Rightarrow> nat list \<Rightarrow> nat \<Rightarrow> bool" where
  "alive E P key p \<longleftrightarrow> (\<exists>pc \<in> set key. reaches E P p pc)"

definition runs_ok :: "env \<Rightarrow> inst list \<Rightarrow> look_memo \<Rightarrow> bool" where
  "runs_ok E P m \<longleftrightarrow>
     m_count m = length (m_runs m) \<and>
     (\<forall>key k. m_ids m key = Some k \<longrightarrow> k < m_count m) \<and>
     (\<forall>key key' k. m_ids m key = Some k \<longrightarrow> m_ids m key' = Some k \<longrightarrow> key = key') \<and>
     (\<forall>key k from to v p. m_ids m key = Some k \<longrightarrow> (m_runs m ! k) from = Some (to, v) \<longrightarrow> from \<le> p \<longrightarrow> p < to \<longrightarrow>
        v = alive E P key p)"

text \<open>The path of a walk whose outcome is \<open>b\<close>: every position on it has that outcome.\<close>

definition path_ok :: "env \<Rightarrow> inst list \<Rightarrow> look_memo \<Rightarrow> path \<Rightarrow> bool \<Rightarrow> bool" where
  "path_ok E P m path b \<longleftrightarrow>
     (\<forall>(k, from, to) \<in> set path. \<exists>key. m_ids m key = Some k \<and> (\<forall>p. from \<le> p \<longrightarrow> p < to \<longrightarrow> alive E P key p = b))"

definition swept_ok :: "env \<Rightarrow> prog \<Rightarrow> look_memo \<Rightarrow> bool" where
  "swept_ok E prog m \<longleftrightarrow>
     (\<forall>from bits. m_swept m = Some (from, bits) \<longrightarrow>
        bits = map (\<lambda>p. reaches E (insts prog) p (p_start prog)) [from..<Suc (e_end E)])"

definition look_memo_ok :: "env \<Rightarrow> prog \<Rightarrow> look_memo \<Rightarrow> bool" where
  "look_memo_ok E prog m \<longleftrightarrow> runs_ok E (insts prog) m \<and> swept_ok E prog m"

lemma runs_okD:
  assumes "runs_ok E P m"
  shows "m_count m = length (m_runs m)" "m_ids m key = Some k \<Longrightarrow> k < length (m_runs m)"
    "m_ids m key = Some k \<Longrightarrow> m_ids m key' = Some k \<Longrightarrow> key = key'"
    "m_ids m key = Some k \<Longrightarrow> (m_runs m ! k) f = Some (t, v) \<Longrightarrow> f \<le> p \<Longrightarrow> p < t \<Longrightarrow> v = alive E P key p"
  using assms unfolding runs_ok_def by (simp, force, blast, blast)

lemma path_ok_ids:
  "path_ok E P m path b \<Longrightarrow> (\<And>key k. m_ids m key = Some k \<Longrightarrow> m_ids m' key = Some k) \<Longrightarrow> path_ok E P m' path b"
  unfolding path_ok_def by fast

lemma path_ok_snoc:
  "path_ok E P m (path @ [(k, f, t)]) b \<longleftrightarrow>
     path_ok E P m path b \<and> (\<exists>key. m_ids m key = Some k \<and> (\<forall>p. f \<le> p \<longrightarrow> p < t \<longrightarrow> alive E P key p = b))"
  by (auto simp: path_ok_def)

lemma memo_known_true:
  assumes "runs_ok E P m" and "m_ids m key = Some k"
  shows "\<exists>r. memo_known m k pos = Some r \<and> (\<forall>v. r = Some v \<longrightarrow> v = alive E P key pos)"
proof -
  have k: "k < length (m_runs m)" by (rule runs_okD(2) [OF assms])
  let ?r = "m_runs m ! k" and ?fs = "filter (\<lambda>f. (m_runs m ! k) f \<noteq> None) (rev [0..<pos + 1])"
  have "v = alive E P key pos" if "?fs = f # fs" "?r f = Some (to, v)" "pos < to" for f fs to v
  proof -
    have "f \<in> set ?fs" using that(1) by (simp del: filter.simps)
    then have "f \<in> set (rev [0..<pos + 1])" by (simp only: set_filter mem_Collect_eq)
    then have "f \<le> pos" by auto
    then show ?thesis using runs_okD(4) [OF assms that(2)] that(3) by simp
  qed
  note true = this
  have m: "memo_known m k pos = Some (case ?fs of [] \<Rightarrow> None
      | f # _ \<Rightarrow> (case ?r f of None \<Rightarrow> None | Some (to, v) \<Rightarrow> if pos < to then Some v else None))"
    unfolding memo_known_def get_at_Some [OF k] bind.bind_lunit ..
  show ?thesis
  proof (cases ?fs)
    case (Cons f fs)
    then show ?thesis using true [OF Cons] unfolding m Cons by (auto split: option.splits)
  qed (unfold m, simp)
qed

lemma memo_id_ok:
  assumes m: "runs_ok E P m" and path: "path_ok E P m path b" and r: "memo_id key m path = (k, m', path')"
  shows "runs_ok E P m'" "path_ok E P m' path' b" "m_ids m' key = Some k"
    "m_swept m' = m_swept m" "m_gen m' = m_gen m" "m_lo m' = m_lo m" "m_steps m' = m_steps m"
proof -
  have "runs_ok E P m' \<and> path_ok E P m' path' b \<and> m_ids m' key = Some k \<and>
    m_swept m' = m_swept m \<and> m_gen m' = m_gen m \<and> m_lo m' = m_lo m \<and> m_steps m' = m_steps m"
  proof (cases "m_ids m key")
    case (Some j)
    then show ?thesis using assms by (simp add: memo_id_def)
  next
    case new: None
    let ?new = "\<lambda>m. m\<lparr>m_ids := (m_ids m)(key \<mapsto> m_count m), m_count := m_count m + 1, m_runs := m_runs m @ [Map.empty]\<rparr>"
    have fresh: "runs_ok E P (?new m) \<and> path_ok E P (?new m) path b" if "runs_ok E P m" "path_ok E P m path b" "m_ids m key = None" for m path
    proof -
      note ok = runs_okD [OF that(1)]
      have "runs_ok E P (?new m)"
        unfolding runs_ok_def
      proof (intro conjI allI impI)
        fix key' j f t v p
        assume "m_ids (?new m) key' = Some j" "(m_runs (?new m) ! j) f = Some (t, v)" "f \<le> p" "p < t"
        then show "v = alive E P key' p"
          using ok(1) ok(2) [of key' j] ok(4) [of key' j f t v p] by (auto simp: nth_append split: if_splits)
      next
        fix key1 key2 j
        assume "m_ids (?new m) key1 = Some j" "m_ids (?new m) key2 = Some j"
        then show "key1 = key2"
          using ok(1) ok(2) [of key1 j] ok(2) [of key2 j] ok(3) [of key1 j key2] by (auto split: if_splits)
      next
        fix key1 j
        assume "m_ids (?new m) key1 = Some j"
        then show "j < m_count (?new m)" using ok(1) ok(2) [of key1 j] by (auto split: if_splits)
      qed (simp add: ok(1))
      moreover have "path_ok E P (?new m) path b"
        by (rule path_ok_ids [OF that(2)]) (use that(3) in auto)
      ultimately show ?thesis ..
    qed
    show ?thesis
    proof (cases "m_count m \<ge> MEMO_SETS")
      case True
      have "runs_ok E P (memo_clear m)" "path_ok E P (memo_clear m) [] b" by (auto simp: runs_ok_def memo_clear_def path_ok_def)
      from fresh [OF this] show ?thesis using r new True by (auto simp: memo_id_def Let_def memo_clear_def)
    next
      case False
      then show ?thesis using r new fresh [OF m path new] by (auto simp: memo_id_def Let_def)
    qed
  qed
  then show "runs_ok E P m'" "path_ok E P m' path' b" "m_ids m' key = Some k"
    "m_swept m' = m_swept m" "m_gen m' = m_gen m" "m_lo m' = m_lo m" "m_steps m' = m_steps m" by blast+
qed

lemma path_add_ok:
  assumes "runs_ok E P m" and "path_ok E P m path b" and "m_ids m key = Some k" and "alive E P key pos = b"
  shows "path_ok E P m (path_add k pos path) b"
proof (cases "path \<noteq> [] \<and> fst (last path) = k \<and> snd (snd (last path)) = pos")
  case True
  obtain f where l: "last path = (k, f, pos)" using True by (cases "last path") auto
  then have split: "path = butlast path @ [(k, f, pos)]" using True append_butlast_last_id [of path] by simp
  with assms(2) have o: "path_ok E P m (butlast path) b"
    "\<exists>key. m_ids m key = Some k \<and> (\<forall>p. f \<le> p \<longrightarrow> p < pos \<longrightarrow> alive E P key p = b)"
    using path_ok_snoc by metis+
  then have "\<forall>p. f \<le> p \<longrightarrow> p < pos \<longrightarrow> alive E P key p = b" using runs_okD(3) [OF assms(1) _ assms(3)] by blast
  then have "\<forall>p. f \<le> p \<longrightarrow> p < Suc pos \<longrightarrow> alive E P key p = b" using assms(4) by (auto simp: less_Suc_eq)
  then show ?thesis using True l o(1) assms(3) by (auto simp: path_add_def path_ok_snoc)
next
  case False
  have "alive E P key p = b" if "pos \<le> p" "p < Suc pos" for p using that assms(4) by (simp add: le_less_Suc_eq)
  then show ?thesis using assms(2,3) False by (auto simp: path_add_def path_ok_snoc)
qed

lemma path_record_ok:
  "runs_ok E P m \<Longrightarrow> path_ok E P m path b \<Longrightarrow>
   \<exists>rs. path_record path b (m_runs m) = Some rs \<and> runs_ok E P (m\<lparr>m_runs := rs\<rparr>)"
proof (induction path arbitrary: m)
  case (Cons x path)
  obtain k f t where x: "x = (k, f, t)" by (cases x) auto
  from Cons.prems(2) x obtain key where key: "m_ids m key = Some k" "\<forall>p. f \<le> p \<longrightarrow> p < t \<longrightarrow> alive E P key p = b"
    by (auto simp: path_ok_def)
  note ok = runs_okD [OF Cons.prems(1)]
  have k: "k < length (m_runs m)" by (rule ok(2) [OF key(1)])
  let ?rs = "(m_runs m)[k := (m_runs m ! k)(f \<mapsto> (t, b))]"
  have "runs_ok E P (m\<lparr>m_runs := ?rs\<rparr>)"
    unfolding runs_ok_def
  proof (intro conjI allI impI)
    fix key' j f' t' v p
    assume a: "m_ids (m\<lparr>m_runs := ?rs\<rparr>) key' = Some j" "(m_runs (m\<lparr>m_runs := ?rs\<rparr>) ! j) f' = Some (t', v)" "f' \<le> p" "p < t'"
    show "v = alive E P key' p"
    proof (cases "j = k \<and> f' = f")
      case True
      then have "key' = key" using a(1) ok(3) [OF key(1), of key'] by simp
      then show ?thesis using a True k key(2) by auto
    next
      case False
      then have "(m_runs m ! j) f' = Some (t', v)" using a(2) k by (cases "j = k") auto
      then show ?thesis using a(1,3,4) ok(4) [of key' j f' t' v p] by simp
    qed
  next
    fix key1 key2 j
    assume "m_ids (m\<lparr>m_runs := ?rs\<rparr>) key1 = Some j" "m_ids (m\<lparr>m_runs := ?rs\<rparr>) key2 = Some j"
    then show "key1 = key2" using ok(3) [of key1 j key2] by simp
  next
    fix key1 j
    assume "m_ids (m\<lparr>m_runs := ?rs\<rparr>) key1 = Some j"
    then show "j < m_count (m\<lparr>m_runs := ?rs\<rparr>)" using ok(1) ok(2) [of key1 j] by simp
  qed (simp add: ok(1))
  moreover have "path_ok E P (m\<lparr>m_runs := ?rs\<rparr>) path b" using Cons.prems(2) by (auto simp: path_ok_def)
  ultimately show ?case using Cons.IH [of "m\<lparr>m_runs := ?rs\<rparr>"] k by (simp add: x)
qed simp

section \<open>The memoized walk\<close>

lemma sort_filter_set: "set (memo_key P s) = {pc \<in> set (as_slice s). inst_is is_char P pc}"
  by (simp add: memo_key_def)

lemma future_reaches:
  assumes P: "prog_ok ns nl nset P" and "derived E P pos (bare s)"
  shows "some_acc (ends None) (future E P pos (bare s)) \<longleftrightarrow> (\<exists>pc \<in> set (as_slice s). leaf (P ! pc) \<and> reaches E P pos pc)"
proof -
  have "some_acc (ends None) (paths E P pc pos []) \<longleftrightarrow> reaches E P pos pc" if pc: "pc \<in> set (as_slice s)" for pc
  proof -
    obtain h where "hgt E P pos pc h" using bspec [OF assms(2) [unfolded derived_def bare_simps] pc] by blast
    from hgt_out [OF this] obtain L where o: "out E P h pc pos [] L" by auto
    show ?thesis unfolding paths_out [OF o] out_reaches [OF P o] by (cases L) (auto simp: some_acc_def ends_def)
  qed
  then show ?thesis
    unfolding future_rest rest_paths_def by (auto simp: some_acc_def)
qed

lemma future_alive:
  assumes P: "prog_ok ns nl nset P" and d: "derived E P pos (bare s)" and m: "\<not> list_ex (inst_is (\<lambda>i. i = I_Match) P) (as_slice s)"
  shows "some_acc (ends None) (future E P pos (bare s)) \<longleftrightarrow> alive E P (memo_key P s) pos"
proof -
  have "leaf (P ! pc) \<longleftrightarrow> inst_is is_char P pc" if "pc \<in> set (as_slice s)" for pc
  proof -
    have "pc < length P" using derived_pc [OF d] that by simp
    moreover have "P ! pc \<noteq> I_Match" using m that calculation by (auto simp: list_ex_iff inst_is_def)
    ultimately show ?thesis by (cases "P ! pc") (auto simp: leaf_def inst_is_def is_char_def)
  qed
  then show ?thesis unfolding future_reaches [OF P d] alive_def sort_filter_set by auto
qed

text \<open>Without a match in the set, the threads of the memoized walk are those of the plain one.\<close>

lemma memo_threads_run:
  assumes "pos < e" and "get_at text pos = Some c"
  shows "list_all (\<lambda>i. \<forall>pc. ss_get (lv_cur lv) i = Some pc \<longrightarrow> get_at P pc \<noteq> Some I_Match) is \<Longrightarrow>
    run_threads inner ss P text e at pos is lv ora =
      map_option (\<lambda>(lv, ora). (False, lv, ora)) (memo_threads inner ss P e c pos is lv ora)"
proof (induction "is" arbitrary: lv ora)
  case (Cons i js)
  have ch: "char_here ss text e si pos = do { cs \<leftarrow> get_at ss si; Some (contains cs c) }" for si
    using assms by (simp add: char_here_def)
  show ?case
  proof (cases "ss_get (lv_cur lv) i")
    case (Some pc)
    then have nm: "get_at P pc \<noteq> Some I_Match" using Cons.prems by simp
    show ?thesis
    proof (cases "get_at P pc")
      case i: (Some inst)
      show ?thesis
      proof (cases inst)
        case (I_Char si nx)
        show ?thesis
        proof (cases "get_at ss si")
          case cs: (Some cs)
          show ?thesis
          proof (cases "contains cs c")
            case True
            show ?thesis
            proof (cases "closure inner P nx (Suc pos) e (lv_next lv) ora")
              case (Some r)
              obtain s ora' where r: "r = (s, ora')" by fastforce
              have "list_all (\<lambda>i. \<forall>pc. ss_get (lv_cur (lv\<lparr>lv_next := s\<rparr>)) i = Some pc \<longrightarrow> get_at P pc \<noteq> Some I_Match) js"
                using Cons.prems by simp
              from Cons.IH [OF this] show ?thesis
                using \<open>ss_get (lv_cur lv) i = Some pc\<close> by (simp add: i I_Char ch cs True Some r)
            qed (simp add: \<open>ss_get (lv_cur lv) i = Some pc\<close> i I_Char ch cs True)
          next
            case False
            then show ?thesis using Cons \<open>ss_get (lv_cur lv) i = Some pc\<close> by (simp add: i I_Char ch cs)
          qed
        qed (simp add: \<open>ss_get (lv_cur lv) i = Some pc\<close> i I_Char ch)
      qed (use Cons nm \<open>ss_get (lv_cur lv) i = Some pc\<close> i in simp_all)
    qed (simp add: Some)
  qed simp
qed simp

text \<open>A walk in progress, whose outcome is \<open>b\<close>.\<close>

definition walking :: "env \<Rightarrow> inst list \<Rightarrow> (oracle_state \<Rightarrow> bool) \<Rightarrow> look_memo \<Rightarrow> bool \<Rightarrow> walk \<Rightarrow> bool" where
  "walking E P okO m0 b w \<longleftrightarrow>
     set_ok P (lv_cur (w_level w)) \<and> set_ok P (lv_next (w_level w)) \<and> okO (w_oracle w) \<and>
     runs_ok E P (w_memo w) \<and> path_ok E P (w_memo w) (w_path w) b \<and>
     m_swept (w_memo w) = m_swept m0 \<and> m_gen (w_memo w) = m_gen m0"

lemma walk_known_ok:
  assumes w: "walking E P okO m0 b w" and b: "b = alive E P (memo_key P (lv_cur (w_level w))) pos"
  shows "\<exists>r w'. walk_known P pos w = Some (r, w') \<and> walking E P okO m0 b w' \<and> (\<forall>v. r = Some v \<longrightarrow> v = b) \<and>
    w_level w' = w_level w \<and> w_oracle w' = w_oracle w"
proof (cases "w_steps w \<ge> MEMO_AFTER")
  case True
  let ?key = "memo_key P (lv_cur (w_level w))"
  obtain k m path where i: "memo_id ?key (w_memo w) (w_path w) = (k, m, path)" by (metis prod_cases3)
  have rp: "runs_ok E P (w_memo w)" "path_ok E P (w_memo w) (w_path w) b" using w by (simp_all add: walking_def)
  note id = memo_id_ok [OF rp i]
  obtain r where r: "memo_known m k pos = Some r" "\<forall>v. r = Some v \<longrightarrow> v = alive E P ?key pos"
    using memo_known_true [OF id(1,3), of pos] by blast
  have "path_ok E P m (path_add k pos path) b" by (rule path_add_ok [OF id(1,2,3)]) (simp add: b)
  then show ?thesis using True i r id w b by (cases r) (auto simp: walk_known_def walking_def)
next
  case False
  then show ?thesis using w by (auto simp: walk_known_def)
qed

context level_below
begin

lemma walk_step:
  assumes P: "prog_ok ns nl (length (e_sets E)) P" and lk: "e_look E = lk" and e: "e_end E = e" and T: "e \<le> length (e_text E)"
    and w: "walking E P okO m0 b w" and d: "derived E P pos (bare (lv_cur (w_level w)))"
    and nm: "\<not> list_ex (inst_is (\<lambda>i. i = I_Match) P) (as_slice (lv_cur (w_level w)))" and pos: "pos < e"
    and b: "b = some_acc (ends None) (future E P pos (bare (lv_cur (w_level w))))"
  shows "\<exists>lv ora. memo_threads inner (e_sets E) P e (e_text E ! pos) pos [0..<ss_len (lv_cur (w_level w))]
      ((w_level w)\<lparr>lv_next := ss_clear (lv_next (w_level w))\<rparr>) (w_oracle w) = Some (lv, ora) \<and>
    set_ok P (lv_cur lv) \<and> set_ok P (lv_next lv) \<and> derived E P (Suc pos) (bare (lv_next lv)) \<and> okO ora \<and>
    b = some_acc (ends None) (future E P (Suc pos) (bare (lv_next lv)))"
proof -
  let ?lv = "(w_level w)\<lparr>lv_next := ss_clear (lv_next (w_level w))\<rparr>" and ?is = "[0..<ss_len (lv_cur (w_level w))]"
  have ok: "set_ok P (lv_cur ?lv)" "set_ok P (lv_next ?lv)" "okO (w_oracle w)"
    using w by (auto simp: walking_def set_ok_def)
  have len: "length (as_slice (lv_cur (w_level w))) = ss_len (lv_cur (w_level w))" using ok(1) by (simp add: set_ok_def)
  have wo: "walk_ok E P pos ?lv" using ok d by (simp add: walk_ok_def derived_def)
  have cov: "\<forall>k. covered E P (ends None) (Suc pos) k (bare (lv_next ?lv))" by (simp add: covered_empty)
  have g: "get_at (e_text E) pos = Some (e_text E ! pos)" using pos T by simp
  have nomatch: "list_all (\<lambda>i. \<forall>pc. ss_get (lv_cur ?lv) i = Some pc \<longrightarrow> get_at P pc \<noteq> Some I_Match) ?is"
  proof -
    have "get_at P x \<noteq> Some I_Match" if "x \<in> set (as_slice (lv_cur (w_level w)))" for x
      using nm that by (auto simp: list_ex_iff inst_is_def)
    then have "get_at P (as_slice (lv_cur (w_level w)) ! i) \<noteq> Some I_Match" if "i < ss_len (lv_cur (w_level w))" for i
      using that len nth_mem [of i "as_slice (lv_cur (w_level w))"] by simp
    then show ?thesis using ok(1) len by (auto simp: list_all_iff ss_get_slice set_ok_def)
  qed
  obtain found lv2 ora2 where st: "run_threads inner (e_sets E) P (e_text E) e None pos ?is ?lv (w_oracle w) = Some (found, lv2, ora2)"
    and w2: "walk_ok E P pos lv2" "okO ora2"
    and r: "found \<or> some_acc (ends None) (future E P (Suc pos) (bare (lv_next lv2))) \<longleftrightarrow>
       some_acc (ends None) (future E P pos (bare (lv_cur (w_level w))))"
    using run_threads_correct [OF P lk e wo ok(3) cov, of ?is] len
    by (auto simp: future_empty all_indices [of "as_slice (lv_cur (w_level w))", unfolded len]
        future_rest [of E P pos "bare (lv_cur (w_level w))", simplified, symmetric])
  have "\<not> found" "memo_threads inner (e_sets E) P e (e_text E ! pos) pos ?is ?lv (w_oracle w) = Some (lv2, ora2)"
    using st memo_threads_run [OF pos g nomatch] by auto
  then show ?thesis using w2 r b by (auto simp: walk_ok_def)
qed

lemma walk_loop_correct:
  assumes P: "prog_ok ns nl (length (e_sets E)) P" and lk: "e_look E = lk" and e: "e_end E = e" and T: "e \<le> length (e_text E)"
  shows "walking E P okO m0 b w \<Longrightarrow> derived E P pos (bare (lv_cur (w_level w))) \<Longrightarrow>
    b = some_acc (ends None) (future E P pos (bare (lv_cur (w_level w)))) \<Longrightarrow>
    \<exists>w'. walk_loop inner (e_sets E) P (e_text E) e pos w = Some (b, w') \<and> walking E P okO m0 b w'"
proof (induction "e - pos" arbitrary: pos w rule: less_induct)
  case less
  let ?cur = "lv_cur (w_level w)"
  show ?case
  proof (cases "list_ex (inst_is (\<lambda>i. i = I_Match) P) (as_slice ?cur)")
    case True
    then obtain pc where "pc \<in> set (as_slice ?cur)" "get_at P pc = Some I_Match"
      by (auto simp: list_ex_iff inst_is_def split: option.splits)
    then have b unfolding less.prems(3) future_reaches [OF P less.prems(2)]
      by (intro bexI [of _ pc]) (auto simp: leaf_def get_at_nth intro: reaches_match)
    then show ?thesis using True less.prems(1) by (subst walk_loop.simps) simp
  next
    case nm: False
    have ba: "b = alive E P (memo_key P ?cur) pos" using future_alive [OF P less.prems(2) nm] less.prems(3) by simp
    from walk_known_ok [OF less.prems(1) ba] obtain r w1 where k: "walk_known P pos w = Some (r, w1)"
      "walking E P okO m0 b w1" "\<forall>v. r = Some v \<longrightarrow> v = b" "w_level w1 = w_level w" "w_oracle w1 = w_oracle w" by blast
    show ?thesis
    proof (cases r)
      case (Some v)
      then show ?thesis using k nm by (subst walk_loop.simps) simp
    next
      case None
      show ?thesis
      proof (cases "pos \<ge> e")
        case True
        have "\<not> alive E P (memo_key P ?cur) pos"
        proof
          assume "alive E P (memo_key P ?cur) pos"
          then obtain pc where pc: "reaches E P pos pc" "inst_is is_char P pc" by (auto simp: alive_def sort_filter_set)
          then obtain si nx where "get_at P pc = Some (I_Char si nx)"
            by (auto simp: inst_is_def is_char_def split: option.splits inst.splits)
          then have "hits E si pos" using pc(1) by (simp add: reaches_char_iff)
          then show False using True e by (simp add: hits_def)
        qed
        then show ?thesis using k nm None True ba by (subst walk_loop.simps) simp
      next
        case False
        then have pos: "pos < e" by simp
        have "\<exists>lv ora. memo_threads inner (e_sets E) P e (e_text E ! pos) pos [0..<ss_len (lv_cur (w_level w1))]
            ((w_level w1)\<lparr>lv_next := ss_clear (lv_next (w_level w1))\<rparr>) (w_oracle w1) = Some (lv, ora) \<and>
          set_ok P (lv_cur lv) \<and> set_ok P (lv_next lv) \<and> derived E P (Suc pos) (bare (lv_next lv)) \<and> okO ora \<and>
          b = some_acc (ends None) (future E P (Suc pos) (bare (lv_next lv)))"
          by (rule walk_step [OF P lk e T k(2) _ _ pos]) (use less.prems nm in \<open>simp_all add: k(4)\<close>)
        then obtain lv ora where st: "memo_threads inner (e_sets E) P e (e_text E ! pos) pos [0..<ss_len ?cur]
            ((w_level w)\<lparr>lv_next := ss_clear (lv_next (w_level w))\<rparr>) (w_oracle w) = Some (lv, ora)"
          and s: "set_ok P (lv_cur lv)" "set_ok P (lv_next lv)" "derived E P (Suc pos) (bare (lv_next lv))" "okO ora"
            "b = some_acc (ends None) (future E P (Suc pos) (bare (lv_next lv)))" by (auto simp: k(4,5))
        have g: "get_at (e_text E) pos = Some (e_text E ! pos)" using pos T by simp
        show ?thesis
        proof (cases "ss_is_empty (lv_next lv)")
          case True
          then have "as_slice (lv_next lv) = []" using s(2) ss_is_empty_iff by (simp add: set_ok_def)
          then have "\<not> b" using s(5) by (simp add: future_empty)
          then show ?thesis using k nm None pos g st True s by (subst walk_loop.simps) (simp add: walking_def)
        next
          case go: False
          let ?w = "w1\<lparr>w_level := \<lparr>lv_cur = lv_next lv, lv_next = lv_cur lv\<rparr>, w_oracle := ora, w_steps := w_steps w1 + 1\<rparr>"
          have "\<exists>w'. walk_loop inner (e_sets E) P (e_text E) e (Suc pos) ?w = Some (b, w') \<and> walking E P okO m0 b w'"
            by (rule less.hyps) (use pos k(2) s in \<open>simp_all add: walking_def\<close>)
          then show ?thesis using k nm None pos g st go by (subst walk_loop.simps) simp
        qed
      qed
    qed
  qed
qed

end

section \<open>Lookaheads that read far\<close>

text \<open>
  The memos of a search: of this text and window, at least \<open>n\<close> of them, of generations up to the current
  one \<open>g\<close>, those of the current one with true outcomes.
\<close>

definition memos_right :: "(nat \<Rightarrow> look_memo \<Rightarrow> bool) \<Rightarrow> nat \<times> nat \<times> nat \<Rightarrow> nat \<Rightarrow> nat \<Rightarrow> memos_ok" where
  "memos_right ok key g n k gen ms \<longleftrightarrow>
     k = key \<and> gen = g \<and> n \<le> length ms \<and>
     (\<forall>l < length ms. m_gen (ms ! l) \<le> g \<and> (m_gen (ms ! l) = g \<longrightarrow> ok l (ms ! l)))"

lemma memos_right_mono: "oracle_ok (memos_right ok key g n) depth ora \<Longrightarrow> n' \<le> n \<Longrightarrow> oracle_ok (memos_right ok key g n') depth ora"
  by (auto simp: oracle_ok_def memos_right_def)

lemma give_memo_ok:
  assumes "oracle_ok (memos_right ok key g n) depth ora" and "look < n" and "ok look m" and "m_gen m \<le> g"
  shows "\<exists>ora'. give_memo look m ora = Some ora' \<and> oracle_ok (memos_right ok key g n) depth ora'"
  using assms by (auto simp: give_memo_def oracle_ok_def memos_right_def levels_ok_def nth_list_update)

lemma look_memo_ok_fresh: "look_memo_ok E prog memo_new" "look_memo_ok E prog (memo_reset gen m)"
  by (simp_all add: look_memo_ok_def runs_ok_def swept_ok_def memo_new_def memo_reset_def memo_clear_def)

lemma look_memo_ok_fields [simp]:
  "look_memo_ok E prog (m\<lparr>m_lo := x\<rparr>) = look_memo_ok E prog m" "look_memo_ok E prog (m\<lparr>m_steps := k\<rparr>) = look_memo_ok E prog m"
  by (simp_all add: look_memo_ok_def runs_ok_def swept_ok_def)

lemma runs_ok_fields [simp]: "runs_ok E P (m\<lparr>m_steps := k\<rparr>) = runs_ok E P m" "runs_ok E P (m\<lparr>m_swept := x\<rparr>) = runs_ok E P m"
  by (simp_all add: runs_ok_def)

lemma swept_at_true:
  assumes "look_memo_ok E prog m"
  shows "\<exists>r. swept_at m q (e_end E) = Some r \<and> (\<forall>v. r = Some v \<longrightarrow> v = reaches E (insts prog) q (p_start prog))"
proof (cases "m_swept m")
  case (Some x)
  obtain f bits where x: "x = (f, bits)" by fastforce
  then have b: "bits = map (\<lambda>p. reaches E (insts prog) p (p_start prog)) [f..<Suc (e_end E)]"
    using assms Some by (simp add: look_memo_ok_def swept_ok_def)
  show ?thesis
  proof (cases "q < f \<or> q > e_end E")
    case False
    then have "q - f < Suc (e_end E) - f" by linarith
    then show ?thesis using False unfolding swept_at_def Some x b by (simp add: get_at_def del: upt_Suc)
  qed (simp add: swept_at_def Some x)
qed (simp add: swept_at_def)

lemma run_walk_correct:
  assumes inner: "level_below inner e lk (oracle_ok (memos_right ok key g n) (Suc depth)) nl"
    and P: "prog_ok ns nl (length (e_sets E)) (insts prog)" and lk: "e_look E = lk" and e: "e_end E = e"
    and T: "e \<le> length (e_text E)" and o: "outs E (insts prog) (p_start prog) q [] L"
    and m: "look_memo_ok E prog m" "m_gen m \<le> g" and ok: "ok look = look_memo_ok E prog" and n: "look < n"
    and lv: "level_ok lv" and ora: "oracle_ok (memos_right ok key g n) (Suc depth) ora"
  shows "\<exists>ora'. run_walk inner (e_sets E) look prog (e_text E) q e depth m lv ora =
    Some (reaches E (insts prog) q (p_start prog), ora') \<and> oracle_ok (memos_right ok key g n) depth ora'"
proof -
  let ?P = "insts prog" and ?n = "length (insts prog)" and ?M = "memos_right ok key g n"
  let ?lv = "\<lparr>lv_cur = ss_resize ?n (lv_cur lv), lv_next = ss_resize ?n (lv_next lv)\<rparr>"
  let ?b = "reaches E ?P q (p_start prog)"
  obtain h where h: "out E ?P h (p_start prog) q [] L" using o by (auto simp: outs_def)
  have lvok: "set_ok ?P (lv_cur ?lv)" "set_ok ?P (lv_next ?lv)" using lv by (auto simp: set_ok_def level_ok_def)
  have emp: "as_slice (t_set (bare (lv_cur ?lv))) = []" by simp
  obtain s ora1 where s: "closure inner ?P (p_start prog) q e (lv_cur ?lv) ora = Some (s, ora1)" "set_ok ?P s"
      "oracle_ok ?M (Suc depth) ora1" "adds E ?P (ends None) q h L (bare (lv_cur ?lv)) (bare s)"
    using level_below.closure_correct [OF inner P lk e h lvok(1) ora covered_empty [OF emp], of "ends None"] by blast
  have d: "derived E ?P q (bare s)" by (rule derived_adds [OF _ s(4)]) (simp add: derived_def)
  have "some_acc (ends None) (future E ?P q (bare s)) = some_acc (ends None) L"
    using adds_first [OF s(4)] future_empty [OF emp] by simp
  also have "\<dots> = ?b" unfolding out_reaches [OF P h] by (cases L) (auto simp: some_acc_def ends_def)
  finally have b: "?b = some_acc (ends None) (future E ?P q (bare s))" ..
  let ?w = "\<lparr>w_steps = 0, w_memo = m, w_path = [], w_level = ?lv\<lparr>lv_cur := s\<rparr>, w_oracle = ora1\<rparr>"
  have w: "walking E ?P (oracle_ok ?M (Suc depth)) m ?b ?w"
    using s(2,3) lvok(2) m(1) by (simp add: walking_def look_memo_ok_def path_ok_def)
  obtain w' where w': "walk_loop inner (e_sets E) ?P (e_text E) e q ?w = Some (?b, w')"
      "walking E ?P (oracle_ok ?M (Suc depth)) m ?b w'"
    using level_below.walk_loop_correct [OF inner P lk e T w, of q] d b by auto
  note k = w'(2) [unfolded walking_def]
  obtain rs where rs: "path_record (w_path w') ?b (m_runs (w_memo w')) = Some rs" "runs_ok E ?P ((w_memo w')\<lparr>m_runs := rs\<rparr>)"
    using path_record_ok [of E ?P "w_memo w'" "w_path w'" ?b] k by blast
  let ?lv2 = "\<lparr>lv_cur = ss_clear (lv_cur (w_level w')), lv_next = ss_clear (lv_next (w_level w'))\<rparr>"
  let ?ora = "(w_oracle w')\<lparr>o_walked := sat_usize (o_walked (w_oracle w') + w_steps w')\<rparr>"
  have "oracle_ok ?M (Suc depth) ?ora" using k by (simp add: oracle_ok_def levels_ok_def)
  moreover have "level_ok ?lv2" using k by (simp add: level_ok_def set_ok_def)
  ultimately obtain ora2 where g: "give_level depth ?lv2 ?ora = Some ora2" "oracle_ok ?M depth ora2"
    using oracle_ok_give by blast
  let ?m = "(w_memo w')\<lparr>m_steps := sat_usize (m_steps (w_memo w') + w_steps w'), m_runs := rs\<rparr>"
  have "look_memo_ok E prog ((w_memo w')\<lparr>m_runs := rs\<rparr>)"
    using rs(2) k m(1) by (simp add: look_memo_ok_def swept_ok_def del: upt_Suc)
  moreover have "?m = (w_memo w')\<lparr>m_runs := rs\<rparr>\<lparr>m_steps := sat_usize (m_steps (w_memo w') + w_steps w')\<rparr>" by simp
  ultimately have "look_memo_ok E prog ?m" by (simp only: look_memo_ok_fields)
  then obtain ora3 where "give_memo look ?m ora2 = Some ora3" "oracle_ok ?M depth ora3"
    using give_memo_ok [OF g(2) n, of ?m] ok k m(2) by auto
  then show ?thesis using s(1) w'(1) rs(1) g(1) by (simp add: run_walk_def Let_def)
qed

lemma memo_answer_correct:
  assumes inner: "level_below inner e lk (oracle_ok (memos_right ok key g n) (Suc depth)) nl"
    and P: "prog_ok ns nl (length (e_sets E)) (insts prog)" and lk: "e_look E = lk" and e: "e_end E = e"
    and T: "e \<le> length (e_text E)" and tg: "targets_ok (insts prog)" and o: "outs E (insts prog) (p_start prog) q [] L"
    and m: "look_memo_ok E prog m" "m_gen m \<le> g" and ok: "ok look = look_memo_ok E prog" and n: "look < n"
    and ora: "oracle_ok (memos_right ok key g n) depth ora"
  shows "\<exists>ora'. memo_answer inner (e_sets E) look prog (e_text E) q e depth m ora =
    Some (reaches E (insts prog) q (p_start prog), ora') \<and> oracle_ok (memos_right ok key g n) depth ora'"
proof -
  let ?b = "reaches E (insts prog) q (p_start prog)" and ?M = "memos_right ok key g n"
  have start: "p_start prog < length (insts prog)" using o out_pc by (auto simp: outs_def)
  obtain sw where sw: "swept_at m q e = Some sw" "\<forall>v. sw = Some v \<longrightarrow> v = ?b"
    using swept_at_true [OF m(1), of q] unfolding e by blast
  show ?thesis
  proof (cases sw)
    case (Some v)
    obtain ora2 where "give_memo look m ora = Some ora2" "oracle_ok ?M depth ora2"
      using give_memo_ok [where ok = ok, OF ora n] m ok by auto
    then show ?thesis using sw Some by (simp add: memo_answer_def)
  next
    case None
    obtain lv ora3 where tl: "take_level depth ora = (lv, ora3)" by fastforce
    note lv = oracle_ok_take [OF ora tl]
    define m2 where "m2 = (if q \<le> e then m\<lparr>m_lo := min (m_lo m) q\<rparr> else m)"
    have m2: "look_memo_ok E prog m2" "m_gen m2 \<le> g" "q \<le> e \<longrightarrow> m_lo m2 \<le> q" using m by (simp_all add: m2_def)
    note u = memo_answer_def sw(1) bind.bind_lunit None option.case tl Let_def prod.case m2_def [symmetric]
    show ?thesis
    proof (cases "q \<le> e \<and> sweep_due m2 e")
      case True
      let ?from = "m_lo m2"
      have f: "?from \<le> q" "?from \<le> e" using True m2(3) by simp_all
      obtain lv2 ora4 where swp: "sweep inner (e_sets E) prog (e_text E) ?from e lv ora3 =
          Some (map (\<lambda>p. reaches E (insts prog) p (p_start prog)) [?from..<Suc e], lv2, ora4)"
          "oracle_ok ?M (Suc depth) ora4" "level_ok lv2"
        using level_below.sweep_correct [OF inner P lk e T tg start lv f(2)] by blast
      let ?m3 = "m2\<lparr>m_swept := Some (?from, map (\<lambda>p. reaches E (insts prog) p (p_start prog)) [?from..<Suc e]), m_steps := 0\<rparr>"
      have mg: "m_gen ?m3 \<le> g" using m2(2) by simp
      have m3: "look_memo_ok E prog ?m3" using m2(1) by (simp add: look_memo_ok_def swept_ok_def e del: upt_Suc)
      have "q - ?from < Suc e - ?from" using True f by linarith
      then have v: "swept_at ?m3 q e = Some (Some ?b)" using True f by (simp add: swept_at_def get_at_def del: upt_Suc)
      let ?ora4 = "ora4\<lparr>o_walked := sat_usize (o_walked ora4 + (e - ?from + 1))\<rparr>"
      have "oracle_ok ?M (Suc depth) ?ora4" using swp(2) by (simp add: oracle_ok_def levels_ok_def)
      from oracle_ok_give [OF this swp(3)] obtain ora5 where
        g: "give_level depth lv2 ?ora4 = Some ora5" "oracle_ok ?M depth ora5" by blast
      obtain ora6 where "give_memo look ?m3 ora5 = Some ora6" "oracle_ok ?M depth ora6"
        using give_memo_ok [where ok = ok, OF g(2) n, of ?m3] m3 mg unfolding ok by blast
      then show ?thesis using True swp(1) v g(1) unfolding u by (simp del: upt_Suc)
    next
      case False
      then show ?thesis using run_walk_correct [where ok = ok, OF inner P lk e T o m2(1,2) ok n lv] unfolding u by (simp only: if_False)
    qed
  qed
qed

lemma run_memo_correct:
  assumes inner: "\<And>n. level_below inner e lk (oracle_ok (memos_right ok (addr, length (e_text E), e) g n) (Suc depth)) nl"
    and P: "prog_ok ns nl (length (e_sets E)) (insts prog)" and lk: "e_look E = lk" and e: "e_end E = e"
    and T: "e \<le> length (e_text E)" and tg: "targets_ok (insts prog)" and o: "outs E (insts prog) (p_start prog) q [] L"
    and ok: "ok look = look_memo_ok E prog" "\<And>l. ok l memo_new"
    and ora: "oracle_ok (memos_right ok (addr, length (e_text E), e) g n) depth ora"
  shows "\<exists>ora'. run_memo inner (e_sets E) addr look prog (e_text E) q e depth ora =
    Some (reaches E (insts prog) q (p_start prog), ora') \<and> oracle_ok (memos_right ok (addr, length (e_text E), e) g n) depth ora'"
proof -
  let ?key = "(addr, length (e_text E), e)" and ?N = "max n (Suc look)"
  let ?M = "memos_right ok ?key g"
  let ?ora1 = "ora\<lparr>o_levels := grow_to (depth + 1) level_new (o_levels ora), o_memos := grow_to (look + 1) memo_new (o_memos ora)\<rparr>"
  let ?m0 = "o_memos ?ora1 ! look"
  let ?ora2 = "?ora1\<lparr>o_memos := (o_memos ?ora1)[look := memo_new]\<rparr>"
  let ?m = "if m_gen ?m0 \<noteq> o_gen ?ora2 then memo_reset (o_gen ?ora2) ?m0 else ?m0"
  have key: "check_key addr (e_text E) e ora = ora" using ora by (simp add: check_key_def oracle_ok_def memos_right_def)
  have right: "l < length (o_memos ora) \<Longrightarrow> m_gen (o_memos ora ! l) = o_gen ora \<Longrightarrow> ok l (o_memos ora ! l)" for l
    using ora by (simp add: oracle_ok_def memos_right_def)
  have g: "o_gen ora = g" using ora by (simp add: oracle_ok_def memos_right_def)
  then have mg: "m_gen ?m \<le> g" by (simp add: memo_reset_def memo_clear_def)
  have m: "look_memo_ok E prog ?m"
  proof (cases "look < length (o_memos ora)")
    case True
    then show ?thesis using right [of look] ok by (auto simp: grow_to_def nth_append look_memo_ok_fresh)
  next
    case False
    then show ?thesis by (auto simp: grow_to_def nth_append look_memo_ok_fresh)
  qed
  have ms: "o_memos ?ora2 ! l = (if l < length (o_memos ora) \<and> l \<noteq> look then o_memos ora ! l else memo_new)"
    if "l < length (o_memos ?ora2)" for l
    using that by (auto simp: grow_to_def nth_append nth_list_update)
  have o2: "oracle_ok (?M ?N) depth ?ora2"
    unfolding oracle_ok_def memos_right_def
  proof (intro conjI allI impI)
    fix l assume "l < length (o_memos ?ora2)" "m_gen (o_memos ?ora2 ! l) = g"
    then show "ok l (o_memos ?ora2 ! l)" using ms [of l] right [of l] ok(2) g by (auto split: if_splits)
  next
    fix l assume "l < length (o_memos ?ora2)"
    then show "m_gen (o_memos ?ora2 ! l) \<le> g" using ms [of l] ora by (auto simp: oracle_ok_def memos_right_def memo_new_def)
  qed (use ora in \<open>auto simp: oracle_ok_def memos_right_def levels_ok_def grow_to_def list_all_length nth_append\<close>)
  have "run_memo inner (e_sets E) addr look prog (e_text E) q e depth ora =
      memo_answer inner (e_sets E) look prog (e_text E) q e depth ?m ?ora2"
    using T by (simp add: run_memo_def Let_def key min_absorb1)
  moreover have "look < ?N" "n \<le> ?N" by simp_all
  ultimately show ?thesis
    using memo_answer_correct [where ok = ok, OF inner P lk e T tg o m mg ok(1) _ o2] memos_right_mono [where ok = ok, of ?key g ?N depth _ n]
    by metis
qed

end
