(* ===== verification/Bounds.thy ===== *)
theory Bounds
  imports Pike
begin

text \<open>
  The programs of a pattern whose indices are in range have theirs in range (\<open>build_bounds\<close>): the
  matchers never index out of the slots, the tests or the sets.
\<close>

text \<open>The indices of a lowered pattern are in range.\<close>

primrec hir_bounds :: "nat \<Rightarrow> nat \<Rightarrow> hir \<Rightarrow> bool" where
  "hir_bounds ns nset H_Empty \<longleftrightarrow> True"
| "hir_bounds ns nset (H_Char s) \<longleftrightarrow> s < nset"
| "hir_bounds ns nset (H_Look l) \<longleftrightarrow> True"
| "hir_bounds ns nset (H_Group g b) \<longleftrightarrow> 1 \<le> g \<and> 2 * g + 2 \<le> ns \<and> hir_bounds ns nset b"
| "hir_bounds ns nset (H_Concat v) \<longleftrightarrow> list_all (\<lambda>x. x) (map (hir_bounds ns nset) v)"
| "hir_bounds ns nset (H_Alt v) \<longleftrightarrow> list_all (\<lambda>x. x) (map (hir_bounds ns nset) v)"
| "hir_bounds ns nset (H_Repeat mn mx greedy simple b) \<longleftrightarrow> hir_bounds ns nset b"

text \<open>The instructions of a program of the builder; those of the backtracker's may be \<open>I_Run\<close>s.\<close>

definition inst_in :: "bool \<Rightarrow> nat \<Rightarrow> nat \<Rightarrow> nat \<Rightarrow> inst \<Rightarrow> bool" where
  "inst_in rn ns nl nset i \<longleftrightarrow> (case i of I_Run si _ _ _ _ \<Rightarrow> rn \<and> si < nset | _ \<Rightarrow> inst_ok ns nl nset i)"

lemma inst_in_simps [simp]:
  "inst_in rn ns nl nset (I_Char si n) \<longleftrightarrow> si < nset" "inst_in rn ns nl nset (I_Save slot n) \<longleftrightarrow> slot < ns"
  "inst_in rn ns nl nset (I_Look l n) \<longleftrightarrow> l < nl" "inst_in rn ns nl nset (I_Run si mn mx g n) \<longleftrightarrow> rn \<and> si < nset"
  "inst_in rn ns nl nset (I_Split x y)" "inst_in rn ns nl nset (I_Jmp n)" "inst_in rn ns nl nset (I_Guard n)"
  "inst_in rn ns nl nset I_Match"
  by (simp_all add: inst_in_def)

lemma inst_in_no_runs [simp]: "inst_in False ns nl nset = inst_ok ns nl nset"
  by (rule ext) (simp add: inst_in_def split: inst.split)

definition prog_in :: "bool \<Rightarrow> nat \<Rightarrow> nat \<Rightarrow> nat \<Rightarrow> inst list \<Rightarrow> bool" where
  "prog_in rn ns nl nset P \<longleftrightarrow> 2 \<le> ns \<and> list_all (inst_in rn ns nl nset) P"

lemma prog_in_no_runs [simp]: "prog_in False = prog_ok"
  by (intro ext) (simp add: prog_in_def prog_ok_def)

lemma prog_inD: "prog_in rn ns nl nset P \<Longrightarrow> get_at P pc = Some i \<Longrightarrow> inst_in rn ns nl nset i"
  by (auto simp: prog_in_def get_at_eq_Some list_all_length)

definition insts_ok :: "bool \<Rightarrow> nat \<Rightarrow> nat \<Rightarrow> nat \<Rightarrow> builder \<Rightarrow> bool" where
  "insts_ok rn ns nl nset b \<longleftrightarrow> list_all (inst_in rn ns nl nset) (b_insts b) \<and> (\<forall>l < nl. look_ids b ! l = l) \<and> runs b = rn \<and>
     length (b_insts b) \<le> MAX_INSTS"

definition keeps :: "bool \<Rightarrow> nat \<Rightarrow> nat \<Rightarrow> nat \<Rightarrow> 'a build \<Rightarrow> bool" where
  "keeps rn ns nl nset c \<longleftrightarrow> (\<forall>b x b'. insts_ok rn ns nl nset b \<longrightarrow> c b = Inr (x, b') \<longrightarrow> insts_ok rn ns nl nset b')"

lemma inst_ok_set_target [simp]: "inst_in rn ns nl nset (set_target i w t) = inst_in rn ns nl nset i"
  by (cases i) auto

lemma list_all_patch [simp]:
  "list_all (inst_in rn ns nl nset) is \<Longrightarrow> list_all (inst_in rn ns nl nset) (patch_insts holes t is)"
proof (induction holes t "is" rule: patch_insts.induct)
  case (2 i w holes t "is")
  then have "list_all (inst_in rn ns nl nset) (is[i := set_target (is ! i) w t])"
    by (cases "i < length is") (auto simp: list_all_length nth_list_update)
  with 2 show ?case by simp
qed simp

lemma insts_ok_patch [simp]: "insts_ok rn ns nl nset b \<Longrightarrow> insts_ok rn ns nl nset (patch holes t b)"
  by (simp add: insts_ok_def patch_def)

lemma insts_ok_push:
  "insts_ok rn ns nl nset b \<Longrightarrow> inst_in rn ns nl nset i \<Longrightarrow> push i b = Inr (n, b') \<Longrightarrow> insts_ok rn ns nl nset b'"
  by (auto simp: push_def too_large_def insts_ok_def split: if_splits)

lemma keeps_emit: "inst_in rn ns nl nset i \<Longrightarrow> keeps rn ns nl nset (emit i)"
  by (auto simp: keeps_def emit_def dest: insts_ok_push)

lemma keepsD: "keeps rn ns nl nset c \<Longrightarrow> insts_ok rn ns nl nset b \<Longrightarrow> c b = Inr (x, b') \<Longrightarrow> insts_ok rn ns nl nset b'"
  by (auto simp: keeps_def)

lemma keeps_chain: "insts_ok rn ns nl nset b \<Longrightarrow> chain start holes fs b = (F, b') \<Longrightarrow> insts_ok rn ns nl nset b'"
  by (induction start holes fs b rule: chain.induct) auto

lemma keeps_concat: "keeps rn ns nl nset (concat_frags fs)"
proof (cases fs)
  case Nil
  have "keeps rn ns nl nset (emit (I_Jmp HOLE))" by (rule keeps_emit) simp
  then show ?thesis by (simp add: Nil keeps_def empty_frag_def)
qed (auto simp: keeps_def dest: keeps_chain)

lemma keeps_each:
  "list_all (keeps rn ns nl nset) cs \<Longrightarrow> insts_ok rn ns nl nset b \<Longrightarrow> comp_each cs b = Inr (fs, b') \<Longrightarrow> insts_ok rn ns nl nset b'"
proof (induction cs arbitrary: b fs)
  case (Cons c cs)
  from Cons.prems(3) obtain f b1 gs where c: "c b = Inr (f, b1)" and r: "comp_each cs b1 = Inr (gs, b')" by auto
  have "keeps rn ns nl nset c" using Cons.prems(1) by simp
  from Cons.IH [OF _ keepsD [OF this Cons.prems(2) c] r] Cons.prems(1) show ?case by simp
qed simp

lemma insts_ok_split: "insts_ok rn ns nl nset b \<Longrightarrow> push (I_Split HOLE HOLE) b = Inr (n, b') \<Longrightarrow> insts_ok rn ns nl nset b'"
  by (rule insts_ok_push) auto

lemma keeps_alts:
  "list_all (keeps rn ns nl nset) cs \<Longrightarrow> insts_ok rn ns nl nset b \<Longrightarrow> comp_alts cs holes start lst b = Inr (F, b') \<Longrightarrow>
   insts_ok rn ns nl nset b'"
proof (induction cs arbitrary: b holes start lst)
  case (Cons c cs)
  then have k: "keeps rn ns nl nset c" "list_all (keeps rn ns nl nset) cs" by auto
  show ?case
  proof (cases "cs = []")
    case True
    with Cons.prems(3) obtain f b1 where c: "c b = Inr (f, b1)"
      and "b' = b1 \<or> (\<exists>l. b' = patch [(l, 1)] (f_start f) b1)"
      by (auto simp: Let_def split: option.splits)
    then show ?thesis using keepsD [OF k(1) Cons.prems(2) c] by auto
  next
    case False
    with Cons.prems(3) obtain s b1 f b2 where s: "push (I_Split HOLE HOLE) b = Inr (s, b1)" and c: "c b1 = Inr (f, b2)"
      and r: "(case lst of
          None \<Rightarrow> comp_alts cs (holes @ f_holes f) s (Some s) (patch [(s, 0)] (f_start f) b2)
        | Some l \<Rightarrow> comp_alts cs (holes @ f_holes f) start (Some s) (patch [(l, 1)] s (patch [(s, 0)] (f_start f) b2))) =
        Inr (F, b')"
      by (cases lst) (auto simp: Let_def)
    have "insts_ok rn ns nl nset b2" by (rule keepsD [OF k(1) insts_ok_split [OF Cons.prems(2) s] c])
    then have ok: "insts_ok rn ns nl nset (patch [(s, 0)] (f_start f) b2)"
      "insts_ok rn ns nl nset (patch [(l, 1)] s (patch [(s, 0)] (f_start f) b2))" for l
      by simp_all
    show ?thesis
    proof (cases lst)
      case None
      with r show ?thesis using Cons.IH [OF k(2) ok(1)] by simp
    next
      case (Some l)
      with r show ?thesis using Cons.IH [OF k(2) ok(2)] by simp
    qed
  qed
qed simp

lemma keeps_loop:
  assumes "keeps rn ns nl nset c"
  shows "keeps rn ns nl nset (comp_loop greedy c)"
  unfolding keeps_def
proof (intro allI impI)
  fix b x b'
  assume b: "insts_ok rn ns nl nset b" and "comp_loop greedy c b = Inr (x, b')"
  then obtain s b1 f b2 where s: "push (I_Split HOLE HOLE) b = Inr (s, b1)" and f: "c b1 = Inr (f, b2)"
    and b': "b' = patch (f_holes f) s (patch [(s, body_side greedy)] (f_start f) b2)"
    by (auto simp: comp_loop_def Let_def)
  have "insts_ok rn ns nl nset b2" by (rule keepsD [OF assms insts_ok_split [OF b s] f])
  then show "insts_ok rn ns nl nset b'" by (simp add: b')
qed

lemma keeps_opts: "keeps rn ns nl nset c \<Longrightarrow> keeps rn ns nl nset (comp_opts n greedy c exits start prev)"
proof (induction n arbitrary: exits start prev)
  case (Suc n)
  show ?case unfolding keeps_def
  proof (intro allI impI)
    fix b x b'
    assume b: "insts_ok rn ns nl nset b" and "comp_opts (Suc n) greedy c exits start prev b = Inr (x, b')"
    then obtain s b1 f b2 where s: "push (I_Split HOLE HOLE) b = Inr (s, b1)" and f: "c b1 = Inr (f, b2)"
      and r: "(let b = patch [(s, body_side greedy)] (f_start f) b2;
           (start, b) = (case prev of None \<Rightarrow> (s, b) | Some h \<Rightarrow> (start, patch h s b))
       in comp_opts n greedy c (exits @ [(s, exit_side greedy)]) start (Some (f_holes f)) b) = Inr (x, b')"
      by auto
    have "insts_ok rn ns nl nset b2" using keepsD [OF Suc.prems insts_ok_split [OF b s] f] .
    then have "insts_ok rn ns nl nset (patch [(s, body_side greedy)] (f_start f) b2)"
      "\<And>h. insts_ok rn ns nl nset (patch h s (patch [(s, body_side greedy)] (f_start f) b2))" by simp_all
    note ok = this
    show "insts_ok rn ns nl nset b'"
    proof (cases prev)
      case None
      with r have "comp_opts n greedy c (exits @ [(s, exit_side greedy)]) s (Some (f_holes f))
        (patch [(s, body_side greedy)] (f_start f) b2) = Inr (x, b')" by (simp add: Let_def)
      from keepsD [OF Suc.IH [OF Suc.prems] ok(1) this] show ?thesis .
    next
      case (Some h)
      with r have "comp_opts n greedy c (exits @ [(s, exit_side greedy)]) start (Some (f_holes f))
        (patch h s (patch [(s, body_side greedy)] (f_start f) b2)) = Inr (x, b')" by (simp add: Let_def)
      from keepsD [OF Suc.IH [OF Suc.prems] ok(2) this] show ?thesis .
    qed
  qed
qed (auto simp: keeps_def)

lemma keeps_repeat:
  assumes "keeps rn ns nl nset c"
  shows "keeps rn ns nl nset (comp_repeat mn mx greedy simple c)"
  unfolding keeps_def comp_repeat_seq
proof (intro allI impI)
  fix b :: builder and x b'
  let ?cs = "(if simple \<and> guards b then [emit (I_Guard HOLE)] else []) @ replicate mn c @
    (case mx of None \<Rightarrow> [comp_loop greedy c]
     | Some m \<Rightarrow> if m - mn > 0 then [comp_opts (m - mn) greedy c [] HOLE None] else [])"
  assume b: "insts_ok rn ns nl nset b"
    and "andthen (comp_each ?cs b) (\<lambda>(fs, b). concat_frags fs b) = Inr (x, b')"
  then obtain fs b1 where e: "comp_each ?cs b = Inr (fs, b1)" and f: "concat_frags fs b1 = Inr (x, b')" by auto
  have "list_all (keeps rn ns nl nset) ?cs"
    using assms by (auto simp: keeps_emit keeps_loop keeps_opts list_all_iff split: option.splits)
  from keepsD [OF keeps_concat keeps_each [OF this b e] f] show "insts_ok rn ns nl nset b'" .
qed

lemma keeps_hir: "hir_ok nl h \<Longrightarrow> hir_bounds ns nset h \<Longrightarrow> keeps rn ns nl nset (comp_hir h)"
proof (induction h)
  case (H_Look l)
  have "keeps rn ns nl nset (emit (I_Look l HOLE))" using H_Look by (intro keeps_emit) simp
  moreover have "insts_ok rn ns nl nset b \<Longrightarrow> look_ids b ! l = l" for b
    using H_Look by (simp add: insts_ok_def)
  ultimately show ?case by (simp add: keeps_def)
next
  case (H_Group g h)
  then have h: "keeps rn ns nl nset (comp_hir h)" by simp
  have s: "inst_in rn ns nl nset (I_Save (2 * (g - 1)) HOLE)" "inst_in rn ns nl nset (I_Save (2 * (g - 1) + 1) HOLE)"
    using H_Group.prems(2) by auto
  show ?case unfolding keeps_def
  proof (intro allI impI)
    fix b x b'
    assume b: "insts_ok rn ns nl nset b" and r: "comp_hir (H_Group g h) b = Inr (x, b')"
    show "insts_ok rn ns nl nset b'"
    proof (cases "saves b")
      case False
      with r have "comp_hir h b = Inr (x, b')" by simp
      then show ?thesis by (rule keepsD [OF h b])
    next
      case True
      with r obtain a b1 f b2 z b3 where *: "push (I_Save (2 * (g - 1)) HOLE) b = Inr (a, b1)" "comp_hir h b1 = Inr (f, b2)"
        "push (I_Save (2 * (g - 1) + 1) HOLE) (patch [(a, 0)] (f_start f) b2) = Inr (z, b3)" "b' = patch (f_holes f) z b3"
        by (auto simp: Let_def)
      have "insts_ok rn ns nl nset b2" by (rule keepsD [OF h insts_ok_push [OF b s(1) *(1)] *(2)])
      then have "insts_ok rn ns nl nset b3" using insts_ok_push [OF _ s(2) *(3)] by simp
      then show ?thesis by (simp add: *(4))
    qed
  qed
next
  case (H_Concat v)
  then have k: "list_all (keeps rn ns nl nset) (map comp_hir v)" by (auto simp: list_all_iff)
  show ?case unfolding keeps_def
  proof (intro allI impI)
    fix b x b'
    assume b: "insts_ok rn ns nl nset b" and "comp_hir (H_Concat v) b = Inr (x, b')"
    then obtain fs b1 where e: "comp_each (if reverse b then rev (map comp_hir v) else map comp_hir v) b = Inr (fs, b1)"
      and f: "concat_frags fs b1 = Inr (x, b')" by auto
    have "list_all (keeps rn ns nl nset) (if reverse b then rev (map comp_hir v) else map comp_hir v)"
      using k by (auto simp: list_all_iff)
    from keepsD [OF keeps_concat keeps_each [OF this b e] f] show "insts_ok rn ns nl nset b'" .
  qed
next
  case (H_Alt v)
  then have k: "list_all (keeps rn ns nl nset) (map comp_hir v)" by (auto simp: list_all_iff)
  show ?case
  proof (cases "v = []")
    case True
    have "keeps rn ns nl nset (emit (I_Jmp HOLE))" by (rule keeps_emit) simp
    then show ?thesis using True by (simp add: keeps_def empty_frag_def)
  next
    case False
    have "keeps rn ns nl nset (comp_alts (map comp_hir v) [] HOLE None)"
      unfolding keeps_def using keeps_alts [OF k] by blast
    then show ?thesis using False by (simp add: keeps_def)
  qed
next
  case (H_Repeat mn mx greedy simple h)
  then have k: "keeps rn ns nl nset (comp_repeat mn mx greedy simple (comp_hir h))" by (intro keeps_repeat) simp
  show ?case unfolding keeps_def
  proof (intro allI impI)
    fix b x b'
    assume b: "insts_ok rn ns nl nset b" and r: "comp_hir (H_Repeat mn mx greedy simple h) b = Inr (x, b')"
    show "insts_ok rn ns nl nset b'"
    proof (cases "\<exists>si. runs b \<and> h = H_Char si")
      case True
      then obtain si where si: "runs b" "h = H_Char si" by blast
      with r obtain n where n: "push (I_Run si mn (case mx of None \<Rightarrow> HOLE | Some m \<Rightarrow> m) greedy HOLE) b = Inr (n, b')"
        by (auto simp: emit_def)
      show ?thesis by (rule insts_ok_push [OF b _ n]) (use b si H_Repeat.prems in \<open>simp add: insts_ok_def\<close>)
    next
      case False
      then have "comp_repeat mn mx greedy simple (comp_hir h) b = Inr (x, b')" using r by (cases "runs b"; cases h) simp_all
      from keepsD [OF k b this] show ?thesis .
    qed
  qed
qed (auto simp: empty_frag_def intro: keeps_emit)

lemma build_with_bounds:
  assumes "hir_ok nl h" and "hir_bounds ns nset h" and "2 \<le> ns"
    and "\<forall>slot. head = Some slot \<longrightarrow> slot < ns" and "list_all (inst_in rn ns nl' nset) tail" and "nl \<le> nl'"
    and ids: "\<forall>l < nl. ids ! l = l" and b: "build_with h sv rv gd rn ids head tail = Inr p"
  shows "prog_in rn ns nl' nset (insts p)" "length (insts p) \<le> MAX_INSTS"
proof -
  have up: "inst_in rn ns nl nset i \<Longrightarrow> inst_in rn ns nl' nset i" for i using assms(6) by (cases i) auto
  let ?b0 = "\<lparr>b_insts = [], saves = sv, reverse = rv, guards = gd, runs = rn, look_ids = ids\<rparr>"
  from b obtain f b1 f' b2 b3 where c: "comp_hir h ?b0 = Inr (f, b1)"
    and hd: "(case head of None \<Rightarrow> Inr (f, b1)
         | Some slot \<Rightarrow> andthen (push (I_Save slot (f_start f)) b1) (\<lambda>(s, b).
                          Inr (\<lparr>f_start = s, f_holes = f_holes f\<rparr>, b))) = Inr (f', b2)"
    and t: "push_tail tail (f_holes f') b2 = Inr b3" and p: "insts p = b_insts b3"
    by (auto simp: build_with_def finish_def)
  have "insts_ok rn ns nl nset ?b0" using ids by (simp add: insts_ok_def)
  from keepsD [OF keeps_hir [OF assms(1,2)] this c] have 1: "insts_ok rn ns nl nset b1" .
  then have 2: "insts_ok rn ns nl nset b2"
    using 1 hd assms(4) insts_ok_push [OF 1, of "I_Save _ _"] by (cases head) auto
  have "list_all (inst_in rn ns nl' nset) (b_insts b2)"
    using 2 up by (auto simp: insts_ok_def list_all_iff)
  moreover have "list_all (inst_in rn ns nl' nset) (b_insts b3)"
    if "list_all (inst_in rn ns nl' nset) (b_insts b2)" "push_tail tail holes b2 = Inr b3" for holes
    using that assms(5)
  proof (induction tail holes b2 rule: push_tail.induct)
    case (2 t ts holes b)
    then show ?case by (auto simp: push_def too_large_def split: if_splits)
  qed auto
  ultimately show "prog_in rn ns nl' nset (insts p)" using t p assms(3) by (simp add: prog_in_def)
  have "length (b_insts b3) \<le> MAX_INSTS"
    if "length (b_insts b2) \<le> MAX_INSTS" "push_tail tail holes b2 = Inr b3" for holes
    using that
  proof (induction tail holes b2 rule: push_tail.induct)
    case (2 t ts holes b)
    then show ?case by (auto simp: push_def too_large_def patch_def split: if_splits)
  qed auto
  then show "length (insts p) \<le> MAX_INSTS" using t p 2 by (simp add: insts_ok_def)
qed

lemmas build_bounds = build_with_bounds(1) [where rn = False, unfolded inst_in_no_runs prog_in_no_runs, folded build_def]

end
