(* ===== verification/Targets.thy ===== *)
theory Targets
  imports Sweep
begin

text \<open>
  Every jump of a program \<^verbatim>\<open>build\<close> makes lands inside it (\<open>build_targets\<close>): the holes of a fragment are
  the only targets the compiler leaves open, and the tail of the program fills them.  The sweep of
  \<^verbatim>\<open>linre/looks.rs\<close> and the backtracking matcher index a program by its targets.
\<close>

section \<open>Open targets\<close>

fun target :: "inst \<Rightarrow> nat \<Rightarrow> nat option" where
  "target (I_Char s n) w = (if w = 0 then Some n else None)"
| "target (I_Jmp n) w = (if w = 0 then Some n else None)"
| "target (I_Save s n) w = (if w = 0 then Some n else None)"
| "target (I_Look l n) w = (if w = 0 then Some n else None)"
| "target (I_Guard n) w = (if w = 0 then Some n else None)"
| "target (I_Run s mn mx g n) w = (if w = 0 then Some n else None)"
| "target (I_Split x y) w = (if w = 0 then Some x else if w = 1 then Some y else None)"
| "target I_Match w = None"

text \<open>The targets past the end of a program.\<close>

definition opn :: "inst list \<Rightarrow> (nat \<times> nat) set" where
  "opn P = {(i, w). i < length P \<and> (\<exists>t. target (P ! i) w = Some t \<and> length P \<le> t)}"

lemma guarded_Some [simp]:
  "(if c then Some a else None) = Some t \<longleftrightarrow> c \<and> a = t"
  "(if c then Some a else if d then Some b else None) = Some t \<longleftrightarrow> (if c then a = t else d \<and> b = t)"
  by auto

lemma opn_empty [simp]: "opn [] = {}"
  by (simp add: opn_def)

lemma opn_push: "opn (P @ [i]) \<subseteq> opn P \<union> {(length P, w) |w. \<exists>t. target i w = Some t \<and> Suc (length P) \<le> t}"
  by (auto simp: opn_def nth_append split: if_splits)

lemma target_set: "target (set_target i w t) w' = Some t' \<Longrightarrow> t' = t \<or> (target i w' = Some t' \<and> w' \<noteq> w)"
  by (cases i) (auto split: if_splits)

lemma opn_set_target:
  assumes "t < length P"
  shows "opn (P[i := set_target (P ! i) w t]) \<subseteq> opn P - {(i, w)}"
proof
  fix x assume "x \<in> opn (P[i := set_target (P ! i) w t])"
  then obtain j v u where x: "x = (j, v)" "j < length P" "target (P[i := set_target (P ! i) w t] ! j) v = Some u" "length P \<le> u"
    by (auto simp: opn_def)
  then have "target (P ! j) v = Some u \<and> (j, v) \<noteq> (i, w)"
    using target_set [of "P ! i" w t v u] assms by (cases "j = i") auto
  then show "x \<in> opn P - {(i, w)}" using x by (auto simp: opn_def)
qed

lemma opn_patch: "t < length P \<Longrightarrow> opn (patch_insts holes t P) \<subseteq> opn P - set holes"
proof (induction holes t P rule: patch_insts.induct)
  case (2 i w holes t P)
  then show ?case using opn_set_target [of t P i w] by auto
qed simp

section \<open>Fragments\<close>

abbreviation size_of :: "builder \<Rightarrow> nat" where
  "size_of b \<equiv> length (b_insts b)"

text \<open>Besides the targets of \<open>A\<close>, only the holes of the fragment are open.\<close>

definition sealed :: "(nat \<times> nat) set \<Rightarrow> builder \<Rightarrow> frag \<Rightarrow> bool" where
  "sealed A b f \<longleftrightarrow> f_start f < size_of b \<and> opn (b_insts b) \<subseteq> A \<union> set (f_holes f)"

definition seals :: "frag build \<Rightarrow> bool" where
  "seals c \<longleftrightarrow> (\<forall>b f b'. c b = Inr (f, b') \<longrightarrow> size_of b \<le> size_of b' \<and> sealed (opn (b_insts b)) b' f)"

lemma sealsD:
  assumes "seals c" and "c b = Inr (f, b')" and "opn (b_insts b) \<subseteq> A"
  shows "size_of b \<le> size_of b'" "f_start f < size_of b'" "opn (b_insts b') \<subseteq> A \<union> set (f_holes f)"
proof -
  have "size_of b \<le> size_of b' \<and> sealed (opn (b_insts b)) b' f" using assms(1,2) by (simp add: seals_def)
  then show "size_of b \<le> size_of b'" "f_start f < size_of b'" "opn (b_insts b') \<subseteq> A \<union> set (f_holes f)"
    using assms(3) by (auto simp: sealed_def)
qed

lemma size_patch [simp]: "size_of (patch holes t b) = size_of b"
  by (simp add: patch_def)

lemma patch_open: "t < size_of b \<Longrightarrow> opn (b_insts b) \<subseteq> A \<union> set holes \<Longrightarrow> opn (b_insts (patch holes t b)) \<subseteq> A"
  using opn_patch [of t "b_insts b" holes] by (auto simp: patch_def)

lemma push_open:
  assumes "push i b = Inr (n, b')" and "opn (b_insts b) \<subseteq> A"
    and "\<And>w t. target i w = Some t \<Longrightarrow> t \<le> size_of b \<or> (size_of b, w) \<in> A'"
  shows "n = size_of b" "size_of b' = Suc (size_of b)" "opn (b_insts b') \<subseteq> A \<union> A'"
  using assms opn_push [of "b_insts b" i] by (fastforce simp: push_def too_large_def split: if_splits)+

lemma seals_emit: "(\<And>w t. target i w = Some t \<Longrightarrow> w = 0) \<Longrightarrow> seals (emit i)"
  unfolding seals_def sealed_def
proof (intro allI impI)
  fix b f b'
  assume one: "\<And>w t. target i w = Some t \<Longrightarrow> w = 0" and "emit i b = Inr (f, b')"
  then have p: "push i b = Inr (f_start f, b')" "f_holes f = [(f_start f, 0)]"
    by (auto simp: emit_def frag_at_def andthen_def split: sum.splits)
  from push_open [OF p(1) order_refl, of "{(size_of b, 0)}"] one
  show "size_of b \<le> size_of b' \<and> f_start f < size_of b' \<and> opn (b_insts b') \<subseteq> opn (b_insts b) \<union> set (f_holes f)"
    by (auto simp: p(2))
qed

lemma push_split:
  assumes "push (I_Split HOLE HOLE) b = Inr (s, b')" and "opn (b_insts b) \<subseteq> A"
  shows "s = size_of b" "size_of b' = Suc (size_of b)" "opn (b_insts b') \<subseteq> A \<union> {(s, 0), (s, 1)}"
  using push_open [OF assms, of "{(size_of b, 0), (size_of b, 1)}"] by (auto split: if_splits)

lemma chain_open:
  "chain start holes fs b = (f, b') \<Longrightarrow> opn (b_insts b) \<subseteq> A \<union> set holes \<union> (\<Union>f \<in> set fs. set (f_holes f)) \<Longrightarrow>
   start < size_of b \<Longrightarrow> \<forall>f \<in> set fs. f_start f < size_of b \<Longrightarrow> size_of b' = size_of b \<and> sealed A b' f"
proof (induction start holes fs b rule: chain.induct)
  case (2 start holes f fs b)
  have "opn (b_insts (patch holes (f_start f) b)) \<subseteq> A \<union> set (f_holes f) \<union> (\<Union>f \<in> set fs. set (f_holes f))"
    by (rule patch_open) (use 2 in auto)
  then show ?case using 2 by simp
qed (auto simp: sealed_def)

lemma concat_open:
  assumes "concat_frags fs b = Inr (f, b')" and "opn (b_insts b) \<subseteq> A \<union> (\<Union>f \<in> set fs. set (f_holes f))"
    and "\<forall>f \<in> set fs. f_start f < size_of b"
  shows "size_of b \<le> size_of b' \<and> sealed A b' f"
proof (cases fs)
  case Nil
  then have "emit (I_Jmp HOLE) b = Inr (f, b')" using assms(1) by (simp add: empty_frag_def)
  then show ?thesis using sealsD [OF seals_emit [of "I_Jmp HOLE"], of b f b' A] assms(2) Nil by (auto simp: sealed_def split: if_splits)
next
  case (Cons g gs)
  then have c: "chain (f_start g) (f_holes g) gs b = (f, b')" using assms(1) by simp
  have "opn (b_insts b) \<subseteq> A \<union> set (f_holes g) \<union> (\<Union>f \<in> set gs. set (f_holes f))"
    "f_start g < size_of b" "\<forall>f \<in> set gs. f_start f < size_of b"
    using assms(2,3) Cons by (simp_all add: Un_assoc)
  from chain_open [OF c this] show ?thesis by simp
qed

lemma comp_each_open:
  "list_all seals cs \<Longrightarrow> comp_each cs b = Inr (fs, b') \<Longrightarrow> opn (b_insts b) \<subseteq> A \<Longrightarrow>
   size_of b \<le> size_of b' \<and> opn (b_insts b') \<subseteq> A \<union> (\<Union>f \<in> set fs. set (f_holes f)) \<and> (\<forall>f \<in> set fs. f_start f < size_of b')"
proof (induction cs arbitrary: b fs A)
  case (Cons c cs)
  from Cons.prems(2) obtain f b1 gs where c: "c b = Inr (f, b1)" and r: "comp_each cs b1 = Inr (gs, b')"
    and fs: "fs = f # gs" by auto
  have s: "seals c" "list_all seals cs" using Cons.prems(1) by simp_all
  note f = sealsD [OF s(1) c Cons.prems(3)]
  from Cons.IH [OF s(2) r f(3)] f(1,2) show ?case by (auto simp: fs)
qed simp

lemma seals_concat:
  assumes "list_all seals cs" and "andthen (comp_each cs b) (\<lambda>(fs, b). concat_frags fs b) = Inr (f, b')"
  shows "size_of b \<le> size_of b' \<and> sealed (opn (b_insts b)) b' f"
proof -
  from assms(2) obtain fs b1 where e: "comp_each cs b = Inr (fs, b1)" and c: "concat_frags fs b1 = Inr (f, b')" by auto
  note o = comp_each_open [OF assms(1) e order_refl]
  show ?thesis using concat_open [OF c, of "opn (b_insts b)"] o by auto
qed

lemma seals_loop:
  assumes "seals c"
  shows "seals (comp_loop greedy c)"
  unfolding seals_def
proof (intro allI impI)
  fix b f b'
  assume "comp_loop greedy c b = Inr (f, b')"
  then obtain s b1 g b2 where s: "push (I_Split HOLE HOLE) b = Inr (s, b1)" and g: "c b1 = Inr (g, b2)"
    and b': "b' = patch (f_holes g) s (patch [(s, body_side greedy)] (f_start g) b2)"
    and f: "f = \<lparr>f_start = s, f_holes = [(s, exit_side greedy)]\<rparr>"
    by (auto simp: comp_loop_def Let_def)
  note p = push_split [OF s order_refl]
  note o = sealsD [OF assms g p(3)]
  have "opn (b_insts b') \<subseteq> opn (b_insts b) \<union> {(s, exit_side greedy)}"
    unfolding b'
    by (rule patch_open, use o p in simp, rule patch_open)
      (use o in \<open>auto simp: body_side_def exit_side_def\<close>)
  then show "size_of b \<le> size_of b' \<and> sealed (opn (b_insts b)) b' f" using o p by (simp add: f b' sealed_def)
qed

text \<open>The optional iterations: so far, the exits and the last body's holes are open.\<close>

lemma opts_sealed:
  assumes c: "seals c"
  shows "comp_opts n greedy c exits start prev b = Inr (f, b') \<Longrightarrow>
    opn (b_insts b) \<subseteq> A \<union> set exits \<union> (case prev of None \<Rightarrow> {} | Some h \<Rightarrow> set h) \<Longrightarrow>
    (prev = None \<longrightarrow> n \<noteq> 0) \<Longrightarrow> (prev \<noteq> None \<longrightarrow> start < size_of b) \<Longrightarrow>
    size_of b \<le> size_of b' \<and> sealed A b' f"
proof (induction n arbitrary: exits start prev b)
  case 0
  then show ?case by (auto simp: sealed_def split: option.splits)
next
  case (Suc n)
  from Suc.prems(1) obtain s b1 g b2 where s: "push (I_Split HOLE HOLE) b = Inr (s, b1)" and g: "c b1 = Inr (g, b2)"
    and r: "(let b = patch [(s, body_side greedy)] (f_start g) b2;
         (start, b) = (case prev of None \<Rightarrow> (s, b) | Some h \<Rightarrow> (start, patch h s b))
     in comp_opts n greedy c (exits @ [(s, exit_side greedy)]) start (Some (f_holes g)) b) = Inr (f, b')"
    by auto
  note p = push_split [OF s Suc.prems(2)]
  note o = sealsD [OF c g p(3)]
  let ?H = "case prev of None \<Rightarrow> {} | Some h \<Rightarrow> set h" and ?b3 = "patch [(s, body_side greedy)] (f_start g) b2"
  let ?A = "A \<union> set (exits @ [(s, exit_side greedy)]) \<union> set (f_holes g)"
  have b3: "opn (b_insts ?b3) \<subseteq> ?A \<union> ?H"
    by (rule patch_open) (use o in \<open>auto simp: body_side_def exit_side_def\<close>)
  show ?case
  proof (cases prev)
    case None
    then have "comp_opts n greedy c (exits @ [(s, exit_side greedy)]) s (Some (f_holes g)) ?b3 = Inr (f, b')"
      using r by (simp add: Let_def)
    from Suc.IH [OF this] show ?thesis using None b3 o p by simp
  next
    case (Some h)
    then have "comp_opts n greedy c (exits @ [(s, exit_side greedy)]) start (Some (f_holes g)) (patch h s ?b3) = Inr (f, b')"
      using r by (simp add: Let_def)
    moreover have "opn (b_insts (patch h s ?b3)) \<subseteq> ?A" by (rule patch_open) (use Some b3 o p in simp_all)
    ultimately show ?thesis using Suc.IH [of "exits @ [(s, exit_side greedy)]" start "Some (f_holes g)" "patch h s ?b3"] Some o p Suc.prems(4)
      by simp
  qed
qed

lemma seals_repeat:
  assumes "seals c"
  shows "seals (comp_repeat mn mx greedy simple c)"
  unfolding seals_def comp_repeat_seq
proof (intro allI impI)
  fix b :: builder and f b'
  let ?cs = "(if simple \<and> guards b then [emit (I_Guard HOLE)] else []) @ replicate mn c @
    (case mx of None \<Rightarrow> [comp_loop greedy c]
     | Some m \<Rightarrow> if m - mn > 0 then [comp_opts (m - mn) greedy c [] HOLE None] else [])"
  assume e: "andthen (comp_each ?cs b) (\<lambda>(fs, b). concat_frags fs b) = Inr (f, b')"
  have opts: "seals (comp_opts n greedy c [] HOLE None)" if "n > 0" for n
    unfolding seals_def
  proof (intro allI impI)
    fix b f b' assume "comp_opts n greedy c [] HOLE None b = Inr (f, b')"
    from opts_sealed [OF assms this, of "opn (b_insts b)"] that show "size_of b \<le> size_of b' \<and> sealed (opn (b_insts b)) b' f" by simp
  qed
  have "list_all seals ?cs"
    using assms by (auto simp: seals_loop opts list_all_iff split: option.splits if_splits intro: seals_emit)
  from seals_concat [OF this e] show "size_of b \<le> size_of b' \<and> sealed (opn (b_insts b)) b' f" .
qed

text \<open>The alternatives: so far, the branches' holes and the second side of the last split are open.\<close>

lemma alts_sealed:
  "list_all seals cs \<Longrightarrow> comp_alts cs holes start lst b = Inr (f, b') \<Longrightarrow> cs \<noteq> [] \<Longrightarrow>
   opn (b_insts b) \<subseteq> A \<union> set holes \<union> (case lst of None \<Rightarrow> {} | Some l \<Rightarrow> {(l, 1)}) \<Longrightarrow>
   (lst \<noteq> None \<longrightarrow> start < size_of b) \<Longrightarrow> size_of b \<le> size_of b' \<and> sealed A b' f"
proof (induction cs arbitrary: b holes start lst)
  case (Cons c cs)
  then have k: "seals c" "list_all seals cs" by auto
  let ?L = "case lst of None \<Rightarrow> {} | Some l \<Rightarrow> {(l, 1 :: nat)}"
  show ?case
  proof (cases "cs = []")
    case True
    with Cons.prems(2) obtain g b1 where c: "c b = Inr (g, b1)"
      and r: "(lst = None \<and> b' = b1 \<and> f_start f = f_start g) \<or> (\<exists>l. lst = Some l \<and> b' = patch [(l, 1)] (f_start g) b1 \<and> f_start f = start)"
      and f: "f_holes f = holes @ f_holes g"
      by (cases lst) (auto simp: Let_def)
    note o = sealsD [OF k(1) c Cons.prems(4)]
    show ?thesis
    proof (cases lst)
      case None
      then show ?thesis using r o f by (auto simp: sealed_def)
    next
      case (Some l)
      have "opn (b_insts (patch [(l, 1)] (f_start g) b1)) \<subseteq> A \<union> set (f_holes f)"
        by (rule patch_open) (use o Some f in auto)
      then show ?thesis using r o Some Cons.prems(5) by (auto simp: sealed_def)
    qed
  next
    case False
    with Cons.prems(2) obtain s b1 g b2 where s: "push (I_Split HOLE HOLE) b = Inr (s, b1)" and c: "c b1 = Inr (g, b2)"
      and r: "(case lst of
          None \<Rightarrow> comp_alts cs (holes @ f_holes g) s (Some s) (patch [(s, 0)] (f_start g) b2)
        | Some l \<Rightarrow> comp_alts cs (holes @ f_holes g) start (Some s) (patch [(l, 1)] s (patch [(s, 0)] (f_start g) b2))) =
        Inr (f, b')"
      by (cases lst) (auto simp: Let_def)
    note p = push_split [OF s Cons.prems(4)]
    note o = sealsD [OF k(1) c p(3)]
    let ?b3 = "patch [(s, 0)] (f_start g) b2" and ?A = "A \<union> set (holes @ f_holes g) \<union> (case Some s of None \<Rightarrow> {} | Some l \<Rightarrow> {(l, 1)})"
    have b3: "opn (b_insts ?b3) \<subseteq> ?A \<union> ?L" by (rule patch_open) (use o in auto)
    show ?thesis
    proof (cases lst)
      case None
      then show ?thesis using r Cons.IH [OF k(2), of "holes @ f_holes g" s "Some s" ?b3] False b3 o p by auto
    next
      case (Some l)
      have "opn (b_insts (patch [(l, 1)] s ?b3)) \<subseteq> ?A" by (rule patch_open) (use Some b3 o p in auto)
      then show ?thesis
        using r Cons.IH [OF k(2), of "holes @ f_holes g" start "Some s" "patch [(l, 1)] s ?b3"] False o p Some Cons.prems(5) by auto
    qed
  qed
qed simp

lemma seals_hir: "seals (comp_hir h)"
proof (induction h)
  case (H_Look l)
  have "seals (emit (I_Look k HOLE))" for k by (rule seals_emit) (auto split: if_splits)
  then show ?case unfolding seals_def comp_hir.simps by blast
next
  case (H_Group g h)
  show ?case unfolding seals_def
  proof (intro allI impI)
    fix b f b'
    assume r: "comp_hir (H_Group g h) b = Inr (f, b')"
    show "size_of b \<le> size_of b' \<and> sealed (opn (b_insts b)) b' f"
    proof (cases "saves b")
      case False
      with r have "comp_hir h b = Inr (f, b')" by simp
      then show ?thesis using H_Group unfolding seals_def by blast
    next
      case True
      with r obtain a b1 e b2 z b3 where *: "push (I_Save (2 * (g - 1)) HOLE) b = Inr (a, b1)" "comp_hir h b1 = Inr (e, b2)"
        "push (I_Save (2 * (g - 1) + 1) HOLE) (patch [(a, 0)] (f_start e) b2) = Inr (z, b3)" "b' = patch (f_holes e) z b3"
        "f = \<lparr>f_start = a, f_holes = [(z, 0)]\<rparr>"
        by (auto simp: Let_def)
      have p: "a = size_of b" "size_of b1 = Suc (size_of b)" "opn (b_insts b1) \<subseteq> opn (b_insts b) \<union> {(size_of b, 0)}"
        using push_open [OF *(1) order_refl, of "{(size_of b, 0)}"] by (auto split: if_splits)
      note o = sealsD [OF H_Group *(2) p(3)]
      have b3: "opn (b_insts (patch [(a, 0)] (f_start e) b2)) \<subseteq> opn (b_insts b) \<union> set (f_holes e)"
        by (rule patch_open) (use o p in auto)
      have q: "z = size_of b2" "size_of b3 = Suc (size_of b2)" "opn (b_insts b3) \<subseteq> opn (b_insts b) \<union> set (f_holes e) \<union> {(z, 0)}"
        using push_open [OF *(3) b3, of "{(size_of b2, 0)}"] by (auto split: if_splits)
      have "opn (b_insts b') \<subseteq> opn (b_insts b) \<union> {(z, 0)}" unfolding *(4) by (rule patch_open) (use q in auto)
      then show ?thesis using o p q by (simp add: *(4,5) sealed_def)
    qed
  qed
next
  case (H_Concat v)
  have "list_all seals (if r then rev (map comp_hir v) else map comp_hir v)" for r
    using H_Concat by (auto simp: list_all_iff)
  from seals_concat [OF this] show ?case by (simp add: seals_def)
next
  case (H_Alt v)
  then have k: "list_all seals (map comp_hir v)" by (auto simp: list_all_iff)
  have "seals empty_frag" unfolding empty_frag_def by (rule seals_emit) (auto split: if_splits)
  moreover have "size_of b \<le> size_of b' \<and> sealed (opn (b_insts b)) b' f"
    if "comp_alts (map comp_hir v) [] HOLE None b = Inr (f, b')" "v \<noteq> []" for b f b'
    using alts_sealed [OF k that(1), of "opn (b_insts b)"] that(2) by simp
  ultimately show ?case by (simp add: seals_def)
next
  case (H_Repeat mn mx greedy simple h)
  have "seals (emit (I_Run si mn m greedy HOLE))" for si m by (rule seals_emit) (auto split: if_splits)
  then have "comp_hir (H_Repeat mn mx greedy simple h) b = comp_repeat mn mx greedy simple (comp_hir h) b \<or>
      (\<exists>c. comp_hir (H_Repeat mn mx greedy simple h) b = c b \<and> seals c)" for b
    by (cases "runs b"; cases h) auto
  then show ?case using seals_repeat [OF H_Repeat, of mn mx greedy simple] unfolding seals_def by metis
qed (auto simp: empty_frag_def split: if_splits intro!: seals_emit)

section \<open>Programs\<close>

fun tail_ok :: "inst list \<Rightarrow> bool" where
  "tail_ok [] \<longleftrightarrow> False"
| "tail_ok (t # ts) \<longleftrightarrow> (if ts = [] then t = I_Match else (\<exists>l. t = I_Look l HOLE) \<and> tail_ok ts)"

lemma push_tail_open:
  "push_tail tail holes b = Inr b' \<Longrightarrow> tail_ok tail \<Longrightarrow> opn (b_insts b) \<subseteq> set holes \<Longrightarrow>
   size_of b \<le> size_of b' \<and> opn (b_insts b') = {}"
proof (induction tail holes b rule: push_tail.induct)
  case (2 t ts holes b)
  from 2(2) obtain i b1 where p: "push t b = Inr (i, b1)" and
    r: "push_tail ts (if t = I_Match then [] else [(i, 0)]) (patch holes i b1) = Inr b'" by auto
  let ?holes = "if t = I_Match then [] else [(i, 0)]"
  have q: "i = size_of b" "size_of b1 = Suc (size_of b)" "opn (b_insts b1) \<subseteq> set holes \<union> set ?holes"
    using push_open [OF p 2(4), of "set ?holes"] p 2(3)
    by (auto simp: push_def too_large_def split: if_splits)
  have o: "opn (b_insts (patch holes i b1)) \<subseteq> set ?holes" by (rule patch_open) (use q in auto)
  show ?case
  proof (cases "ts = []")
    case True
    then show ?thesis using r o q 2(3) by (auto split: if_splits)
  next
    case False
    then show ?thesis using 2(1) [OF p refl r] 2(3) o q by (auto split: if_splits)
  qed
qed simp

lemma opn_targets: "opn P = {} \<Longrightarrow> targets_ok P"
  unfolding targets_ok_def list_all_iff [of _ P]
proof (intro ballI conjI)
  fix x assume o: "opn P = {}" and "x \<in> set P"
  then obtain i where i: "i < length P" and x: "x = P ! i" by (auto simp: in_set_conv_nth)
  from o i have t: "target (P ! i) w = Some t \<Longrightarrow> t < length P" for w t
    unfolding opn_def by (metis (mono_tags, lifting) case_prodI empty_iff mem_Collect_eq not_le)
  show "list_all (\<lambda>t. t < length P) (free_steps x)" using t [of 0] t [of 1] unfolding x by (cases "P ! i") auto
  show "case x of I_Char si n \<Rightarrow> n < length P | _ \<Rightarrow> True" using t [of 0] unfolding x by (cases "P ! i") auto
qed

lemma build_with_open:
  assumes "build_with h sv rv gd rn ids head tail = Inr p" and tail: "tail_ok tail"
  shows "p_start p < length (insts p) \<and> opn (insts p) = {}"
proof -
  let ?b0 = "\<lparr>b_insts = [], saves = sv, reverse = rv, guards = gd, runs = rn, look_ids = ids\<rparr>"
  from assms(1) obtain f b1 f' b2 b3 where c: "comp_hir h ?b0 = Inr (f, b1)"
    and hd: "(case head of None \<Rightarrow> Inr (f, b1)
         | Some slot \<Rightarrow> andthen (push (I_Save slot (f_start f)) b1) (\<lambda>(s, b).
                          Inr (\<lparr>f_start = s, f_holes = f_holes f\<rparr>, b))) = Inr (f', b2)"
    and t: "push_tail tail (f_holes f') b2 = Inr b3" and p: "insts p = b_insts b3" "p_start p = f_start f'"
    by (auto simp: build_with_def finish_def)
  have "opn (b_insts ?b0) \<subseteq> {}" by simp
  note o = sealsD [OF seals_hir c this]
  have o2: "f_start f' < size_of b2 \<and> opn (b_insts b2) \<subseteq> set (f_holes f')"
  proof (cases head)
    case None
    then show ?thesis using hd o by simp
  next
    case (Some slot)
    with hd obtain s where s: "push (I_Save slot (f_start f)) b1 = Inr (s, b2)" "f_start f' = s" "f_holes f' = f_holes f" by auto
    show ?thesis using push_open [OF s(1) o(3), of "{}"] o(2) s(2,3) by (auto split: if_splits)
  qed
  then show ?thesis using push_tail_open [OF t tail] p by auto
qed

lemma build_targets:
  assumes "build h sv rv gd ids head tail = Inr p" and "tail_ok tail"
  shows "targets_ok (insts p)"
  using build_with_open [of h sv rv gd False ids head tail p] assms opn_targets by (simp add: build_def)

end
