(* ===== verification/Look_Sem.thy ===== *)
theory Look_Sem
  imports Walks Bounds Targets
begin

text \<open>
  What the zero-width tests of a pattern mean (\<open>look_true\<close>, \<open>look_holds\<close>), and that the tests
  of \<^verbatim>\<open>linre/looks.rs\<close> on the compiled pattern decide it.
\<close>

section \<open>What the tests mean\<close>

text \<open>The setting in which a lookaround's sub-pattern is tried: no groups, single-character repeats guarded.\<close>

definition look_env :: "u32 list \<Rightarrow> nat \<Rightarrow> charset list \<Rightarrow> (nat \<Rightarrow> nat \<Rightarrow> bool) \<Rightarrow> env" where
  "look_env text e ss lk =
     \<lparr>e_text = text, e_end = e, e_sets = ss, e_slots = 2, e_saves = False, e_guards = True, e_look = lk\<rparr>"

definition newline_at :: "u32 list \<Rightarrow> nat \<Rightarrow> bool" where
  "newline_at text p \<longleftrightarrow> p < length text \<and> text ! p = 0x0A"

definition word_at :: "unidata \<Rightarrow> bool \<Rightarrow> u32 list \<Rightarrow> nat \<Rightarrow> bool" where
  "word_at u ascii text p \<longleftrightarrow> p < length text \<and> word_char u ascii (text ! p)"

definition in_set_at :: "charset list \<Rightarrow> nat \<Rightarrow> u32 list \<Rightarrow> nat \<Rightarrow> bool" where
  "in_set_at ss si text p \<longleftrightarrow> p < length text \<and> contains (ss ! si) (text ! p)"

text \<open>
  Each test at a position, given the tests before it (\<open>lk\<close>): anchors, word boundaries (never in an empty
  window), one character before or after, and lookarounds: some way of the sub-pattern from the position
  (or from its width before, ending at the position).
\<close>

fun look_true :: "unidata \<Rightarrow> charset list \<Rightarrow> u32 list \<Rightarrow> nat \<Rightarrow> (nat \<Rightarrow> nat \<Rightarrow> bool) \<Rightarrow> look \<Rightarrow> nat \<Rightarrow> bool" where
  "look_true u ss text e lk L_Begin p \<longleftrightarrow> p = 0"
| "look_true u ss text e lk L_BeginLine p \<longleftrightarrow> p = 0 \<or> newline_at text (p - 1)"
| "look_true u ss text e lk L_End p \<longleftrightarrow> p = e \<or> p + 1 = e \<and> newline_at text p"
| "look_true u ss text e lk L_EndLine p \<longleftrightarrow> p = e \<or> newline_at text p"
| "look_true u ss text e lk L_EndString p \<longleftrightarrow> p = e"
| "look_true u ss text e lk (L_Word ascii negate) p \<longleftrightarrow>
     e \<noteq> 0 \<and> ((p > 0 \<and> word_at u ascii text (p - 1)) \<noteq> (p < e \<and> word_at u ascii text p)) \<noteq> negate"
| "look_true u ss text e lk (L_Behind1 si negate) p \<longleftrightarrow> (0 < p \<and> p - 1 < e \<and> in_set_at ss si text (p - 1)) \<noteq> negate"
| "look_true u ss text e lk (L_Ahead1 si negate) p \<longleftrightarrow> (p < e \<and> in_set_at ss si text p) \<noteq> negate"
| "look_true u ss text e lk (L_Around behind negate body lo hi) p \<longleftrightarrow>
     (if behind then lo \<le> p \<and> (\<exists>x \<in> set (hir_all (look_env text e ss lk) body (p - lo) []). fst x = p)
      else hir_all (look_env text e ss lk) body p [] \<noteq> []) \<noteq> negate"

text \<open>The first \<open>n\<close> tests of a pattern: the sub-pattern of each uses those before it.\<close>

fun looks_upto :: "unidata \<Rightarrow> charset list \<Rightarrow> u32 list \<Rightarrow> nat \<Rightarrow> look list \<Rightarrow> nat \<Rightarrow> nat \<Rightarrow> nat \<Rightarrow> bool" where
  "looks_upto u ss text e ls 0 = (\<lambda>l p. False)"
| "looks_upto u ss text e ls (Suc n) =
     (\<lambda>l p. if l = n then look_true u ss text e (looks_upto u ss text e ls n) (ls ! n) p
            else looks_upto u ss text e ls n l p)"

definition look_holds :: "unidata \<Rightarrow> charset list \<Rightarrow> u32 list \<Rightarrow> nat \<Rightarrow> look list \<Rightarrow> nat \<Rightarrow> nat \<Rightarrow> bool" where
  "look_holds u ss text e ls l p =
     (if l < length ls then look_true u ss text e (looks_upto u ss text e ls l) (ls ! l) p else p = e)"

lemma looks_upto_less: "l < n \<Longrightarrow> looks_upto u ss text e ls n l p = look_true u ss text e (looks_upto u ss text e ls l) (ls ! l) p"
  by (induction n) (auto simp: less_Suc_eq)

lemma looks_upto_holds: "l < n \<Longrightarrow> n \<le> length ls \<Longrightarrow> looks_upto u ss text e ls n l p = look_holds u ss text e ls l p"
  by (simp add: looks_upto_less look_holds_def)

text \<open>The ways of a pattern depend only on the tests it names.\<close>

lemma look_irrelevant [simp]:
  "hits (E\<lparr>e_look := lk\<rparr>) si p = hits E si p"
  "rep_all (E\<lparr>e_look := lk\<rparr>) mn mx greedy simple A = rep_all E mn mx greedy simple A"
  by (simp add: hits_def split: option.split, intro ext, cases mx, simp_all add: rep_all_def)

lemma hir_all_cong:
  assumes "\<And>l p. l < n \<Longrightarrow> lk l p = lk' l p"
  shows "hir_ok n h \<Longrightarrow> hir_all (E\<lparr>e_look := lk\<rparr>) h = hir_all (E\<lparr>e_look := lk'\<rparr>) h"
proof (induction h)
  case (H_Concat v)
  then have "map (hir_all (E\<lparr>e_look := lk\<rparr>)) v = map (hir_all (E\<lparr>e_look := lk'\<rparr>)) v" by (auto simp: list_all_iff)
  then show ?case by (simp only: hir_all.simps)
next
  case (H_Alt v)
  then have "map (hir_all (E\<lparr>e_look := lk\<rparr>)) v = map (hir_all (E\<lparr>e_look := lk'\<rparr>)) v" by (auto simp: list_all_iff)
  then show ?case by (simp only: hir_all.simps)
next
  case (H_Group g h)
  then have "hir_all (E\<lparr>e_look := lk\<rparr>) h = hir_all (E\<lparr>e_look := lk'\<rparr>) h" by simp
  then show ?case by (intro ext) simp
qed (simp_all add: assms)


text \<open>The greatest number of characters a pattern can read, if bounded.\<close>

fun add_opt :: "nat option \<Rightarrow> nat option \<Rightarrow> nat option" where
  "add_opt (Some a) (Some b) = Some (a + b)"
| "add_opt _ _ = None"

fun max_opt :: "nat option \<Rightarrow> nat option \<Rightarrow> nat option" where
  "max_opt (Some a) (Some b) = Some (max a b)"
| "max_opt _ _ = None"

primrec most :: "hir \<Rightarrow> nat option" where
  "most H_Empty = Some 0"
| "most (H_Char s) = Some 1"
| "most (H_Look l) = Some 0"
| "most (H_Group g b) = most b"
| "most (H_Concat v) = foldr add_opt (map most v) (Some 0)"
| "most (H_Alt v) = foldr max_opt (map most v) (Some 0)"
| "most (H_Repeat mn mx greedy simple b) =
     (case mx of
        None \<Rightarrow> None
      | Some m \<Rightarrow> (if max m mn = 0 then Some 0 else map_option (\<lambda>k. max m mn * k) (most b)))"

definition upto :: "nat option \<Rightarrow> ways \<Rightarrow> bool" where
  "upto k A \<longleftrightarrow> (\<forall>pos sl p s. (p, s) \<in> set (A pos sl) \<longrightarrow> (\<forall>n. k = Some n \<longrightarrow> p \<le> pos + n))"

lemma upto_stay: "upto (Some k) stay"
  by (auto simp: upto_def stay_def)

lemma upto_then: "upto a A \<Longrightarrow> upto b B \<Longrightarrow> upto (add_opt a b) (then_all A B)"
  unfolding upto_def then_all_def by (cases a; cases b) (fastforce simp: add.assoc [symmetric])+

lemma upto_mono: "upto (Some a) A \<Longrightarrow> a \<le> b \<Longrightarrow> upto (Some b) A"
  unfolding upto_def by fastforce

lemma upto_seq: "list_all2 upto ks As \<Longrightarrow> upto (foldr add_opt ks (Some 0)) (seq_all As)"
  by (induction rule: list_all2_induct) (simp_all add: seq_all_Nil seq_all_Cons upto_stay upto_then del: seq_all.simps)

lemma upto_alt: "list_all2 upto ks As \<Longrightarrow> upto (foldr max_opt ks (Some 0)) (alt_all As)"
proof (induction rule: list_all2_induct)
  case Nil
  then show ?case by (simp add: upto_def alt_all_def)
next
  case (Cons k ks A As)
  show ?case unfolding upto_def
  proof (intro allI impI)
    fix pos sl p s n
    assume x: "(p, s) \<in> set (alt_all (A # As) pos sl)" and n: "foldr max_opt (k # ks) (Some 0) = Some n"
    then obtain a b where ab: "k = Some a" "foldr max_opt ks (Some 0) = Some b" "n = max a b"
      by (cases k; cases "foldr max_opt ks (Some 0)") auto
    from x have "(p, s) \<in> set (A pos sl) \<or> (p, s) \<in> set (alt_all As pos sl)" by (simp add: alt_all_def)
    then have "p \<le> pos + a \<or> p \<le> pos + b" using Cons.hyps(1) Cons.IH ab by (fastforce simp: upto_def)
    then show "p \<le> pos + n" using ab(3) by auto
  qed
qed

lemma upto_opts: "upto (Some k) A \<Longrightarrow> upto (Some (n * k)) (opts_all n greedy A)"
proof (induction n)
  case (Suc n)
  have t: "upto (Some (k + n * k)) (then_all A (opts_all n greedy A))"
    using upto_then [OF Suc.prems Suc.IH [OF Suc.prems]] by simp
  show ?case unfolding upto_def
  proof (intro allI impI)
    fix pos sl p s m
    assume "(p, s) \<in> set (opts_all (Suc n) greedy A pos sl)" "Some (Suc n * k) = Some m"
    then show "p \<le> pos + m" using t
      unfolding opts_all_Suc opt_def by (auto simp: in_order_def stay_def upto_def split: if_splits)
  qed
qed (simp add: opts_all_0 upto_stay)

lemma upto_replicate: "upto (Some k) A \<Longrightarrow> upto (Some (n * k)) (seq_all (replicate n A))"
proof (induction n)
  case (Suc n)
  then show ?case using upto_then [of "Some k" A "Some (n * k)"] by (simp add: seq_all_Cons del: seq_all.simps)
qed (simp add: seq_all_Nil upto_stay)

lemma seq_all_append: "seq_all (As @ [B]) = then_all (seq_all As) B"
proof (induction As)
  case Nil
  show ?case by (rule ext)+ (simp add: then_all_def)
next
  case (Cons A As)
  have "then_all A (then_all (seq_all As) B) = then_all (then_all A (seq_all As)) B"
    by (rule ext)+ (simp add: then_all_def concat_map_concat comp_def)
  with Cons show ?case by (simp only: append_Cons seq_all_Cons)
qed

lemma hir_all_most: "upto (most h) (hir_all E h)"
proof (induction h)
  case (H_Group g b)
  then show ?case by (fastforce simp: upto_def)
next
  case (H_Concat v)
  then show ?case by (auto intro!: upto_seq simp: list_all2_conv_all_nth)
next
  case (H_Alt v)
  then have "list_all2 upto (map most v) (map (hir_all E) v)" by (auto simp: list_all2_conv_all_nth)
  from upto_alt [OF this] show ?case using upto_stay [of 0] by (auto simp: stay_def [abs_def])
next
  case (H_Repeat mn mx greedy simple b)
  show ?case
  proof (cases mx)
    case None
    then show ?thesis by (simp add: upto_def)
  next
    case (Some m)
    consider (none) "max m mn = 0" | (more) "max m mn \<noteq> 0" "most b = None" | (some) k where "max m mn \<noteq> 0" "most b = Some k"
      by fastforce
    then show ?thesis
    proof cases
      case none
      then show ?thesis using Some by (auto simp: upto_def rep_all_def)
    next
      case more
      then show ?thesis using Some by (auto simp: upto_def)
    next
      case (some k)
      note k = some(2)
      let ?A = "hir_all E b"
      have A: "upto (Some k) ?A" using H_Repeat k by simp
      have "upto (Some (mn * k + (m - mn) * k)) (seq_all (replicate mn ?A @ [opts_all (m - mn) greedy ?A]))"
        unfolding seq_all_append using upto_then [OF upto_replicate [OF A, of mn] upto_opts [OF A, of "m - mn" greedy]] by simp
      moreover have "mn * k + (m - mn) * k = max m mn * k"
        by (cases "mn \<le> m") (auto simp: max_def add_mult_distrib [symmetric])
      ultimately show ?thesis using some(1) by (auto simp: Some k upto_def rep_all_def)
    qed
  qed
qed (auto simp: upto_def)

section \<open>Fixed sequences\<close>

fun flat_end :: "env \<Rightarrow> flat list \<Rightarrow> nat \<Rightarrow> nat option" where
  "flat_end E [] pos = Some pos"
| "flat_end E (F_Char si # s) pos = (if hits E si pos then flat_end E s (pos + 1) else None)"
| "flat_end E (F_Look l # s) pos = (if e_look E l pos then flat_end E s pos else None)"

definition flat_ends :: "env \<Rightarrow> flat list list \<Rightarrow> nat \<Rightarrow> nat set" where
  "flat_ends E F pos = {p. \<exists>s \<in> set F. flat_end E s pos = Some p}"

lemma flat_end_append: "flat_end E (a @ b) pos = Option.bind (flat_end E a pos) (flat_end E b)"
  by (induction E a pos rule: flat_end.induct) auto

lemma flat_ends_simps [simp]:
  "flat_ends E [] pos = {}" "flat_ends E [[]] pos = {pos}"
  "flat_ends E (F @ G) pos = flat_ends E F pos \<union> flat_ends E G pos"
  by (auto simp: flat_ends_def)

lemma flat_ends_product:
  "flat_product F G = Some H \<Longrightarrow> flat_ends E H pos = (\<Union>q \<in> flat_ends E F pos. flat_ends E G q)"
  by (auto simp: flat_product_def flat_ends_def Let_def flat_end_append bind_eq_Some_conv split: if_splits) blast+

lemma flat_end_bound: "flat_end E s pos = Some p \<Longrightarrow> pos \<le> e_end E \<Longrightarrow> p \<le> e_end E"
  by (induction E s pos rule: flat_end.induct) (auto simp: hits_def split: if_splits)

text \<open>The ends of the ways are the ends of the sequences (within the window).\<close>

definition flat_eq :: "env \<Rightarrow> ways \<Rightarrow> flat list list \<Rightarrow> bool" where
  "flat_eq E A F \<longleftrightarrow> (\<forall>pos sl. pos \<le> e_end E \<longrightarrow> fst ` set (A pos sl) = flat_ends E F pos)"

lemma flat_eqD: "flat_eq E A F \<Longrightarrow> pos \<le> e_end E \<Longrightarrow> fst ` set (A pos sl) = flat_ends E F pos"
  by (simp add: flat_eq_def)

lemma flat_ends_bound: "p \<in> flat_ends E F pos \<Longrightarrow> pos \<le> e_end E \<Longrightarrow> p \<le> e_end E"
  by (auto simp: flat_ends_def dest: flat_end_bound)

lemma flat_eq_then:
  assumes "flat_eq E A F" and "pos \<le> e_end E" and "\<And>q sl. q \<le> e_end E \<Longrightarrow> fst ` set (B q sl) = G q"
  shows "fst ` set (then_all A B pos sl) = (\<Union>q \<in> flat_ends E F pos. G q)"
proof -
  have "fst ` set (then_all A B pos sl) = (\<Union>x \<in> set (A pos sl). fst ` set (B (fst x) (snd x)))"
    by (simp add: then_all_def image_UN)
  also have "\<dots> = (\<Union>x \<in> set (A pos sl). G (fst x))"
  proof (intro SUP_cong refl assms(3))
    fix x assume "x \<in> set (A pos sl)"
    then have "fst x \<in> flat_ends E F pos" using flat_eqD [OF assms(1,2), of sl] by blast
    then show "fst x \<le> e_end E" by (rule flat_ends_bound) (rule assms(2))
  qed
  also have "\<dots> = (\<Union>q \<in> fst ` set (A pos sl). G q)" by simp
  finally show ?thesis by (simp only: flat_eqD [OF assms(1,2)])
qed

lemma flat_concat_eq:
  "list_all2 (\<lambda>f A. \<forall>F. f = Some F \<longrightarrow> flat_eq E A F) fs As \<Longrightarrow> flat_eq E B acc \<Longrightarrow>
   flat_concat fs acc = Some H \<Longrightarrow> flat_eq E (then_all B (seq_all As)) H"
proof (induction fs As arbitrary: acc B rule: list_all2_induct)
  case Nil
  then show ?case by (simp add: seq_all_Nil del: seq_all.simps)
next
  case (Cons f fs A As)
  then obtain F acc' where f: "f = Some F" and p: "flat_product acc F = Some acc'" and r: "flat_concat fs acc' = Some H"
    by (cases f) (auto split: option.splits)
  have "flat_eq E (then_all B A) acc'"
    unfolding flat_eq_def flat_ends_product [OF p]
    using flat_eq_then [OF Cons.prems(1)] Cons.hyps(1) f by (simp add: flat_eq_def)
  from Cons.IH [OF this r]
  have "flat_eq E (then_all (then_all B A) (seq_all As)) H" .
  moreover have "then_all (then_all B A) (seq_all As) = then_all B (seq_all (A # As))"
    by (rule ext)+ (simp add: then_all_def concat_map_concat comp_def)
  ultimately show ?case by (simp only:)
qed

lemma flat_alt_eq:
  "list_all2 (\<lambda>f A. \<forall>F. f = Some F \<longrightarrow> flat_eq E A F) fs As \<Longrightarrow> flat_alt fs acc = Some H \<Longrightarrow> pos \<le> e_end E \<Longrightarrow>
   flat_ends E acc pos \<union> fst ` set (alt_all As pos sl) = flat_ends E H pos"
proof (induction fs As arbitrary: acc rule: list_all2_induct)
  case Nil
  then show ?case by (simp add: alt_all_def)
next
  case (Cons f fs A As)
  then obtain F where f: "f = Some F" and r: "flat_alt fs (acc @ F) = Some H"
    by (cases f) (auto simp: Let_def split: if_splits)
  have "fst ` set (A pos sl) = flat_ends E F pos" using Cons.hyps(1) f Cons.prems(2) by (simp add: flat_eq_def)
  with Cons.IH [OF r Cons.prems(2)] show ?case by (auto simp: alt_all_def)
qed

text \<open>Repeats: the ends after each number of iterations, as powers of a relation.\<close>

definition step_rel :: "env \<Rightarrow> flat list list \<Rightarrow> (nat \<times> nat) set" where
  "step_rel E F = {(q, p). q \<le> e_end E \<and> p \<in> flat_ends E F q}"

lemma step_rel_pow_bound: "(q, p) \<in> step_rel E F ^^ k \<Longrightarrow> q \<le> e_end E \<Longrightarrow> p \<le> e_end E"
  by (induction k arbitrary: p) (auto simp: step_rel_def dest: flat_ends_bound)

lemma step_rel_first:
  "pos \<le> e_end E \<Longrightarrow> (pos, p) \<in> step_rel E F ^^ Suc j \<longleftrightarrow> (\<exists>q \<in> flat_ends E F pos. (q, p) \<in> step_rel E F ^^ j)"
  using relpow_Suc_D2 [of pos p j "step_rel E F"] relpow_Suc_I2 [of pos _ "step_rel E F" p j]
  by (fastforce simp: step_rel_def [where F = F] simp del: relpow.simps(2))

lemma opts_all_ends:
  assumes "flat_eq E A F"
  shows "pos \<le> e_end E \<Longrightarrow> fst ` set (opts_all n greedy A pos sl) = {p. \<exists>j \<le> n. (pos, p) \<in> step_rel E F ^^ j}"
proof (induction n arbitrary: pos sl)
  case (Suc n)
  have "fst ` set (then_all A (opts_all n greedy A) pos sl) =
      (\<Union>q \<in> flat_ends E F pos. {p. \<exists>j \<le> n. (q, p) \<in> step_rel E F ^^ j})"
    by (rule flat_eq_then [OF assms Suc.prems]) (rule Suc.IH)
  also have "\<dots> = {p. \<exists>j \<le> n. (pos, p) \<in> step_rel E F ^^ Suc j}"
    unfolding step_rel_first [OF Suc.prems] by auto
  finally have t: "fst ` set (then_all A (opts_all n greedy A) pos sl) = {p. \<exists>j \<le> n. (pos, p) \<in> step_rel E F ^^ Suc j}" .
  have "{p. \<exists>j \<le> Suc n. (pos, p) \<in> step_rel E F ^^ j} = insert pos {p. \<exists>j \<le> n. (pos, p) \<in> step_rel E F ^^ Suc j}"
  proof (intro equalityI subsetI)
    fix p assume "p \<in> {p. \<exists>j \<le> Suc n. (pos, p) \<in> step_rel E F ^^ j}"
    then obtain j where j: "j \<le> Suc n" "(pos, p) \<in> step_rel E F ^^ j" by auto
    then show "p \<in> insert pos {p. \<exists>j \<le> n. (pos, p) \<in> step_rel E F ^^ Suc j}"
      by (cases j) (auto simp del: relpow.simps(2))
  next
    fix p assume "p \<in> insert pos {p. \<exists>j \<le> n. (pos, p) \<in> step_rel E F ^^ Suc j}"
    then consider "p = pos" | j where "j \<le> n" "(pos, p) \<in> step_rel E F ^^ Suc j" by auto
    then show "p \<in> {p. \<exists>j \<le> Suc n. (pos, p) \<in> step_rel E F ^^ j}"
    proof cases
      case 1
      then have "(pos, p) \<in> step_rel E F ^^ 0" by simp
      then show ?thesis by blast
    qed (metis (mono_tags, lifting) Suc_le_mono mem_Collect_eq)
  qed
  moreover have "fst ` set (opts_all (Suc n) greedy A pos sl) =
      insert pos (fst ` set (then_all A (opts_all n greedy A) pos sl))"
    by (simp add: opts_all_Suc opt_def in_order_def stay_def del: opts_all.simps)
  ultimately show ?case by (simp only: t)
qed auto

lemma range_Suc_ex:
  fixes k n m :: nat
  shows "(\<exists>j. k \<le> j \<and> j < k + Suc n \<and> m \<le> j \<and> Q j) \<longleftrightarrow>
     m \<le> k \<and> Q k \<or> (\<exists>j. Suc k \<le> j \<and> j < Suc k + n \<and> m \<le> j \<and> Q j)"
proof
  assume "\<exists>j. k \<le> j \<and> j < k + Suc n \<and> m \<le> j \<and> Q j"
  then obtain j where j: "k \<le> j" "j < k + Suc n" "m \<le> j" "Q j" by blast
  then show "m \<le> k \<and> Q k \<or> (\<exists>j. Suc k \<le> j \<and> j < Suc k + n \<and> m \<le> j \<and> Q j)"
    by (cases "j = k") (auto intro!: exI [of _ j])
next
  assume "m \<le> k \<and> Q k \<or> (\<exists>j. Suc k \<le> j \<and> j < Suc k + n \<and> m \<le> j \<and> Q j)"
  then show "\<exists>j. k \<le> j \<and> j < k + Suc n \<and> m \<le> j \<and> Q j"
    by (elim disjE exE) (intro exI [of _ k], simp, metis Suc_leD add_Suc add_Suc_right)
qed


lemma replicate_ends:
  assumes "flat_eq E A F" and "\<And>q sl. q \<le> e_end E \<Longrightarrow> fst ` set (B q sl) = {p. \<exists>j \<le> n. (q, p) \<in> step_rel E F ^^ j}"
  shows "pos \<le> e_end E \<Longrightarrow>
    fst ` set (seq_all (replicate k A @ [B]) pos sl) = {p. \<exists>j \<le> n. (pos, p) \<in> step_rel E F ^^ (k + j)}"
proof (induction k arbitrary: pos sl)
  case 0
  then show ?case using assms(2) by (simp add: seq_all_single del: seq_all.simps)
next
  case (Suc k)
  have "fst ` set (then_all A (seq_all (replicate k A @ [B])) pos sl) =
      (\<Union>q \<in> flat_ends E F pos. {p. \<exists>j \<le> n. (q, p) \<in> step_rel E F ^^ (k + j)})"
    by (rule flat_eq_then [OF assms(1) Suc.prems]) (rule Suc.IH)
  also have "\<dots> = {p. \<exists>j \<le> n. (pos, p) \<in> step_rel E F ^^ Suc (k + j)}"
    unfolding step_rel_first [OF Suc.prems] by auto
  finally show ?case by (simp only: replicate_Suc append_Cons seq_all_Cons add_Suc)
qed

lemma flat_repeat_ends:
  "flat_repeat left k mn F pow acc = Some H \<Longrightarrow> pos \<le> e_end E \<Longrightarrow> 0 < k \<Longrightarrow>
   flat_ends E pow pos = {p. (pos, p) \<in> step_rel E F ^^ (k - 1)} \<Longrightarrow>
   flat_ends E H pos = flat_ends E acc pos \<union> {p. \<exists>j. k \<le> j \<and> j < k + left \<and> mn \<le> j \<and> (pos, p) \<in> step_rel E F ^^ j}"
proof (induction left arbitrary: k pow acc)
  case (Suc left)
  from Suc.prems(1) obtain pow' where p: "flat_product pow F = Some pow'"
    and r: "flat_repeat left (Suc k) mn F pow' (if k \<ge> mn then acc @ pow' else acc) = Some H"
    by (auto simp: Let_def split: option.splits if_splits)
  have "flat_ends E pow' pos = {p. (pos, p) \<in> step_rel E F ^^ (k - 1) O step_rel E F}"
    unfolding flat_ends_product [OF p] Suc.prems(4)
    using step_rel_pow_bound [of pos _ "k - 1" E F] Suc.prems(2) by (auto simp: step_rel_def [where F = F])
  also have "step_rel E F ^^ (k - 1) O step_rel E F = step_rel E F ^^ k"
    using Suc.prems(3) by (cases k) auto
  finally have pw: "flat_ends E pow' pos = {p. (pos, p) \<in> step_rel E F ^^ (Suc k - 1)}" by simp
  show ?case unfolding Suc.IH [OF r Suc.prems(2) _ pw, simplified] range_Suc_ex using pw by auto
qed auto

lemma shift_ex:
  fixes m mn :: nat
  assumes "mn \<le> m"
  shows "(\<exists>j \<le> m - mn. Q (mn + j)) \<longleftrightarrow> (\<exists>j. j < Suc m \<and> mn \<le> j \<and> Q j)"
proof
  assume "\<exists>j \<le> m - mn. Q (mn + j)"
  then obtain j where "j \<le> m - mn" "Q (mn + j)" by blast
  then show "\<exists>j. j < Suc m \<and> mn \<le> j \<and> Q j" using assms by (intro exI [of _ "mn + j"]) auto
next
  assume "\<exists>j. j < Suc m \<and> mn \<le> j \<and> Q j"
  then obtain j where "j < Suc m" "mn \<le> j" "Q j" by blast
  then show "\<exists>j \<le> m - mn. Q (mn + j)" by (intro exI [of _ "j - mn"]) auto
qed

lemma flatten_eq:
  "hir_ok n h \<Longrightarrow> flatten ls h = Some F \<Longrightarrow> flat_eq E (hir_all E h) F"
proof (induction h arbitrary: F)
  case (H_Look l)
  then have "F = [[F_Look l]]" by (auto split: option.splits look.splits)
  then show ?case by (auto simp: flat_eq_def flat_ends_def)
next
  case (H_Group g h)
  then have "flat_eq E (hir_all E h) F" by simp
  then show ?case by (auto simp: flat_eq_def image_image case_prod_beta)
next
  case (H_Concat v)
  have "list_all2 (\<lambda>f A. \<forall>F. f = Some F \<longrightarrow> flat_eq E A F) (map (flatten ls) v) (map (hir_all E) v)"
    using H_Concat by (auto simp: list_all2_conv_all_nth list_all_length)
  moreover have "flat_eq E stay [[]]" by (simp add: flat_eq_def stay_def)
  ultimately have "flat_eq E (then_all stay (seq_all (map (hir_all E) v))) F"
    using H_Concat.prems(2) by (intro flat_concat_eq) auto
  moreover have "then_all stay B = B" for B by (rule ext)+ (simp add: then_all_def stay_def)
  ultimately show ?case by simp
next
  case (H_Alt v)
  have *: "list_all2 (\<lambda>f A. \<forall>F. f = Some F \<longrightarrow> flat_eq E A F) (map (flatten ls) v) (map (hir_all E) v)"
    using H_Alt by (auto simp: list_all2_conv_all_nth list_all_length)
  have "v \<noteq> []" using H_Alt.prems(1) by simp
  then show ?case using flat_alt_eq [OF *, of "[]" F] H_Alt.prems(2) by (simp add: flat_eq_def)
next
  case (H_Repeat mn mx greedy simple h)
  then obtain m G where mx: "mx = Some m" and G: "flatten ls h = Some G"
    and r: "flat_repeat m 1 mn G [[]] (if mn = 0 then [[]] else []) = Some F"
    by (auto split: option.splits)
  have "mn \<le> m" using H_Repeat.prems(1) mx by simp
  have A: "flat_eq E (hir_all E h) G" using H_Repeat G by simp
  show ?case unfolding flat_eq_def
  proof (intro allI impI)
    fix pos sl assume pos: "pos \<le> e_end E"
    have "fst ` set (hir_all E (H_Repeat mn mx greedy simple h) pos sl) =
        {p. \<exists>j \<le> m - mn. (pos, p) \<in> step_rel E G ^^ (mn + j)}"
      using replicate_ends [where B = "opts_all (m - mn) greedy (hir_all E h)" and n = "m - mn" and k = mn,
          OF A opts_all_ends [OF A] pos] pos
      by (simp add: rep_all_def mx)
    also have "\<dots> = {p. \<exists>j. 0 \<le> j \<and> j < 0 + Suc m \<and> mn \<le> j \<and> (pos, p) \<in> step_rel E G ^^ j}"
      by (intro Collect_cong)
        (simp add: shift_ex [OF \<open>mn \<le> m\<close>, of "\<lambda>j. (pos, _) \<in> step_rel E G ^^ j"])
    also have "\<dots> = flat_ends E F pos"
      unfolding range_Suc_ex flat_repeat_ends [OF r pos, simplified] by (cases "mn = 0") auto
    finally show "fst ` set (hir_all E (H_Repeat mn mx greedy simple h) pos sl) = flat_ends E F pos" .
  qed
qed (auto simp: flat_eq_def flat_ends_def)

section \<open>Well-formed tests\<close>

text \<open>
  What lowering gives of a test whose number is \<open>n\<close>: its sets are there, the sub-pattern of a lookaround
  uses the tests before it, and a lookbehind reads exactly its width.
\<close>

fun look_ok :: "nat \<Rightarrow> nat \<Rightarrow> nat \<Rightarrow> look \<Rightarrow> bool" where
  "look_ok ns nset n (L_Behind1 si negate) \<longleftrightarrow> si < nset"
| "look_ok ns nset n (L_Ahead1 si negate) \<longleftrightarrow> si < nset"
| "look_ok ns nset n (L_Around behind negate body lo hi) \<longleftrightarrow>
     hir_ok n body \<and> hir_bounds ns nset body \<and> (behind \<longrightarrow> least body = lo \<and> most body = Some lo)"
| "look_ok ns nset n _ \<longleftrightarrow> True"

definition looks_ok :: "nat \<Rightarrow> nat \<Rightarrow> look list \<Rightarrow> bool" where
  "looks_ok ns nset ls \<longleftrightarrow> (\<forall>n < length ls. look_ok ns nset n (ls ! n))"

fun is_around :: "look \<Rightarrow> bool" where
  "is_around (L_Around _ _ _ _ _) \<longleftrightarrow> True"
| "is_around _ \<longleftrightarrow> False"

text \<open>A lookahead that may read far, whose walks are memoized.\<close>

fun reads_far :: "look \<Rightarrow> bool" where
  "reads_far (L_Around behind _ _ _ hi) \<longleftrightarrow> \<not> behind \<and> hi > MAX_LOOK"
| "reads_far _ \<longleftrightarrow> False"

section \<open>The definitions compiled from the tests\<close>

definition compiled_look :: "charset list \<Rightarrow> look list \<Rightarrow> nat list \<Rightarrow> prog list \<Rightarrow> look \<Rightarrow> lookdef \<Rightarrow> bool" where
  "compiled_look ss ls ids sb look d \<longleftrightarrow>
     (\<exists>pre post. sb = pre @ post \<and> (\<exists>sb'. comp_look ss ls ids look pre = Inr (d, sb') \<and> (\<exists>post'. sb = sb' @ post')))"

lemma comp_look_subs: "comp_look ss ls ids look sb = Inr (d, sb') \<Longrightarrow> \<exists>new. sb' = sb @ new"
  by (cases look) (auto simp: Let_def andthen_def split: sum.splits)

lemma comp_looks_subs: "comp_looks ss ls ids todo defs sb = Inr (defs', sb') \<Longrightarrow> \<exists>new. sb' = sb @ new"
proof (induction todo arbitrary: defs sb)
  case (Cons l todo)
  then obtain d sb1 where "comp_look ss ls ids l sb = Inr (d, sb1)" "comp_looks ss ls ids todo (defs @ [d]) sb1 = Inr (defs', sb')"
    by (auto simp: andthen_def split: sum.splits)
  then show ?case using comp_look_subs Cons.IH by (metis append.assoc)
qed auto

lemma comp_looks_compiled:
  "comp_looks ss ls ids todo defs sb = Inr (defs', sb') \<Longrightarrow>
   \<exists>new. defs' = defs @ new \<and> list_all2 (compiled_look ss ls ids sb') todo new"
proof (induction todo arbitrary: defs sb)
  case (Cons l todo)
  then obtain d sb1 where c: "comp_look ss ls ids l sb = Inr (d, sb1)"
    and r: "comp_looks ss ls ids todo (defs @ [d]) sb1 = Inr (defs', sb')"
    by (auto simp: andthen_def split: sum.splits)
  obtain post post' where "sb' = sb1 @ post'" "sb' = sb @ post"
    using comp_looks_subs [OF r] comp_look_subs [OF c] by auto
  with c have "compiled_look ss ls ids sb' l d" unfolding compiled_look_def by blast
  then show ?case using Cons.IH [OF r] by auto
qed auto

lemma compiled_around:
  assumes "compiled_look ss ls ids sb (L_Around behind negate body lo hi) d"
  shows "\<exists>k p. d = D_Around behind negate k lo hi (\<not> behind \<and> hi > MAX_LOOK)
      (if \<not> behind \<and> hi > MAX_LOOK then None else flatten ls body)
      (case (if \<not> behind \<and> hi > MAX_LOOK then None else flatten ls body) of None \<Rightarrow> None | Some v \<Rightarrow> FirstTest_of v ss)
    \<and> get_at sb k = Some p \<and> build body False False True ids None [I_Match] = Inr p"
proof -
  from assms obtain pre post' sb' where c: "comp_look ss ls ids (L_Around behind negate body lo hi) pre = Inr (d, sb')"
    and sb: "sb = sb' @ post'" by (auto simp: compiled_look_def)
  from c obtain p where p: "build body False False True ids None [I_Match] = Inr p" "sb' = pre @ [p]"
    by (auto simp: andthen_def Let_def split: sum.splits)
  then have "get_at sb (length pre) = Some p" using sb by (simp add: get_at_def nth_append)
  then show ?thesis using c p by (auto simp: andthen_def Let_def)
qed

lemma word_char_is: "is_word_char u ascii c = word_char u ascii c"
proof -
  have "is_ascii_alphanumeric c \<Longrightarrow> c < 128" "c = 0x5F \<Longrightarrow> c < 128"
    by (auto simp: is_ascii_alphanumeric_def word_less_nat_alt word_le_nat_alt)
  then show ?thesis by (auto simp: is_word_char_def word_char_def)
qed

lemma text_at_simps: "text_at text p (\<lambda>c. c = 0x0A) = newline_at text p" "text_at text p (is_word_char u ascii) = word_at u ascii text p"
  by (auto simp: text_at_def newline_at_def word_at_def get_at_def word_char_is)

lemma set_at_in: "si < length ss \<Longrightarrow> set_at ss si text p = Some (in_set_at ss si text p)"
  by (simp add: set_at_def in_set_at_def get_at_def)

lemma simple_look_holds:
  assumes "compiled_look ss ls ids sb look d" and "\<not> is_around look" and "look_ok ns (length ss) n look"
  shows "lookdef_is_simple d \<and> simple_holds u ss d text p e = Some (look_true u ss text e lk look p)"
proof (cases look)
  case (L_Word ascii negate)
  then have "d = D_Word ascii negate" using assms(1) by (auto simp: compiled_look_def)
  then show ?thesis using L_Word by (auto simp: lookdef_is_simple_def text_at_simps Let_def)
next
  case (L_Behind1 si negate)
  then have "d = D_Behind1 si negate" "si < length ss" using assms by (auto simp: compiled_look_def)
  then show ?thesis using L_Behind1 by (auto simp: lookdef_is_simple_def set_at_in)
next
  case (L_Ahead1 si negate)
  then have "d = D_Ahead1 si negate" "si < length ss" using assms by (auto simp: compiled_look_def)
  then show ?thesis using L_Ahead1 by (auto simp: lookdef_is_simple_def set_at_in)
qed (use assms in \<open>auto simp: compiled_look_def lookdef_is_simple_def text_at_simps\<close>)

section \<open>The flat form decides a lookaround\<close>

fun flat_ok :: "nat \<Rightarrow> nat \<Rightarrow> look list \<Rightarrow> flat \<Rightarrow> bool" where
  "flat_ok n nset ls (F_Char si) \<longleftrightarrow> si < nset"
| "flat_ok n nset ls (F_Look l) \<longleftrightarrow> l < n \<and> l < length ls \<and> \<not> is_around (ls ! l)"

definition flats_ok :: "nat \<Rightarrow> nat \<Rightarrow> look list \<Rightarrow> flat list list \<Rightarrow> bool" where
  "flats_ok n nset ls F \<longleftrightarrow> (\<forall>s \<in> set F. \<forall>x \<in> set s. flat_ok n nset ls x)"

lemma flats_ok_simps [simp]:
  "flats_ok n nset ls []" "flats_ok n nset ls [[]]"
  "flats_ok n nset ls (F @ G) \<longleftrightarrow> flats_ok n nset ls F \<and> flats_ok n nset ls G"
  by (auto simp: flats_ok_def)

lemma flats_ok_product:
  "flat_product F G = Some H \<Longrightarrow> flats_ok n nset ls F \<Longrightarrow> flats_ok n nset ls G \<Longrightarrow> flats_ok n nset ls H"
  by (auto simp: flat_product_def flats_ok_def Let_def split: if_splits)

lemma flats_ok_concat:
  "flat_concat fs acc = Some H \<Longrightarrow> flats_ok n nset ls acc \<Longrightarrow> (\<And>F. Some F \<in> set fs \<Longrightarrow> flats_ok n nset ls F) \<Longrightarrow>
   flats_ok n nset ls H"
proof (induction fs acc rule: flat_concat.induct)
  case (3 f fs acc)
  then obtain nx where "flat_product acc f = Some nx" "flat_concat fs nx = Some H" by (auto split: option.splits)
  moreover have "flats_ok n nset ls nx" by (rule flats_ok_product [OF calculation(1) 3(3)]) (auto intro: 3(4))
  ultimately show ?case using 3(1) 3(4) by auto
qed auto

lemma flats_ok_alt:
  "flat_alt fs acc = Some H \<Longrightarrow> flats_ok n nset ls acc \<Longrightarrow> (\<And>F. Some F \<in> set fs \<Longrightarrow> flats_ok n nset ls F) \<Longrightarrow>
   flats_ok n nset ls H"
  by (induction fs acc rule: flat_alt.induct) (auto simp: Let_def split: if_splits)

lemma flats_ok_repeat:
  "flat_repeat left k mn f pow acc = Some H \<Longrightarrow> flats_ok n nset ls f \<Longrightarrow> flats_ok n nset ls pow \<Longrightarrow>
   flats_ok n nset ls acc \<Longrightarrow> flats_ok n nset ls H"
proof (induction left k mn f pow acc rule: flat_repeat.induct)
  case (2 left k mn f pow acc)
  then obtain pw where p: "flat_product pow f = Some pw" by (auto split: option.splits)
  have "flats_ok n nset ls pw" by (rule flats_ok_product [OF p 2(5,4)])
  then show ?case using 2 p by (auto simp: Let_def split: if_splits)
qed auto

lemma flatten_ok:
  "flatten ls h = Some F \<Longrightarrow> hir_ok n h \<Longrightarrow> hir_bounds ns nset h \<Longrightarrow> flats_ok n nset ls F"
proof (induction h arbitrary: F)
  case (H_Look l)
  then show ?case by (auto simp: flats_ok_def get_at_def split: option.splits if_splits look.splits)
next
  case (H_Concat v)
  have "flats_ok n nset ls G" if "Some G \<in> set (map (flatten ls) v)" for G
    using that H_Concat by (auto simp: list_all_iff)
  then show ?case using H_Concat.prems(1) by (auto intro: flats_ok_concat)
next
  case (H_Alt v)
  have "flats_ok n nset ls G" if "Some G \<in> set (map (flatten ls) v)" for G
    using that H_Alt by (auto simp: list_all_iff)
  then show ?case using H_Alt.prems(1) by (auto intro: flats_ok_alt)
next
  case (H_Repeat mn mx greedy simple b)
  then obtain m G where "flatten ls b = Some G" "flat_repeat m 1 mn G [[]] (if mn = 0 then [[]] else []) = Some F"
    by (auto split: option.splits)
  note r = this
  have G: "flats_ok n nset ls G" using H_Repeat.IH [OF r(1)] H_Repeat.prems(2,3) by simp
  show ?case by (rule flats_ok_repeat [OF r(2) G]) (cases "mn = 0", simp_all)
qed (auto simp: flats_ok_def)

text \<open>The tests below \<open>n\<close> that are not lookarounds answer what \<open>lk\<close> says.\<close>

definition simple_right :: "unidata \<Rightarrow> programs \<Rightarrow> look list \<Rightarrow> nat \<Rightarrow> (nat \<Rightarrow> nat \<Rightarrow> bool) \<Rightarrow> u32 list \<Rightarrow> nat \<Rightarrow> bool" where
  "simple_right u pr ls n lk text e \<longleftrightarrow>
     (\<forall>l < n. \<not> is_around (ls ! l) \<longrightarrow>
        (\<exists>d. get_at (looks pr) l = Some d \<and> (\<forall>p. simple_holds u (sets pr) d text p e = Some (lk l p))))"

lemma flat_seq_end:
  assumes "simple_right u pr ls n lk text e" and "e \<le> length text" and "ss = sets pr"
  shows "\<forall>x \<in> set s. flat_ok n (length ss) ls x \<Longrightarrow>
    flat_seq u pr text e s pos = Some (flat_end (look_env text e ss lk) s pos \<noteq> None)"
proof (induction s arbitrary: pos)
  case (Cons x s)
  show ?case
  proof (cases x)
    case (F_Char si)
    have "(if pos < e then set_at (sets pr) si text pos else Some False) = Some (hits (look_env text e ss lk) si pos)"
      using Cons.prems F_Char assms(2,3)
      by (auto simp: set_at_in hits_def look_env_def in_set_at_def get_at_def)
    then show ?thesis using Cons F_Char by simp
  next
    case (F_Look l)
    then obtain d where "get_at (looks pr) l = Some d" "\<forall>p. simple_holds u (sets pr) d text p e = Some (lk l p)"
      using Cons.prems assms(1) by (auto simp: simple_right_def)
    then show ?thesis using Cons F_Look by (simp add: look_env_def)
  qed
qed simp

lemma flat_any_ends:
  assumes "simple_right u pr ls n lk text e" and "e \<le> length text" and "ss = sets pr"
  shows "flats_ok n (length ss) ls F \<Longrightarrow>
    flat_any u pr F text q e = Some (flat_ends (look_env text e ss lk) F q \<noteq> {})"
proof (induction F)
  case (Cons s F)
  have "flat_seq u pr text e s q = Some (flat_end (look_env text e ss lk) s q \<noteq> None)"
    using Cons.prems by (intro flat_seq_end [OF assms]) (auto simp: flats_ok_def)
  moreover have "flats_ok n (length ss) ls F" using Cons.prems by (auto simp: flats_ok_def)
  ultimately show ?case using Cons.IH by (auto simp: flat_ends_def)
qed simp

lemma bit_mask_word: "(a :: u128) AND push_bit k 1 \<noteq> 0 \<longleftrightarrow> bit a k"
proof
  assume "a AND push_bit k 1 \<noteq> 0"
  then obtain n where "bit (a AND push_bit k 1) n" by (auto simp only: bit_eq_iff bit_0_eq bot_apply bot_bool_def)
  then show "bit a k" by (auto simp only: bit_and_iff bit_push_bit_iff bit_1_iff) simp
next
  assume "bit a k"
  moreover from this have "k < 128" using bit_imp_le_length [of a k] by simp
  ultimately have "bit (a AND push_bit k 1) k" by (simp only: bit_and_iff bit_push_bit_iff bit_1_iff) simp
  then show "a AND push_bit k 1 \<noteq> 0" by (metis bit_0_eq bot_apply bot_bool_def)
qed

lemma may_begin_iff: "may_begin t c = (if c < 128 then bit (ft_ascii t) (unat c) else ft_other t)"
  unfolding may_begin_def bit_mask_word ..

lemma first_test_may_begin:
  "list_all cs_ok ss \<Longrightarrow> first_test_of ss F t = Some f \<Longrightarrow> flats_ok n (length ss) ls F \<Longrightarrow>
    may_begin t c \<or> (\<exists>s \<in> set F. \<exists>si r. s = F_Char si # r \<and> contains (ss ! si) c) \<Longrightarrow> may_begin f c"
proof (induction ss F t rule: first_test_of.induct)
  case (2 ss s seqs t)
  then obtain si r where s: "s = F_Char si # r" by (auto split: list.splits flat.splits)
  let ?t = "\<lparr>ft_ascii = ft_ascii t OR ascii_mask (ss ! si), ft_other = ft_other t \<or> has_non_ascii (ss ! si)\<rparr>"
  have f: "first_test_of ss seqs ?t = Some f" using 2(3) s by simp
  have si: "cs_ok (ss ! si)" using 2(2,4) s by (simp add: flats_ok_def list_all_length)
  have t: "may_begin t c \<or> contains (ss ! si) c \<Longrightarrow> may_begin ?t c"
    using si by (auto simp: may_begin_iff bit_or_iff ascii_mask_iff has_non_ascii_iff contains_iff not_less)
  have "flats_ok n (length ss) ls seqs" using 2(4) by (simp add: flats_ok_def)
  moreover have "may_begin ?t c \<or> (\<exists>s \<in> set seqs. \<exists>si r. s = F_Char si # r \<and> contains (ss ! si) c)"
    using 2(5) t s by auto
  ultimately show ?case using 2(1) [OF s refl 2(2) f] by simp
qed auto

lemma first_test_chars: "first_test_of ss F t = Some f \<Longrightarrow> s \<in> set F \<Longrightarrow> \<exists>si r. s = F_Char si # r"
  by (induction ss F t rule: first_test_of.induct) (auto split: list.splits flat.splits)

lemma first_test_begins:
  assumes f: "FirstTest_of F ss = Some f" and ok: "list_all cs_ok ss" "flats_ok n (length ss) ls F"
    and ne: "flat_ends (look_env text e ss lk) F q \<noteq> {}"
  shows "q < e \<and> q < length text \<and> may_begin f (text ! q)"
proof -
  from ne obtain s p where s: "s \<in> set F" "flat_end (look_env text e ss lk) s q = Some p" by (auto simp: flat_ends_def)
  have f': "first_test_of ss F \<lparr>ft_ascii = 0, ft_other = False\<rparr> = Some f" using f by (simp add: FirstTest_of_def)
  from first_test_chars [OF f' s(1)] obtain si r where sr: "s = F_Char si # r" by blast
  then have "hits (look_env text e ss lk) si q" using s(2) by (simp split: if_splits)
  then have h: "q < e" "q < length text" "contains (ss ! si) (text ! q)"
    by (auto simp: hits_def look_env_def get_at_def split: if_splits)
  moreover have "may_begin f (text ! q)"
    by (rule first_test_may_begin [OF ok(1) f' ok(2)]) (use s(1) sr h(3) in blast)
  ultimately show ?thesis by simp
qed

section \<open>The tests of a compiled pattern\<close>

text \<open>A pattern whose tests were compiled from \<open>ls\<close>; the last one is the window's end.\<close>

definition compiled_tests :: "nat \<Rightarrow> look list \<Rightarrow> programs \<Rightarrow> bool" where
  "compiled_tests ns ls pr \<longleftrightarrow>
     2 \<le> ns \<and> list_all cs_ok (sets pr) \<and> looks_ok ns (length (sets pr)) ls \<and>
     (\<exists>defs. looks pr = defs @ [D_EndString] \<and>
        list_all2 (compiled_look (sets pr) ls [0..<length ls] (subs pr)) ls defs)"

lemma compiled_tests_nth:
  assumes "compiled_tests ns ls pr" and "l < length ls"
  shows "\<exists>d. get_at (looks pr) l = Some d \<and> compiled_look (sets pr) ls [0..<length ls] (subs pr) (ls ! l) d"
    "look_ok ns (length (sets pr)) l (ls ! l)"
proof -
  obtain defs where d: "looks pr = defs @ [D_EndString]"
    "list_all2 (compiled_look (sets pr) ls [0..<length ls] (subs pr)) ls defs"
    using assms(1) by (auto simp: compiled_tests_def)
  then have "l < length defs" using assms(2) by (simp add: list_all2_lengthD)
  then show "\<exists>d. get_at (looks pr) l = Some d \<and> compiled_look (sets pr) ls [0..<length ls] (subs pr) (ls ! l) d"
    using d assms(2) by (auto simp: get_at_def nth_append list_all2_conv_all_nth)
  show "look_ok ns (length (sets pr)) l (ls ! l)" using assms by (auto simp: compiled_tests_def looks_ok_def)
qed

lemma compiled_tests_end:
  assumes "compiled_tests ns ls pr"
  shows "get_at (looks pr) (length ls) = Some D_EndString" "length (looks pr) = Suc (length ls)"
  using assms by (auto simp: compiled_tests_def get_at_def dest: list_all2_lengthD)

lemma compiled_simple_right:
  assumes "compiled_tests ns ls pr" and "n \<le> length ls"
  shows "simple_right u pr ls n (looks_upto u (sets pr) text e ls n) text e"
  unfolding simple_right_def
proof (intro allI impI)
  fix l assume l: "l < n" "\<not> is_around (ls ! l)"
  then have "l < length ls" using assms(2) by simp
  from compiled_tests_nth [OF assms(1) this] obtain d
    where d: "get_at (looks pr) l = Some d" "compiled_look (sets pr) ls [0..<length ls] (subs pr) (ls ! l) d"
      "look_ok ns (length (sets pr)) l (ls ! l)" by blast
  then show "\<exists>d. get_at (looks pr) l = Some d \<and>
      (\<forall>p. simple_holds u (sets pr) d text p e = Some (looks_upto u (sets pr) text e ls n l p))"
    using simple_look_holds [OF d(2) l(2) d(3)] looks_upto_less [OF l(1)] by auto
qed

text \<open>The ways of a lookaround's sub-pattern, and what a walk and the flat form find of them.\<close>

definition around_hit :: "env \<Rightarrow> bool \<Rightarrow> hir \<Rightarrow> nat \<Rightarrow> nat \<Rightarrow> bool" where
  "around_hit E behind body lo p \<longleftrightarrow>
     (if behind then \<exists>x \<in> set (hir_all E body (p - lo) []). fst x = p else hir_all E body p [] \<noteq> [])"

lemma sub_outs:
  assumes "hir_ok l body" and "\<forall>k < l. ids ! k = k" and "build body False False True ids None [I_Match] = Inr sub"
    and "\<not> e_saves E" and "e_guards E"
  shows "outs E (insts sub) (p_start sub) q [] (hir_all E body q [])"
proof -
  have "outs E (insts sub) (p_start sub) q []
      (then_all (hir_all E body) (tail_look E None) q (head_slots E None q []))"
    by (rule build_correct [OF assms(1,2)]) (use assms in \<open>simp_all add: tail_of_def\<close>)
  then show ?thesis by (simp add: then_all_def tail_look_def head_slots_def)
qed

lemma around_walk:
  assumes inner: "level_below inner e lk (oracle_ok M (Suc depth)) l"
    and ok: "hir_ok l body" "hir_bounds ns (length ss) body" "2 \<le> ns" "\<forall>k < l. ids ! k = k"
    and b: "build body False False True ids None [I_Match] = Inr sub" and ora: "oracle_ok M depth ora"
    and p: "behind \<longrightarrow> lo \<le> p"
  shows "\<exists>ora'. run inner ss sub text (if behind then p - lo else p) e (if behind then Some p else None) depth ora =
    Some (around_hit (look_env text e ss lk) behind body lo p, ora') \<and> oracle_ok M depth ora'"
proof -
  let ?E = "look_env text e ss lk" and ?q = "if behind then p - lo else p" and ?at = "if behind then Some p else None"
  have E: "e_saves ?E = False" "e_guards ?E = True" "e_sets ?E = ss" "e_end ?E = e" "e_text ?E = text" "e_look ?E = lk"
    by (simp_all add: look_env_def)
  have P: "prog_ok ns l (length ss) (insts sub)"
    by (rule build_bounds [OF ok(1,2,3) _ _ order_refl ok(4) b]) simp_all
  have o: "outs ?E (insts sub) (p_start sub) ?q [] (hir_all ?E body ?q [])" by (rule sub_outs [OF ok(1,4) b]) (simp_all add: E)
  have "some_acc (ends ?at) (hir_all ?E body ?q []) = around_hit ?E behind body lo p"
    by (cases behind; cases "hir_all ?E body ?q []") (auto simp: some_acc_def ends_def around_hit_def)
  moreover have "\<forall>a. ?at = Some a \<longrightarrow> ?q \<le> a" by simp
  ultimately show ?thesis
    using run_correct [OF inner, of ns ?E sub ?q "hir_all ?E body ?q []" ora ?at] P o ora by (simp add: E)
qed

lemma around_flat:
  assumes ok: "hir_ok l body" and F: "flatten ls body = Some F" and p: "p \<le> e" "behind \<longrightarrow> lo \<le> p"
    and w: "behind \<longrightarrow> least body = lo \<and> most body = Some lo"
  shows "around_hit (look_env text e ss lk) behind body lo p \<longleftrightarrow>
    flat_ends (look_env text e ss lk) F (if behind then p - lo else p) \<noteq> {}"
proof -
  let ?E = "look_env text e ss lk" and ?q = "if behind then p - lo else p"
  have "?q \<le> e_end ?E" using p by (auto simp: look_env_def)
  with flatten_eq [OF ok F, of ?E] have ends: "fst ` set (hir_all ?E body ?q []) = flat_ends ?E F ?q" by (auto simp: flat_eq_def)
  have "fst x = p" if "behind" "x \<in> set (hir_all ?E body ?q [])" for x
  proof -
    obtain a b where x: "x = (a, b)" by fastforce
    have "?q + lo \<le> a" using readsD [OF hir_all_reads [where E = ?E and h = body]] that x w by fastforce
    moreover have "a \<le> ?q + lo" using hir_all_most [of body ?E] that x w by (fastforce simp: upto_def)
    ultimately show ?thesis using x p(2) that(1) by simp
  qed
  then show ?thesis unfolding ends [symmetric] around_hit_def by (cases "hir_all ?E body ?q []") (auto, blast)
qed

text \<open>What the memo of a lookaround holds is true of its sub-pattern.\<close>

definition memo_true :: "unidata \<Rightarrow> programs \<Rightarrow> u32 list \<Rightarrow> nat \<Rightarrow> look list \<Rightarrow> nat \<Rightarrow> look_memo \<Rightarrow> bool" where
  "memo_true u pr text e ls l m \<longleftrightarrow>
     (\<forall>behind negate j lo hi memoized flat first sub.
        get_at (looks pr) l = Some (D_Around behind negate j lo hi memoized flat first) \<longrightarrow> get_at (subs pr) j = Some sub \<longrightarrow>
        look_memo_ok (look_env text e (sets pr) (looks_upto u (sets pr) text e ls l)) sub m)"

lemma memo_true_new: "memo_true u pr text e ls l memo_new"
  by (simp add: memo_true_def look_memo_ok_fresh)

text \<open>A lookahead that may read far: the memoized walk finds whether its sub-pattern has a way.\<close>

lemma far_walk:
  assumes inner: "\<And>k. level_below inner e lk (oracle_ok (memos_right ok (addr, length text, e) g k) (Suc depth)) l"
    and h: "hir_ok l body" "hir_bounds ns (length ss) body" "2 \<le> ns" "\<forall>k < l. ids ! k = k"
    and b: "build body False False True ids None [I_Match] = Inr sub" and e: "e \<le> length text"
    and ok: "ok look = look_memo_ok (look_env text e ss lk) sub" "\<And>l. ok l memo_new"
    and ora: "oracle_ok (memos_right ok (addr, length text, e) g k) depth ora"
  shows "\<exists>ora'. run_memo inner ss addr look sub text p e depth ora =
    Some (around_hit (look_env text e ss lk) False body lo p, ora') \<and>
    oracle_ok (memos_right ok (addr, length text, e) g k) depth ora'"
proof -
  let ?E = "look_env text e ss lk"
  have E: "e_saves ?E = False" "e_guards ?E = True" "e_sets ?E = ss" "e_end ?E = e" "e_text ?E = text" "e_look ?E = lk"
    by (simp_all add: look_env_def)
  have P: "prog_ok ns l (length (e_sets ?E)) (insts sub)"
    unfolding E by (rule build_bounds [OF h(1,2,3) _ _ order_refl h(4) b]) simp_all
  have o: "outs ?E (insts sub) (p_start sub) p [] (hir_all ?E body p [])" by (rule sub_outs [OF h(1,4) b]) (simp_all add: E)
  then have "around_hit ?E False body lo p \<longleftrightarrow> reaches ?E (insts sub) p (p_start sub)"
    by (auto simp: outs_def around_hit_def out_reaches [OF P])
  moreover have "targets_ok (insts sub)" by (rule build_targets [OF b]) simp
  ultimately show ?thesis
    using run_memo_correct [where E = ?E and ok = ok and addr = addr and e = e and look = look, unfolded E, OF inner _ refl refl] P o e ora ok
    by (simp add: E)
qed

text \<open>A test at a position, with the tests of the level below.\<close>

lemma around_holds:
  assumes pr: "compiled_tests ns ls pr" and e: "e \<le> length text" and l: "l < length ls"
    and look: "ls ! l = L_Around behind negate body lo hi"
    and inner: "\<And>k. level_below (holds_at n u pr addr text (Suc depth)) e (looks_upto u (sets pr) text e ls l)
      (oracle_ok (memos_right (memo_true u pr text e ls) (addr, length text, e) g k) (Suc depth)) l"
    and ora: "oracle_ok (memos_right (memo_true u pr text e ls) (addr, length text, e) g k) depth ora"
  shows "\<exists>ora'. holds_at (Suc n) u pr addr text depth e l p ora =
    Some (look_true u (sets pr) text e (looks_upto u (sets pr) text e ls l) (ls ! l) p, ora') \<and>
    oracle_ok (memos_right (memo_true u pr text e ls) (addr, length text, e) g k) depth ora'"
proof -
  let ?lk = "looks_upto u (sets pr) text e ls l" and ?ids = "[0..<length ls]"
  let ?M = "memos_right (memo_true u pr text e ls) (addr, length text, e) g k" and ?far = "\<not> behind \<and> hi > MAX_LOOK"
  let ?E = "look_env text e (sets pr) ?lk" and ?q = "if behind then p - lo else p"
  from compiled_tests_nth [OF pr l] look obtain d
    where d: "get_at (looks pr) l = Some d"
      and c: "compiled_look (sets pr) ls ?ids (subs pr) (L_Around behind negate body lo hi) d"
      and ok: "hir_ok l body" "hir_bounds ns (length (sets pr)) body" "behind \<longrightarrow> least body = lo \<and> most body = Some lo"
    by auto
  from compiled_around [OF c] obtain j sub
    where D: "d = D_Around behind negate j lo hi ?far (if ?far then None else flatten ls body)
        (case (if ?far then None else flatten ls body) of None \<Rightarrow> None | Some v \<Rightarrow> FirstTest_of v (sets pr))"
      and sub: "get_at (subs pr) j = Some sub" "build body False False True ?ids None [I_Match] = Inr sub" by blast
  have cs: "list_all cs_ok (sets pr)" "2 \<le> ns" using pr by (auto simp: compiled_tests_def)
  have ids: "\<forall>k < l. ?ids ! k = k" using l by simp
  have truth: "look_true u (sets pr) text e ?lk (ls ! l) p \<longleftrightarrow> (behind \<longrightarrow> lo \<le> p) \<and> around_hit ?E behind body lo p \<longleftrightarrow> \<not> negate"
    by (auto simp: look around_hit_def)
  consider (far) ?far | (short) "behind \<and> p < lo" | (near) "\<not> ?far" "\<not> (behind \<and> p < lo)" by blast
  then show ?thesis
  proof cases
    case far
    have "memo_true u pr text e ls l = look_memo_ok ?E sub"
      by (rule ext) (simp add: memo_true_def d D sub(1))
    from far_walk [where k = k and p = p and lo = lo, OF inner ok(1,2) cs(2) ids sub(2) e this memo_true_new ora]
    obtain ora' where w: "run_memo (holds_at n u pr addr text (Suc depth)) (sets pr) addr l sub text p e depth ora =
        Some (around_hit ?E False body lo p, ora')" "oracle_ok ?M depth ora'" by blast
    have "look_true u (sets pr) text e ?lk (ls ! l) p = (around_hit ?E False body lo p \<noteq> negate)" using far truth by auto
    then show ?thesis using far w by (simp add: d D sub)
  next
    case short
    then show ?thesis using truth ora by (simp add: d D)
  next
    case near
    then have p: "behind \<longrightarrow> lo \<le> p" by auto
    have "d = D_Around behind negate j lo hi False (flatten ls body)
        (case flatten ls body of None \<Rightarrow> None | Some v \<Rightarrow> FirstTest_of v (sets pr))" using D near(1) by (simp only: if_False)
    note D = this
    have walk: "\<exists>ora'. run (holds_at n u pr addr text (Suc depth)) (sets pr) sub text ?q e (if behind then Some p else None) depth ora =
        Some (around_hit ?E behind body lo p, ora') \<and> oracle_ok ?M depth ora'"
      by (rule around_walk [OF inner ok(1,2) cs(2) ids sub(2) ora p])
    show ?thesis
    proof (cases "flatten ls body")
      case None
      then show ?thesis using walk truth p near(2) by (auto simp: d D sub)
    next
      case (Some F)
      show ?thesis
      proof (cases "p \<le> e")
        case True
        have hit: "around_hit ?E behind body lo p \<longleftrightarrow> flat_ends ?E F ?q \<noteq> {}"
          by (rule around_flat [OF ok(1) Some True p ok(3)])
        have F: "flats_ok l (length (sets pr)) ls F" by (rule flatten_ok [OF Some ok(1,2)])
        have any: "flat_holds u pr F text ?q e = Some (flat_ends ?E F ?q \<noteq> {})"
          using flat_any_ends [OF compiled_simple_right [OF pr less_imp_le [OF l]] e refl F] e by (simp add: flat_holds_def)
        let ?begins = "case FirstTest_of F (sets pr) of None \<Rightarrow> True
          | Some f \<Rightarrow> ?q < e \<and> ?q < length text \<and> may_begin f (text ! ?q)"
        have "?begins" if "flat_ends ?E F ?q \<noteq> {}"
          using first_test_begins [OF _ cs(1) F that] by (auto split: option.splits)
        then have "(if ?begins then flat_holds u pr F text ?q e else Some False) = Some (around_hit ?E behind body lo p)"
          unfolding any hit by (cases "flat_ends ?E F ?q = {}") (simp_all only: if_cancel if_True not_True_eq_False not_False_eq_True refl)
        then show ?thesis using truth p near(2) True ora by (cases behind) (simp_all only: if_True if_False, simp_all add: d D Some Let_def)
      next
        case out: False
        then show ?thesis using walk truth p near(2) by (auto simp: d D sub Some)
      qed
    qed
  qed
qed

lemma holds_at_simple:
  "lookdef_is_simple d \<Longrightarrow> get_at (looks pr) l = Some d \<Longrightarrow> simple_holds u (sets pr) d text p e = Some v \<Longrightarrow>
   holds_at (Suc n) u pr addr text depth e l p ora = Some (v, ora)"
  by (cases d) (auto simp del: simple_holds.simps simp: lookdef_is_simple_def)

lemma holds_at_correct:
  assumes pr: "compiled_tests ns ls pr" and e: "e \<le> length text"
  shows "l < n \<Longrightarrow> l \<le> length ls \<Longrightarrow>
    oracle_ok (memos_right (memo_true u pr text e ls) (addr, length text, e) g k) depth ora \<Longrightarrow>
    \<exists>ora'. holds_at n u pr addr text depth e l p ora = Some (look_holds u (sets pr) text e ls l p, ora') \<and>
      oracle_ok (memos_right (memo_true u pr text e ls) (addr, length text, e) g k) depth ora'"
proof (induction n arbitrary: depth l p ora k)
  case (Suc n)
  show ?case
  proof (cases "l = length ls")
    case True
    then show ?thesis using compiled_tests_end [OF pr] Suc.prems by (simp add: look_holds_def)
  next
    case False
    then have l: "l < length ls" using Suc.prems by simp
    have t: "look_holds u (sets pr) text e ls l p =
        look_true u (sets pr) text e (looks_upto u (sets pr) text e ls l) (ls ! l) p" using l by (simp add: look_holds_def)
    show ?thesis
    proof (cases "is_around (ls ! l)")
      case True
      then obtain behind negate body lo hi where a: "ls ! l = L_Around behind negate body lo hi" by (cases "ls ! l") auto
      have "level_below (holds_at n u pr addr text (Suc depth)) e (looks_upto u (sets pr) text e ls l)
          (oracle_ok (memos_right (memo_true u pr text e ls) (addr, length text, e) g k) (Suc depth)) l" for k
        by unfold_locales (use Suc.IH Suc.prems(1) l in \<open>auto simp: looks_upto_holds\<close>)
      from around_holds [OF pr e l a this Suc.prems(3)] show ?thesis unfolding t .
    next
      case no: False
      from compiled_tests_nth [OF pr l] obtain d where d: "get_at (looks pr) l = Some d"
        "compiled_look (sets pr) ls [0..<length ls] (subs pr) (ls ! l) d" "look_ok ns (length (sets pr)) l (ls ! l)" by blast
      from simple_look_holds [OF d(2) no d(3), of u "text" p e "looks_upto u (sets pr) text e ls l"]
      show ?thesis using holds_at_simple [OF _ d(1)] Suc.prems(3) by (auto simp del: holds_at.simps simp: t)
    qed
  qed
qed simp

lemma holds_correct:
  assumes "compiled_tests ns ls pr" and "e \<le> length text" and "l \<le> length ls"
    and "oracle_ok (memos_right (memo_true u pr text e ls) (addr, length text, e) g k) 0 ora"
  shows "\<exists>ora'. holds u pr addr text e l p ora = Some (look_holds u (sets pr) text e ls l p, ora') \<and>
    oracle_ok (memos_right (memo_true u pr text e ls) (addr, length text, e) g k) 0 ora'"
  using holds_at_correct [OF assms(1,2), of l "Suc (length ls)"] assms(3,4)
  by (simp add: holds_def compiled_tests_end [OF assms(1)])

end
