(* ===== verification/Search.thy ===== *)
theory Search
  imports Look_Sem
begin

text \<open>
  A search with the Pike VM on a compiled pattern (\<^verbatim>\<open>nfa::compile\<close>, \<^verbatim>\<open>pike::search\<close>, \<^verbatim>\<open>looks::holds\<close>
  together) answers the first accepted way of the pattern, in the order a backtracking matcher tries them.
\<close>

section \<open>The tests as the oracle of the VM\<close>

definition right_oracle ::
    "unidata \<Rightarrow> nat \<Rightarrow> nat \<Rightarrow> nat \<Rightarrow> look list \<Rightarrow> programs \<Rightarrow> u32 list \<Rightarrow> nat \<Rightarrow> nat \<Rightarrow> oracle_state \<Rightarrow> bool" where
  "right_oracle u addr g ns ls pr text e depth ora \<longleftrightarrow>
     compiled_tests ns ls pr \<and> e \<le> length text \<and>
     oracle_ok (memos_right (memo_true u pr text e ls) (addr, length text, e) g 0) depth ora"

lemma right_oracle_holds:
  assumes "right_oracle u addr g ns ls pr text e depth ora" and "l < n" and "l \<le> length ls"
  shows "\<exists>ora'. holds_at n u pr addr text depth e l p ora = Some (look_holds u (sets pr) text e ls l p, ora') \<and>
    right_oracle u addr g ns ls pr text e depth ora'"
  using holds_at_correct [where n = n and l = l] assms unfolding right_oracle_def by meson

interpretation below: level_below "holds_at n u pr addr text depth" e "look_holds u (sets pr) text e ls"
    "right_oracle u addr g ns ls pr text e depth" "min n (Suc (length ls))"
  for n u pr addr g "text" depth e ls ns
  by unfold_locales (simp add: right_oracle_holds)

interpretation tests: look_oracle "holds u pr addr text e" "look_holds u (sets pr) text e ls"
    "right_oracle u addr g ns ls pr text e 0" "Suc (length ls)"
  for u pr addr g "text" e ls ns
proof unfold_locales
  fix l p ora assume l: "l < Suc (length ls)" and o: "right_oracle u addr g ns ls pr text e 0 ora"
  have "length (looks pr) = Suc (length ls)" using o compiled_tests_end by (auto simp: right_oracle_def)
  then show "\<exists>ora'. holds u pr addr text e l p ora = Some (look_holds u (sets pr) text e ls l p, ora') \<and>
      right_oracle u addr g ns ls pr text e 0 ora'"
    using right_oracle_holds [OF o l] l by (simp add: holds_def)
qed

text \<open>
  The oracle a search begins with: any state of an earlier search whose generation has not run out is
  good for another text or window, once \<^verbatim>\<open>begin\<close> has started a new generation.
\<close>

definition oracle_idle :: "oracle_state \<Rightarrow> bool" where
  "oracle_idle ora \<longleftrightarrow> levels_ok ora \<and> Suc (o_gen ora) < 2 ^ 64 \<and> (\<forall>m \<in> set (o_memos ora). m_gen m \<le> o_gen ora)"

lemma oracle_begin_right:
  assumes "compiled_tests ns ls pr" and "e \<le> length text" and "oracle_idle ora"
  shows "right_oracle u addr (Suc (o_gen ora)) ns ls pr text e 0 (oracle_begin addr text e False ora)"
proof -
  have "next_gen (o_gen ora) = Suc (o_gen ora)" using assms(3) by (simp add: oracle_idle_def next_gen_def)
  moreover have "m_gen (o_memos ora ! l) \<le> Suc (o_gen ora)" "m_gen (o_memos ora ! l) \<noteq> Suc (o_gen ora)"
    if "l < length (o_memos ora)" for l
    using assms(3) nth_mem [OF that] by (auto simp: oracle_idle_def)
  ultimately have "oracle_ok (memos_right ok (addr, length text, e) (Suc (o_gen ora)) 0) 0 (oracle_begin addr text e False ora)" for ok
    using assms(3) by (simp add: oracle_ok_def memos_right_def oracle_begin_def oracle_idle_def levels_ok_def)
  then show ?thesis using assms(1,2) unfolding right_oracle_def by blast
qed

lemma right_oracle_idle:
  "right_oracle u addr g ns ls pr text e depth ora \<Longrightarrow> Suc g < 2 ^ 64 \<Longrightarrow> oracle_idle ora \<and> o_gen ora = g"
  by (auto simp: right_oracle_def oracle_idle_def oracle_ok_def memos_right_def in_set_conv_nth)

section \<open>Patterns\<close>

text \<open>What lowering gives: sets in canonical form, indices in range, tests and pattern well formed.\<close>

definition pattern_ok :: "hir \<Rightarrow> charset list \<Rightarrow> look list \<Rightarrow> nat \<Rightarrow> bool" where
  "pattern_ok h ss ls groups \<longleftrightarrow>
     list_all cs_ok ss \<and> looks_ok (2 * groups + 2) (length ss) ls \<and> hir_ok (length ls) h \<and>
     hir_bounds (2 * groups + 2) (length ss) h"

lemma hir_bounds_mono: "hir_bounds ns nset h \<Longrightarrow> nset \<le> nset' \<Longrightarrow> hir_bounds ns nset' h"
  by (induction h) (auto simp: list_all_iff)

lemma look_ok_mono: "look_ok ns nset n look \<Longrightarrow> nset \<le> nset' \<Longrightarrow> look_ok ns nset' n look"
  by (cases look) (auto intro: hir_bounds_mono)

lemma with_any_sets:
  assumes ss: "list_all cs_ok ss" and w: "with_any ss = (any, ss')"
  shows "list_all cs_ok ss'" "length ss \<le> length ss'" "any < length ss'" "\<And>c. contains (ss' ! any) c"
proof -
  define i where "i = length (takeWhile (\<lambda>s. \<not> is_all s) ss)"
  have wi: "(if i < length ss then (i, ss) else (length ss, ss @ [cs_all])) = (any, ss')"
    using w unfolding with_any_def Let_def i_def .
  have "(i < length ss \<and> any = i \<and> ss' = ss) \<or> (any = length ss \<and> ss' = ss @ [cs_all])"
    using wi by (cases "i < length ss") simp_all
  then consider (old) "i < length ss" "any = i" "ss' = ss" | (new) "any = length ss" "ss' = ss @ [cs_all]" by blast
  then have "list_all cs_ok ss' \<and> length ss \<le> length ss' \<and> any < length ss' \<and> (\<forall>c. contains (ss' ! any) c)"
  proof cases
    case old
    then have "is_all (ss ! i)" using nth_length_takeWhile [of "\<lambda>s. \<not> is_all s" ss] by (simp add: i_def)
    then show ?thesis using old ss by (auto simp: is_all_iff contains_iff list_all_length)
  next
    case new
    then show ?thesis using ss by (simp add: contains_iff)
  qed
  then show "list_all cs_ok ss'" "length ss \<le> length ss'" "any < length ss'" "\<And>c. contains (ss' ! any) c" by auto
qed

section \<open>The ways of a pattern from a position\<close>

definition pat_env :: "unidata \<Rightarrow> programs \<Rightarrow> look list \<Rightarrow> u32 list \<Rightarrow> nat \<Rightarrow> env" where
  "pat_env u pr ls text e =
     \<lparr>e_text = text, e_end = e, e_sets = sets pr, e_slots = slots pr, e_saves = True, e_guards = True,
      e_look = look_holds u (sets pr) text e ls\<rparr>"

lemma pat_env_simps [simp]:
  "e_text (pat_env u pr ls text e) = text" "e_end (pat_env u pr ls text e) = e" "e_sets (pat_env u pr ls text e) = sets pr"
  "e_slots (pat_env u pr ls text e) = slots pr" "e_saves (pat_env u pr ls text e)" "e_guards (pat_env u pr ls text e)"
  "e_look (pat_env u pr ls text e) = look_holds u (sets pr) text e ls"
  by (simp_all add: pat_env_def)

text \<open>
  The slots at first: nothing recorded but the start. From one position (\<^verbatim>\<open>match\<close>), from each position in
  turn (\<^verbatim>\<open>search\<close>), and only to the window's end (\<^verbatim>\<open>fullmatch\<close>).
\<close>

definition match_ways :: "env \<Rightarrow> hir \<Rightarrow> nat \<Rightarrow> outcome list" where
  "match_ways E h pos = hir_all E h pos ((replicate (e_slots E) (-1))[e_slots E - 1 := int pos])"

definition last_start :: "env \<Rightarrow> nat \<Rightarrow> nat" where
  "last_start E start = max start (min (e_end E) (length (e_text E)))"

definition search_ways :: "env \<Rightarrow> hir \<Rightarrow> nat \<Rightarrow> outcome list" where
  "search_ways E h start = concat (map (match_ways E h) [start..<Suc (last_start E start)])"

definition full_ways :: "env \<Rightarrow> hir \<Rightarrow> nat \<Rightarrow> outcome list" where
  "full_ways E h pos = filter (\<lambda>x. fst x = e_end E) (match_ways E h pos)"

lemma search_ways_step:
  "search_ways E h pos =
     match_ways E h pos @ (if pos < min (e_end E) (length (e_text E)) then search_ways E h (Suc pos) else [])"
proof (cases "pos < min (e_end E) (length (e_text E))")
  case True
  then have "last_start E pos = last_start E (Suc pos)" "Suc pos \<le> last_start E (Suc pos)" by (auto simp: last_start_def)
  then show ?thesis using True by (simp add: search_ways_def upt_conv_Cons)
next
  case False
  then have "last_start E pos = pos" by (auto simp: last_start_def)
  then have "search_ways E h pos = match_ways E h pos" by (simp add: search_ways_def)
  then show ?thesis using False by (simp only: if_False append_Nil2)
qed

text \<open>The entry of an unanchored search: a split to the pattern, or over a character and back.\<close>

lemma outs_unanchored:
  assumes split: "get_at P u = Some (I_Split s (u + 1))" "get_at P (u + 1) = Some (I_Char any u)"
    and any: "\<And>c. contains (e_sets E ! any) c"
    and here: "\<And>pos. outs E P s pos (replicate (e_slots E) (-1)) (match_ways E h pos)"
  shows "outs E P u pos (replicate (e_slots E) (-1)) (search_ways E h pos)"
proof (induction "min (e_end E) (length (e_text E)) - pos" arbitrary: pos)
  case 0
  then have "\<not> hits E any pos" by (auto simp: hits_def get_at_def)
  then have "outs E P (u + 1) pos (replicate (e_slots E) (-1)) []" using split by (auto intro: outs_intros)
  from outs_intros(3) [OF split(1) here this] show ?case using 0 by (subst search_ways_step) auto
next
  case (Suc n)
  then have "hits E any pos" using any by (auto simp: hits_def get_at_def)
  moreover have "outs E P u (pos + 1) (replicate (e_slots E) (-1)) (search_ways E h (Suc pos))" using Suc by simp
  ultimately have "outs E P (u + 1) pos (replicate (e_slots E) (-1)) (search_ways E h (Suc pos))"
    using split by (auto intro: outs_intros)
  from outs_intros(3) [OF split(1) here this] show ?case using Suc.hyps(2) by (subst search_ways_step) auto
qed

section \<open>Compiled patterns\<close>

lemma compile_parts:
  assumes "compile h ss ls groups = Inr pr"
  obtains any ss' defs sb f u where "with_any ss = (any, ss')"
    "comp_looks ss' ls [0..<length ls] ls [] [] = Inr (defs, sb)" "sets pr = ss'" "looks pr = defs @ [D_EndString]"
    "subs pr = sb" "slots pr = 2 * groups + 2"
    "build h True False True [0..<length ls] (Some (2 * groups + 1)) [I_Match] = Inr f" "u = length (insts f)"
    "fwd pr = f\<lparr>insts := insts f @ [I_Split (p_start f) (u + 1), I_Char any u], start_unanchored := u\<rparr>"
    "build h True False True [0..<length ls] (Some (2 * groups + 1)) [I_Look (length defs) HOLE, I_Match] = Inr (full pr)"
    "build h False True False [0..<length ls] None [I_Match] = Inr (rev_prog pr)"
    "build_with h True False False True [0..<length ls] (Some (2 * groups + 1)) [I_Match] = Inr (fwd_bt pr)"
    "build_with h True False False True [0..<length ls] (Some (2 * groups + 1)) [I_Look (length defs) HOLE, I_Match] = Inr (full_bt pr)"
proof -
  obtain any ss' where w: "with_any ss = (any, ss')" by fastforce
  from assms obtain defs sb f fl rv fb gb where *: "comp_looks ss' ls [0..<length ls] ls [] [] = Inr (defs, sb)"
    "build h True False True [0..<length ls] (Some (2 * groups + 1)) [I_Match] = Inr f"
    "build h True False True [0..<length ls] (Some (2 * groups + 1)) [I_Look (length defs) HOLE, I_Match] = Inr fl"
    "build h False True False [0..<length ls] None [I_Match] = Inr rv"
    "build_with h True False False True [0..<length ls] (Some (2 * groups + 1)) [I_Match] = Inr fb"
    "build_with h True False False True [0..<length ls] (Some (2 * groups + 1)) [I_Look (length defs) HOLE, I_Match] = Inr gb"
    "pr = \<lparr>sets = ss', looks = defs @ [D_EndString],
       fwd = f\<lparr>insts := insts f @ [I_Split (p_start f) (length (insts f) + 1), I_Char any (length (insts f))],
               start_unanchored := length (insts f)\<rparr>,
       full = fl, rev_prog = rv, fwd_bt = fb, full_bt = gb, subs = sb, slots = 2 * groups + 2, any_set_id = any\<rparr>"
    by (auto simp: compile_def w Let_def too_large_def andthen_def split: sum.splits if_splits)
  show thesis by (rule that [OF w *(1) _ _ _ _ *(2) refl]) (use * in simp_all)
qed

lemma compile_tests:
  assumes ok: "pattern_ok h ss ls groups" and c: "compile h ss ls groups = Inr pr"
  shows "compiled_tests (slots pr) ls pr" "slots pr = 2 * groups + 2" "length (looks pr) = Suc (length ls)"
    "hir_bounds (slots pr) (length (sets pr)) h"
proof -
  from c obtain any ss' defs sb where p: "with_any ss = (any, ss')"
    "comp_looks ss' ls [0..<length ls] ls [] [] = Inr (defs, sb)" "sets pr = ss'" "looks pr = defs @ [D_EndString]"
    "subs pr = sb" "slots pr = 2 * groups + 2" by (rule compile_parts) blast
  have cs: "list_all cs_ok ss" using ok by (simp add: pattern_ok_def)
  note any = with_any_sets [OF cs p(1)]
  have "list_all2 (compiled_look ss' ls [0..<length ls] sb) ls defs" using comp_looks_compiled [OF p(2)] by simp
  moreover have "looks_ok (slots pr) (length ss') ls"
    using ok any(2) by (auto simp: looks_ok_def pattern_ok_def p(6) intro: look_ok_mono)
  ultimately show "compiled_tests (slots pr) ls pr" using p any(1) by (simp add: compiled_tests_def)
  then show "length (looks pr) = Suc (length ls)" by (rule compiled_tests_end)
  show "slots pr = 2 * groups + 2" by (rule p)
  show "hir_bounds (slots pr) (length (sets pr)) h"
    using ok any(2) by (auto simp: pattern_ok_def p(3,6) intro: hir_bounds_mono)
qed

lemma compile_fwd:
  assumes ok: "pattern_ok h ss ls groups" and c: "compile h ss ls groups = Inr pr" and E: "E = pat_env u pr ls text e"
  shows "prog_ok (slots pr) (Suc (length ls)) (length (sets pr)) (insts (fwd pr))"
    "outs E (insts (fwd pr)) (p_start (fwd pr)) pos (replicate (slots pr) (-1)) (match_ways E h pos)"
    "outs E (insts (fwd pr)) (start_unanchored (fwd pr)) pos (replicate (slots pr) (-1)) (search_ways E h pos)"
proof -
  from c obtain any f v where p: "with_any ss = (any, sets pr)"
    and b: "build h True False True [0..<length ls] (Some (2 * groups + 1)) [I_Match] = Inr f"
    and v: "v = length (insts f)"
    and f: "fwd pr = f\<lparr>insts := insts f @ [I_Split (p_start f) (v + 1), I_Char any v], start_unanchored := v\<rparr>"
    by (rule compile_parts) blast
  note t = compile_tests [OF ok c]
  have h: "hir_ok (length ls) h" "list_all cs_ok ss" using ok by (simp_all add: pattern_ok_def)
  note any = with_any_sets [OF h(2) p]
  have ids: "\<forall>l < length ls. [0..<length ls] ! l = l" by simp
  have P: "prog_ok (slots pr) (Suc (length ls)) (length (sets pr)) (insts f)"
    by (rule build_bounds [OF h(1) t(4) _ _ _ _ ids b]) (simp_all add: t(2))
  then show "prog_ok (slots pr) (Suc (length ls)) (length (sets pr)) (insts (fwd pr))"
    using any(3) by (simp add: f prog_ok_def)
  have "outs E (insts (fwd pr)) (p_start f) q (replicate (slots pr) (-1))
      (then_all (hir_all E h) (tail_look E None) q (head_slots E (Some (2 * groups + 1)) q (replicate (slots pr) (-1))))" for q
    by (rule build_correct [OF h(1) ids]) (use b in \<open>simp_all add: E tail_of_def f\<close>)
  then have m: "outs E (insts (fwd pr)) (p_start f) q (replicate (slots pr) (-1)) (match_ways E h q)" for q
    by (simp add: then_all_def tail_look_def head_slots_def save_slot_def match_ways_def E t(2))
  then show "outs E (insts (fwd pr)) (p_start (fwd pr)) pos (replicate (slots pr) (-1)) (match_ways E h pos)" by (simp add: f)
  have "outs E (insts (fwd pr)) v pos (replicate (e_slots E) (-1)) (search_ways E h pos)"
    by (rule outs_unanchored [where s = "p_start f" and any = any])
      (use any(4) m in \<open>simp_all add: f get_at_def nth_append v E\<close>)
  then show "outs E (insts (fwd pr)) (start_unanchored (fwd pr)) pos (replicate (slots pr) (-1)) (search_ways E h pos)"
    by (simp add: f E)
qed

lemma compile_full:
  assumes ok: "pattern_ok h ss ls groups" and c: "compile h ss ls groups = Inr pr" and E: "E = pat_env u pr ls text e"
  shows "prog_ok (slots pr) (Suc (length ls)) (length (sets pr)) (insts (full pr))"
    "outs E (insts (full pr)) (p_start (full pr)) pos (replicate (slots pr) (-1)) (full_ways E h pos)"
proof -
  from c obtain defs sb where l: "comp_looks (sets pr) ls [0..<length ls] ls [] [] = Inr (defs, sb)"
    and b: "build h True False True [0..<length ls] (Some (2 * groups + 1)) [I_Look (length defs) HOLE, I_Match] = Inr (full pr)"
    by (rule compile_parts) blast
  have d: "length defs = length ls" using comp_looks_compiled [OF l] by (auto dest: list_all2_lengthD)
  note t = compile_tests [OF ok c]
  have h: "hir_ok (length ls) h" using ok by (simp add: pattern_ok_def)
  have ids: "\<forall>l < length ls. [0..<length ls] ! l = l" by simp
  show "prog_ok (slots pr) (Suc (length ls)) (length (sets pr)) (insts (full pr))"
    by (rule build_bounds [OF h t(4) _ _ _ _ ids b]) (simp_all add: t(2) d)
  have "outs E (insts (full pr)) (p_start (full pr)) pos (replicate (slots pr) (-1))
      (then_all (hir_all E h) (tail_look E (Some (length ls))) pos
        (head_slots E (Some (2 * groups + 1)) pos (replicate (slots pr) (-1))))"
    by (rule build_correct [OF h ids]) (use b in \<open>simp_all add: E tail_of_def d\<close>)
  moreover have "then_all (hir_all E h) (tail_look E (Some (length ls))) pos sl = filter (\<lambda>x. fst x = e) (hir_all E h pos sl)" for sl
  proof -
    have "concat (map (\<lambda>x. tail_look E (Some (length ls)) (fst x) (snd x)) L) = filter (\<lambda>x. fst x = e) L" for L
      by (induction L) (auto simp: tail_look_def E look_holds_def)
    then show ?thesis by (simp add: then_all_def)
  qed
  ultimately show "outs E (insts (full pr)) (p_start (full pr)) pos (replicate (slots pr) (-1)) (full_ways E h pos)"
    by (simp add: full_ways_def match_ways_def head_slots_def save_slot_def E t(2))
qed

section \<open>Searches\<close>

definition good_cache :: "unidata \<Rightarrow> nat \<Rightarrow> nat \<Rightarrow> nat \<Rightarrow> look list \<Rightarrow> programs \<Rightarrow> u32 list \<Rightarrow> nat \<Rightarrow> oracle_state pike_cache \<Rightarrow> bool" where
  "good_cache u addr g ns ls pr text e c \<longleftrightarrow> pike_ok (right_oracle u addr g ns ls pr text e 0) c"

text \<open>The first way a search accepts, as \<^verbatim>\<open>pike::search\<close> returns it.\<close>

definition found_way :: "want \<Rightarrow> nat \<Rightarrow> outcome list \<Rightarrow> (int list \<times> nat) option" where
  "found_way w start ways = map_option (\<lambda>x. (snd x, fst x)) (find (\<lambda>x. accepts w start (fst x)) ways)"

lemma search_fwd:
  assumes "pattern_ok h ss ls groups" and "compile h ss ls groups = Inr pr" and "good_cache u addr g (slots pr) ls pr text e c"
  shows "\<exists>c'. search (holds u pr addr text e) pr (fwd pr) text start e w c =
      Some (c', found_way w start ((if anchored w then match_ways else search_ways) (pat_env u pr ls text e) h start)) \<and>
    good_cache u addr g (slots pr) ls pr text e c'"
proof -
  let ?E = "pat_env u pr ls text e"
  note f = compile_fwd [OF assms(1,2) refl]
  have o: "outs ?E (insts (fwd pr)) (if anchored w then p_start (fwd pr) else start_unanchored (fwd pr)) start
      (replicate (e_slots ?E) (-1)) ((if anchored w then match_ways else search_ways) ?E h start)"
    using f(2,3) by simp
  show ?thesis
    using f(1) compile_tests(3) [OF assms(1,2)] assms(3)
      look_oracle.search_correct [OF tests.look_oracle_axioms, OF _ _ _ _ _ _ o]
    by (simp add: good_cache_def found_way_def first_acc_def)
qed

lemma search_full:
  assumes "pattern_ok h ss ls groups" and "compile h ss ls groups = Inr pr" and "good_cache u addr g (slots pr) ls pr text e c"
    and w: "anchored w"
  shows "\<exists>c'. search (holds u pr addr text e) pr (full pr) text start e w c =
      Some (c', found_way w start (full_ways (pat_env u pr ls text e) h start)) \<and> good_cache u addr g (slots pr) ls pr text e c'"
proof -
  let ?E = "pat_env u pr ls text e"
  note f = compile_full [OF assms(1,2) refl]
  have o: "outs ?E (insts (full pr)) (if anchored w then p_start (full pr) else start_unanchored (full pr)) start
      (replicate (e_slots ?E) (-1)) (full_ways ?E h start)"
    using f(2) w by simp
  show ?thesis
    using f(1) compile_tests(3) [OF assms(1,2)] assms(3)
      look_oracle.search_correct [OF tests.look_oracle_axioms, OF _ _ _ _ _ _ o]
    by (simp add: good_cache_def found_way_def first_acc_def)
qed

text \<open>\<^verbatim>\<open>c.pike.oracle.begin(s, end, keep)\<close>, as every search starts.\<close>

definition begin_search :: "nat \<Rightarrow> u32 list \<Rightarrow> nat \<Rightarrow> bool \<Rightarrow> oracle_state pike_cache \<Rightarrow> oracle_state pike_cache" where
  "begin_search addr text e keep c = c\<lparr>p_oracle := oracle_begin addr text e keep (p_oracle c)\<rparr>"

lemma begin_search_good:
  assumes "pattern_ok h ss ls groups" and "compile h ss ls groups = Inr pr" and "e \<le> length text" and "pike_ok oracle_idle c"
  shows "good_cache u addr (Suc (o_gen (p_oracle c))) (slots pr) ls pr text e (begin_search addr text e False c)"
  using oracle_begin_right [OF compile_tests(1) [OF assms(1,2)] assms(3)] assms(4)
  by (simp add: good_cache_def pike_ok_def begin_search_def)

text \<open>A later search over the same text and window may keep the memos of the one before.\<close>

lemma begin_search_kept:
  assumes "good_cache u addr g ns ls pr text e c"
  shows "good_cache u addr g ns ls pr text e (begin_search addr text e True c)"
proof -
  have "o_key (p_oracle c) = (addr, length text, e)" using assms
    by (auto simp: good_cache_def pike_ok_def right_oracle_def oracle_ok_def memos_right_def)
  then show ?thesis using assms
    by (auto simp: good_cache_def pike_ok_def right_oracle_def oracle_ok_def oracle_begin_def begin_search_def levels_ok_def)
qed

lemma good_cache_idle:
  "good_cache u addr g ns ls pr text e c \<Longrightarrow> Suc g < 2 ^ 64 \<Longrightarrow> pike_ok oracle_idle c \<and> o_gen (p_oracle c) = g"
  using right_oracle_idle by (auto simp: good_cache_def pike_ok_def)

lemma pike_new_idle [simp]: "pike_ok oracle_idle (pike_new oracle_new)"
  by (simp add: oracle_idle_def oracle_new_def levels_ok_def)

section \<open>Properties\<close>

text \<open>
  C3: A search with the Pike VM over a compiled pattern (\<^verbatim>\<open>nfa::compile\<close> and \<^verbatim>\<open>pike::search\<close>, with the
  tests of \<^verbatim>\<open>looks::holds\<close> as its oracle) always returns, and returns the first way of the pattern it
  accepts in the order a backtracking matcher tries them: with the slots of that way and its end, from the
  start position if anchored and from the leftmost position on otherwise; none exactly if no way is accepted.
  It holds for lookaheads of any reach, whatever searches the caches and memos were used for before, and
  the cache it leaves is fit for further searches.
\<close>

theorem pike_search_first_way:
  assumes "pattern_ok h ss ls groups" and "compile h ss ls groups = Inr pr" and "e \<le> length text"
    and "pike_ok oracle_idle c"
  shows "\<exists>c'. search (holds u pr addr text e) pr (fwd pr) text start e w (begin_search addr text e False c) =
      Some (c', found_way w start ((if anchored w then match_ways else search_ways) (pat_env u pr ls text e) h start)) \<and>
    good_cache u addr (Suc (o_gen (p_oracle c))) (slots pr) ls pr text e c'"
  by (rule search_fwd [OF assms(1,2) begin_search_good [OF assms]])

text \<open>The pattern \<^verbatim>\<open>a$\<close>.\<close>

definition ex_hir :: hir where
  "ex_hir = H_Concat [H_Char 0, H_Look 0]"

lemma ex_compiles:
  "\<exists>pr. compile ex_hir [cs_one 0x61] [L_End] 0 = Inr pr \<and> sets pr = [cs_one 0x61, cs_all] \<and> slots pr = 2"
proof -
  have wa: "with_any [cs_one 0x61] = (1, [cs_one 0x61, cs_all])" by code_simp
  have "\<exists>pr. compile ex_hir [cs_one 0x61] [L_End] 0 = Inr pr"
    by (simp add: compile_def wa ex_hir_def build_def build_with_def push_def MAX_INSTS_def emit_def frag_at_def patch_def
        finish_def concat_frags.simps Let_def)
  then obtain pr where pr: "compile ex_hir [cs_one 0x61] [L_End] 0 = Inr pr" by blast
  from pr obtain any where "with_any [cs_one 0x61] = (any, sets pr)" "slots pr = 2"
    by (rule compile_parts) simp
  with wa pr show ?thesis by simp
qed

lemma ex_pattern_ok: "pattern_ok ex_hir [cs_one 0x61] [L_End] 0"
  by (simp add: pattern_ok_def ex_hir_def looks_ok_def)

theorem pike_search_first_way_witness:
  "\<exists>pr c'. compile ex_hir [cs_one 0x61] [L_End] 0 = Inr pr \<and>
     search (holds sample_unidata pr 7 [0x61, 0x62, 0x61] 3) pr (fwd pr) [0x61, 0x62, 0x61] 0 3
       \<lparr>anchored = False, must_advance = False, end_at = None\<rparr> (begin_search 7 [0x61, 0x62, 0x61] 3 False (pike_new oracle_new)) = Some (c', Some ([-1, 2], 3))"
proof -
  let ?text = "[0x61, 0x62, 0x61] :: u32 list" and ?w = "\<lparr>anchored = False, must_advance = False, end_at = None\<rparr>"
  obtain pr where pr: "compile ex_hir [cs_one 0x61] [L_End] 0 = Inr pr" "sets pr = [cs_one 0x61, cs_all]" "slots pr = 2"
    using ex_compiles by blast
  let ?E = "pat_env sample_unidata pr [L_End] ?text 3"
  from pike_search_first_way [OF ex_pattern_ok pr(1) _ pike_new_idle, of 3 ?text sample_unidata 7 0 ?w]
  obtain c' where "search (holds sample_unidata pr 7 ?text 3) pr (fwd pr) ?text 0 3 ?w (begin_search 7 ?text 3 False (pike_new oracle_new)) =
      Some (c', found_way ?w 0 (search_ways ?E ex_hir 0))" by auto
  moreover have "search_ways ?E ex_hir 0 = [(3, [-1, 2])]"
    by (simp add: search_ways_def last_start_def match_ways_def ex_hir_def hits_def get_at_def contains_iff pr
        look_holds_def newline_at_def numeral_eq_Suc)
  ultimately show ?thesis using pr(1) by (auto simp: found_way_def accepts_def)
qed

end
