(* ===== verification/Lower.thy ===== *)
theory Lower
  imports Nfa
begin

unbundle bit_operations_syntax

text \<open>
  Lowering (\<^verbatim>\<open>linre/hir.rs\<close>): the parsed pattern under its flags as character sets, zero-width tests,
  groups, alternatives and repeats; what is refused; the widths of sub-patterns; and backreferences to
  a group of one character run as branches. A \<^verbatim>\<open>u64\<close> that saturates is a natural number cut at
  \<open>U64_MAX\<close>.
\<close>

definition MAX_LOOK_NEST :: nat where "MAX_LOOK_NEST = 8"

section \<open>Flags\<close>

definition combine :: "u32 \<Rightarrow> u32 \<Rightarrow> u32 \<Rightarrow> u32" where
  "combine flags add del =
     (let f = (if add AND TYPE_FLAGS \<noteq> 0 then flags AND NOT TYPE_FLAGS else flags)
      in (f OR add) AND NOT del)"

definition fold_of :: "u32 \<Rightarrow> fold" where
  "fold_of flags =
     (if \<not> has_flag flags FLAG_IGNORECASE then NoFold
      else if has_flag flags FLAG_UNICODE then UnicodeFold
      else AsciiFold)"

section \<open>Widths as re computes them\<close>

definition cap_width :: "nat \<times> nat \<Rightarrow> nat \<times> nat" where
  "cap_width w = (min (fst w) (MAXREPEAT - 1), min (snd w) MAXREPEAT)"

fun seq_width :: "(nat \<times> nat) list \<Rightarrow> nat \<Rightarrow> nat \<Rightarrow> nat \<times> nat" where
  "seq_width [] lo hi = (lo, hi)"
| "seq_width ((a, b) # ws) lo hi = seq_width ws (sat64 (lo + a)) (sat64 (hi + b))"

fun alt_width :: "(nat \<times> nat) list \<Rightarrow> nat \<Rightarrow> nat \<Rightarrow> nat \<times> nat" where
  "alt_width [] lo hi = (lo, hi)"
| "alt_width (w # ws) lo hi =
     (let (a, b) = cap_width w in alt_width ws (min lo a) (max hi b))"

primrec width_raw :: "node \<Rightarrow> nat \<times> nat" where
  "width_raw (N_Lit c) = (1, 1)"
| "width_raw (N_NotLit c) = (1, 1)"
| "width_raw (N_Class items negate) = (1, 1)"
| "width_raw N_Any = (1, 1)"
| "width_raw N_Named = (1, 1)"
| "width_raw (N_At a) = (0, 0)"
| "width_raw (N_Look behind negate body) = (0, 0)"
| "width_raw (N_Backref g) = (0, MAXREPEAT)"
| "width_raw (N_Group g add del body) = cap_width (width_raw body)"
| "width_raw (N_Atomic body) = cap_width (width_raw body)"
| "width_raw (N_Seq v) = seq_width (map width_raw v) 0 0"
| "width_raw (N_Alt v) = alt_width (map width_raw v) (MAXREPEAT - 1) 0"
| "width_raw (N_Repeat mn mx kind body) =
     (let (i, j) = cap_width (width_raw body);
          lo = sat64 (i * mn);
          hi = (if mx = MAXREPEAT \<and> j > 0 then MAXREPEAT else sat64 (j * mx))
      in (lo, hi))"
| "width_raw (N_Cond g yes no) =
     (let (i, j) = cap_width (width_raw yes)
      in case map_option width_raw no of
           Some w \<Rightarrow> (let (l, h) = cap_width w in (min i l, max j h))
         | None \<Rightarrow> (0, j))"

definition py_width :: "node \<Rightarrow> nat \<times> nat" where
  "py_width n = cap_width (width_raw n)"

section \<open>Kinds of nodes\<close>

fun is_simple :: "node \<Rightarrow> bool" where
  "is_simple (N_Lit c) = True"
| "is_simple (N_NotLit c) = True"
| "is_simple (N_Class items negate) = True"
| "is_simple N_Any = True"
| "is_simple N_Named = True"
| "is_simple (N_Group None add del b) = is_simple b"
| "is_simple (N_Seq [x]) = is_simple x"
| "is_simple n = False"

primrec has_group :: "node \<Rightarrow> bool" where
  "has_group (N_Group g add del b) = (g \<noteq> None \<or> has_group b)"
| "has_group (N_Atomic b) = has_group b"
| "has_group (N_Look behind negate b) = has_group b"
| "has_group (N_Seq v) = list_ex (\<lambda>x. x) (map has_group v)"
| "has_group (N_Alt v) = list_ex (\<lambda>x. x) (map has_group v)"
| "has_group (N_Repeat mn mx kind b) = has_group b"
| "has_group (N_Cond g yes no) =
     (has_group yes \<or> (case map_option has_group no of None \<Rightarrow> False | Some x \<Rightarrow> x))"
| "has_group (N_Lit c) = False"
| "has_group (N_NotLit c) = False"
| "has_group (N_Class items negate) = False"
| "has_group N_Any = False"
| "has_group (N_At a) = False"
| "has_group (N_Backref g) = False"
| "has_group N_Named = False"

section \<open>Lowering\<close>

text \<open>The sets met so far with their numbers, the tests, and how many lookarounds are open.\<close>

record lower_state =
  l_sets :: "charset list"
  l_set_ids :: "charset \<rightharpoonup> nat"
  l_looks :: "look list"
  l_nest :: nat

definition refuse :: "string \<Rightarrow> (error, 'a) result" where
  "refuse why = Inl (Refused why)"

text \<open>The reason for \<^verbatim>\<open>\N{...}\<close> (0x5C is the backslash).\<close>

definition no_names :: string where
  "no_names = ''a '' @ [CHR 0x5C] @ ''N{...} escape (linre has no character names)''"

definition lower_set :: "charset \<Rightarrow> lower_state \<Rightarrow> nat \<times> lower_state" where
  "lower_set s st =
     (case l_set_ids st s of
        Some i \<Rightarrow> (i, st)
      | None \<Rightarrow>
          (let i = length (l_sets st)
           in (i, st\<lparr>l_sets := l_sets st @ [s], l_set_ids := (l_set_ids st)(s \<mapsto> i)\<rparr>)))"

definition lower_look :: "look \<Rightarrow> lower_state \<Rightarrow> nat \<times> lower_state" where
  "lower_look l st = (length (l_looks st), st\<lparr>l_looks := l_looks st @ [l]\<rparr>)"

primrec strip_groups :: "hir \<Rightarrow> hir" where
  "strip_groups (H_Group g b) = strip_groups b"
| "strip_groups (H_Concat v) =
     (let v = map strip_groups v in if length v = 1 then hd v else H_Concat v)"
| "strip_groups (H_Alt v) = H_Alt (map strip_groups v)"
| "strip_groups (H_Repeat mn mx greedy simple b) = H_Repeat mn mx greedy simple (strip_groups b)"
| "strip_groups H_Empty = H_Empty"
| "strip_groups (H_Char s) = H_Char s"
| "strip_groups (H_Look l) = H_Look l"

type_synonym lowering = "unidata \<Rightarrow> u32 \<Rightarrow> lower_state \<Rightarrow> (error, hir \<times> lower_state) result"

definition lower_char :: "charset \<Rightarrow> lower_state \<Rightarrow> (error, hir \<times> lower_state) result" where
  "lower_char s st = (let (i, st) = lower_set s st in Inr (H_Char i, st))"

definition lower_test :: "look \<Rightarrow> lower_state \<Rightarrow> (error, hir \<times> lower_state) result" where
  "lower_test l st = (let (i, st) = lower_look l st in Inr (H_Look i, st))"

fun lower_each :: "lowering list \<Rightarrow> unidata \<Rightarrow> u32 \<Rightarrow> lower_state \<Rightarrow> (error, hir list \<times> lower_state) result" where
  "lower_each [] u flags st = Inr ([], st)"
| "lower_each (f # fs) u flags st =
     andthen (f u flags st) (\<lambda>(h, st). andthen (lower_each fs u flags st) (\<lambda>(hs, st). Inr (h # hs, st)))"

definition at_look :: "at \<Rightarrow> u32 \<Rightarrow> look" where
  "at_look a flags =
     (let multi = has_flag flags FLAG_MULTILINE; ascii = (\<not> has_flag flags FLAG_UNICODE)
      in case a of
           At_Beginning \<Rightarrow> (if multi then L_BeginLine else L_Begin)
         | At_BeginningString \<Rightarrow> L_Begin
         | At_End \<Rightarrow> (if multi then L_EndLine else L_End)
         | At_EndString \<Rightarrow> L_EndString
         | At_Boundary \<Rightarrow> L_Word ascii False
         | At_NonBoundary \<Rightarrow> L_Word ascii True)"

text \<open>A lookaround from its lowered sub-pattern: of one character, or a sub-pattern of a width.\<close>

definition around_look :: "bool \<Rightarrow> bool \<Rightarrow> nat \<times> nat \<Rightarrow> hir \<Rightarrow> look" where
  "around_look behind negate w inner =
     (case inner of
        H_Char si \<Rightarrow>
          (if fst w = 1 \<and> snd w = 1 then (if behind then L_Behind1 si negate else L_Ahead1 si negate)
           else L_Around behind negate inner (fst w) (snd w))
      | _ \<Rightarrow> L_Around behind negate inner (fst w) (snd w))"

primrec lower_node :: "node \<Rightarrow> lowering" where
  "lower_node (N_Lit c) = (\<lambda>u flags st. lower_char (literal_set u c False (fold_of flags)) st)"
| "lower_node (N_NotLit c) = (\<lambda>u flags st. lower_char (literal_set u c True (fold_of flags)) st)"
| "lower_node (N_Class items negate) =
     (\<lambda>u flags st. lower_char (class_set u items negate (fold_of flags) (\<not> has_flag flags FLAG_UNICODE)) st)"
| "lower_node N_Any = (\<lambda>u flags st. lower_char (any_set (has_flag flags FLAG_DOTALL)) st)"
| "lower_node (N_At a) = (\<lambda>u flags st. lower_test (at_look a flags) st)"
| "lower_node (N_Group g add del body) =
     (\<lambda>u flags st.
        andthen (lower_node body u (combine flags add del) st) (\<lambda>(inner, st).
          Inr (case g of Some g \<Rightarrow> H_Group g inner | None \<Rightarrow> inner, st)))"
| "lower_node (N_Seq v) =
     (\<lambda>u flags st. andthen (lower_each (map lower_node v) u flags st) (\<lambda>(hs, st). Inr (H_Concat hs, st)))"
| "lower_node (N_Alt v) =
     (\<lambda>u flags st. andthen (lower_each (map lower_node v) u flags st) (\<lambda>(hs, st). Inr (H_Alt hs, st)))"
| "lower_node (N_Repeat mn mx kind body) =
     (\<lambda>u flags st.
        if kind = Possessive then refuse ''a possessive repeat''
        else if fst (py_width body) = 0 \<and> mx > 1
        then refuse ''a repeat whose body can match the empty string (sre's zero-width iteration rules)''
        else andthen (lower_node body u flags st) (\<lambda>(inner, st).
               if mn > 0xFFFFFFFF \<or> (mx \<noteq> MAXREPEAT \<and> mx > 0xFFFFFFFF) then refuse ''a repeat count too large''
               else Inr (H_Repeat mn (if mx = MAXREPEAT then None else Some mx) (kind = Greedy) (is_simple body) inner, st)))"
| "lower_node (N_Look behind negate body) =
     (\<lambda>u flags st.
        let (lo, hi) = py_width body
        in if behind \<and> lo \<noteq> hi then Inl (Syntax ''look-behind requires fixed-width pattern'')
           else if behind \<and> hi > MAX_LOOK then refuse ''a lookbehind wider than 1000 characters''
           else if \<not> negate \<and> has_group body then refuse ''a capturing group inside a positive lookaround''
           else if l_nest st \<ge> MAX_LOOK_NEST then refuse ''lookarounds nested too deep''
           else andthen (lower_node body u flags (st\<lparr>l_nest := l_nest st + 1\<rparr>)) (\<lambda>(inner, st).
                  lower_test (around_look behind negate (lo, hi) (strip_groups inner)) (st\<lparr>l_nest := l_nest st - 1\<rparr>)))"
| "lower_node (N_Backref g) =
     (\<lambda>u flags st. refuse ''a backreference (it needs what a group matched: not a regular language)'')"
| "lower_node (N_Cond g yes no) =
     (\<lambda>u flags st. refuse ''a conditional group (it needs whether a group matched)'')"
| "lower_node (N_Atomic body) = (\<lambda>u flags st. refuse ''an atomic group'')"
| "lower_node N_Named = (\<lambda>u flags st. refuse no_names)"

section \<open>Backreferences to a character\<close>

definition MAX_BACKREF_CHARS :: nat where "MAX_BACKREF_CHARS = 8"

fun children :: "node \<Rightarrow> node list" where
  "children (N_Group g add del b) = [b]"
| "children (N_Atomic b) = [b]"
| "children (N_Look behind negate b) = [b]"
| "children (N_Repeat mn mx kind b) = [b]"
| "children (N_Seq v) = v"
| "children (N_Alt v) = v"
| "children (N_Cond g yes no) = yes # (case no of None \<Rightarrow> [] | Some n \<Rightarrow> [n])"
| "children n = []"

lemma children_size: "c \<in> set (children n) \<Longrightarrow> size c < size n"
  by (cases n rule: children.cases) (auto simp: less_Suc_eq_le size_list_estimation' split: option.splits)

text \<open>The paths (child indices) to the nodes that satisfy a predicate, in the order of the walk.\<close>

function paths_to :: "(node \<Rightarrow> bool) \<Rightarrow> node \<Rightarrow> nat list list" where
  "paths_to want n =
     (if want n then [[]] else []) @
     concat (map (\<lambda>k. map ((#) k) (paths_to want (children n ! k))) [0..<length (children n)])"
  by pat_completeness auto
termination
  by (relation "measure (\<lambda>(want, n). size n)") (auto intro: children_size)

declare paths_to.simps [simp del]

definition node_at :: "node \<Rightarrow> nat list \<Rightarrow> node" where
  "node_at n path = foldl (\<lambda>n k. children n ! k) n path"

text \<open>\<^verbatim>\<open>node_at_mut\<close>, with what is done to the node there.\<close>

fun set_child :: "node \<Rightarrow> nat \<Rightarrow> node \<Rightarrow> node" where
  "set_child (N_Group g add del b) k c = N_Group g add del c"
| "set_child (N_Atomic b) k c = N_Atomic c"
| "set_child (N_Look behind negate b) k c = N_Look behind negate c"
| "set_child (N_Repeat mn mx kind b) k c = N_Repeat mn mx kind c"
| "set_child (N_Seq v) k c = N_Seq (v[k := c])"
| "set_child (N_Alt v) k c = N_Alt (v[k := c])"
| "set_child (N_Cond g yes no) k c = (if k = 0 then N_Cond g c no else N_Cond g yes (Some c))"
| "set_child n k c = n"

fun update_at :: "node \<Rightarrow> nat list \<Rightarrow> (node \<Rightarrow> node) \<Rightarrow> node" where
  "update_at n [] f = f n"
| "update_at n (k # path) f = set_child n k (update_at (children n ! k) path f)"

definition group_flags :: "node \<Rightarrow> u32 \<Rightarrow> u32" where
  "group_flags n f = (case n of N_Group _ add del _ \<Rightarrow> combine f add del | _ \<Rightarrow> f)"

fun flags_along :: "node \<Rightarrow> nat list \<Rightarrow> u32 \<Rightarrow> bool \<Rightarrow> u32" where
  "flags_along n [] f inside_last = (if inside_last then group_flags n f else f)"
| "flags_along n (k # path) f inside_last = flags_along (children n ! k) path (group_flags n f) inside_last"

text \<open>The characters of the set, when they are few and each matches itself alone under all the flags.\<close>

definition alone_chars :: "unidata \<Rightarrow> charset \<Rightarrow> u32 list \<Rightarrow> u32 list option" where
  "alone_chars u s flags =
     (case chars_upto s MAX_BACKREF_CHARS of
        None \<Rightarrow> None
      | Some chars \<Rightarrow>
          (if list_all (\<lambda>c. list_all (\<lambda>f. single (literal_set u c False (fold_of f)) = Some c) flags) chars
           then Some chars else None))"

fun backref_chars :: "unidata \<Rightarrow> node \<Rightarrow> u32 \<Rightarrow> u32 list \<Rightarrow> u32 list option" where
  "backref_chars u (N_Lit c) gf rfs = alone_chars u (literal_set u c False (fold_of gf)) (gf # rfs)"
| "backref_chars u (N_Class items False) gf rfs =
     alone_chars u (class_set u items False (fold_of gf) (\<not> has_flag gf FLAG_UNICODE)) (gf # rfs)"
| "backref_chars u (N_Seq [x]) gf rfs = backref_chars u x gf rfs"
| "backref_chars u (N_Group None add del b) gf rfs = backref_chars u b (combine gf add del) rfs"
| "backref_chars u n gf rfs = None"

primrec put_char :: "node \<Rightarrow> nat \<Rightarrow> u32 \<Rightarrow> node" where
  "put_char (N_Backref r) = (\<lambda>g c. if r = g then N_Lit c else N_Backref r)"
| "put_char (N_Group k add del b) =
     (\<lambda>g c. N_Group k add del (if k = Some g then N_Lit c else put_char b g c))"
| "put_char (N_Atomic b) = (\<lambda>g c. N_Atomic (put_char b g c))"
| "put_char (N_Look behind negate b) = (\<lambda>g c. N_Look behind negate (put_char b g c))"
| "put_char (N_Repeat mn mx kind b) = (\<lambda>g c. N_Repeat mn mx kind (put_char b g c))"
| "put_char (N_Seq v) = (\<lambda>g c. N_Seq (map (\<lambda>f. f g c) (map put_char v)))"
| "put_char (N_Alt v) = (\<lambda>g c. N_Alt (map (\<lambda>f. f g c) (map put_char v)))"
| "put_char (N_Cond k yes no) =
     (\<lambda>g c. N_Cond k (put_char yes g c) (map_option (\<lambda>f. f g c) (map_option put_char no)))"
| "put_char (N_Lit d) = (\<lambda>g c. N_Lit d)"
| "put_char (N_NotLit d) = (\<lambda>g c. N_NotLit d)"
| "put_char (N_Class items negate) = (\<lambda>g c. N_Class items negate)"
| "put_char N_Any = (\<lambda>g c. N_Any)"
| "put_char (N_At a) = (\<lambda>g c. N_At a)"
| "put_char N_Named = (\<lambda>g c. N_Named)"

definition is_group_no :: "nat \<Rightarrow> node \<Rightarrow> bool" where
  "is_group_no g n = (case n of N_Group (Some k) _ _ _ \<Rightarrow> k = g | _ \<Rightarrow> False)"

definition is_backref_to :: "nat \<Rightarrow> node \<Rightarrow> bool" where
  "is_backref_to g n = (case n of N_Backref k \<Rightarrow> k = g | _ \<Rightarrow> False)"

text \<open>The length of the path to the innermost node holding the group and every backreference.\<close>

function lca_from :: "nat list \<Rightarrow> nat list list \<Rightarrow> nat \<Rightarrow> nat" where
  "lca_from gpath rpaths lca =
     (if lca < length gpath \<and> list_all (\<lambda>r. length r > lca \<and> r ! lca = gpath ! lca) rpaths
      then lca_from gpath rpaths (lca + 1) else lca)"
  by pat_completeness auto
termination
  by (relation "measure (\<lambda>(gpath, rpaths, lca). length gpath - lca)") auto

declare lca_from.simps [simp del]

text \<open>From the item down to the group: groups and sequences only, each the head of the one above.\<close>

fun head_path :: "node \<Rightarrow> nat list \<Rightarrow> node option" where
  "head_path n [] = Some n"
| "head_path n (k # path) =
     (case n of
        N_Group _ _ _ b \<Rightarrow> (if k = 0 then head_path b path else None)
      | N_Seq v \<Rightarrow> (if k = 0 then head_path (v ! 0) path else None)
      | _ \<Rightarrow> None)"

definition expand_items :: "nat \<Rightarrow> nat \<Rightarrow> nat \<Rightarrow> u32 list \<Rightarrow> node \<Rightarrow> node" where
  "expand_items g i j chars n =
     (case n of
        N_Seq v \<Rightarrow>
          (let items = take (j + 1 - i) (drop i v);
               branches = map (\<lambda>c. put_char (N_Seq items) g c) chars
           in N_Seq (take i v @ [N_Alt branches] @ drop (j + 1) v))
      | _ \<Rightarrow> n)"

text \<open>\<^verbatim>\<open>expand_one\<close>: the tree with one group's backreferences run as branches, None where it is left as it is.\<close>

definition expand_one :: "unidata \<Rightarrow> node \<Rightarrow> nat \<Rightarrow> u32 \<Rightarrow> node option" where
  "expand_one u root g flags =
     (let rpaths = paths_to (is_backref_to g) root
      in case paths_to (is_group_no g) root of
           [gpath] \<Rightarrow>
             (if rpaths = [] then None
              else (let lca = lca_from gpath rpaths 0; seq_path = take lca gpath
                    in case node_at root seq_path of
                         N_Seq v \<Rightarrow>
                           (let i = gpath ! lca; j = Max (set (map (\<lambda>r. r ! lca) rpaths))
                            in if list_ex (\<lambda>r. r ! lca \<le> i) rpaths \<or> j \<ge> length v then None
                               else (case head_path (node_at root (take (lca + 1) gpath)) (drop (lca + 1) gpath) of
                                       Some (N_Group (Some k) add del body) \<Rightarrow>
                                         (case backref_chars u body (flags_along root gpath flags True)
                                                 (map (\<lambda>r. flags_along root r flags False) rpaths) of
                                            None \<Rightarrow> None
                                          | Some chars \<Rightarrow> Some (update_at root seq_path (expand_items g i j chars)))
                                     | _ \<Rightarrow> None))
                       | _ \<Rightarrow> None))
         | _ \<Rightarrow> None)"

definition is_backref :: "node \<Rightarrow> bool" where
  "is_backref n = (case n of N_Backref _ \<Rightarrow> True | _ \<Rightarrow> False)"

definition backref_groups :: "node \<Rightarrow> nat list" where
  "backref_groups n =
     sort (remdups (concat (map (\<lambda>p. case node_at n p of N_Backref g \<Rightarrow> [g] | _ \<Rightarrow> []) (paths_to is_backref n))))"

definition expand_backrefs :: "unidata \<Rightarrow> node \<Rightarrow> u32 \<Rightarrow> node" where
  "expand_backrefs u n flags =
     (if paths_to is_backref n = [] then n
      else foldl (\<lambda>out g. case expand_one u out g flags of None \<Rightarrow> out | Some n \<Rightarrow> n) n (backref_groups n))"

section \<open>Lowering a parsed pattern\<close>

record lowered =
  lw_hir :: hir
  lw_sets :: "charset list"
  lw_looks :: "look list"

definition lower_start :: lower_state where
  "lower_start = \<lparr>l_sets = [], l_set_ids = Map.empty, l_looks = [], l_nest = 0\<rparr>"

definition lower :: "unidata \<Rightarrow> parsed \<Rightarrow> (error, lowered) result" where
  "lower u p =
     andthen (lower_node (expand_backrefs u (p_node p) (p_flags p)) u (p_flags p) lower_start) (\<lambda>(h, st).
       Inr \<lparr>lw_hir = h, lw_sets = l_sets st, lw_looks = l_looks st\<rparr>)"

section \<open>The width of a lowered pattern\<close>

fun seq_widths :: "(nat \<times> nat option) list \<Rightarrow> nat \<Rightarrow> nat option \<Rightarrow> nat \<times> nat option" where
  "seq_widths [] lo hi = (lo, hi)"
| "seq_widths ((a, b) # ws) lo hi =
     seq_widths ws (sat64 (lo + a))
       (case (hi, b) of (Some p, Some q) \<Rightarrow> Some (sat64 (p + q)) | _ \<Rightarrow> None)"

fun alt_widths :: "(nat \<times> nat option) list \<Rightarrow> nat \<Rightarrow> nat option \<Rightarrow> nat \<times> nat option" where
  "alt_widths [] lo hi = (lo, hi)"
| "alt_widths ((a, b) # ws) lo hi =
     alt_widths ws (min lo a) (case (hi, b) of (Some p, Some q) \<Rightarrow> Some (max p q) | _ \<Rightarrow> None)"

primrec width :: "hir \<Rightarrow> nat \<times> nat option" where
  "width H_Empty = (0, Some 0)"
| "width (H_Look l) = (0, Some 0)"
| "width (H_Char s) = (1, Some 1)"
| "width (H_Group g b) = width b"
| "width (H_Concat v) = seq_widths (map width v) 0 (Some 0)"
| "width (H_Alt v) =
     (let (lo, hi) = alt_widths (map width v) U64_MAX (Some 0) in (if v = [] then 0 else lo, hi))"
| "width (H_Repeat mn mx greedy simple b) =
     (let (a, w) = width b
      in (sat64 (a * mn),
          case (w, mx) of
            (Some q, Some m) \<Rightarrow> if q = 0 then Some 0 else Some (sat64 (q * m))
          | (Some q, None) \<Rightarrow> if q = 0 then Some 0 else None
          | _ \<Rightarrow> None))"

end
