(* ===== verification/Syntax.thy ===== *)
theory Syntax
  imports Lower
begin

unbundle bit_operations_syntax

text \<open>
  Python's \<^verbatim>\<open>re\<close> syntax (\<^verbatim>\<open>linre/syntax.rs\<close>): the pattern text to a tree. A parser takes the parser's
  state and gives an error or a result with the state after it; the error \<open>None\<close> stands for the bound on
  the recursion, which is never met (\<open>parse\<close> gives enough).
\<close>

section \<open>Characters\<close>

definition ch :: "char \<Rightarrow> u32" where
  "ch c = word_of_nat (of_char c)"

definition BACKSLASH :: u32 where "BACKSLASH = 0x5C"

definition is_ws :: "u32 \<Rightarrow> bool" where
  "is_ws c \<longleftrightarrow> c \<in> set [0x20, 0x09, 0x0A, 0x0D, 0x0B, 0x0C]"

definition is_digit :: "u32 \<Rightarrow> bool" where
  "is_digit c \<longleftrightarrow> 0x30 \<le> c \<and> c \<le> 0x39"

definition is_oct :: "u32 \<Rightarrow> bool" where
  "is_oct c \<longleftrightarrow> 0x30 \<le> c \<and> c \<le> 0x37"

definition hex_val :: "u32 \<Rightarrow> u32 option" where
  "hex_val c =
     (if 0x30 \<le> c \<and> c \<le> 0x39 then Some (c - 0x30)
      else if 0x41 \<le> c \<and> c \<le> 0x46 then Some (c - 0x41 + 10)
      else if 0x61 \<le> c \<and> c \<le> 0x66 then Some (c - 0x61 + 10)
      else None)"

definition is_ascii_letter :: "u32 \<Rightarrow> bool" where
  "is_ascii_letter c \<longleftrightarrow> 0x41 \<le> c \<and> c \<le> 0x5A \<or> 0x61 \<le> c \<and> c \<le> 0x7A"

definition flag_of :: "u32 \<Rightarrow> u32 option" where
  "flag_of c =
     (if c = ch CHR ''i'' then Some FLAG_IGNORECASE
      else if c = ch CHR ''L'' then Some FLAG_LOCALE
      else if c = ch CHR ''m'' then Some FLAG_MULTILINE
      else if c = ch CHR ''s'' then Some FLAG_DOTALL
      else if c = ch CHR ''x'' then Some FLAG_VERBOSE
      else if c = ch CHR ''a'' then Some FLAG_ASCII
      else if c = ch CHR ''t'' then Some FLAG_TEMPLATE
      else if c = ch CHR ''u'' then Some FLAG_UNICODE
      else None)"

definition ID_START :: u16 where "ID_START = 0x400"
definition ID_CONTINUE :: u16 where "ID_CONTINUE = 0x800"

text \<open>\<^verbatim>\<open>pystr::is_identifier\<close>.\<close>

definition is_identifier :: "unidata \<Rightarrow> u32 list \<Rightarrow> bool" where
  "is_identifier u s =
     (case s of
        [] \<Rightarrow> False
      | c # rest \<Rightarrow> props u c AND ID_START \<noteq> 0 \<and> list_all (\<lambda>c. props u c AND ID_CONTINUE \<noteq> 0) rest)"

section \<open>The parser's state\<close>

record parser =
  ps_p :: "u32 list"
  ps_i :: nat
  ps_flags :: u32
  ps_groups :: nat
  ps_closed :: "bool list"
  ps_names :: "(u32 list \<times> nat) list"
  ps_lookbehind :: "nat option"
  ps_conds :: "nat list"

type_synonym 'a parse = "parser \<Rightarrow> (error option, 'a \<times> parser) result"

definition err :: "string \<Rightarrow> (error option, 'a) result" where
  "err msg = Inl (Some (Syntax msg))"

definition refused :: "string \<Rightarrow> (error option, 'a) result" where
  "refused msg = Inl (Some (Refused msg))"

definition MAXGROUPS :: nat where "MAXGROUPS = 0x3FFFFFFF"
definition MAX_NEST :: nat where "MAX_NEST = 200"

datatype esc = E_Lit u32 | E_Cat category | E_At at | E_Backref nat | E_Named

definition peek :: "parser \<Rightarrow> u32 option" where
  "peek ps = get_at (ps_p ps) (ps_i ps)"

definition adv :: "nat \<Rightarrow> parser \<Rightarrow> parser" where
  "adv n ps = ps\<lparr>ps_i := ps_i ps + n\<rparr>"

definition eat :: "char \<Rightarrow> parser \<Rightarrow> bool \<times> parser" where
  "eat c ps = (if peek ps = Some (ch c) then (True, adv 1 ps) else (False, ps))"

definition token :: "parser \<Rightarrow> ((u32 \<times> bool) \<times> parser) option" where
  "token ps =
     (case peek ps of
        None \<Rightarrow> None
      | Some c \<Rightarrow>
          (if c = BACKSLASH
           then (case get_at (ps_p ps) (ps_i ps + 1) of None \<Rightarrow> None | Some d \<Rightarrow> Some ((d, True), adv 2 ps))
           else Some ((c, False), adv 1 ps)))"

text \<open>How far a parser may go: what is left of the pattern.\<close>

definition left :: "parser \<Rightarrow> nat" where
  "left ps = length (ps_p ps) - ps_i ps"

lemma adv_simps [simp]:
  "ps_p (adv n ps) = ps_p ps" "ps_i (adv n ps) = ps_i ps + n" "ps_groups (adv n ps) = ps_groups ps"
  "ps_closed (adv n ps) = ps_closed ps" "left (adv n ps) = left ps - n" "ps_names (adv n ps) = ps_names ps"
  "ps_flags (adv n ps) = ps_flags ps" "ps_lookbehind (adv n ps) = ps_lookbehind ps" "ps_conds (adv n ps) = ps_conds ps"
  by (simp_all add: adv_def left_def)

lemma peek_left: "peek ps = Some c \<Longrightarrow> 0 < left ps"
  by (auto simp: peek_def get_at_def left_def split: if_splits)

lemma token_left: "token ps = Some (t, ps') \<Longrightarrow> left ps' < left ps"
  by (auto simp: token_def get_at_def left_def peek_def split: option.splits if_splits)

section \<open>Names\<close>

function until_loop :: "u32 \<Rightarrow> string \<Rightarrow> u32 list \<Rightarrow> u32 list parse" where
  "until_loop term what out ps =
     (case token ps of
        None \<Rightarrow> (if out = [] then err (''missing '' @ what) else err ''unterminated name'')
      | Some ((c, esc), ps) \<Rightarrow>
          (if \<not> esc \<and> c = term then (if out = [] then err (''missing '' @ what) else Inr (out, ps))
           else until_loop term what (out @ (if esc then [BACKSLASH] else []) @ [c]) ps))"
  by pat_completeness auto
termination
  by (relation "measure (\<lambda>(term, what, out, ps). left ps)") (auto dest: token_left)

declare until_loop.simps [simp del]

definition until :: "char \<Rightarrow> string \<Rightarrow> u32 list parse" where
  "until term what ps = until_loop (ch term) what [] ps"

definition check_name :: "unidata \<Rightarrow> u32 list \<Rightarrow> (error option, unit) result" where
  "check_name u name = (if is_identifier u name then Inr () else err ''bad character in group name'')"

definition group_closed :: "parser \<Rightarrow> nat \<Rightarrow> bool" where
  "group_closed ps g \<longleftrightarrow> g \<ge> 1 \<and> g \<le> ps_groups ps \<and> ps_closed ps ! g"

definition check_lookbehind_ref :: "parser \<Rightarrow> nat \<Rightarrow> (error option, unit) result" where
  "check_lookbehind_ref ps g =
     (case ps_lookbehind ps of
        None \<Rightarrow> Inr ()
      | Some before \<Rightarrow>
          (if \<not> group_closed ps g then err ''cannot refer to an open group''
           else if g > before then err ''cannot refer to group defined in the same lookbehind subpattern''
           else Inr ()))"

section \<open>Escapes\<close>

fun hex_loop :: "nat \<Rightarrow> u32 \<Rightarrow> u32 parse" where
  "hex_loop 0 v ps = Inr (v, ps)"
| "hex_loop (Suc n) v ps =
     (case Option.bind (peek ps) hex_val of
        Some d \<Rightarrow> hex_loop n (v * 16 + d) (adv 1 ps)
      | None \<Rightarrow> err ''incomplete escape'')"

definition hex_escape :: "nat \<Rightarrow> u32 parse" where
  "hex_escape n ps = hex_loop n 0 ps"

definition named_escape :: "esc parse" where
  "named_escape ps =
     (let (ok, ps) = eat CHR ''{'' ps
      in if \<not> ok then err ''missing {''
         else (let skipped = takeWhile (\<lambda>c. c \<noteq> ch CHR ''}'') (drop (ps_i ps) (ps_p ps));
                   after = adv (length skipped) ps
               in if peek after \<noteq> Some (ch CHR ''}'') \<or> skipped = [] then err ''missing character name''
                  else Inr (E_Named, adv 1 after)))"

text \<open>Up to \<open>n\<close> octal digits.\<close>

fun oct_loop :: "nat \<Rightarrow> u32 \<Rightarrow> parser \<Rightarrow> u32 \<times> parser" where
  "oct_loop 0 v ps = (v, ps)"
| "oct_loop (Suc n) v ps =
     (case peek ps of
        Some d \<Rightarrow> (if is_oct d then oct_loop n (v * 8 + (d - 0x30)) (adv 1 ps) else (v, ps))
      | None \<Rightarrow> (v, ps))"

definition hex_lit :: "nat \<Rightarrow> esc parse" where
  "hex_lit n ps = andthen (hex_escape n ps) (\<lambda>(v, ps). Inr (E_Lit v, ps))"

definition class_escape :: "u32 \<Rightarrow> esc parse" where
  "class_escape c ps =
     (if c = ch CHR ''d'' then Inr (E_Cat Digit, ps)
      else if c = ch CHR ''D'' then Inr (E_Cat NotDigit, ps)
      else if c = ch CHR ''s'' then Inr (E_Cat Space, ps)
      else if c = ch CHR ''S'' then Inr (E_Cat NotSpace, ps)
      else if c = ch CHR ''w'' then Inr (E_Cat Word, ps)
      else if c = ch CHR ''W'' then Inr (E_Cat NotWord, ps)
      else if c = ch CHR ''a'' then Inr (E_Lit 7, ps)
      else if c = ch CHR ''b'' then Inr (E_Lit 8, ps)
      else if c = ch CHR ''f'' then Inr (E_Lit 12, ps)
      else if c = ch CHR ''n'' then Inr (E_Lit 10, ps)
      else if c = ch CHR ''r'' then Inr (E_Lit 13, ps)
      else if c = ch CHR ''t'' then Inr (E_Lit 9, ps)
      else if c = ch CHR ''v'' then Inr (E_Lit 11, ps)
      else if c = BACKSLASH then Inr (E_Lit c, ps)
      else if c = ch CHR ''x'' then hex_lit 2 ps
      else if c = ch CHR ''u'' then hex_lit 4 ps
      else if c = ch CHR ''U''
      then andthen (hex_escape 8 ps) (\<lambda>(v, ps). if v > 0x10FFFF then err ''bad escape'' else Inr (E_Lit v, ps))
      else if c = ch CHR ''N'' then named_escape ps
      else if is_oct c
      then (let (v, ps) = oct_loop 2 (c - 0x30) ps
            in if v > 0xFF then err ''octal escape value outside of range 0-0o377'' else Inr (E_Lit v, ps))
      else if c = ch CHR ''8'' \<or> c = ch CHR ''9'' then err ''bad escape''
      else if is_ascii_letter c then err ''bad escape''
      else Inr (E_Lit c, ps))"

text \<open>A group reference, once its number is known.\<close>

definition group_ref :: "nat \<Rightarrow> esc parse" where
  "group_ref g ps =
     (if g \<le> ps_groups ps
      then (if \<not> group_closed ps g then err ''cannot refer to an open group''
            else andthen (check_lookbehind_ref ps g) (\<lambda>_. Inr (E_Backref g, ps)))
      else err ''invalid group reference'')"

definition digit_val :: "u32 \<Rightarrow> nat" where
  "digit_val d = unat (d - 0x30)"

definition ref_escape :: "u32 \<Rightarrow> esc parse" where
  "ref_escape c ps =
     (case peek ps of
        Some d \<Rightarrow>
          (if is_digit d
           then (let ps = adv 1 ps
                 in if is_oct c \<and> is_oct d
                    then (case peek ps of
                            Some e \<Rightarrow>
                              (if is_oct e
                               then (let v = (c - 0x30) * 64 + (d - 0x30) * 8 + (e - 0x30)
                                     in if v > 0xFF then err ''octal escape value outside of range 0-0o377''
                                        else Inr (E_Lit v, adv 1 ps))
                               else group_ref (digit_val c * 10 + digit_val d) ps)
                          | None \<Rightarrow> group_ref (digit_val c * 10 + digit_val d) ps)
                    else group_ref (digit_val c * 10 + digit_val d) ps)
           else group_ref (digit_val c) ps)
      | None \<Rightarrow> group_ref (digit_val c) ps)"

definition escape :: "u32 \<Rightarrow> esc parse" where
  "escape c ps =
     (if c = ch CHR ''A'' then Inr (E_At At_BeginningString, ps)
      else if c = ch CHR ''Z'' then Inr (E_At At_EndString, ps)
      else if c = ch CHR ''b'' then Inr (E_At At_Boundary, ps)
      else if c = ch CHR ''B'' then Inr (E_At At_NonBoundary, ps)
      else if c = ch CHR ''0'' then (let (v, ps) = oct_loop 2 0 ps in Inr (E_Lit v, ps))
      else if 0x31 \<le> c \<and> c \<le> 0x39 then ref_escape c ps
      else class_escape c ps)"

section \<open>How far the escapes read\<close>

definition steps :: "parser \<Rightarrow> parser \<Rightarrow> bool" where
  "steps ps ps' \<longleftrightarrow> left ps' \<le> left ps"

lemma eat_left: "eat c ps = (b, ps') \<Longrightarrow> left ps' \<le> left ps \<and> (b \<longrightarrow> left ps' < left ps)"
  by (auto simp: eat_def split: if_splits dest: peek_left)

lemma hex_loop_left: "hex_loop n v ps = Inr (w, ps') \<Longrightarrow> left ps' \<le> left ps"
proof (induction n arbitrary: v ps)
  case (Suc n)
  then obtain d where "hex_loop n (v * 16 + d) (adv 1 ps) = Inr (w, ps')"
    by (auto simp: err_def split: option.splits)
  from Suc.IH [OF this] show ?case by simp
qed simp

lemma oct_loop_left: "oct_loop n v ps = (w, ps') \<Longrightarrow> left ps' \<le> left ps"
proof (induction n arbitrary: v ps)
  case (Suc n)
  show ?case
  proof (cases "\<exists>d. peek ps = Some d \<and> is_oct d")
    case True
    then obtain d where "oct_loop n (v * 8 + (d - 0x30)) (adv 1 ps) = (w, ps')" using Suc.prems by auto
    from Suc.IH [OF this] show ?thesis by simp
  next
    case False
    then show ?thesis using Suc.prems by (auto split: option.splits if_splits)
  qed
qed simp

lemma named_escape_left: "named_escape ps = Inr (e, ps') \<Longrightarrow> left ps' \<le> left ps"
  by (auto simp: named_escape_def err_def Let_def split: prod.splits if_splits dest!: eat_left)

lemma class_escape_left: "class_escape c ps = Inr (e, ps') \<Longrightarrow> left ps' \<le> left ps"
  unfolding class_escape_def
  by (auto simp: err_def hex_lit_def hex_escape_def split: prod.splits if_splits
      dest!: named_escape_left hex_loop_left oct_loop_left)

lemma group_ref_state: "group_ref g ps = Inr (e, ps') \<Longrightarrow> ps' = ps"
  by (auto simp: group_ref_def err_def split: if_splits)

lemma ref_escape_left: "ref_escape c ps = Inr (e, ps') \<Longrightarrow> left ps' \<le> left ps"
  by (auto simp: ref_escape_def err_def Let_def split: option.splits if_splits dest!: group_ref_state)

lemma escape_left: "escape c ps = Inr (e, ps') \<Longrightarrow> left ps' \<le> left ps"
  unfolding escape_def
  by (auto split: prod.splits if_splits dest!: class_escape_left ref_escape_left oct_loop_left)

section \<open>Classes\<close>

definition item_of :: "esc \<Rightarrow> class_item" where
  "item_of e = (case e of E_Lit c \<Rightarrow> CLit c | E_Cat k \<Rightarrow> CCat k | _ \<Rightarrow> CLit 0)"

text \<open>The first of equal items, in order.\<close>

definition uniq_items :: "class_item list \<Rightarrow> class_item list" where
  "uniq_items items = foldl (\<lambda>acc it. if it \<in> set acc then acc else acc @ [it]) [] items"

definition esc_or_lit :: "u32 \<Rightarrow> bool \<Rightarrow> esc parse" where
  "esc_or_lit c esc ps = (if esc then class_escape c ps else Inr (E_Lit c, ps))"

lemma esc_or_lit_left: "esc_or_lit c esc ps = Inr (e, ps') \<Longrightarrow> left ps' \<le> left ps"
  by (auto simp: esc_or_lit_def split: if_splits dest: class_escape_left)

definition class_range :: "esc \<Rightarrow> esc \<Rightarrow> (error option, class_item) result" where
  "class_range first second =
     (case (first, second) of
        (E_Lit lo, E_Lit hi) \<Rightarrow> (if hi < lo then err ''bad character range'' else Inr (CRange lo hi))
      | (_, E_Named) \<Rightarrow> refused no_names
      | (E_Named, _) \<Rightarrow> refused no_names
      | _ \<Rightarrow> err ''bad character range'')"

text \<open>After the hyphen of a range: the range, or None at the end of the class.\<close>

definition range_rest :: "esc \<Rightarrow> class_item option parse" where
  "range_rest first ps =
     (case token ps of
        None \<Rightarrow> err ''unterminated character set''
      | Some ((d, desc), ps) \<Rightarrow>
          (if \<not> desc \<and> d = ch CHR '']'' then Inr (None, ps)
           else andthen (esc_or_lit d desc ps) (\<lambda>(second, ps).
             andthen (class_range first second) (\<lambda>it. Inr (Some it, ps)))))"

lemma range_rest_left: "range_rest first ps = Inr (r, ps') \<Longrightarrow> left ps' \<le> left ps"
  by (auto simp: range_rest_def err_def refused_def split: option.splits prod.splits if_splits
      dest!: token_left esc_or_lit_left)

function class_loop :: "class_item list \<Rightarrow> class_item list parse" where
  "class_loop items ps =
     (case token ps of
        None \<Rightarrow> err ''unterminated character set''
      | Some ((c, esc), ps) \<Rightarrow>
          (if \<not> esc \<and> c = ch CHR '']'' \<and> items \<noteq> [] then Inr (items, ps)
           else andthen (esc_or_lit c esc ps) (\<lambda>(first, ps).
             if first = E_Named then refused no_names
             else if peek ps = Some (ch CHR ''-'')
             then andthen (range_rest first (adv 1 ps)) (\<lambda>(r, ps).
                    case r of
                      None \<Rightarrow> Inr (items @ [item_of first, CLit (ch CHR ''-'')], ps)
                    | Some it \<Rightarrow> class_loop (items @ [it]) ps)
             else class_loop (items @ [item_of first]) ps)))"
  by pat_completeness auto
termination
  by (relation "measure (\<lambda>(items, ps). left ps)")
    (auto dest!: token_left esc_or_lit_left range_rest_left)

declare class_loop.simps [simp del]

definition class_node :: "class_item list \<Rightarrow> bool \<Rightarrow> node" where
  "class_node uniq negate =
     (case uniq of
        [CLit c] \<Rightarrow> (if negate then N_NotLit c else N_Lit c)
      | _ \<Rightarrow> N_Class uniq negate)"

definition parse_class :: "node parse" where
  "parse_class ps =
     (let (negate, ps) = eat CHR ''^'' ps
      in andthen (class_loop [] ps) (\<lambda>(items, ps). Inr (class_node (uniq_items items) negate, ps)))"

section \<open>Inline flags\<close>

datatype inline_flags = Global u32 | Scoped u32 u32

text \<open>The flags turned on, up to the character that ends them.\<close>

function flags_on :: "u32 \<Rightarrow> u32 \<Rightarrow> (u32 \<times> u32) parse" where
  "flags_on c add ps =
     (case flag_of c of
        None \<Rightarrow> err ''unknown flag''
      | Some f \<Rightarrow>
          (if c = ch CHR ''L'' then err ''bad inline flag: cannot use 'L' flag with a str pattern''
           else (let add = add OR f
                 in if f AND TYPE_FLAGS \<noteq> 0 \<and> add AND TYPE_FLAGS \<noteq> f
                    then err ''bad inline flag: flags 'a', 'u' and 'L' are incompatible''
                    else (case peek ps of
                            None \<Rightarrow> err ''missing -, : or )''
                          | Some c \<Rightarrow>
                              (let ps = adv 1 ps
                               in if c = ch CHR '')'' \<or> c = ch CHR ''-'' \<or> c = ch CHR '':'' then Inr ((c, add), ps)
                                  else if flag_of c = None then err ''unknown flag''
                                  else flags_on c add ps)))))"
  by pat_completeness auto
termination
  by (relation "measure (\<lambda>(c, add, ps). left ps)") (auto dest: peek_left)

function flags_off :: "u32 \<Rightarrow> u32 \<Rightarrow> u32 parse" where
  "flags_off c del ps =
     (let f = (case flag_of c of None \<Rightarrow> 0 | Some f \<Rightarrow> f)
      in if f AND TYPE_FLAGS \<noteq> 0 then err (''bad inline flag: cannot turn off flags 'a', 'u' and 'L'' @ [CHR 0x27])
         else (let del = del OR f
               in case peek ps of
                    None \<Rightarrow> err ''missing :''
                  | Some c \<Rightarrow>
                      (let ps = adv 1 ps
                       in if c = ch CHR '':'' then Inr (del, ps)
                          else if flag_of c = None then err ''missing :''
                          else flags_off c del ps)))"
  by pat_completeness auto
termination
  by (relation "measure (\<lambda>(c, del, ps). left ps)") (auto dest: peek_left)

declare flags_on.simps [simp del] flags_off.simps [simp del]

definition parse_flags :: "u32 \<Rightarrow> inline_flags parse" where
  "parse_flags first ps =
     andthen (if first \<noteq> ch CHR ''-'' then flags_on first 0 ps else Inr ((first, 0), ps)) (\<lambda>((c, add), ps).
       if c = ch CHR '')''
       then (if add AND FLAG_TEMPLATE \<noteq> 0 then refused ''the TEMPLATE flag'' else Inr (Global add, ps))
       else if add AND (FLAG_DEBUG OR FLAG_TEMPLATE) \<noteq> 0 then err ''bad inline flag: cannot turn on global flag''
       else andthen
              (if c = ch CHR ''-''
               then (case peek ps of
                       None \<Rightarrow> err ''missing flag''
                     | Some c \<Rightarrow> (if flag_of c = None then err ''missing flag'' else flags_off c 0 (adv 1 ps)))
               else Inr (0, ps)) (\<lambda>(del, ps).
              if del AND (FLAG_DEBUG OR FLAG_TEMPLATE) \<noteq> 0 then err ''bad inline flag: cannot turn off global flag''
              else if add AND del \<noteq> 0 then err ''bad inline flag: flag turned on and off''
              else Inr (Scoped add del, ps)))"

lemma flags_on_left: "flags_on c add ps = Inr (r, ps') \<Longrightarrow> left ps' \<le> left ps"
proof (induction c add ps rule: flags_on.induct)
  case (1 c add ps)
  show ?case using 1(2)
    by (subst (asm) flags_on.simps)
      (auto simp: err_def Let_def split: option.splits if_splits dest!: 1(1) [rotated -1])
qed

section \<open>Alternatives\<close>

definition same_simple :: "node \<Rightarrow> node \<Rightarrow> bool" where
  "same_simple x y =
     (case x of
        N_Lit a \<Rightarrow> (case y of N_Lit b \<Rightarrow> a = b | _ \<Rightarrow> False)
      | N_NotLit a \<Rightarrow> (case y of N_NotLit b \<Rightarrow> a = b | _ \<Rightarrow> False)
      | N_Class a na \<Rightarrow> (case y of N_Class b nb \<Rightarrow> na = nb \<and> a = b | _ \<Rightarrow> False)
      | N_Any \<Rightarrow> (case y of N_Any \<Rightarrow> True | _ \<Rightarrow> False)
      | N_At a \<Rightarrow> (case y of N_At b \<Rightarrow> a = b | _ \<Rightarrow> False)
      | N_Backref a \<Rightarrow> (case y of N_Backref b \<Rightarrow> a = b | _ \<Rightarrow> False)
      | _ \<Rightarrow> False)"

definition seq_node :: "node list \<Rightarrow> node" where
  "seq_node v = (case v of [x] \<Rightarrow> x | _ \<Rightarrow> N_Seq v)"

text \<open>The items all the alternatives begin with, and what is left of each.\<close>

function take_prefix :: "node list list \<Rightarrow> node list \<Rightarrow> node list \<times> node list list" where
  "take_prefix items prefix =
     (if items = [] \<or> list_ex (\<lambda>it. it = []) items then (prefix, items)
      else (let head = hd (hd items)
            in if list_all (\<lambda>it. same_simple (hd it) head) (tl items)
               then take_prefix (map tl items) (prefix @ [head])
               else (prefix, items)))"
  by pat_completeness auto
termination
  by (relation "measure (\<lambda>(items, prefix). length (hd items))") (auto simp: neq_Nil_conv)

declare take_prefix.simps [simp del]

text \<open>The items of one class, when each alternative is one literal or one class.\<close>

fun single_items :: "node list list \<Rightarrow> class_item list option" where
  "single_items [] = Some []"
| "single_items ([N_Lit c] # items) = map_option (\<lambda>s. CLit c # s) (single_items items)"
| "single_items ([N_Class cs False] # items) = map_option (\<lambda>s. cs @ s) (single_items items)"
| "single_items (_ # items) = None"

definition join_alternatives :: "node list list \<Rightarrow> node" where
  "join_alternatives items =
     (if length items = 1 then seq_node (hd items)
      else (let (prefix, items) = take_prefix items [];
                final = (case single_items items of
                           Some cs \<Rightarrow> N_Class (uniq_items cs) False
                         | None \<Rightarrow> N_Alt (map seq_node items))
            in if prefix = [] then final else N_Seq (prefix @ [final])))"

section \<open>Repeats\<close>

definition digits :: "parser \<Rightarrow> nat option \<times> parser" where
  "digits ps =
     (let ds = takeWhile is_digit (drop (ps_i ps) (ps_p ps))
      in (if ds = [] then None else Some (foldl (\<lambda>v c. sat64 (sat64 (v * 10) + digit_val c)) 0 ds),
          adv (length ds) ps))"

text \<open>The bounds of a repeat; None for a brace that is not one.\<close>

definition count_of :: "nat option \<Rightarrow> nat \<Rightarrow> (error option, nat) result" where
  "count_of n dflt =
     (case n of
        None \<Rightarrow> Inr dflt
      | Some v \<Rightarrow> (if v \<ge> MAXREPEAT then err ''the repetition number is too large'' else Inr v))"

definition brace_counts :: "(nat \<times> nat) option parse" where
  "brace_counts ps =
     (if peek ps = Some (ch CHR ''}'') then Inr (None, ps)
      else (let (lo, ps1) = digits ps;
                (comma, ps2) = eat CHR '','' ps1;
                (hi, ps3) = (if comma then digits ps2 else (lo, ps2));
                (close, ps4) = eat CHR ''}'' ps3
            in if \<not> close then Inr (None, ps)
               else andthen (count_of lo 0) (\<lambda>mn.
                    andthen (count_of hi MAXREPEAT) (\<lambda>mx.
                      if mx < mn then err ''min repeat greater than max repeat'' else Inr (Some (mn, mx), ps4)))))"

definition repeat_counts :: "u32 \<Rightarrow> (nat \<times> nat) option parse" where
  "repeat_counts c ps =
     (if c = ch CHR ''*'' then Inr (Some (0, MAXREPEAT), ps)
      else if c = ch CHR ''+'' then Inr (Some (1, MAXREPEAT), ps)
      else if c = ch CHR ''?'' then Inr (Some (0, 1), ps)
      else brace_counts ps)"

definition repeat_kind :: "parser \<Rightarrow> rep_kind \<times> parser" where
  "repeat_kind ps =
     (let (q, ps1) = eat CHR ''?'' ps
      in if q then (Lazy, ps1)
         else (let (p, ps2) = eat CHR ''+'' ps1 in if p then (Possessive, ps2) else (Greedy, ps2)))"

text \<open>The item to repeat: a non-capturing group without flags repeats its contents.\<close>

definition repeat_item :: "node list \<Rightarrow> (error option, node) result" where
  "repeat_item seq =
     (if seq = [] then err ''nothing to repeat''
      else case last seq of
             N_At _ \<Rightarrow> err ''nothing to repeat''
           | N_Repeat _ _ _ _ \<Rightarrow> err ''multiple repeat''
           | N_Group g add del body \<Rightarrow>
               Inr (if g = None \<and> add = 0 \<and> del = 0 then body else N_Group g add del body)
           | n \<Rightarrow> Inr n)"

definition parse_repeat :: "u32 \<Rightarrow> node list \<Rightarrow> node list parse" where
  "parse_repeat c seq ps =
     andthen (repeat_counts c ps) (\<lambda>(counts, ps).
       case counts of
         None \<Rightarrow> Inr (seq @ [N_Lit c], ps)
       | Some (mn, mx) \<Rightarrow>
           andthen (repeat_item seq) (\<lambda>item.
             let (kind, ps) = repeat_kind ps
             in Inr (butlast seq @ [N_Repeat mn mx kind item], ps)))"

section \<open>Groups and sequences\<close>

definition esc_node :: "esc \<Rightarrow> node" where
  "esc_node e =
     (case e of
        E_Lit v \<Rightarrow> N_Lit v
      | E_Cat k \<Rightarrow> N_Class [CCat k] False
      | E_At a \<Rightarrow> N_At a
      | E_Backref g \<Rightarrow> N_Backref g
      | E_Named \<Rightarrow> N_Named)"

fun splice :: "node list \<Rightarrow> node list" where
  "splice [] = []"
| "splice (N_Group None add del body # v) =
     (if add = 0 \<and> del = 0
      then (case body of N_Seq items \<Rightarrow> items | n \<Rightarrow> [n]) @ splice v
      else N_Group None add del body # splice v)"
| "splice (n # v) = n # splice v"

text \<open>A comment of a verbose pattern, to the end of the line; one of \<^verbatim>\<open>(?#...)\<close>, to the parenthesis.\<close>

function skip_line :: "parser \<Rightarrow> parser" where
  "skip_line ps =
     (case token ps of
        None \<Rightarrow> ps
      | Some ((d, esc), ps) \<Rightarrow> (if \<not> esc \<and> d = 0x0A then ps else skip_line ps))"
  by pat_completeness auto
termination
  by (relation "measure left") (auto dest: token_left)

function skip_comment :: "unit parse" where
  "skip_comment ps =
     (case token ps of
        None \<Rightarrow> err ''missing ), unterminated comment''
      | Some ((d, esc), ps) \<Rightarrow> (if \<not> esc \<and> d = ch CHR '')'' then Inr ((), ps) else skip_comment ps))"
  by pat_completeness auto
termination
  by (relation "measure left") (auto dest: token_left)

declare skip_line.simps [simp del] skip_comment.simps [simp del]

text \<open>Python's \<^verbatim>\<open>int()\<close> of a group number.\<close>

definition strip :: "(u32 \<Rightarrow> bool) \<Rightarrow> u32 list \<Rightarrow> u32 list" where
  "strip P s = rev (dropWhile P (rev (dropWhile P s)))"

fun int_loop :: "unidata \<Rightarrow> u32 list \<Rightarrow> nat \<Rightarrow> bool \<Rightarrow> nat option" where
  "int_loop u [] v prev_us = Some v"
| "int_loop u (c # t) v prev_us =
     (if c = ch CHR ''_'' then (if prev_us then None else int_loop u t v True)
      else (case decimal_value u c of
              None \<Rightarrow> None
            | Some d \<Rightarrow> int_loop u t (sat64 (sat64 (v * 10) + unat d)) False))"

definition py_int :: "unidata \<Rightarrow> u32 list \<Rightarrow> nat option" where
  "py_int u s =
     (let t = strip (is_space u) s;
          signed = (t \<noteq> [] \<and> (hd t = ch CHR ''+'' \<or> hd t = ch CHR ''-''));
          neg = (signed \<and> hd t = ch CHR ''-'');
          t = (if signed then tl t else t)
      in if t = [] \<or> hd t = ch CHR ''_'' \<or> last t = ch CHR ''_'' then None
         else (case int_loop u t 0 False of
                 None \<Rightarrow> None
               | Some v \<Rightarrow> (if neg \<and> v \<noteq> 0 then None else Some v)))"

text \<open>A named backreference \<^verbatim>\<open>(?P=name)\<close>, the group of a conditional, and a new capturing group.\<close>

definition named_ref :: "unidata \<Rightarrow> node option parse" where
  "named_ref u ps =
     andthen (until CHR '')'' ''group name'' ps) (\<lambda>(n, ps).
     andthen (check_name u n) (\<lambda>_.
       case map_of (ps_names ps) n of
         None \<Rightarrow> err ''unknown group name''
       | Some g \<Rightarrow>
           (if \<not> group_closed ps g then err ''cannot refer to an open group''
            else andthen (check_lookbehind_ref ps g) (\<lambda>_. Inr (Some (N_Backref g), ps)))))"

definition cond_group :: "unidata \<Rightarrow> nat parse" where
  "cond_group u ps =
     andthen (until CHR '')'' ''group name'' ps) (\<lambda>(cname, ps).
     andthen
       (if is_identifier u cname
        then (case map_of (ps_names ps) cname of None \<Rightarrow> err ''unknown group name'' | Some g \<Rightarrow> Inr (g, ps))
        else (case py_int u cname of
                None \<Rightarrow> err ''bad character in group name''
              | Some g \<Rightarrow>
                  (if g = 0 then err ''bad group number''
                   else if g \<ge> MAXGROUPS then err ''invalid group reference''
                   else Inr (g, ps\<lparr>ps_conds := ps_conds ps @ [g]\<rparr>)))) (\<lambda>(g, ps).
     andthen (check_lookbehind_ref ps g) (\<lambda>_. Inr (g, ps))))"

definition open_group :: "u32 list option \<Rightarrow> nat parse" where
  "open_group name ps =
     (let g = ps_groups ps + 1
      in if g > MAXGROUPS then err ''too many groups''
         else (let ps = ps\<lparr>ps_groups := g, ps_closed := ps_closed ps @ [False]\<rparr>
               in case name of
                    None \<Rightarrow> Inr (g, ps)
                  | Some n \<Rightarrow>
                      (if n \<in> fst ` set (ps_names ps) then err ''redefinition of group name''
                       else Inr (g, ps\<lparr>ps_names := ps_names ps @ [(n, g)]\<rparr>))))"

text \<open>
  What follows \<^verbatim>\<open>(\<close> before a body: an item that is complete, a lookaround, a conditional, a group with the
  flags it turns on and off, whether it captures (and under which name) or is atomic.
\<close>

datatype group_start =
    O_Done "node option"
  | O_Flags u32
  | O_Look bool bool
  | O_Cond nat
  | O_Group bool "u32 list option" u32 u32 bool

definition look_opening :: "u32 \<Rightarrow> group_start parse" where
  "look_opening c ps =
     (if c = ch CHR ''<''
      then (case peek ps of
              None \<Rightarrow> err ''unexpected end of pattern''
            | Some k \<Rightarrow>
                (if k \<noteq> ch CHR ''='' \<and> k \<noteq> ch CHR ''!'' then err ''unknown extension ?<''
                 else Inr (O_Look True (k = ch CHR ''!''), adv 1 ps)))
      else Inr (O_Look False (c = ch CHR ''!''), ps))"

definition named_opening :: "unidata \<Rightarrow> group_start parse" where
  "named_opening u ps =
     (let (lt, ps) = eat CHR ''<'' ps
      in if lt
         then andthen (until CHR ''>'' ''group name'' ps) (\<lambda>(n, ps).
              andthen (check_name u n) (\<lambda>_. Inr (O_Group True (Some n) 0 0 False, ps)))
         else (let (eq, ps) = eat CHR ''='' ps
               in if eq then andthen (named_ref u ps) (\<lambda>(n, ps). Inr (O_Done n, ps))
                  else err ''unknown extension ?P''))"

definition extension :: "unidata \<Rightarrow> u32 \<Rightarrow> group_start parse" where
  "extension u c ps =
     (if c = ch CHR ''P'' then named_opening u ps
      else if c = ch CHR '':'' then Inr (O_Group False None 0 0 False, ps)
      else if c = ch CHR ''#'' then andthen (skip_comment ps) (\<lambda>(_, ps). Inr (O_Done None, ps))
      else if c = ch CHR ''='' \<or> c = ch CHR ''!'' \<or> c = ch CHR ''<'' then look_opening c ps
      else if c = ch CHR ''('' then andthen (cond_group u ps) (\<lambda>(g, ps). Inr (O_Cond g, ps))
      else if c = ch CHR ''>'' then Inr (O_Group False None 0 0 True, ps)
      else if flag_of c \<noteq> None \<or> c = ch CHR ''-''
      then andthen (parse_flags c ps) (\<lambda>(f, ps).
             case f of Global a \<Rightarrow> Inr (O_Flags a, ps) | Scoped a d \<Rightarrow> Inr (O_Group False None a d False, ps))
      else err ''unknown extension'')"

definition opening_of :: "unidata \<Rightarrow> group_start parse" where
  "opening_of u ps =
     (let (q, ps) = eat CHR ''?'' ps
      in if \<not> q then Inr (O_Group True None 0 0 False, ps)
         else (case peek ps of
                 None \<Rightarrow> err ''unexpected end of pattern''
               | Some c \<Rightarrow> extension u c (adv 1 ps)))"

definition close_paren :: "parser \<Rightarrow> (error option, parser) result" where
  "close_paren ps =
     (let (ok, ps) = eat CHR '')'' ps in if ok then Inr ps else err ''missing ), unterminated subpattern'')"

text \<open>
  The three parsers that call one another: \<open>parse_alt\<close> (with the alternatives so far), \<open>parse_seq\<close> (with
  the items so far) and \<open>parse_group\<close>. A step of each, given the others; and the three, each with a bound on
  the calls still to come.
\<close>

type_synonym alt_parser = "bool \<Rightarrow> nat \<Rightarrow> node list list \<Rightarrow> node parse"
type_synonym seq_parser = "bool \<Rightarrow> nat \<Rightarrow> bool \<Rightarrow> node list \<Rightarrow> (node list \<times> bool) parse"
type_synonym group_parser = "bool \<Rightarrow> nat \<Rightarrow> bool \<Rightarrow> (node option \<times> bool) parse"

definition alt_step :: "alt_parser \<Rightarrow> seq_parser \<Rightarrow> alt_parser" where
  "alt_step alt sq verbose depth items ps =
     (if depth > MAX_NEST then refused ''nesting too deep''
      else (let first = (depth = 0 \<and> items = [])
            in andthen (sq verbose depth first [] ps) (\<lambda>((seq, v), ps).
                 let verbose = (if first then v else verbose);
                     items = items @ [seq];
                     (more, ps) = eat CHR ''|'' ps
                 in if more then alt verbose depth items ps
                    else Inr (join_alternatives items, ps))))"

definition seq_step :: "seq_parser \<Rightarrow> group_parser \<Rightarrow> seq_parser" where
  "seq_step sq grp verbose depth first seq ps =
     (case peek ps of
        None \<Rightarrow> Inr ((splice seq, verbose), ps)
      | Some c \<Rightarrow>
          (if c = ch CHR ''|'' \<or> c = ch CHR '')'' then Inr ((splice seq, verbose), ps)
           else (let ps = adv 1 ps
                 in if verbose \<and> is_ws c then sq verbose depth first seq ps
                    else if verbose \<and> c = ch CHR ''#'' then sq verbose depth first seq (skip_line ps)
                    else if c = BACKSLASH
                    then (case peek ps of
                            None \<Rightarrow> err ''bad escape (end of pattern)''
                          | Some d \<Rightarrow>
                              andthen (escape d (adv 1 ps)) (\<lambda>(e, ps).
                                sq verbose depth first (seq @ [esc_node e]) ps))
                    else if c = ch CHR ''[''
                    then andthen (parse_class ps) (\<lambda>(nd, ps). sq verbose depth first (seq @ [nd]) ps)
                    else if c = ch CHR ''*'' \<or> c = ch CHR ''+'' \<or> c = ch CHR ''?'' \<or> c = ch CHR ''{''
                    then andthen (parse_repeat c seq ps) (\<lambda>(seq, ps). sq verbose depth first seq ps)
                    else if c = ch CHR ''.'' then sq verbose depth first (seq @ [N_Any]) ps
                    else if c = ch CHR ''^'' then sq verbose depth first (seq @ [N_At At_Beginning]) ps
                    else if c = ch CHR ''$'' then sq verbose depth first (seq @ [N_At At_End]) ps
                    else if c = ch CHR ''(''
                    then andthen (grp verbose depth (first \<and> seq = []) ps) (\<lambda>((nd, verbose), ps).
                           sq verbose depth first (case nd of None \<Rightarrow> seq | Some nd \<Rightarrow> seq @ [nd]) ps)
                    else sq verbose depth first (seq @ [N_Lit c]) ps)))"

text \<open>The rest of a lookaround, of a conditional and of a group, by how it began.\<close>

definition parse_look :: "alt_parser \<Rightarrow> bool \<Rightarrow> nat \<Rightarrow> bool \<Rightarrow> bool \<Rightarrow> (node option \<times> bool) parse" where
  "parse_look alt verbose depth behind negate ps =
     (let saved = ps_lookbehind ps;
          ps = (if behind \<and> saved = None then ps\<lparr>ps_lookbehind := Some (ps_groups ps)\<rparr> else ps)
      in andthen (alt verbose (depth + 1) [] ps) (\<lambda>(body, ps).
         andthen (close_paren (if behind then ps\<lparr>ps_lookbehind := saved\<rparr> else ps)) (\<lambda>ps.
           Inr ((Some (N_Look behind negate body), verbose), ps))))"

definition cond_no :: "seq_parser \<Rightarrow> bool \<Rightarrow> nat \<Rightarrow> bool \<Rightarrow> node option parse" where
  "cond_no sq verbose depth bar ps =
     (if bar
      then andthen (sq verbose (depth + 1) False [] ps) (\<lambda>(no, ps).
             if peek ps = Some (ch CHR ''|'') then err ''conditional backref with more than two branches''
             else Inr (Some (N_Seq (fst no)), ps))
      else Inr (None, ps))"

definition parse_cond :: "seq_parser \<Rightarrow> bool \<Rightarrow> nat \<Rightarrow> nat \<Rightarrow> (node option \<times> bool) parse" where
  "parse_cond sq verbose depth g ps =
     andthen (sq verbose (depth + 1) False [] ps) (\<lambda>(yes, ps).
       let (bar, ps) = eat CHR ''|'' ps
       in andthen (cond_no sq verbose depth bar ps) (\<lambda>(no, ps).
          andthen (close_paren ps) (\<lambda>ps. Inr ((Some (N_Cond g (N_Seq (fst yes)) no), verbose), ps))))"

definition mark_closed :: "nat option \<Rightarrow> parser \<Rightarrow> parser" where
  "mark_closed g ps = (case g of Some g \<Rightarrow> ps\<lparr>ps_closed := (ps_closed ps)[g := True]\<rparr> | None \<Rightarrow> ps)"

definition parse_body ::
    "alt_parser \<Rightarrow> bool \<Rightarrow> nat \<Rightarrow> bool \<Rightarrow> u32 list option \<Rightarrow> u32 \<Rightarrow> u32 \<Rightarrow> bool \<Rightarrow> (node option \<times> bool) parse" where
  "parse_body alt verbose depth capture name add del atomic ps =
     andthen (if capture then andthen (open_group name ps) (\<lambda>(g, ps). Inr (Some g, ps)) else Inr (None, ps)) (\<lambda>(g, ps).
       let sub_verbose = ((verbose \<or> add AND FLAG_VERBOSE \<noteq> 0) \<and> del AND FLAG_VERBOSE = 0)
       in andthen (alt sub_verbose (depth + 1) [] ps) (\<lambda>(body, ps).
          andthen (close_paren ps) (\<lambda>ps.
            Inr ((Some (if atomic then N_Atomic body else N_Group g add del body), verbose), mark_closed g ps))))"

definition group_step :: "unidata \<Rightarrow> alt_parser \<Rightarrow> seq_parser \<Rightarrow> group_parser" where
  "group_step u alt sq verbose depth at_start ps =
     andthen (opening_of u ps) (\<lambda>(start, ps).
       case start of
         O_Done nd \<Rightarrow> Inr ((nd, verbose), ps)
       | O_Flags a \<Rightarrow>
           (if \<not> at_start then err ''global flags not at the start of the expression''
            else (let ps = ps\<lparr>ps_flags := ps_flags ps OR a\<rparr>
                  in Inr ((None, ps_flags ps AND FLAG_VERBOSE \<noteq> 0), ps)))
       | O_Look behind negate \<Rightarrow> parse_look alt verbose depth behind negate ps
       | O_Cond g \<Rightarrow> parse_cond sq verbose depth g ps
       | O_Group capture name add del atomic \<Rightarrow> parse_body alt verbose depth capture name add del atomic ps)"

fun parse_alt :: "nat \<Rightarrow> unidata \<Rightarrow> alt_parser"
  and parse_seq :: "nat \<Rightarrow> unidata \<Rightarrow> seq_parser"
  and parse_group :: "nat \<Rightarrow> unidata \<Rightarrow> group_parser" where
  "parse_alt 0 u = (\<lambda>verbose depth items ps. Inl None)"
| "parse_alt (Suc n) u = alt_step (parse_alt n u) (parse_seq n u)"
| "parse_seq 0 u = (\<lambda>verbose depth first seq ps. Inl None)"
| "parse_seq (Suc n) u = seq_step (parse_seq n u) (parse_group n u)"
| "parse_group 0 u = (\<lambda>verbose depth at_start ps. Inl None)"
| "parse_group (Suc n) u = group_step u (parse_alt n u) (parse_seq n u)"

section \<open>Parsing a pattern\<close>

text \<open>A lone backslash at the end.\<close>

fun lone_backslash :: "u32 list \<Rightarrow> bool" where
  "lone_backslash [] = False"
| "lone_backslash [c] = (c = BACKSLASH)"
| "lone_backslash (c # d # p) = (if c = BACKSLASH then lone_backslash p else lone_backslash (d # p))"

definition parse_start :: "u32 list \<Rightarrow> u32 \<Rightarrow> parser" where
  "parse_start pattern flags =
     \<lparr>ps_p = pattern, ps_i = 0, ps_flags = flags, ps_groups = 0, ps_closed = [False], ps_names = [],
      ps_lookbehind = None, ps_conds = []\<rparr>"

text \<open>Each call reads a character or is one of two in a row that do not.\<close>

definition parse_fuel :: "u32 list \<Rightarrow> nat" where
  "parse_fuel pattern = 3 * length pattern + 3"

definition parse :: "unidata \<Rightarrow> u32 list \<Rightarrow> u32 \<Rightarrow> (error option, parsed) result" where
  "parse u pattern flags =
     (if flags AND FLAG_LOCALE \<noteq> 0 then err ''cannot use LOCALE flag with a str pattern''
      else if flags AND FLAG_ASCII \<noteq> 0 \<and> flags AND FLAG_UNICODE \<noteq> 0
      then err ''ASCII and UNICODE flags are incompatible''
      else if flags AND FLAG_TEMPLATE \<noteq> 0 then refused ''the TEMPLATE flag''
      else if lone_backslash pattern then err ''bad escape (end of pattern)''
      else andthen (parse_alt (parse_fuel pattern) u (flags AND FLAG_VERBOSE \<noteq> 0) 0 [] (parse_start pattern flags))
             (\<lambda>(nd, ps).
        if ps_i ps < length pattern then err ''unbalanced parenthesis''
        else if list_ex (\<lambda>g. g > ps_groups ps) (ps_conds ps) then err ''invalid group reference''
        else (let f = ps_flags ps
              in if f AND FLAG_LOCALE \<noteq> 0 then err ''cannot use LOCALE flag with a str pattern''
                 else if f AND FLAG_ASCII \<noteq> 0 \<and> f AND FLAG_UNICODE \<noteq> 0
                 then err ''ASCII and UNICODE flags are incompatible''
                 else Inr \<lparr>p_node = nd, p_groups = ps_groups ps, p_names = ps_names ps,
                           p_flags = (if f AND FLAG_ASCII = 0 then f OR FLAG_UNICODE else f)\<rparr>)))"

end
