(* ===== verification/Parse.thy ===== *)
theory Parse
  imports Syntax
begin

text \<open>
  The parser returns (its recursion never meets the bound), and the tree it gives is well formed.
  The steps are reasoned about with \<open>meets\<close>: a result that is an error of the pattern, or satisfies a
  postcondition.
\<close>

section \<open>Postconditions\<close>

definition meets :: "(error option, 'a \<times> parser) result \<Rightarrow> ('a \<Rightarrow> parser \<Rightarrow> bool) \<Rightarrow> bool" where
  "meets r Q = (case r of Inl None \<Rightarrow> False | Inl (Some e) \<Rightarrow> True | Inr (x, ps) \<Rightarrow> Q x ps)"

lemma meets_simps [simp]:
  "meets (Inr (x, ps)) Q = Q x ps" "meets (err msg) Q" "meets (refused msg) Q" "\<not> meets (Inl None) Q"
  by (simp_all add: meets_def err_def refused_def)

lemma andthen_err [simp]: "andthen (err msg) f = err msg" "andthen (refused msg) f = refused msg"
  by (simp_all add: err_def refused_def)

lemma meets_andthen:
  assumes "meets r P" and "\<And>x ps. P x ps \<Longrightarrow> meets (f (x, ps)) Q"
  shows "meets (andthen r f) Q"
proof (cases r)
  case (Inl e)
  then show ?thesis using assms(1) by (cases e) (auto simp: meets_def)
next
  case (Inr y)
  then show ?thesis using assms by (cases y) (auto simp: meets_def [of r])
qed

lemma meets_mono: "meets r P \<Longrightarrow> (\<And>x ps. P x ps \<Longrightarrow> Q x ps) \<Longrightarrow> meets r Q"
  by (auto simp: meets_def split: sum.splits option.splits)

lemma meets_if: "(b \<Longrightarrow> meets r Q) \<Longrightarrow> (\<not> b \<Longrightarrow> meets s Q) \<Longrightarrow> meets (if b then r else s) Q"
  by simp

text \<open>A check without a result, or with one but no state.\<close>

definition checks :: "(error option, 'a) result \<Rightarrow> ('a \<Rightarrow> bool) \<Rightarrow> bool" where
  "checks r Q = (case r of Inl None \<Rightarrow> False | Inl (Some e) \<Rightarrow> True | Inr x \<Rightarrow> Q x)"

lemma checks_simps [simp]:
  "checks (Inr x) Q = Q x" "checks (err msg) Q" "checks (refused msg) Q"
  by (simp_all add: checks_def err_def refused_def)

lemma checks_andthen:
  assumes "checks r P" and "\<And>x. P x \<Longrightarrow> meets (f x) Q"
  shows "meets (andthen r f) Q"
proof (cases r)
  case (Inl e)
  then show ?thesis using assms(1) by (cases e) (auto simp: meets_def checks_def)
next
  case (Inr y)
  then show ?thesis using assms by (auto simp: checks_def)
qed

text \<open>A parser that only reads: the state after it is the state before it, further on.\<close>

definition moved :: "parser \<Rightarrow> parser \<Rightarrow> bool" where
  "moved ps ps' \<longleftrightarrow> (\<exists>k. ps' = adv k ps)"

lemma moved_refl [simp, intro]: "moved ps ps"
  unfolding moved_def by (rule exI [of _ 0]) (simp add: adv_def)

lemma adv_adv [simp]: "adv k (adv n ps) = adv (n + k) ps"
  by (simp add: adv_def add.assoc)

lemma moved_trans: "moved a b \<Longrightarrow> moved b c \<Longrightarrow> moved a c"
  by (auto simp: moved_def)

lemma moved_adv [simp, intro]: "moved ps (adv k ps)"
  by (auto simp: moved_def)

lemma moved_adv1: "moved (adv k ps) ps' \<Longrightarrow> moved ps ps'"
  by (auto simp: moved_def)

lemma moved_left: "moved ps ps' \<Longrightarrow> left ps' \<le> left ps"
  by (auto simp: moved_def)

lemma moved_groups: "moved ps ps' \<Longrightarrow> ps_groups ps' = ps_groups ps \<and> ps_closed ps' = ps_closed ps \<and> ps_names ps' = ps_names ps"
  by (auto simp: moved_def)

definition reads_on :: "(error option, 'a \<times> parser) result \<Rightarrow> parser \<Rightarrow> bool" where
  "reads_on r ps \<longleftrightarrow> meets r (\<lambda>x ps'. moved ps ps')"

lemma reads_on_simps [simp]: "reads_on (err msg) ps" "reads_on (refused msg) ps"
  "reads_on (Inr (x, ps')) ps = moved ps ps'"
  by (simp_all add: reads_on_def)

lemma reads_on_andthen:
  "reads_on r ps \<Longrightarrow> (\<And>x ps'. moved ps ps' \<Longrightarrow> reads_on (f (x, ps')) ps') \<Longrightarrow> reads_on (andthen r f) ps"
  unfolding reads_on_def by (erule meets_andthen) (auto intro: meets_mono moved_trans)

lemma reads_on_if: "(b \<Longrightarrow> reads_on r ps) \<Longrightarrow> (\<not> b \<Longrightarrow> reads_on s ps) \<Longrightarrow> reads_on (if b then r else s) ps"
  by simp

lemma reads_on_adv: "reads_on r (adv k ps) \<Longrightarrow> reads_on r ps"
  unfolding reads_on_def by (erule meets_mono) (rule moved_adv1)

lemma reads_on_moved: "moved ps ps' \<Longrightarrow> reads_on r ps' \<Longrightarrow> reads_on r ps"
  unfolding reads_on_def by (erule meets_mono) (rule moved_trans)

lemma eat_moved: "eat c ps = (b, ps') \<Longrightarrow> moved ps ps' \<and> (b \<longrightarrow> left ps' < left ps)"
  by (auto simp: eat_def split: if_splits dest: peek_left)

lemma token_moved: "token ps = Some (t, ps') \<Longrightarrow> moved ps ps' \<and> left ps' < left ps"
  using token_left by (fastforce simp: token_def split: option.splits if_splits)

section \<open>Escapes, classes and flags only read\<close>

lemma hex_loop_reads: "reads_on (hex_loop n v ps) ps"
  by (induction n arbitrary: v ps) (auto split: option.splits intro: reads_on_adv)

lemma oct_loop_moved: "moved ps (snd (oct_loop n v ps))"
  by (induction n arbitrary: v ps) (auto split: option.splits intro: moved_adv1)

lemma named_escape_reads: "reads_on (named_escape ps) ps"
  by (auto simp: named_escape_def Let_def split: prod.splits dest!: eat_moved intro: moved_trans)

lemma hex_lit_reads: "reads_on (hex_lit n ps) ps"
  unfolding hex_lit_def hex_escape_def by (rule reads_on_andthen [OF hex_loop_reads]) simp

lemma oct_escape_reads:
  "reads_on (let (v, ps) = oct_loop n c ps in if v > 0xFF then err msg else Inr (E_Lit v, ps)) ps"
  using oct_loop_moved [of ps n c] by (auto split: prod.splits)

lemma class_escape_reads: "reads_on (class_escape c ps) ps"
proof -
  have U: "reads_on (andthen (hex_escape 8 ps) (\<lambda>(v, ps). if v > 0x10FFFF then err ''bad escape'' else Inr (E_Lit v, ps))) ps"
    unfolding hex_escape_def by (rule reads_on_andthen [OF hex_loop_reads]) auto
  show ?thesis
    unfolding class_escape_def
    by (intro reads_on_if hex_lit_reads named_escape_reads U oct_escape_reads) simp_all
qed

lemma group_ref_reads: "reads_on (group_ref g ps) ps"
  by (auto simp: group_ref_def check_lookbehind_ref_def reads_on_def split: option.splits)

lemma ref_escape_reads: "reads_on (ref_escape c ps) ps"
proof -
  have "reads_on (group_ref g (adv k ps)) ps" for g k by (rule reads_on_adv) (rule group_ref_reads)
  then show ?thesis using group_ref_reads by (simp add: ref_escape_def Let_def split: option.splits)
qed

lemma escape_reads: "reads_on (escape c ps) ps"
  unfolding escape_def
  by (intro reads_on_if class_escape_reads ref_escape_reads)
    (use oct_loop_moved [of ps 2 0] in \<open>simp_all add: case_prod_beta\<close>)

lemma esc_or_lit_reads: "reads_on (esc_or_lit c esc ps) ps"
  by (simp add: esc_or_lit_def class_escape_reads)

text \<open>The items of a class: ranges in order.\<close>

fun item_ok :: "class_item \<Rightarrow> bool" where
  "item_ok (CRange lo hi) \<longleftrightarrow> lo \<le> hi"
| "item_ok _ \<longleftrightarrow> True"

lemma item_of_ok [simp]: "item_ok (item_of e)"
  by (simp add: item_of_def split: esc.split)

lemma class_range_checks: "checks (class_range a b) item_ok"
  by (auto simp: class_range_def split: esc.splits)

lemma range_rest_meets: "meets (range_rest first ps) (\<lambda>r ps'. moved ps ps' \<and> (\<forall>it. r = Some it \<longrightarrow> item_ok it))"
proof (cases "token ps")
  case (Some t)
  obtain d desc ps' where t: "t = ((d, desc), ps')" by (cases t) auto
  have m: "moved ps ps'" using token_moved Some t by blast
  have "meets (andthen (esc_or_lit d desc ps') (\<lambda>(second, ps).
             andthen (class_range first second) (\<lambda>it. Inr (Some it, ps)))) (\<lambda>r rs. moved ps rs \<and> (\<forall>it. r = Some it \<longrightarrow> item_ok it))"
    by (rule meets_andthen [OF esc_or_lit_reads [unfolded reads_on_def]])
      (auto intro!: checks_andthen [OF class_range_checks] intro: moved_trans [OF m])
  then show ?thesis using m by (auto simp: range_rest_def Some t)
qed (simp add: range_rest_def)

abbreviation class_done :: "parser \<Rightarrow> class_item list \<Rightarrow> parser \<Rightarrow> bool" where
  "class_done ps its ps' \<equiv> moved ps ps' \<and> its \<noteq> [] \<and> list_all item_ok its"

lemma class_loop_meets: "list_all item_ok items \<Longrightarrow> meets (class_loop items ps) (class_done ps)"
proof (induction "left ps" arbitrary: items ps rule: less_induct)
  case less
  show ?case
  proof (cases "token ps")
    case (Some t)
    obtain c esc ps' where t: "t = ((c, esc), ps')" by (cases t) auto
    have m: "moved ps ps'" "left ps' < left ps" using token_moved Some t by blast+
    have again: "meets (class_loop (items @ [it]) qs) (class_done ps)" if "moved ps' qs" "item_ok it" for it qs
    proof (rule meets_mono [OF less.hyps])
      show "left qs < left ps" using moved_left [OF that(1)] m(2) by simp
      show "list_all item_ok (items @ [it])" using less.prems that(2) by simp
      fix x rs assume "class_done qs x rs"
      then show "class_done ps x rs" using m(1) that(1) moved_trans by blast
    qed
    have range: "meets (andthen (range_rest first (adv 1 qs)) (\<lambda>(r, ps).
                    case r of
                      None \<Rightarrow> Inr (items @ [item_of first, CLit (ch CHR ''-'')], ps)
                    | Some it \<Rightarrow> class_loop (items @ [it]) ps)) (class_done ps)" if "moved ps' qs" for first qs
      using that less.prems again
      by (intro meets_andthen [OF range_rest_meets])
        (auto split: option.splits intro: moved_trans [OF m(1)] moved_trans [OF that] moved_adv1)
    have "meets (andthen (esc_or_lit c esc ps') (\<lambda>(first, ps).
             if first = E_Named then refused no_names
             else if peek ps = Some (ch CHR ''-'')
             then andthen (range_rest first (adv 1 ps)) (\<lambda>(r, ps).
                    case r of
                      None \<Rightarrow> Inr (items @ [item_of first, CLit (ch CHR ''-'')], ps)
                    | Some it \<Rightarrow> class_loop (items @ [it]) ps)
             else class_loop (items @ [item_of first]) ps)) (class_done ps)"
      by (rule meets_andthen [OF esc_or_lit_reads [unfolded reads_on_def]])
        (simp only: split, intro meets_if range again, simp_all)
    then show ?thesis using m(1) less.prems by (subst class_loop.simps) (auto simp: Some t)
  qed (simp add: class_loop.simps)
qed

section \<open>Well-formed trees\<close>

text \<open>
  A tree of a pattern with \<open>n\<close> groups: group numbers in range, repeat counts in order and below Python's
  bound, no empty alternation, no empty class.
\<close>

primrec node_ok :: "nat \<Rightarrow> node \<Rightarrow> bool" where
  "node_ok n (N_Lit c) \<longleftrightarrow> True"
| "node_ok n (N_NotLit c) \<longleftrightarrow> True"
| "node_ok n (N_Class items negate) \<longleftrightarrow> items \<noteq> [] \<and> list_all item_ok items"
| "node_ok n N_Any \<longleftrightarrow> True"
| "node_ok n (N_At a) \<longleftrightarrow> True"
| "node_ok n N_Named \<longleftrightarrow> True"
| "node_ok n (N_Backref g) \<longleftrightarrow> 1 \<le> g \<and> g \<le> n"
| "node_ok n (N_Group g add del b) \<longleftrightarrow> (\<forall>k. g = Some k \<longrightarrow> 1 \<le> k \<and> k \<le> n) \<and> node_ok n b"
| "node_ok n (N_Atomic b) \<longleftrightarrow> node_ok n b"
| "node_ok n (N_Look behind negate b) \<longleftrightarrow> node_ok n b"
| "node_ok n (N_Seq v) \<longleftrightarrow> list_all (\<lambda>x. x) (map (node_ok n) v)"
| "node_ok n (N_Alt v) \<longleftrightarrow> v \<noteq> [] \<and> list_all (\<lambda>x. x) (map (node_ok n) v)"
| "node_ok n (N_Repeat mn mx kind b) \<longleftrightarrow> mn \<le> mx \<and> mn < MAXREPEAT \<and> mx \<le> MAXREPEAT \<and> node_ok n b"
| "node_ok n (N_Cond g yes no) \<longleftrightarrow>
     node_ok n yes \<and> (case map_option (node_ok n) no of None \<Rightarrow> True | Some x \<Rightarrow> x)"

abbreviation nodes_ok :: "nat \<Rightarrow> node list \<Rightarrow> bool" where
  "nodes_ok n \<equiv> list_all (node_ok n)"

lemma nodes_ok_map [simp]: "list_all (\<lambda>x. x) (map (node_ok n) v) \<longleftrightarrow> nodes_ok n v"
  by (simp add: list.pred_map comp_def)

lemma node_ok_mono: "node_ok n x \<Longrightarrow> n \<le> m \<Longrightarrow> node_ok m x"
proof (induction x)
  case (N_Seq v)
  then show ?case by (auto simp: list_all_iff)
next
  case (N_Alt v)
  then show ?case by (auto simp: list_all_iff)
next
  case (N_Cond g yes no)
  then show ?case by (cases no) auto
qed auto

lemma nodes_ok_mono: "nodes_ok n v \<Longrightarrow> n \<le> m \<Longrightarrow> nodes_ok m v"
  by (auto simp: list_all_iff intro: node_ok_mono)

lemma set_uniq_items: "set (uniq_items its) = set its"
proof -
  have "set (foldl (\<lambda>acc it. if it \<in> set acc then acc else acc @ [it]) acc its) = set acc \<union> set its" for acc
    by (induction its arbitrary: acc) auto
  then show ?thesis by (simp add: uniq_items_def)
qed

lemma uniq_items_ok: "its \<noteq> [] \<Longrightarrow> list_all item_ok its \<Longrightarrow> uniq_items its \<noteq> [] \<and> list_all item_ok (uniq_items its)"
  using set_uniq_items [of its] by (auto simp: list_all_iff)

lemma class_node_ok: "its \<noteq> [] \<Longrightarrow> list_all item_ok its \<Longrightarrow> node_ok n (class_node its negate)"
  by (auto simp: class_node_def split: list.splits class_item.splits)

lemma parse_class_meets: "meets (parse_class ps) (\<lambda>nd ps'. moved ps ps' \<and> node_ok n nd)"
proof -
  obtain negate ps1 where e: "eat CHR ''^'' ps = (negate, ps1)" by fastforce
  have m: "moved ps ps1" using eat_moved [OF e] by simp
  show ?thesis unfolding parse_class_def e Let_def prod.case
    by (rule meets_andthen [OF class_loop_meets])
      (auto intro: moved_trans [OF m] class_node_ok dest: uniq_items_ok)
qed

section \<open>Alternatives and repeats\<close>

lemma splice_ok: "nodes_ok n v \<Longrightarrow> nodes_ok n (splice v)"
  by (induction v rule: splice.induct) (auto split: node.splits)

lemma seq_node_ok: "nodes_ok n v \<Longrightarrow> node_ok n (seq_node v)"
  by (auto simp: seq_node_def split: list.splits)

lemma take_prefix_ok:
  "take_prefix items prefix = (prefix', items') \<Longrightarrow> list_all (nodes_ok n) items \<Longrightarrow> nodes_ok n prefix \<Longrightarrow>
   nodes_ok n prefix' \<and> list_all (nodes_ok n) items' \<and> length items' = length items"
proof (induction items prefix rule: take_prefix.induct)
  case (1 items prefix)
  show ?case
  proof (cases "(items = [] \<or> list_ex (\<lambda>it. it = []) items) \<or>
      \<not> list_all (\<lambda>it. same_simple (hd it) (hd (hd items))) (tl items)")
    case True
    then have "take_prefix items prefix = (prefix, items)" by (subst take_prefix.simps) (auto simp: Let_def)
    then show ?thesis using "1.prems" by simp
  next
    case False
    then have r: "take_prefix (map tl items) (prefix @ [hd (hd items)]) = (prefix', items')"
      using "1.prems"(1) by (subst (asm) take_prefix.simps) (auto simp: Let_def)
    have ne: "items \<noteq> []" "\<forall>it \<in> set items. it \<noteq> []" using False by (auto simp: list_ex_iff)
    then have "node_ok n (hd (hd items))" using "1.prems"(2) by (cases items) (auto simp: neq_Nil_conv)
    moreover have "list_all (nodes_ok n) (map tl items)"
      using "1.prems"(2) ne(2) by (fastforce simp: list_all_iff dest: list.set_sel(2))
    ultimately show ?thesis using "1.IH" [OF _ refl _ r] False "1.prems"(3) by auto
  qed
qed

lemma single_items_ok:
  "single_items items = Some cs \<Longrightarrow> list_all (nodes_ok n) items \<Longrightarrow> items \<noteq> [] \<Longrightarrow> cs \<noteq> [] \<and> list_all item_ok cs"
proof (induction items arbitrary: cs rule: single_items.induct)
  case (2 c items)
  then show ?case by (cases items) auto
next
  case (3 ds items)
  then show ?case by (cases items) auto
qed auto

lemma join_alternatives_ok:
  assumes "list_all (nodes_ok n) items" and "items \<noteq> []"
  shows "node_ok n (join_alternatives items)"
proof (cases "length items = 1")
  case True
  then show ?thesis using assms by (cases items) (auto simp: join_alternatives_def seq_node_ok)
next
  case False
  obtain prefix items' where t: "take_prefix items [] = (prefix, items')" by fastforce
  from take_prefix_ok [OF t assms(1)] have ok: "nodes_ok n prefix" "list_all (nodes_ok n) items'" "items' \<noteq> []"
    using assms(2) by auto
  have "node_ok n (case single_items items' of Some cs \<Rightarrow> N_Class (uniq_items cs) False | None \<Rightarrow> N_Alt (map seq_node items'))"
  proof (cases "single_items items'")
    case None
    then show ?thesis using ok(2,3) by (auto simp: list_all_iff intro!: seq_node_ok)
  next
    case (Some cs)
    then show ?thesis using single_items_ok [OF Some ok(2,3)] uniq_items_ok [of cs] by simp
  qed
  then show ?thesis using False ok(1) by (simp add: join_alternatives_def t Let_def)
qed

lemma digits_moved: "moved ps (snd (digits ps))"
  by (simp add: digits_def Let_def)

lemma count_of_checks: "d \<le> MAXREPEAT \<Longrightarrow> checks (count_of k d) (\<lambda>v. v \<le> MAXREPEAT \<and> (d < MAXREPEAT \<longrightarrow> v < MAXREPEAT))"
  by (auto simp: count_of_def split: option.splits)

lemma brace_counts_meets:
  "meets (brace_counts ps) (\<lambda>r ps'. moved ps ps' \<and> (\<forall>mn mx. r = Some (mn, mx) \<longrightarrow> mn \<le> mx \<and> mn < MAXREPEAT \<and> mx \<le> MAXREPEAT))"
proof -
  obtain lo ps1 where a: "digits ps = (lo, ps1)" by fastforce
  obtain comma ps2 where b: "eat CHR '','' ps1 = (comma, ps2)" by fastforce
  obtain hi ps3 where c: "(if comma then digits ps2 else (lo, ps2)) = (hi, ps3)" by fastforce
  obtain close ps4 where d: "eat CHR ''}'' ps3 = (close, ps4)" by fastforce
  have m1: "moved ps ps1" using digits_moved [of ps] a by simp
  have m2: "moved ps1 ps2" using eat_moved [OF b] by simp
  have m3: "moved ps2 ps3" using digits_moved [of ps2] c by (cases comma) auto
  have m4: "moved ps3 ps4" using eat_moved [OF d] by simp
  have m: "moved ps ps4" using m1 m2 m3 m4 moved_trans by blast
  have lt: "checks (count_of lo 0) (\<lambda>mn. mn < MAXREPEAT)"
    using count_of_checks [of 0 lo] by (auto simp: checks_def MAXREPEAT_def split: sum.splits option.splits)
  have "meets (andthen (count_of lo 0) (\<lambda>mn. andthen (count_of hi MAXREPEAT) (\<lambda>mx.
           if mx < mn then err ''min repeat greater than max repeat'' else Inr (Some (mn, mx), ps4))))
      (\<lambda>r ps'. moved ps ps' \<and> (\<forall>mn mx. r = Some (mn, mx) \<longrightarrow> mn \<le> mx \<and> mn < MAXREPEAT \<and> mx \<le> MAXREPEAT))"
    by (rule checks_andthen [OF lt], rule checks_andthen [OF count_of_checks]) (auto intro: m)
  then show ?thesis by (simp add: brace_counts_def a b c d)
qed

lemma repeat_counts_meets:
  "meets (repeat_counts c ps) (\<lambda>r ps'. moved ps ps' \<and> (\<forall>mn mx. r = Some (mn, mx) \<longrightarrow> mn \<le> mx \<and> mn < MAXREPEAT \<and> mx \<le> MAXREPEAT))"
  unfolding repeat_counts_def by (intro meets_if brace_counts_meets) (auto simp: MAXREPEAT_def)

lemma repeat_kind_moved: "moved ps (snd (repeat_kind ps))"
  using eat_moved moved_trans by (auto simp: repeat_kind_def Let_def split: prod.splits) (metis moved_trans)+

lemma repeat_item_checks: "nodes_ok n seq \<Longrightarrow> checks (repeat_item seq) (\<lambda>item. node_ok n item \<and> seq \<noteq> [])"
  by (cases seq rule: rev_cases) (auto simp: repeat_item_def split: node.splits)

lemma parse_repeat_meets:
  assumes "nodes_ok n seq"
  shows "meets (parse_repeat c seq ps) (\<lambda>seq' ps'. moved ps ps' \<and> nodes_ok n seq')"
  unfolding parse_repeat_def
proof (rule meets_andthen [OF repeat_counts_meets], elim conjE)
  fix counts ps1
  assume m: "moved ps ps1" and b: "\<forall>mn mx. counts = Some (mn, mx) \<longrightarrow> mn \<le> mx \<and> mn < MAXREPEAT \<and> mx \<le> MAXREPEAT"
  show "meets (case (counts, ps1) of (counts, ps) \<Rightarrow> case counts of
         None \<Rightarrow> Inr (seq @ [N_Lit c], ps)
       | Some (mn, mx) \<Rightarrow> andthen (repeat_item seq) (\<lambda>item.
             let (kind, ps) = repeat_kind ps in Inr (butlast seq @ [N_Repeat mn mx kind item], ps)))
      (\<lambda>seq' ps'. moved ps ps' \<and> nodes_ok n seq')"
  proof (cases counts)
    case (Some p)
    obtain mn mx where p: "p = (mn, mx)" by fastforce
    have "nodes_ok n (butlast seq)" using assms by (auto simp: list_all_iff dest: in_set_butlastD)
    moreover have "moved ps (snd (repeat_kind ps1))" using m repeat_kind_moved moved_trans by blast
    ultimately show ?thesis using b
      by (auto simp: Some p Let_def split: prod.splits intro!: checks_andthen [OF repeat_item_checks [OF assms]])
  qed (use m assms in simp)
qed

section \<open>Openings of groups\<close>

lemma until_loop_reads: "reads_on (until_loop t w out ps) ps"
proof (induction "left ps" arbitrary: out ps rule: less_induct)
  case less
  show ?case
  proof (cases "token ps")
    case (Some x)
    obtain c esc ps' where x: "x = ((c, esc), ps')" by (cases x) auto
    have m: "moved ps ps'" "left ps' < left ps" using token_moved Some x by blast+
    then show ?thesis using reads_on_moved [OF m(1) less.hyps [OF m(2)]] by (subst until_loop.simps) (simp add: Some x)
  qed (simp add: until_loop.simps)
qed

lemma skip_comment_reads: "reads_on (skip_comment ps) ps"
proof (induction "left ps" arbitrary: ps rule: less_induct)
  case less
  show ?case
  proof (cases "token ps")
    case (Some x)
    obtain c esc ps' where x: "x = ((c, esc), ps')" by (cases x) auto
    have m: "moved ps ps'" "left ps' < left ps" using token_moved Some x by blast+
    then show ?thesis using reads_on_moved [OF m(1) less.hyps [OF m(2)]] by (subst skip_comment.simps) (simp add: Some x)
  qed (simp add: skip_comment.simps)
qed

lemma skip_line_moved: "moved ps (skip_line ps)"
proof (induction "left ps" arbitrary: ps rule: less_induct)
  case less
  show ?case
  proof (cases "token ps")
    case (Some x)
    obtain c esc ps' where x: "x = ((c, esc), ps')" by (cases x) auto
    have m: "moved ps ps'" "left ps' < left ps" using token_moved Some x by blast+
    then show ?thesis using moved_trans [OF m(1) less.hyps [OF m(2)]] by (subst skip_line.simps) (simp add: Some x)
  qed (simp add: skip_line.simps)
qed

lemma flags_on_reads: "reads_on (flags_on c add ps) ps"
proof (induction "left ps" arbitrary: c add ps rule: less_induct)
  case less
  show ?case
  proof (cases "peek ps")
    case None
    show ?thesis by (subst flags_on.simps, cases "flag_of c") (simp_all only: None option.case Let_def reads_on_simps if_cancel split: if_split, simp)
  next
    case (Some d)
    have "reads_on (flags_on d a (adv 1 ps)) ps" for a
      by (rule reads_on_adv [of _ 1], rule less.hyps) (use peek_left [OF Some] in simp)
    then show ?thesis
      by (subst flags_on.simps, cases "flag_of c") (simp_all only: Some option.case Let_def reads_on_simps moved_adv simp_thms split: if_split)
  qed
qed

lemma flags_off_reads: "reads_on (flags_off c del ps) ps"
proof (induction "left ps" arbitrary: c del ps rule: less_induct)
  case less
  show ?case
  proof (cases "peek ps")
    case None
    show ?thesis by (subst flags_off.simps) (simp only: None option.case Let_def reads_on_simps split: if_split, simp)
  next
    case (Some d)
    have "reads_on (flags_off d a (adv 1 ps)) ps" for a
      by (rule reads_on_adv [of _ 1], rule less.hyps) (use peek_left [OF Some] in simp)
    then show ?thesis
      by (subst flags_off.simps) (simp only: Some option.case Let_def reads_on_simps moved_adv simp_thms split: if_split)
  qed
qed

lemma parse_flags_reads: "reads_on (parse_flags c ps) ps"
proof -
  have off: "reads_on (if d = ch CHR ''-'' then (case peek qs of None \<Rightarrow> err ''missing flag''
       | Some c \<Rightarrow> (if flag_of c = None then err ''missing flag'' else flags_off c 0 (adv 1 qs)))
       else Inr (0, qs)) qs" for d qs
    using reads_on_adv [OF flags_off_reads] by (auto split: option.splits)
  show ?thesis unfolding parse_flags_def
    by (rule reads_on_andthen)
      (auto intro!: flags_on_reads reads_on_if reads_on_andthen [OF off])
qed

section \<open>The state of the parser\<close>

text \<open>One flag per group and one for group 0; names of groups that are there.\<close>

definition parser_ok :: "parser \<Rightarrow> bool" where
  "parser_ok ps \<longleftrightarrow>
     length (ps_closed ps) = ps_groups ps + 1 \<and> distinct (map fst (ps_names ps)) \<and>
     (\<forall>(n, g) \<in> set (ps_names ps). 1 \<le> g \<and> g \<le> ps_groups ps)"

definition later :: "parser \<Rightarrow> parser \<Rightarrow> bool" where
  "later ps ps' \<longleftrightarrow> left ps' \<le> left ps \<and> ps_groups ps \<le> ps_groups ps' \<and> (parser_ok ps \<longrightarrow> parser_ok ps')"

lemma later_refl [simp, intro]: "later ps ps"
  by (simp add: later_def)

lemma later_trans: "later a b \<Longrightarrow> later b c \<Longrightarrow> later a c"
  by (auto simp: later_def)

lemma moved_later: "moved ps ps' \<Longrightarrow> later ps ps'"
  by (auto simp: moved_def later_def parser_ok_def)

text \<open>Changes of the flags, the lookbehind's groups and the conditionals.\<close>

lemma parser_ok_fields [simp]:
  "parser_ok (ps\<lparr>ps_flags := f\<rparr>) = parser_ok ps" "parser_ok (ps\<lparr>ps_lookbehind := l\<rparr>) = parser_ok ps"
  "parser_ok (ps\<lparr>ps_conds := c\<rparr>) = parser_ok ps"
  "left (ps\<lparr>ps_flags := f\<rparr>) = left ps" "left (ps\<lparr>ps_lookbehind := l\<rparr>) = left ps" "left (ps\<lparr>ps_conds := c\<rparr>) = left ps"
  "left (ps\<lparr>ps_closed := z\<rparr>) = left ps"
  by (simp_all add: parser_ok_def left_def)

lemma later_fields [simp]:
  "later a (b\<lparr>ps_flags := f\<rparr>) = later a b" "later a (b\<lparr>ps_lookbehind := l\<rparr>) = later a b" "later a (b\<lparr>ps_conds := c\<rparr>) = later a b"
  "later (a\<lparr>ps_lookbehind := l\<rparr>) b = later a b"
  by (simp_all add: later_def)

lemma later_closed: "later a b \<Longrightarrow> later a (b\<lparr>ps_closed := (ps_closed b)[g := v]\<rparr>)"
  by (auto simp: later_def parser_ok_def)

lemma group_closed_bounds: "group_closed ps g \<Longrightarrow> 1 \<le> g \<and> g \<le> ps_groups ps"
  by (simp add: group_closed_def)

lemma check_lookbehind_checks: "checks (check_lookbehind_ref ps g) (\<lambda>_. True)"
  by (auto simp: check_lookbehind_ref_def split: option.splits)

lemma check_name_checks: "checks (check_name u n) (\<lambda>_. True)"
  by (auto simp: check_name_def)

lemma until_meets: "meets (until t w ps) (\<lambda>x. moved ps)"
  using until_loop_reads by (simp add: until_def reads_on_def)

section \<open>Openings\<close>

definition started :: "parser \<Rightarrow> group_start \<Rightarrow> parser \<Rightarrow> bool" where
  "started ps s ps' \<longleftrightarrow> later ps ps' \<and> (\<forall>nd. s = O_Done (Some nd) \<longrightarrow> node_ok (ps_groups ps') nd)"

lemma group_ref_meets:
  "meets (group_ref g ps) (\<lambda>e ps'. moved ps ps' \<and> node_ok (ps_groups ps) (esc_node e))"
  using group_closed_bounds [of ps g]
  by (auto simp: group_ref_def esc_node_def intro!: checks_andthen [OF check_lookbehind_checks])

lemma named_ref_meets:
  "meets (named_ref u ps) (\<lambda>n ps'. moved ps ps' \<and> (\<forall>nd. n = Some nd \<longrightarrow> node_ok (ps_groups ps') nd))"
  unfolding named_ref_def
proof (rule meets_andthen [OF until_meets])
  fix n qs assume m: "moved ps qs"
  show "meets (case (n, qs) of (n, ps) \<Rightarrow> andthen (check_name u n) (\<lambda>_. case map_of (ps_names ps) n of
         None \<Rightarrow> err ''unknown group name''
       | Some g \<Rightarrow> (if \<not> group_closed ps g then err ''cannot refer to an open group''
            else andthen (check_lookbehind_ref ps g) (\<lambda>_. Inr (Some (N_Backref g), ps)))))
      (\<lambda>n ps'. moved ps ps' \<and> (\<forall>nd. n = Some nd \<longrightarrow> node_ok (ps_groups ps') nd))"
    using m by (auto split: option.split dest: group_closed_bounds
        intro!: checks_andthen [OF check_name_checks] checks_andthen [OF check_lookbehind_checks])
qed

lemma cond_group_meets: "meets (cond_group u ps) (\<lambda>g. later ps)"
  unfolding cond_group_def
proof (rule meets_andthen [OF until_meets])
  fix n qs assume "moved ps qs"
  then have l: "later ps qs" by (rule moved_later)
  have "meets (if is_identifier u n
        then (case map_of (ps_names qs) n of None \<Rightarrow> err ''unknown group name'' | Some g \<Rightarrow> Inr (g, qs))
        else (case py_int u n of
                None \<Rightarrow> err ''bad character in group name''
              | Some g \<Rightarrow>
                  (if g = 0 then err ''bad group number''
                   else if g \<ge> MAXGROUPS then err ''invalid group reference''
                   else Inr (g, qs\<lparr>ps_conds := ps_conds qs @ [g]\<rparr>)))) (\<lambda>g. later ps)"
    using l by (auto split: option.split)
  then show "meets (case (n, qs) of (cname, ps) \<Rightarrow>
     andthen
       (if is_identifier u cname
        then (case map_of (ps_names ps) cname of None \<Rightarrow> err ''unknown group name'' | Some g \<Rightarrow> Inr (g, ps))
        else (case py_int u cname of
                None \<Rightarrow> err ''bad character in group name''
              | Some g \<Rightarrow>
                  (if g = 0 then err ''bad group number''
                   else if g \<ge> MAXGROUPS then err ''invalid group reference''
                   else Inr (g, ps\<lparr>ps_conds := ps_conds ps @ [g]\<rparr>)))) (\<lambda>(g, ps).
     andthen (check_lookbehind_ref ps g) (\<lambda>_. Inr (g, ps)))) (\<lambda>g. later ps)"
    unfolding prod.case
    by (rule meets_andthen) (auto intro!: checks_andthen [OF check_lookbehind_checks])
qed

lemma look_opening_meets: "meets (look_opening c ps) (started ps)"
  by (auto simp: look_opening_def started_def moved_later split: option.split)

lemma named_opening_meets: "meets (named_opening u ps) (started ps)"
proof -
  obtain lt ps1 where a: "eat CHR ''<'' ps = (lt, ps1)" by fastforce
  obtain eq ps2 where b: "eat CHR ''='' ps1 = (eq, ps2)" by fastforce
  have m: "moved ps ps1" "moved ps1 ps2" using eat_moved [OF a] eat_moved [OF b] by auto
  have 1: "meets (andthen (until CHR ''>'' ''group name'' ps1) (\<lambda>(n, ps).
              andthen (check_name u n) (\<lambda>_. Inr (O_Group True (Some n) 0 0 False, ps)))) (started ps)"
    using m(1) by (intro meets_andthen [OF until_meets])
      (auto simp: started_def intro!: checks_andthen [OF check_name_checks] moved_later intro: moved_trans)
  have 2: "meets (andthen (named_ref u ps2) (\<lambda>(n, ps). Inr (O_Done n, ps))) (started ps)"
    using moved_trans [OF m] by (intro meets_andthen [OF named_ref_meets])
      (auto simp: started_def intro!: moved_later intro: moved_trans)
  show ?thesis using 1 2 by (simp add: named_opening_def a b)
qed

lemma extension_meets: "meets (extension u c ps) (started ps)"
proof -
  have 1: "meets (andthen (skip_comment ps) (\<lambda>(_, ps). Inr (O_Done None, ps))) (started ps)"
    by (rule meets_andthen [OF skip_comment_reads [unfolded reads_on_def]]) (auto simp: started_def moved_later)
  have 2: "meets (andthen (cond_group u ps) (\<lambda>(g, ps). Inr (O_Cond g, ps))) (started ps)"
    by (rule meets_andthen [OF cond_group_meets]) (auto simp: started_def)
  have 3: "meets (andthen (parse_flags c ps) (\<lambda>(f, ps).
             case f of Global a \<Rightarrow> Inr (O_Flags a, ps) | Scoped a d \<Rightarrow> Inr (O_Group False None a d False, ps))) (started ps)"
    by (rule meets_andthen [OF parse_flags_reads [unfolded reads_on_def]])
      (auto simp: started_def moved_later split: inline_flags.split)
  show ?thesis unfolding extension_def
    by (intro meets_if 1 2 3 named_opening_meets look_opening_meets) (simp_all add: started_def)
qed

lemma opening_of_meets: "meets (opening_of u ps) (started ps)"
proof -
  obtain q ps1 where a: "eat CHR ''?'' ps = (q, ps1)" by fastforce
  have m: "later ps ps1" using eat_moved [OF a] moved_later by blast
  have "meets (extension u c (adv 1 ps1)) (started ps)" for c
    by (rule meets_mono [OF extension_meets])
      (use later_trans [OF m later_trans [OF moved_later [OF moved_adv]]] in \<open>auto simp: started_def\<close>)
  then show ?thesis using m by (auto simp: opening_of_def a started_def split: option.split)
qed

lemma open_group_meets:
  "meets (open_group name ps) (\<lambda>g ps'. later ps ps' \<and> 1 \<le> g \<and> g \<le> ps_groups ps')"
proof -
  have f: "left (ps\<lparr>ps_groups := g, ps_closed := c, ps_names := ns\<rparr>) = left ps" "left (ps\<lparr>ps_groups := g, ps_closed := c\<rparr>) = left ps"
    "left (ps\<lparr>ps_groups := g\<rparr>) = left ps" for g c ns by (simp_all add: left_def)
  show ?thesis
    by (auto simp: open_group_def Let_def later_def parser_ok_def f split: option.split)
qed

lemma close_paren_checks: "checks (close_paren ps) (\<lambda>ps'. moved ps ps')"
  using eat_moved by (fastforce simp: close_paren_def split: prod.split)

section \<open>The three parsers\<close>

text \<open>What each gives, with a bound that is enough.\<close>

definition alt_spec :: "nat \<Rightarrow> alt_parser \<Rightarrow> bool" where
  "alt_spec n alt \<longleftrightarrow>
     (\<forall>verbose depth items ps. 3 * left ps + 2 \<le> n \<longrightarrow> list_all (nodes_ok (ps_groups ps)) items \<longrightarrow>
        meets (alt verbose depth items ps) (\<lambda>nd ps'. later ps ps' \<and> node_ok (ps_groups ps') nd))"

definition seq_spec :: "nat \<Rightarrow> seq_parser \<Rightarrow> bool" where
  "seq_spec n sq \<longleftrightarrow>
     (\<forall>verbose depth first seq ps. 3 * left ps + 1 \<le> n \<longrightarrow> nodes_ok (ps_groups ps) seq \<longrightarrow>
        meets (sq verbose depth first seq ps) (\<lambda>(v, b) ps'. later ps ps' \<and> nodes_ok (ps_groups ps') v))"

definition group_spec :: "nat \<Rightarrow> group_parser \<Rightarrow> bool" where
  "group_spec n grp \<longleftrightarrow>
     (\<forall>verbose depth at_start ps. 3 * left ps + 3 \<le> n \<longrightarrow>
        meets (grp verbose depth at_start ps)
          (\<lambda>(nd, b) ps'. later ps ps' \<and> (\<forall>x. nd = Some x \<longrightarrow> node_ok (ps_groups ps') x)))"

lemma later_groups: "later a b \<Longrightarrow> nodes_ok (ps_groups a) v \<Longrightarrow> nodes_ok (ps_groups b) v"
  by (auto simp: later_def intro: nodes_ok_mono)

lemma alt_step_ok:
  assumes alt: "alt_spec n alt" and sq: "seq_spec n sq"
  shows "alt_spec (Suc n) (alt_step alt sq)"
  unfolding alt_spec_def
proof (intro allI impI)
  fix verbose :: bool and depth :: nat and items ps
  assume n: "3 * left ps + 2 \<le> Suc n" and items: "list_all (nodes_ok (ps_groups ps)) items"
  let ?first = "depth = 0 \<and> items = []"
  have s: "meets (sq verbose depth ?first [] ps) (\<lambda>(v, b) ps'. later ps ps' \<and> nodes_ok (ps_groups ps') v)"
    using sq n by (auto simp: seq_spec_def)
  have rest: "meets (let v2 = (if ?first then v else verbose); its = items @ [seq]; (more, ps) = eat CHR ''|'' qs
       in if more then alt v2 depth its ps else Inr (join_alternatives its, ps))
      (\<lambda>nd ps'. later ps ps' \<and> node_ok (ps_groups ps') nd)"
    if l: "later ps qs" and v: "nodes_ok (ps_groups qs) seq" for v seq qs
  proof -
    obtain more rs where e: "eat CHR ''|'' qs = (more, rs)" by fastforce
    have m: "moved qs rs" "more \<longrightarrow> left rs < left qs" using eat_moved [OF e] by auto
    have its: "list_all (nodes_ok (ps_groups rs)) (items @ [seq])"
      using items v l moved_groups [OF m(1)] by (auto simp: list_all_iff later_def intro: node_ok_mono)
    have lr: "later ps rs" using later_trans [OF l moved_later [OF m(1)]] .
    show ?thesis
    proof (cases more)
      case True
      then have "3 * left rs + 2 \<le> n" using m(2) l n by (auto simp: later_def)
      then have "meets (alt (if ?first then v else verbose) depth (items @ [seq]) rs)
          (\<lambda>nd ps'. later rs ps' \<and> node_ok (ps_groups ps') nd)" using alt its by (simp add: alt_spec_def)
      then show ?thesis using True by (auto simp: e elim!: meets_mono intro: later_trans [OF lr])
    next
      case False
      then show ?thesis using join_alternatives_ok [OF its] lr by (simp add: e)
    qed
  qed
  show "meets (alt_step alt sq verbose depth items ps) (\<lambda>nd ps'. later ps ps' \<and> node_ok (ps_groups ps') nd)"
    unfolding alt_step_def Let_def [of "depth = 0 \<and> items = []"]
    by (rule meets_if, simp, rule meets_andthen [OF s]) (use rest in \<open>simp add: case_prod_beta\<close>)
qed

abbreviation esc_done :: "parser \<Rightarrow> esc \<Rightarrow> parser \<Rightarrow> bool" where
  "esc_done ps e ps' \<equiv> moved ps ps' \<and> node_ok (ps_groups ps) (esc_node e)"

lemma esc_node_simps [simp]:
  "esc_node (E_Lit c) = N_Lit c" "esc_node (E_Cat k) = N_Class [CCat k] False" "esc_node (E_At a) = N_At a"
  "esc_node E_Named = N_Named"
  by (simp_all add: esc_node_def)

lemma class_escape_meets: "meets (class_escape c ps) (esc_done ps)"
proof -
  have hex: "meets (hex_lit n ps) (esc_done ps)" for n
    unfolding hex_lit_def hex_escape_def by (rule meets_andthen [OF hex_loop_reads [unfolded reads_on_def]]) simp
  have U: "meets (andthen (hex_escape 8 ps) (\<lambda>(v, ps). if v > 0x10FFFF then err ''bad escape'' else Inr (E_Lit v, ps))) (esc_done ps)"
    unfolding hex_escape_def by (rule meets_andthen [OF hex_loop_reads [unfolded reads_on_def]]) simp
  have N: "meets (named_escape ps) (esc_done ps)"
    using named_escape_reads [of ps] by (auto simp: named_escape_def Let_def split: prod.splits)
  have O: "meets (let (v, ps) = oct_loop n d ps in if v > 0xFF then err msg else Inr (E_Lit v, ps)) (esc_done ps)" for n d msg
    using oct_loop_moved [of ps n d] by (auto split: prod.splits)
  show ?thesis unfolding class_escape_def by (intro meets_if hex U N O) simp_all
qed

lemma ref_escape_meets: "meets (ref_escape c ps) (esc_done ps)"
proof -
  have "meets (group_ref g (adv k ps)) (esc_done ps)" for g k
    by (rule meets_mono [OF group_ref_meets]) (auto dest: moved_adv1)
  then show ?thesis using group_ref_meets [of _ ps] by (simp add: ref_escape_def Let_def split: option.split)
qed

lemma escape_meets: "meets (escape c ps) (esc_done ps)"
  unfolding escape_def
  by (intro meets_if class_escape_meets ref_escape_meets)
    (use oct_loop_moved [of ps 2 0] in \<open>simp_all add: case_prod_beta\<close>)

lemma seq_step_ok:
  assumes sq: "seq_spec n sq" and grp: "group_spec n grp"
  shows "seq_spec (Suc n) (seq_step sq grp)"
  unfolding seq_spec_def
proof (intro allI impI)
  fix verbose :: bool and depth :: nat and first :: bool and seq ps
  assume n: "3 * left ps + 1 \<le> Suc n" and seq: "nodes_ok (ps_groups ps) seq"
  let ?Q = "\<lambda>(v, b :: bool) ps'. later ps ps' \<and> nodes_ok (ps_groups ps') v"
  have stop: "meets (Inr ((splice seq, verbose), ps)) ?Q" using splice_ok [OF seq] by simp
  show "meets (seq_step sq grp verbose depth first seq ps) ?Q"
  proof (cases "peek ps")
    case None
    then show ?thesis using stop by (simp add: seq_step_def)
  next
    case (Some c)
    have lt: "left (adv 1 ps) < left ps" using peek_left [OF Some] by simp
    have go: "meets (sq vb depth first v qs) ?Q" if "later (adv 1 ps) qs" "nodes_ok (ps_groups qs) v" for vb v qs
    proof -
      have "3 * left qs + 1 \<le> n" using that(1) lt n by (auto simp: later_def)
      then have "meets (sq vb depth first v qs) (\<lambda>(v, b) ps'. later qs ps' \<and> nodes_ok (ps_groups ps') v)"
        using sq that(2) by (simp add: seq_spec_def)
      moreover have "later ps qs" using later_trans [OF moved_later [OF moved_adv] that(1)] .
      ultimately show ?thesis by (auto elim!: meets_mono intro: later_trans)
    qed
    have same: "nodes_ok (ps_groups (adv 1 ps)) seq" using seq by simp
    note next1 = go [OF later_refl same]
    have push: "meets (sq vb depth first (seq @ [nd]) qs) ?Q" if "later (adv 1 ps) qs" "node_ok (ps_groups qs) nd" for vb nd qs
      using go [OF that(1)] later_groups [OF that(1) same] that(2) by simp
    have lits: "meets (sq vb depth first (seq @ [nd]) (adv 1 ps)) ?Q" if "node_ok (ps_groups ps) nd" for vb nd
      using push [OF later_refl] that by simp
    have line: "meets (sq vb depth first seq (skip_line (adv 1 ps))) ?Q" for vb
      using moved_later [OF skip_line_moved [of "adv 1 ps"]] later_groups [OF _ same] go by blast
    have esc: "meets (andthen (escape d (adv 1 (adv 1 ps))) (\<lambda>(e, ps). sq vb depth first (seq @ [esc_node e]) ps)) ?Q" for d vb
      using push by (intro meets_andthen [OF escape_meets])
        (auto dest: moved_adv1 simp del: adv_adv simp: moved_later moved_groups moved_adv1)
    have cls: "meets (andthen (parse_class (adv 1 ps)) (\<lambda>(nd, ps). sq vb depth first (seq @ [nd]) ps)) ?Q" for vb
      by (rule meets_andthen [OF parse_class_meets [where n = "ps_groups ps"]])
        (use push moved_later moved_groups in fastforce)
    have rep: "meets (andthen (parse_repeat c seq (adv 1 ps)) (\<lambda>(seq, ps). sq vb depth first seq ps)) ?Q" for vb
      by (rule meets_andthen [OF parse_repeat_meets [OF seq]])
        (use go moved_later moved_groups in fastforce)
    have "3 * left (adv 1 ps) + 3 \<le> n" using lt n by simp
    then have g: "meets (grp verbose depth (first \<and> seq = []) (adv 1 ps))
        (\<lambda>(nd, b) ps'. later (adv 1 ps) ps' \<and> (\<forall>x. nd = Some x \<longrightarrow> node_ok (ps_groups ps') x))"
      using grp by (simp add: group_spec_def)
    have grp': "meets (andthen (grp verbose depth (first \<and> seq = []) (adv 1 ps)) (\<lambda>((nd, verbose), ps).
        sq verbose depth first (case nd of None \<Rightarrow> seq | Some nd \<Rightarrow> seq @ [nd]) ps)) ?Q"
      using push go later_groups [OF _ same]
      by (intro meets_andthen [OF g]) (auto split: option.split)
    show ?thesis
      unfolding seq_step_def Some option.case Let_def
      by (intro meets_if stop next1 line lits cls rep grp')
        (use esc in \<open>auto split: option.split simp del: adv_adv\<close>)
  qed
qed

abbreviation group_done :: "parser \<Rightarrow> node option \<times> bool \<Rightarrow> parser \<Rightarrow> bool" where
  "group_done ps r ps' \<equiv> later ps ps' \<and> (\<forall>x. fst r = Some x \<longrightarrow> node_ok (ps_groups ps') x)"

lemma alt_specD:
  assumes "alt_spec n alt" and "3 * left ps + 2 \<le> n" and "later ps qs"
  shows "meets (alt v d [] qs) (\<lambda>nd rs. later ps rs \<and> ps_groups qs \<le> ps_groups rs \<and> node_ok (ps_groups rs) nd)"
proof (rule meets_mono)
  show "meets (alt v d [] qs) (\<lambda>nd rs. later qs rs \<and> node_ok (ps_groups rs) nd)"
    using assms by (auto simp: alt_spec_def later_def)
qed (use assms(3) in \<open>auto simp: later_def\<close>)

lemma seq_specD:
  assumes "seq_spec n sq" and "3 * left ps + 2 \<le> n" and "later ps qs"
  shows "meets (sq v d f [] qs) (\<lambda>r rs. later ps rs \<and> ps_groups qs \<le> ps_groups rs \<and> nodes_ok (ps_groups rs) (fst r))"
proof (rule meets_mono)
  show "meets (sq v d f [] qs) (\<lambda>(v, b) rs. later qs rs \<and> nodes_ok (ps_groups rs) v)"
    using assms by (auto simp: seq_spec_def later_def)
qed (use assms(3) in \<open>auto simp: later_def\<close>)

lemma close_meets:
  assumes "later ps qs" and "node_ok (ps_groups qs) nd"
  shows "meets (andthen (close_paren qs) (\<lambda>rs. Inr ((Some nd, v), rs))) (group_done ps)"
  using assms moved_groups by (intro checks_andthen [OF close_paren_checks]) (auto intro: later_trans moved_later)

lemma parse_look_meets:
  assumes "alt_spec n alt" and "3 * left ps + 2 \<le> n" and "later ps qs"
  shows "meets (parse_look alt v d behind negate qs) (group_done ps)"
  unfolding parse_look_def Let_def
  by (rule meets_andthen [OF alt_specD [OF assms(1,2)]]) (use assms(3) in simp, unfold prod.case, rule close_meets, auto)

lemma cond_no_meets:
  assumes "seq_spec n sq" and "3 * left ps + 2 \<le> n" and "later ps qs"
  shows "meets (cond_no sq v d bar qs)
    (\<lambda>no rs. later ps rs \<and> ps_groups qs \<le> ps_groups rs \<and> (\<forall>x. no = Some x \<longrightarrow> node_ok (ps_groups rs) x))"
  unfolding cond_no_def by (rule meets_if, rule meets_andthen [OF seq_specD [OF assms]]) (use assms(3) in auto)

lemma parse_cond_meets:
  assumes "seq_spec n sq" and "3 * left ps + 2 \<le> n" and "later ps qs"
  shows "meets (parse_cond sq v d g qs) (group_done ps)"
  unfolding parse_cond_def
proof (rule meets_andthen [OF seq_specD [OF assms]], unfold prod.case, elim conjE)
  fix yes :: "node list \<times> bool" and rs
  assume r: "later ps rs" "nodes_ok (ps_groups rs) (fst yes)"
  obtain bar ts where e: "eat CHR ''|'' rs = (bar, ts)" by fastforce
  have m: "moved rs ts" using eat_moved [OF e] by simp
  have ts: "later ps ts" "nodes_ok (ps_groups ts) (fst yes)"
    using r moved_groups [OF m] later_trans [OF _ moved_later [OF m]] by auto
  show "meets (let (bar, ps) = eat CHR ''|'' rs
       in andthen (cond_no sq v d bar ps) (\<lambda>(no, ps).
          andthen (close_paren ps) (\<lambda>ps. Inr ((Some (N_Cond g (N_Seq (fst yes)) no), v), ps)))) (group_done ps)"
    unfolding e Let_def prod.case
    by (rule meets_andthen [OF cond_no_meets [OF assms(1,2) ts(1)]], unfold prod.case, rule close_meets)
      (use ts(2) in \<open>auto split: option.split intro: nodes_ok_mono\<close>)
qed

lemma mark_closed_later: "later ps qs \<Longrightarrow> later ps (mark_closed g qs)" "ps_groups (mark_closed g qs) = ps_groups qs"
  by (auto simp: mark_closed_def split: option.split intro: later_closed)

lemma parse_body_meets:
  assumes "alt_spec n alt" and "3 * left ps + 2 \<le> n" and "later ps qs"
  shows "meets (parse_body alt v d capture name add del atomic qs) (group_done ps)"
proof -
  have op: "meets (if capture then andthen (open_group name qs) (\<lambda>(g, ps). Inr (Some g, ps)) else Inr (None, qs))
      (\<lambda>g rs. later ps rs \<and> (\<forall>k. g = Some k \<longrightarrow> 1 \<le> k \<and> k \<le> ps_groups rs))"
    using assms(3) by (intro meets_if meets_andthen [OF open_group_meets]) (auto intro: later_trans)
  show ?thesis unfolding parse_body_def
  proof (rule meets_andthen [OF op], unfold prod.case Let_def, elim conjE)
    fix g rs assume l: "later ps rs" and g: "\<forall>k. g = Some k \<longrightarrow> 1 \<le> k \<and> k \<le> ps_groups rs"
    show "meets (andthen (alt ((v \<or> add AND FLAG_VERBOSE \<noteq> 0) \<and> del AND FLAG_VERBOSE = 0) (d + 1) [] rs) (\<lambda>(body, ps).
          andthen (close_paren ps) (\<lambda>ps.
            Inr ((Some (if atomic then N_Atomic body else N_Group g add del body), v), mark_closed g ps)))) (group_done ps)"
      by (rule meets_andthen [OF alt_specD [OF assms(1,2) l]], unfold prod.case, rule checks_andthen [OF close_paren_checks])
        (use g moved_groups in \<open>auto simp: mark_closed_later intro!: mark_closed_later(1) intro: later_trans moved_later\<close>)
  qed
qed

lemma group_step_ok:
  assumes alt: "alt_spec n alt" and sq: "seq_spec n sq"
  shows "group_spec (Suc n) (group_step u alt sq)"
  unfolding group_spec_def
proof (intro allI impI)
  fix verbose :: bool and depth :: nat and at_start :: bool and ps
  assume "3 * left ps + 3 \<le> Suc n"
  then have n: "3 * left ps + 2 \<le> n" by simp
  have "meets (group_step u alt sq verbose depth at_start ps) (group_done ps)"
    unfolding group_step_def
  proof (rule meets_andthen [OF opening_of_meets], unfold prod.case)
    fix st qs assume st: "started ps st qs"
    then have l: "later ps qs" by (simp add: started_def)
    show "meets (case st of
         O_Done nd \<Rightarrow> Inr ((nd, verbose), qs)
       | O_Flags a \<Rightarrow>
           (if \<not> at_start then err ''global flags not at the start of the expression''
            else (let ps = qs\<lparr>ps_flags := ps_flags qs OR a\<rparr>
                  in Inr ((None, ps_flags ps AND FLAG_VERBOSE \<noteq> 0), ps)))
       | O_Look behind negate \<Rightarrow> parse_look alt verbose depth behind negate qs
       | O_Cond g \<Rightarrow> parse_cond sq verbose depth g qs
       | O_Group capture name add del atomic \<Rightarrow> parse_body alt verbose depth capture name add del atomic qs) (group_done ps)"
      using parse_look_meets [OF alt n l] parse_cond_meets [OF sq n l] parse_body_meets [OF alt n l] st
      by (cases st) (auto simp: started_def Let_def)
  qed
  then show "meets (group_step u alt sq verbose depth at_start ps)
      (\<lambda>(nd, b) ps'. later ps ps' \<and> (\<forall>x. nd = Some x \<longrightarrow> node_ok (ps_groups ps') x))"
    by (rule meets_mono) auto
qed

lemma parsers_ok: "alt_spec n (parse_alt n u) \<and> seq_spec n (parse_seq n u) \<and> group_spec n (parse_group n u)"
proof (induction n)
  case 0
  show ?case by (simp add: alt_spec_def seq_spec_def group_spec_def)
next
  case (Suc n)
  then show ?case by (simp add: alt_step_ok seq_step_ok group_step_ok)
qed

section \<open>Parsing a pattern\<close>

lemma parse_checks:
  "checks (parse u pattern flags) (\<lambda>p. node_ok (p_groups p) (p_node p) \<and> distinct (map fst (p_names p)) \<and>
     (\<forall>(n, g) \<in> set (p_names p). 1 \<le> g \<and> g \<le> p_groups p))"
proof -
  let ?ps = "parse_start pattern flags"
  have ok: "parser_ok ?ps" "left ?ps = length pattern" by (simp_all add: parser_ok_def parse_start_def left_def)
  have "alt_spec (parse_fuel pattern) (parse_alt (parse_fuel pattern) u)" using parsers_ok by blast
  then have m: "meets (parse_alt (parse_fuel pattern) u v 0 [] ?ps) (\<lambda>nd ps. later ?ps ps \<and> node_ok (ps_groups ps) nd)" for v
    using ok(2) by (simp add: alt_spec_def parse_fuel_def)
  show ?thesis
  proof (cases "parse_alt (parse_fuel pattern) u (flags AND FLAG_VERBOSE \<noteq> 0) 0 [] ?ps")
    case (Inl e)
    then obtain x where "e = Some x" using m [of "flags AND FLAG_VERBOSE \<noteq> 0"] by (cases e) (auto simp: meets_def)
    then show ?thesis by (simp add: parse_def Inl checks_def err_def refused_def)
  next
    case (Inr y)
    obtain nd ps where y: "y = (nd, ps)" by fastforce
    have "later ?ps ps" "node_ok (ps_groups ps) nd" using m [of "flags AND FLAG_VERBOSE \<noteq> 0"] Inr y by simp_all
    then show ?thesis using ok(1) by (simp add: parse_def Inr y Let_def later_def parser_ok_def)
  qed
qed

text \<open>
  C6: The parser of Python's syntax always returns: on every pattern and flags it gives a tree or an error
  of the pattern, and never runs out of the bound \<open>parse_fuel\<close> on its recursion (three calls per
  character). The tree is well formed: group numbers between 1 and the number of groups, repeat counts
  in order and below Python's bound, no empty alternation and no empty class, no range out of order;
  and no two groups have one name.
\<close>

theorem parse_returns_well_formed:
  "case parse u pattern flags of
     Inl None \<Rightarrow> False
   | Inl (Some e) \<Rightarrow> True
   | Inr p \<Rightarrow> node_ok (p_groups p) (p_node p) \<and> distinct (map fst (p_names p)) \<and>
       list_all (\<lambda>(n, g). 1 \<le> g \<and> g \<le> p_groups p) (p_names p)"
  using parse_checks [of u pattern flags] by (simp add: checks_def list_all_iff split: sum.splits option.splits)

end
