(* ===== verification/Node_Sem.thy ===== *)
theory Node_Sem
  imports Search Parse
begin

text \<open>
  What a parsed pattern means, in the terms of Python's \<^verbatim>\<open>re\<close> and not of the sets and programs it is
  lowered to: \<open>node_all\<close> lists the ways a tree matches from a position, in the order sre tries them.
\<close>

section \<open>Characters\<close>

definition reads_char :: "env \<Rightarrow> (u32 \<Rightarrow> bool) \<Rightarrow> ways" where
  "reads_char E accept pos sl =
     (if pos < e_end E \<and> pos < length (e_text E) \<and> accept (e_text E ! pos) then [(pos + 1, sl)] else [])"

text \<open>Is a position one of the kind the pattern asks for?\<close>

definition at_true :: "unidata \<Rightarrow> u32 \<Rightarrow> env \<Rightarrow> at \<Rightarrow> nat \<Rightarrow> bool" where
  "at_true u flags E a p =
     (let text = e_text E; e = e_end E; multi = has_flag flags FLAG_MULTILINE;
          ascii = (\<not> has_flag flags FLAG_UNICODE);
          boundary = ((p > 0 \<and> word_at u ascii text (p - 1)) \<noteq> (p < e \<and> word_at u ascii text p))
      in case a of
           At_Beginning \<Rightarrow> p = 0 \<or> multi \<and> newline_at text (p - 1)
         | At_BeginningString \<Rightarrow> p = 0
         | At_End \<Rightarrow> p = e \<or> newline_at text p \<and> (multi \<or> p + 1 = e)
         | At_EndString \<Rightarrow> p = e
         | At_Boundary \<Rightarrow> e \<noteq> 0 \<and> boundary
         | At_NonBoundary \<Rightarrow> e \<noteq> 0 \<and> \<not> boundary)"

section \<open>Groups\<close>

text \<open>The group's start and end in the slots, once it has matched.\<close>

definition group_span :: "nat \<Rightarrow> int list \<Rightarrow> (nat \<times> nat) option" where
  "group_span g sl =
     (let s = sl ! (2 * (g - 1)); t = sl ! (2 * (g - 1) + 1)
      in if 0 \<le> s \<and> 0 \<le> t then Some (nat s, nat t) else None)"

text \<open>The text a group matched, read again (under the fold).\<close>

definition backref_all :: "unidata \<Rightarrow> fold \<Rightarrow> env \<Rightarrow> nat \<Rightarrow> ways" where
  "backref_all u f E g pos sl =
     (case group_span g sl of
        None \<Rightarrow> []
      | Some (s, t) \<Rightarrow>
          (if pos + (t - s) \<le> min (e_end E) (length (e_text E)) \<and>
              list_all (\<lambda>k. lower_of u (e_text E ! (s + k)) f = lower_of u (e_text E ! (pos + k)) f) [0..<t - s]
           then [(pos + (t - s), sl)] else []))"

definition group_all :: "env \<Rightarrow> nat \<Rightarrow> ways \<Rightarrow> ways" where
  "group_all E g A pos sl =
     map (\<lambda>(p, s). (p, save_slot (e_slots E) (2 * (g - 1) + 1) p s)) (A pos (save_slot (e_slots E) (2 * (g - 1)) pos sl))"

section \<open>Trees\<close>

text \<open>
  Of the setting only the text, the window's end, the number of slots and the guard of single-character
  repeats are read. Flags are the ones in force at the node. A lookaround asks for some way of its body
  (ahead: from the position; behind: from some position before, ending here); the groups set in a positive
  lookaround are not kept (lowering refuses those). An atomic group and a possessive repeat keep the first
  way only. A character by name has no ways: the engine has no names.
\<close>

primrec node_all :: "unidata \<Rightarrow> node \<Rightarrow> u32 \<Rightarrow> env \<Rightarrow> ways" where
  "node_all u (N_Lit c) = (\<lambda>flags E. reads_char E (literal_accepts u (fold_of flags) c))"
| "node_all u (N_NotLit c) = (\<lambda>flags E. reads_char E (\<lambda>d. \<not> literal_accepts u (fold_of flags) c d))"
| "node_all u (N_Class items negate) =
     (\<lambda>flags E. reads_char E (\<lambda>d. class_accepts u (fold_of flags) (\<not> has_flag flags FLAG_UNICODE) items d \<noteq> negate))"
| "node_all u N_Any = (\<lambda>flags E. reads_char E (\<lambda>d. has_flag flags FLAG_DOTALL \<or> d \<noteq> 0x0A))"
| "node_all u N_Named = (\<lambda>flags E pos sl. [])"
| "node_all u (N_At a) = (\<lambda>flags E pos sl. if at_true u flags E a pos then [(pos, sl)] else [])"
| "node_all u (N_Group g on off b) =
     (\<lambda>flags E. (case g of None \<Rightarrow> (\<lambda>A. A) | Some k \<Rightarrow> group_all E k) (node_all u b (combine flags on off) E))"
| "node_all u (N_Seq v) = (\<lambda>flags E. seq_all (map (\<lambda>A. A flags E) (map (node_all u) v)))"
| "node_all u (N_Alt v) = (\<lambda>flags E. alt_all (map (\<lambda>A. A flags E) (map (node_all u) v)))"
| "node_all u (N_Repeat mn mx kind b) =
     (\<lambda>flags E pos sl.
        (if kind = Possessive then take 1 else (\<lambda>L. L))
          (rep_all E mn (if mx = MAXREPEAT then None else Some mx) (kind \<noteq> Lazy) (is_simple b) (node_all u b flags E) pos sl))"
| "node_all u (N_Look behind negate b) =
     (\<lambda>flags E pos sl.
        if (if behind then list_ex (\<lambda>q. pos \<in> fst ` set (node_all u b flags E q sl)) [0..<Suc pos]
            else node_all u b flags E pos sl \<noteq> []) \<noteq> negate
        then [(pos, sl)] else [])"
| "node_all u (N_Backref g) = (\<lambda>flags E. backref_all u (fold_of flags) E g)"
| "node_all u (N_Cond g yes no) =
     (\<lambda>flags E pos sl.
        if group_span g sl \<noteq> None then node_all u yes flags E pos sl
        else case map_option (node_all u) no of None \<Rightarrow> [(pos, sl)] | Some A \<Rightarrow> A flags E pos sl)"
| "node_all u (N_Atomic b) = (\<lambda>flags E pos sl. take 1 (node_all u b flags E pos sl))"

section \<open>Slots do not decide where a lowered pattern ends\<close>

definition same_ends :: "ways \<Rightarrow> ways \<Rightarrow> bool" where
  "same_ends A B \<longleftrightarrow> (\<forall>pos sl sl'. map fst (A pos sl) = map fst (B pos sl'))"

lemma same_endsD: "same_ends A B \<Longrightarrow> map fst (A pos sl) = map fst (B pos sl')"
  by (simp add: same_ends_def)

lemma map_fst_concat:
  assumes "map fst xs = map fst ys"
    and "\<And>x y. x \<in> set xs \<Longrightarrow> fst x = fst y \<Longrightarrow> map fst (F x) = map fst (G y)"
  shows "map fst (concat (map F xs)) = map fst (concat (map G ys))"
proof -
  from assms(1) have "length xs = length ys" by (metis length_map)
  from this assms show ?thesis by (induction xs ys rule: list_induct2) auto
qed

lemma same_ends_then: "same_ends A A' \<Longrightarrow> same_ends B B' \<Longrightarrow> same_ends (then_all A B) (then_all A' B')"
  by (auto simp: same_ends_def then_all_def intro!: map_fst_concat)

lemma same_ends_seq: "list_all2 same_ends As Bs \<Longrightarrow> same_ends (seq_all As) (seq_all Bs)"
proof (induction rule: list_all2_induct)
  case Nil
  show ?case by (simp add: same_ends_def)
next
  case (Cons A B As Bs)
  then show ?case by (simp only: seq_all_Cons same_ends_then)
qed

lemma same_ends_alt: "list_all2 same_ends As Bs \<Longrightarrow> same_ends (alt_all As) (alt_all Bs)"
proof (induction rule: list_all2_induct)
  case (Cons A Bs B Cs)
  show ?case unfolding same_ends_def
  proof (intro allI)
    fix pos sl sl'
    show "map fst (alt_all (A # Bs) pos sl) = map fst (alt_all (B # Cs) pos sl')"
      using same_endsD [OF Cons.hyps(1), of pos sl sl'] same_endsD [OF Cons.IH, of pos sl sl'] by (simp add: alt_all_def)
  qed
qed (simp add: same_ends_def alt_all_def)

lemma same_ends_opts: "same_ends A B \<Longrightarrow> same_ends (opts_all n greedy A) (opts_all n greedy B)"
proof (induction n)
  case (Suc n)
  have "map fst (concat (map (\<lambda>x. opts_all n greedy A (fst x) (snd x)) (A pos sl))) =
      map fst (concat (map (\<lambda>x. opts_all n greedy B (fst x) (snd x)) (B pos sl')))" for pos sl sl'
    using Suc same_endsD by (intro map_fst_concat) auto
  then show ?case by (cases greedy) (simp_all add: same_ends_def in_order_def)
qed (simp add: same_ends_def)

lemma same_ends_star: "same_ends A B \<Longrightarrow> same_ends (star_all e greedy A) (star_all e greedy B)"
proof -
  assume AB: "same_ends A B"
  have "map fst (star_all e greedy A pos sl) = map fst (star_all e greedy B pos sl')" for pos sl sl'
  proof (induction "e - pos" arbitrary: pos sl sl' rule: less_induct)
    case less
    have "map fst (concat (map (\<lambda>x. if pos < fst x \<and> fst x \<le> e then star_all e greedy A (fst x) (snd x) else []) (A pos sl))) =
        map fst (concat (map (\<lambda>x. if pos < fst x \<and> fst x \<le> e then star_all e greedy B (fst x) (snd x) else []) (B pos sl')))"
      by (rule map_fst_concat [OF same_endsD [OF AB]]) (auto intro: less.hyps)
    then show ?case by (simp add: star_all.simps [of e greedy _ pos] in_order_def)
  qed
  then show ?thesis by (simp add: same_ends_def)
qed

lemma same_ends_rep:
  assumes "same_ends A B" and "e_end E = e_end E'" and "e_guards E = e_guards E'"
  shows "same_ends (rep_all E mn mx greedy simple A) (rep_all E' mn mx greedy simple B)"
proof -
  have "list_all2 same_ends (replicate mn A @ [case mx of None \<Rightarrow> star_all (e_end E') greedy A | Some m \<Rightarrow> opts_all (m - mn) greedy A])
      (replicate mn B @ [case mx of None \<Rightarrow> star_all (e_end E') greedy B | Some m \<Rightarrow> opts_all (m - mn) greedy B])"
    using assms(1)
    by (auto intro!: list_all2_appendI same_ends_star same_ends_opts list_all2I simp: set_zip split: option.split)
  from same_endsD [OF same_ends_seq [OF this]] show ?thesis
    by (cases mx) (auto simp: same_ends_def rep_all_def assms(2,3))
qed

text \<open>The same patterns in two settings that differ in the slots only.\<close>

definition same_setting :: "env \<Rightarrow> env \<Rightarrow> bool" where
  "same_setting E E' \<longleftrightarrow> e_text E = e_text E' \<and> e_end E = e_end E' \<and> e_sets E = e_sets E' \<and> e_guards E = e_guards E' \<and>
     e_look E = e_look E'"

lemma hits_same: "same_setting E E' \<Longrightarrow> hits E si p = hits E' si p"
  by (simp add: hits_def same_setting_def split: option.split)

lemma hir_all_same_ends: "same_setting E E' \<Longrightarrow> same_ends (hir_all E h) (hir_all E' h)"
proof (induction h)
  case (H_Group g b)
  have id: "map fst (map (\<lambda>(p, s). (p, f p s)) L) = map fst L" for f :: "nat \<Rightarrow> int list \<Rightarrow> int list" and L
    by (induction L) auto
  from H_Group show ?case by (auto simp: same_ends_def id simp del: map_map)
next
  case (H_Concat v)
  then show ?case by (auto intro!: same_ends_seq simp: list_all2_conv_all_nth)
next
  case (H_Alt v)
  then have "list_all2 same_ends (map (hir_all E) v) (map (hir_all E') v)" by (auto simp: list_all2_conv_all_nth)
  from same_ends_alt [OF this] show ?case by (auto simp: same_ends_def)
next
  case (H_Repeat mn mx greedy simple b)
  then show ?case by (auto intro!: same_ends_rep simp: same_setting_def)
next
  case (H_Look l)
  then have "e_look E = e_look E'" by (simp add: same_setting_def)
  then show ?case by (simp add: same_ends_def)
qed (simp_all add: same_ends_def hits_same)

lemma seq_all_one: "seq_all [A] = A"
  by (rule ext)+ simp

lemma strip_groups_same_ends: "same_ends (hir_all E (strip_groups h)) (hir_all E h)"
proof (induction h)
  case (H_Group g b)
  have id: "map fst (map (\<lambda>(p, s). (p, f p s)) L) = map fst L" for f :: "nat \<Rightarrow> int list \<Rightarrow> int list" and L
    by (induction L) auto
  from H_Group show ?case by (auto simp: same_ends_def id simp del: map_map)
next
  case (H_Concat v)
  then have "same_ends (seq_all (map (hir_all E) (map strip_groups v))) (seq_all (map (hir_all E) v))"
    by (auto intro!: same_ends_seq simp: list_all2_conv_all_nth)
  then show ?case
    by (cases "length v = 1") (auto simp: Let_def length_Suc_conv seq_all_one simp del: seq_all.simps)
next
  case (H_Alt v)
  then have "list_all2 same_ends (map (hir_all E) (map strip_groups v)) (map (hir_all E) v)" by (auto simp: list_all2_conv_all_nth)
  from same_ends_alt [OF this] show ?case by (auto simp: same_ends_def)
next
  case (H_Repeat mn mx greedy simple b)
  then show ?case by (auto intro!: same_ends_rep)
qed (auto simp: same_ends_def)

end
