(* ===== verification/Lower_Sem.thy ===== *)
theory Lower_Sem
  imports Node_Sem
begin

text \<open>
  Lowering keeps the meaning of a tree (\<open>lower_node_lowers\<close>): the lowered pattern has the ways of the
  tree, its indices are in range, and the widths \<^verbatim>\<open>getwidth\<close> computes are those of the pattern.
\<close>

section \<open>Widths\<close>

text \<open>The greatest width, cut at Python's bound (which stands for none).\<close>

definition cap_most :: "nat option \<Rightarrow> nat" where
  "cap_most k = (case k of None \<Rightarrow> MAXREPEAT | Some k \<Rightarrow> min k MAXREPEAT)"

definition widths :: "nat \<times> nat \<Rightarrow> hir \<Rightarrow> bool" where
  "widths w h \<longleftrightarrow> min (fst w) (MAXREPEAT - 1) = min (least h) (MAXREPEAT - 1) \<and> min (snd w) MAXREPEAT = cap_most (most h)"

lemma maxrepeat_bounds: "MAXREPEAT \<le> U64_MAX" "MAXREPEAT - 1 \<le> U64_MAX" "MAX_LOOK < MAXREPEAT - 1" "1 < MAXREPEAT"
  by (simp_all add: MAXREPEAT_def U64_MAX_def MAX_LOOK_def)

lemma cap_most_simps [simp]:
  "cap_most (Some 0) = 0" "cap_most (Some (Suc 0)) = 1" "cap_most (add_opt a b) = min (cap_most a + cap_most b) MAXREPEAT"
  "cap_most (max_opt a b) = max (cap_most a) (cap_most b)" "cap_most k \<le> MAXREPEAT"
  using maxrepeat_bounds(4) by (cases a; cases b; auto simp: cap_most_def split: option.split)+

lemma min_sum_list: "min (sum_list (map (\<lambda>x. min (f x) c) xs)) c = min (sum_list (map f xs)) (c :: nat)"
  by (induction xs) (auto simp: min_def split: if_splits)

lemma seq_width_fst: "min (fst (seq_width ws lo hi)) (MAXREPEAT - 1) = min (lo + sum_list (map fst ws)) (MAXREPEAT - 1)"
  by (induction ws lo hi rule: seq_width.induct) (use maxrepeat_bounds(2) in \<open>auto simp: sat64_def min_def\<close>)

lemma seq_width_snd: "min (snd (seq_width ws lo hi)) MAXREPEAT = min (hi + sum_list (map snd ws)) MAXREPEAT"
  by (induction ws lo hi rule: seq_width.induct) (use maxrepeat_bounds(1) in \<open>auto simp: sat64_def min_def\<close>)

lemma widths_seq:
  assumes "list_all2 (\<lambda>n h. widths (width_raw n) h) ns hs"
  shows "widths (width_raw (N_Seq ns)) (H_Concat hs)"
proof -
  have "map (\<lambda>n. min (fst (width_raw n)) (MAXREPEAT - 1)) ns = map (\<lambda>h. min (least h) (MAXREPEAT - 1)) hs"
    and s: "map (\<lambda>n. min (snd (width_raw n)) MAXREPEAT) ns = map (\<lambda>h. cap_most (most h)) hs"
    using assms by (induction rule: list_all2_induct) (simp_all add: widths_def)
  then have "min (sum_list (map (\<lambda>n. fst (width_raw n)) ns)) (MAXREPEAT - 1) = min (sum_list (map least hs)) (MAXREPEAT - 1)"
    by (metis min_sum_list [of "\<lambda>n. fst (width_raw n)"] min_sum_list [of least])
  moreover have "cap_most (foldr add_opt ks (Some 0)) = min (sum_list (map cap_most ks)) MAXREPEAT" for ks
    by (induction ks) (auto simp: min_def)
  then have "cap_most (most (H_Concat hs)) = min (sum_list (map (\<lambda>n. snd (width_raw n)) ns)) MAXREPEAT"
    using min_sum_list [of "\<lambda>n. snd (width_raw n)" MAXREPEAT ns] s by (simp add: comp_def)
  ultimately show ?thesis
    using seq_width_fst [of "map width_raw ns" 0 0] seq_width_snd [of "map width_raw ns" 0 0]
    by (simp add: widths_def comp_def)
qed

lemma Min_cap:
  "finite A \<Longrightarrow> A \<noteq> {} \<Longrightarrow> Min (insert c ((\<lambda>x. min (f x) c) ` A)) = min (Min (f ` A)) (c :: nat)"
proof (induction rule: finite_ne_induct)
  case (insert x A)
  have "Min (insert c ((\<lambda>x. min (f x) c) ` insert x A)) = min (min (f x) c) (Min (insert c ((\<lambda>x. min (f x) c) ` A)))"
    using insert.hyps by (simp add: insert_commute)
  then show ?case using insert by (simp add: min.assoc)
qed simp

lemma Min_insert_min: "finite S \<Longrightarrow> Min (insert (min a b) S) = min a (Min (insert b S))" for a :: nat
  by (cases "S = {}") (simp_all add: min.assoc)

lemma alt_width_fst:
  "list_all2 widths ws hs \<Longrightarrow>
   fst (alt_width ws lo hi) = Min (insert lo ((\<lambda>h. min (least h) (MAXREPEAT - 1)) ` set hs))"
proof (induction ws hs arbitrary: lo hi rule: list_all2_induct)
  case (Cons w ws h hs)
  have "min (fst w) (MAXREPEAT - 1) = min (least h) (MAXREPEAT - 1)" using Cons.hyps(1) by (simp add: widths_def)
  then show ?case using Cons.IH by (cases w) (simp add: cap_width_def Let_def Min_insert_min)
qed simp

lemma alt_width_snd:
  "list_all2 widths ws hs \<Longrightarrow> snd (alt_width ws lo hi) = max hi (cap_most (foldr max_opt (map most hs) (Some 0)))"
proof (induction ws hs arbitrary: lo hi rule: list_all2_induct)
  case (Cons w ws h hs)
  have "min (snd w) MAXREPEAT = cap_most (most h)" using Cons.hyps(1) by (simp add: widths_def)
  then show ?case using Cons.IH by (cases w) (simp add: cap_width_def Let_def max.assoc)
qed simp

lemma widths_alt:
  assumes "list_all2 (\<lambda>n h. widths (width_raw n) h) ns hs" and "ns \<noteq> []"
  shows "widths (width_raw (N_Alt ns)) (H_Alt hs)"
proof -
  have l: "list_all2 widths (map width_raw ns) hs" using assms(1) by (simp add: list.rel_map)
  have "hs \<noteq> []" using assms by auto
  then show ?thesis
    using alt_width_fst [OF l, of "MAXREPEAT - 1" 0] alt_width_snd [OF l, of "MAXREPEAT - 1" 0]
      Min_cap [where A = "set hs" and f = least and c = "MAXREPEAT - 1"]
    by (simp add: widths_def)
qed

lemma widths_cap: "widths (cap_width w) h = widths w h"
  by (simp add: widths_def cap_width_def)

lemma least_le_most: "hir_ok nl h \<Longrightarrow> most h = Some k \<Longrightarrow> least h \<le> k"
proof (induction h arbitrary: k)
  case (H_Concat v)
  then show ?case
  proof (induction v arbitrary: k)
    case (Cons h v)
    then obtain a b where "most h = Some a" "foldr add_opt (map most v) (Some 0) = Some b" "k = a + b"
      by (cases "most h"; cases "foldr add_opt (map most v) (Some 0)") auto
    then show ?case using Cons by (fastforce intro: add_mono)
  qed simp
next
  case (H_Alt v)
  then obtain h where h: "h \<in> set v" by (cases v) auto
  have "\<exists>a. most h = Some a \<and> a \<le> k"
    using H_Alt.prems(2) h unfolding most.simps
  proof (induction v arbitrary: k)
    case (Cons x v)
    then obtain a b where "most x = Some a" "foldr max_opt (map most v) (Some 0) = Some b" "k = max a b"
      by (cases "most x"; cases "foldr max_opt (map most v) (Some 0)") auto
    then show ?case using Cons by (cases "h = x") (auto simp: le_max_iff_disj)
  qed simp
  then obtain a where a: "most h = Some a" "a \<le> k" by blast
  have "least h \<le> a" using H_Alt.IH [OF h _ a(1)] H_Alt.prems(1) h by (auto simp: list_all_iff)
  moreover have "least (H_Alt v) \<le> least h" using h by auto
  ultimately show ?case using a(2) by linarith
next
  case (H_Repeat mn mx greedy simple b)
  then show ?case by (auto split: option.splits if_splits simp: max_def intro!: mult_le_mono)
qed simp_all

lemma sat_mult: "c \<le> U64_MAX \<Longrightarrow> min (sat64 (min k c * n)) c = min (n * k) c"
  by (cases n) (auto simp: sat64_def min_def mult.commute [of k])

lemma sat_mult_cap: "c \<le> U64_MAX \<Longrightarrow> min (sat64 (c * Suc n)) c = c"
  by (auto simp: sat64_def min_def)

lemma widths_repeat:
  assumes w: "widths (width_raw b) h" and ok: "hir_ok nl h" and c: "mn \<le> mx" "mx \<le> MAXREPEAT"
    and lo: "fst (py_width b) \<noteq> 0 \<or> mx \<le> 1"
  shows "widths (width_raw (N_Repeat mn mx kind b)) (H_Repeat mn (if mx = MAXREPEAT then None else Some mx) greedy simple h)"
proof -
  let ?i = "fst (py_width b)" and ?j = "snd (py_width b)"
  have i: "?i = min (least h) (MAXREPEAT - 1)" and j: "?j = cap_most (most h)"
    using w by (simp_all add: widths_def py_width_def cap_width_def)
  have r: "width_raw (N_Repeat mn mx kind b) = (sat64 (?i * mn), if mx = MAXREPEAT \<and> ?j > 0 then MAXREPEAT else sat64 (?j * mx))"
    by (simp add: py_width_def Let_def split: prod.split)
  have f: "min (sat64 (?i * mn)) (MAXREPEAT - 1) = min (mn * least h) (MAXREPEAT - 1)"
    unfolding i by (rule sat_mult [OF maxrepeat_bounds(2)])
  show ?thesis
  proof (cases "mx = MAXREPEAT")
    case True
    then have "0 < least h" using lo i maxrepeat_bounds(4) by auto
    then have "?j > 0" using least_le_most [OF ok] maxrepeat_bounds(4) unfolding j
      by (cases "most h") (auto simp: cap_most_def)
    then show ?thesis unfolding widths_def r using True f by (simp add: cap_most_def)
  next
    case False
    have "max mx mn = mx" using c(1) by simp
    then have "min (sat64 (?j * mx)) MAXREPEAT = cap_most (if max mx mn = 0 then Some 0 else map_option (\<lambda>k. max mx mn * k) (most h))"
      using sat_mult [OF maxrepeat_bounds(1)] sat_mult_cap [OF maxrepeat_bounds(1)] unfolding j
      by (cases "most h"; cases mx) (simp_all add: cap_most_def sat64_def [of 0] del: mult_Suc mult_Suc_right)
    then show ?thesis unfolding widths_def r using False f by simp
  qed
qed

section \<open>Stripping groups\<close>

lemma strip_groups_widths [simp]: "least (strip_groups h) = least h" "most (strip_groups h) = most h"
proof (induction h)
  case (H_Concat v)
  { case 1
    have "sum_list (map (least \<circ> strip_groups) v) = sum_list (map least v)"
      by (rule arg_cong [of _ _ sum_list]) (use H_Concat in simp)
    then show ?case by (cases "length v = 1") (auto simp: Let_def length_Suc_conv)
  next
    case 2
    have "foldr add_opt (map (most \<circ> strip_groups) v) (Some 0) = foldr add_opt (map most v) (Some 0)"
      by (rule arg_cong [of _ _ "\<lambda>ks. foldr add_opt ks (Some 0)"]) (use H_Concat in simp)
    moreover have "add_opt k (Some 0) = k" for k by (cases k) auto
    ultimately show ?case by (cases "length v = 1") (auto simp: Let_def length_Suc_conv)
  }
next
  case (H_Alt v)
  { case 1
    then have "(least \<circ> strip_groups) ` set v = least ` set v" using H_Alt by (auto simp: image_iff)
    then show ?case by (simp add: image_comp)
  next
    case 2
    have "foldr max_opt (map (most \<circ> strip_groups) v) (Some 0) = foldr max_opt (map most v) (Some 0)"
      by (rule arg_cong [of _ _ "\<lambda>ks. foldr max_opt ks (Some 0)"]) (use H_Alt in simp)
    then show ?case by simp
  }
qed (auto split: option.split)

lemma strip_groups_ok: "hir_ok nl h \<Longrightarrow> hir_ok nl (strip_groups h)"
proof (induction h)
  case (H_Concat v)
  then show ?case by (cases v) (auto simp: Let_def list_all_iff)
qed (auto simp: list_all_iff split: option.splits)

lemma strip_groups_bounds: "hir_bounds ns nset h \<Longrightarrow> hir_bounds ns nset (strip_groups h)"
proof (induction h)
  case (H_Concat v)
  then show ?case by (cases v) (auto simp: Let_def list_all_iff)
qed (auto simp: list_all_iff)

section \<open>States of the lowering\<close>

text \<open>The sets are canonical and numbered by the map, the tests well formed; a state only grown.\<close>

definition lower_ok :: "nat \<Rightarrow> lower_state \<Rightarrow> bool" where
  "lower_ok ns st \<longleftrightarrow> list_all cs_ok (l_sets st) \<and>
     (\<forall>s i. l_set_ids st s = Some i \<longrightarrow> i < length (l_sets st) \<and> l_sets st ! i = s) \<and>
     looks_ok ns (length (l_sets st)) (l_looks st)"

definition covers :: "charset list \<Rightarrow> look list \<Rightarrow> lower_state \<Rightarrow> bool" where
  "covers ss ls st \<longleftrightarrow> (\<exists>ss' ls'. ss = l_sets st @ ss' \<and> ls = l_looks st @ ls')"

abbreviation grown :: "lower_state \<Rightarrow> lower_state \<Rightarrow> bool" where
  "grown st st' \<equiv> covers (l_sets st') (l_looks st') st"

lemma covers_trans: "grown st st' \<Longrightarrow> covers ss ls st' \<Longrightarrow> covers ss ls st"
  by (auto simp: covers_def)

lemma grown_refl [simp]: "grown st st"
  by (simp add: covers_def)

lemma grown_trans: "grown st st' \<Longrightarrow> grown st' st'' \<Longrightarrow> grown st st''"
  by (rule covers_trans)

lemma hir_ok_mono: "hir_ok n h \<Longrightarrow> n \<le> m \<Longrightarrow> hir_ok m h"
  by (induction h) (auto simp: list_all_iff)

text \<open>
  A lowered tree: in every setting whose sets and tests begin with those of the state, the pattern has the
  ways of the tree.
\<close>

definition setting :: "unidata \<Rightarrow> env \<Rightarrow> look list \<Rightarrow> lower_state \<Rightarrow> bool" where
  "setting u E ls st \<longleftrightarrow> covers (e_sets E) ls st \<and> e_saves E \<and> e_guards E \<and>
     e_look E = look_holds u (e_sets E) (e_text E) (e_end E) ls"

definition means :: "unidata \<Rightarrow> node \<Rightarrow> u32 \<Rightarrow> hir \<Rightarrow> lower_state \<Rightarrow> bool" where
  "means u n flags h st \<longleftrightarrow>
     (\<forall>E ls. setting u E ls st \<longrightarrow> hir_all E h = node_all u n flags E)"

definition lowers :: "unidata \<Rightarrow> nat \<Rightarrow> node \<Rightarrow> u32 \<Rightarrow> lower_state \<Rightarrow> hir \<times> lower_state \<Rightarrow> bool" where
  "lowers u ns n flags st r \<longleftrightarrow>
     (case r of (h, st') \<Rightarrow>
        grown st st' \<and> lower_ok ns st' \<and> hir_ok (length (l_looks st')) h \<and> hir_bounds ns (length (l_sets st')) h \<and>
        widths (width_raw n) h \<and> means u n flags h st')"

lemma meansD: "means u n flags h st \<Longrightarrow> setting u E ls st \<Longrightarrow> hir_all E h = node_all u n flags E"
  by (auto simp: means_def)

lemma means_mono: "means u n flags h st \<Longrightarrow> grown st st' \<Longrightarrow> means u n flags h st'"
  unfolding means_def setting_def using covers_trans by blast

lemma lowersD:
  assumes "lowers u ns n flags st (h, st')"
  shows "grown st st'" "lower_ok ns st'" "hir_ok (length (l_looks st')) h" "hir_bounds ns (length (l_sets st')) h"
    "widths (width_raw n) h" "means u n flags h st'"
  using assms by (auto simp: lowers_def)

section \<open>Characters and tests\<close>

lemma lower_set_grows:
  assumes "lower_set s st = (i, st')" and "lower_ok ns st" and "cs_ok s"
  shows "grown st st'" "lower_ok ns st'" "i < length (l_sets st')" "l_sets st' ! i = s"
proof -
  have m: "looks_ok ns (Suc (length (l_sets st))) (l_looks st)"
    using assms(2) by (auto simp: lower_ok_def looks_ok_def intro: look_ok_mono)
  have "grown st st' \<and> lower_ok ns st' \<and> i < length (l_sets st') \<and> l_sets st' ! i = s"
  proof (cases "l_set_ids st s")
    case None
    then have st: "i = length (l_sets st)" "st' = st\<lparr>l_sets := l_sets st @ [s], l_set_ids := (l_set_ids st)(s \<mapsto> i)\<rparr>"
      using assms(1) by (auto simp: lower_set_def Let_def)
    have ids: "j < length (l_sets st) \<and> l_sets st ! j = t" if "l_set_ids st t = Some j" for t j
      using assms(2) that by (auto simp: lower_ok_def)
    show ?thesis using assms(2,3) m by (auto simp: st lower_ok_def covers_def nth_append dest: ids)
  next
    case (Some j)
    then show ?thesis using assms by (auto simp: lower_set_def lower_ok_def)
  qed
  then show "grown st st'" "lower_ok ns st'" "i < length (l_sets st')" "l_sets st' ! i = s" by auto
qed

lemma hits_reads_char:
  assumes "covers (e_sets E) ls st" and "i < length (l_sets st)" and "l_sets st ! i = s" and "cs_ok s"
    and "\<And>c. c \<in> cs_set s \<longleftrightarrow> accept c"
  shows "hir_all E (H_Char i) = reads_char E accept"
proof -
  have "e_sets E ! i = s" using assms(1-3) by (auto simp: covers_def nth_append)
  then show ?thesis
    using assms(4,5) by (intro ext) (auto simp: hits_def reads_char_def get_at_def contains_iff)
qed

lemma lower_char_lowers:
  assumes "lower_char s st = Inr r" and "lower_ok ns st" and "cs_ok s" and "width_raw n = (1, 1)"
    and n: "\<And>E. node_all u n flags E = reads_char E accept" and acc: "\<And>c. c \<in> cs_set s \<longleftrightarrow> accept c"
  shows "lowers u ns n flags st r"
proof -
  obtain i st' where i: "lower_set s st = (i, st')" "r = (H_Char i, st')"
    using assms(1) by (auto simp: lower_char_def split: prod.splits)
  note g = lower_set_grows [OF i(1) assms(2,3)]
  have "means u n flags (H_Char i) st'"
    unfolding means_def setting_def n using hits_reads_char [OF _ g(3,4) assms(3) acc] by blast
  then show ?thesis using g assms(4) maxrepeat_bounds by (simp add: lowers_def i(2) widths_def cap_most_def)
qed

lemma lower_test_lowers:
  assumes "lower_test l st = Inr r" and st: "lower_ok ns st" and ok: "look_ok ns (length (l_sets st)) (length (l_looks st)) l"
    and w: "width_raw n = (0, 0)"
    and n: "\<And>E ls pos sl. setting u E ls (st\<lparr>l_looks := l_looks st @ [l]\<rparr>) \<Longrightarrow>
      node_all u n flags E pos sl =
        (if look_true u (e_sets E) (e_text E) (e_end E) (looks_upto u (e_sets E) (e_text E) (e_end E) ls (length (l_looks st))) l pos
         then [(pos, sl)] else [])"
  shows "lowers u ns n flags st r"
proof -
  let ?st = "st\<lparr>l_looks := l_looks st @ [l]\<rparr>"
  have r: "r = (H_Look (length (l_looks st)), ?st)" using assms(1) by (simp add: lower_test_def lower_look_def)
  have "lower_ok ns ?st" using st ok by (auto simp: lower_ok_def looks_ok_def nth_append less_Suc_eq)
  moreover have "means u n flags (H_Look (length (l_looks st))) ?st"
    unfolding means_def
  proof (intro allI impI ext)
    fix E :: env and ls pos sl
    assume E: "setting u E ls ?st"
    then have "length (l_looks st) < length ls" "ls ! length (l_looks st) = l" by (auto simp: setting_def covers_def)
    then show "hir_all E (H_Look (length (l_looks st))) pos sl = node_all u n flags E pos sl"
      unfolding n [OF E] using E by (simp add: setting_def look_holds_def)
  qed
  ultimately show ?thesis using w by (simp add: lowers_def r covers_def widths_def)
qed

lemma at_lowers:
  assumes "lower_test (at_look a flags) st = Inr r" and "lower_ok ns st"
  shows "lowers u ns (N_At a) flags st r"
proof (rule lower_test_lowers [OF assms])
  show "look_ok ns (length (l_sets st)) (length (l_looks st)) (at_look a flags)"
    by (simp add: at_look_def Let_def split: at.split)
  fix E :: env and ls pos sl
  show "node_all u (N_At a) flags E pos sl =
        (if look_true u (e_sets E) (e_text E) (e_end E) (looks_upto u (e_sets E) (e_text E) (e_end E) ls (length (l_looks st)))
              (at_look a flags) pos then [(pos, sl)] else [])"
    by (auto simp: at_look_def at_true_def Let_def split: at.split)
qed simp

section \<open>Lookarounds\<close>

text \<open>A test of one character is the lookaround of that character.\<close>

lemma around_look_true:
  "look_true u ss text e lk (around_look behind negate (lo, hi) h) p = look_true u ss text e lk (L_Around behind negate h lo hi) p"
proof (cases h)
  case (H_Char si)
  then show ?thesis
    by (cases behind) (auto simp: around_look_def hits_def look_env_def get_at_def in_set_at_def)
qed (simp_all add: around_look_def)

lemma around_look_ok:
  "look_ok ns nset n (L_Around behind negate h lo hi) \<Longrightarrow> look_ok ns nset n (around_look behind negate (lo, hi) h)"
  by (cases h) (auto simp: around_look_def)

lemma same_ends_nonempty: "same_ends A B \<Longrightarrow> A pos sl \<noteq> [] \<longleftrightarrow> B pos sl' \<noteq> []"
  by (metis map_is_Nil_conv same_endsD)

lemma same_ends_image: "same_ends A B \<Longrightarrow> fst ` set (A pos sl) = fst ` set (B pos sl')"
  by (metis list.set_map same_endsD)

lemma same_ends_trans: "same_ends A B \<Longrightarrow> same_ends B C \<Longrightarrow> same_ends A C"
  unfolding same_ends_def by metis

lemma fixed_width:
  assumes "least h = w" and "most h = Some w" and "x \<in> set (hir_all E h q sl)"
  shows "fst x = q + w"
proof -
  have "q + w \<le> fst x" using hir_all_reads [of E h] assms(1,3) by (auto simp: reads_def)
  moreover have "fst x \<le> q + w" using hir_all_most [of h E] assms(2,3) by (cases x) (auto simp: upto_def)
  ultimately show ?thesis by simp
qed

lemma look_true_node:
  assumes m: "means u b flags h st" and hok: "hir_ok (length (l_looks st)) h"
    and w: "behind \<longrightarrow> least h = lo \<and> most h = Some lo"
    and E: "setting u E ls st"
  shows "look_true u (e_sets E) (e_text E) (e_end E) (looks_upto u (e_sets E) (e_text E) (e_end E) ls (length (l_looks st)))
      (L_Around behind negate (strip_groups h) lo hi) pos \<longleftrightarrow>
    (if behind then list_ex (\<lambda>q. pos \<in> fst ` set (node_all u b flags E q sl)) [0..<Suc pos]
     else node_all u b flags E pos sl \<noteq> []) \<noteq> negate"
proof -
  let ?n = "length (l_looks st)" and ?A = "node_all u b flags E"
  let ?lk = "looks_upto u (e_sets E) (e_text E) (e_end E) ls ?n"
  let ?B = "hir_all (look_env (e_text E) (e_end E) (e_sets E) ?lk) (strip_groups h)"
  let ?E' = "look_env (e_text E) (e_end E) (e_sets E) (e_look E)"
  have n: "?n \<le> length ls" and g: "e_guards E" and lk: "e_look E = look_holds u (e_sets E) (e_text E) (e_end E) ls"
    using E by (auto simp: setting_def covers_def)
  have "?B = hir_all (?E'\<lparr>e_look := ?lk\<rparr>) (strip_groups h)" by (simp add: look_env_def)
  also have "\<dots> = hir_all (?E'\<lparr>e_look := e_look E\<rparr>) (strip_groups h)"
    by (rule hir_all_cong [OF _ strip_groups_ok [OF hok]]) (simp add: lk looks_upto_holds [OF _ n])
  finally have B: "?B = hir_all ?E' (strip_groups h)" by (simp add: look_env_def)
  have E': "same_ends (hir_all ?E' h) (hir_all E h)"
    by (rule hir_all_same_ends) (simp add: same_setting_def look_env_def g)
  have A: "hir_all E h = ?A" by (rule meansD [OF m E])
  have s: "same_ends ?B ?A" unfolding B A [symmetric] by (rule same_ends_trans [OF strip_groups_same_ends E'])
  show ?thesis
  proof (cases behind)
    case False
    then show ?thesis using same_ends_nonempty [OF s, of pos "[]" sl] by simp
  next
    case True
    then have lo: "least h = lo" "most h = Some lo" using w by simp_all
    have ex: "(\<exists>x \<in> set L. fst x = p) \<longleftrightarrow> p \<in> fst ` set L" for p and L :: "outcome list" by force
    have "lo \<le> pos \<and> (\<exists>x \<in> set (?B (pos - lo) []). fst x = pos) \<longleftrightarrow> lo \<le> pos \<and> pos \<in> fst ` set (?A (pos - lo) sl)"
      unfolding ex same_ends_image [OF s, of "pos - lo" "[]" sl] ..
    also have "\<dots> \<longleftrightarrow> list_ex (\<lambda>q. pos \<in> fst ` set (?A q sl)) [0..<Suc pos]"
    proof
      assume "list_ex (\<lambda>q. pos \<in> fst ` set (?A q sl)) [0..<Suc pos]"
      then obtain q where q: "q \<le> pos" "pos \<in> fst ` set (?A q sl)" unfolding list_ex_iff by (metis atLeastLessThan_iff less_Suc_eq_le set_upt)
      then have "pos = q + lo" unfolding A [symmetric] by (auto dest: fixed_width [OF lo])
      then show "lo \<le> pos \<and> pos \<in> fst ` set (?A (pos - lo) sl)" using q(2) by simp
    next
      assume "lo \<le> pos \<and> pos \<in> fst ` set (?A (pos - lo) sl)"
      then show "list_ex (\<lambda>q. pos \<in> fst ` set (?A q sl)) [0..<Suc pos]"
        unfolding list_ex_iff by (intro bexI [of _ "pos - lo"]) auto
    qed
    finally show ?thesis using True by simp
  qed
qed

lemma widths_fixed:
  assumes "widths (width_raw b) h" and "py_width b = (lo, lo)" and "lo \<le> MAX_LOOK"
  shows "least h = lo" "most h = Some lo"
proof -
  have "min (least h) (MAXREPEAT - 1) = lo" "cap_most (most h) = lo"
    using assms(1,2) by (auto simp: widths_def py_width_def cap_width_def)
  then show "least h = lo" "most h = Some lo"
    using assms(3) maxrepeat_bounds(3) by (auto simp: cap_most_def min_def split: option.splits if_splits)
qed

lemma look_lowers:
  assumes inner: "lowers u ns b flags st (h, st')" and py: "py_width b = (lo, hi)"
    and beh: "behind \<longrightarrow> lo = hi \<and> hi \<le> MAX_LOOK"
    and r: "lower_test (around_look behind negate (lo, hi) (strip_groups h)) (st'\<lparr>l_nest := k\<rparr>) = Inr r"
  shows "lowers u ns (N_Look behind negate b) flags st r"
proof -
  note i = lowersD [OF inner]
  let ?st = "st'\<lparr>l_nest := k\<rparr>" and ?l = "around_look behind negate (lo, hi) (strip_groups h)"
  have w: "behind \<longrightarrow> least h = lo \<and> most h = Some lo" using widths_fixed [OF i(5)] py beh by auto
  have "lowers u ns (N_Look behind negate b) flags ?st r"
  proof (rule lower_test_lowers [OF r])
    show "lower_ok ns ?st" using i(2) by (simp add: lower_ok_def)
    show "look_ok ns (length (l_sets ?st)) (length (l_looks ?st)) ?l"
      by (rule around_look_ok) (use i(3,4) w in \<open>simp add: strip_groups_ok strip_groups_bounds\<close>)
    fix E :: env and ls pos sl
    assume "setting u E ls (?st\<lparr>l_looks := l_looks ?st @ [?l]\<rparr>)"
    then have "setting u E ls st'" by (auto simp: setting_def covers_def)
    from look_true_node [OF i(6,3) w this, of negate hi pos sl]
    show "node_all u (N_Look behind negate b) flags E pos sl =
        (if look_true u (e_sets E) (e_text E) (e_end E) (looks_upto u (e_sets E) (e_text E) (e_end E) ls (length (l_looks ?st)))
              ?l pos then [(pos, sl)] else [])"
      by (simp add: around_look_true del: upt_Suc look_true.simps)
  qed simp
  moreover have "grown st ?st" using i(1) by (simp add: covers_def)
  ultimately show ?thesis unfolding lowers_def using covers_trans [where st = st and st' = ?st] by (cases r) simp
qed

section \<open>Trees\<close>

lemma lower_each_lowers:
  assumes "\<And>n st r. n \<in> set v \<Longrightarrow> lower_ok ns st \<Longrightarrow> lower_node n u flags st = Inr r \<Longrightarrow> lowers u ns n flags st r"
    and "lower_each (map lower_node v) u flags st = Inr (hs, st')" and "lower_ok ns st"
  shows "grown st st' \<and> lower_ok ns st' \<and> list_all2 (\<lambda>n h. hir_ok (length (l_looks st')) h \<and>
    hir_bounds ns (length (l_sets st')) h \<and> widths (width_raw n) h \<and> means u n flags h st') v hs"
  using assms
proof (induction v arbitrary: st hs)
  case (Cons n v)
  from Cons.prems(2) obtain h st1 hs' where h: "lower_node n u flags st = Inr (h, st1)"
    and r: "lower_each (map lower_node v) u flags st1 = Inr (hs', st')" "hs = h # hs'" by auto
  have "lowers u ns n flags st (h, st1)" using Cons.prems(1) [OF _ Cons.prems(3) h] by simp
  note l = lowersD [OF this]
  have t: "grown st1 st' \<and> lower_ok ns st' \<and> list_all2 (\<lambda>n h. hir_ok (length (l_looks st')) h \<and>
      hir_bounds ns (length (l_sets st')) h \<and> widths (width_raw n) h \<and> means u n flags h st') v hs'"
    by (rule Cons.IH [OF _ r(1) l(2)]) (use Cons.prems(1) in simp)
  then have "length (l_looks st1) \<le> length (l_looks st')" "length (l_sets st1) \<le> length (l_sets st')" by (auto simp: covers_def)
  then show ?case using t l r(2) grown_trans [OF l(1)]
    by (auto intro: hir_ok_mono hir_bounds_mono means_mono)
qed simp

lemma lower_node_lowers:
  assumes u: "unidata_ok u" and ns: "ns = 2 * groups + 2"
  shows "lower_node n u flags st = Inr r \<Longrightarrow> node_ok groups n \<Longrightarrow> lower_ok ns st \<Longrightarrow> lowers u ns n flags st r"
proof (induction n arbitrary: flags st r)
  case (N_Group g on off b)
  then obtain h st' where h: "lower_node b u (combine flags on off) st = Inr (h, st')"
    and r: "r = (case g of Some g \<Rightarrow> H_Group g h | None \<Rightarrow> h, st')" by auto
  have "lowers u ns b (combine flags on off) st (h, st')" using N_Group.IH [OF h] N_Group.prems by simp
  note l = lowersD [OF this]
  show ?case
  proof (cases g)
    case None
    then show ?thesis using l r by (simp add: lowers_def widths_cap means_def)
  next
    case (Some k)
    have "hir_all E (H_Group k h) = group_all E k (hir_all E h)" if "e_saves E" for E
      using that by (intro ext) (simp add: group_all_def)
    then have "means u (N_Group g on off b) flags (H_Group k h) st'"
      using l(6) by (simp add: means_def setting_def Some del: hir_all.simps(4))
    then show ?thesis using l r Some ns N_Group.prems(2) by (simp add: lowers_def widths_def cap_width_def)
  qed
next
  case (N_Seq v)
  then obtain hs st' where h: "lower_each (map lower_node v) u flags st = Inr (hs, st')" and r: "r = (H_Concat hs, st')" by auto
  have l: "grown st st' \<and> lower_ok ns st' \<and> list_all2 (\<lambda>n h. hir_ok (length (l_looks st')) h \<and>
    hir_bounds ns (length (l_sets st')) h \<and> widths (width_raw n) h \<and> means u n flags h st') v hs"
    by (rule lower_each_lowers [OF _ h N_Seq.prems(3)]) (use N_Seq in \<open>auto simp: list_all_iff\<close>)
  have "means u (N_Seq v) flags (H_Concat hs) st'" unfolding means_def
  proof (intro allI impI)
    fix E ls
    assume "setting u E ls st'"
    then have "map (hir_all E) hs = map (\<lambda>n. node_all u n flags E) v"
      using l by (auto simp: list_all2_conv_all_nth intro!: nth_equalityI meansD)
    then show "hir_all E (H_Concat hs) = node_all u (N_Seq v) flags E" by (simp add: comp_def)
  qed
  moreover have "widths (width_raw (N_Seq v)) (H_Concat hs)" by (rule widths_seq) (use l in \<open>auto elim: list_all2_mono\<close>)
  ultimately show ?case using l by (auto simp: lowers_def r list_all2_conv_all_nth list_all_length)
next
  case (N_Alt v)
  then obtain hs st' where h: "lower_each (map lower_node v) u flags st = Inr (hs, st')" and r: "r = (H_Alt hs, st')" by auto
  have l: "grown st st' \<and> lower_ok ns st' \<and> list_all2 (\<lambda>n h. hir_ok (length (l_looks st')) h \<and>
    hir_bounds ns (length (l_sets st')) h \<and> widths (width_raw n) h \<and> means u n flags h st') v hs"
    by (rule lower_each_lowers [OF _ h N_Alt.prems(3)]) (use N_Alt in \<open>auto simp: list_all_iff\<close>)
  have ne: "v \<noteq> []" "hs \<noteq> []" using N_Alt.prems(2) l by auto
  have "means u (N_Alt v) flags (H_Alt hs) st'" unfolding means_def
  proof (intro allI impI)
    fix E ls
    assume "setting u E ls st'"
    then have "map (hir_all E) hs = map (\<lambda>n. node_all u n flags E) v"
      using l by (auto simp: list_all2_conv_all_nth intro!: nth_equalityI meansD)
    then show "hir_all E (H_Alt hs) = node_all u (N_Alt v) flags E" using ne by (simp add: comp_def)
  qed
  moreover have "widths (width_raw (N_Alt v)) (H_Alt hs)" by (rule widths_alt) (use l ne in \<open>auto elim: list_all2_mono\<close>)
  ultimately show ?case using l ne by (auto simp: lowers_def r list_all2_conv_all_nth list_all_length)
next
  case (N_Repeat mn mx kind b)
  then obtain h st' where k: "kind \<noteq> Possessive" and lo: "fst (py_width b) \<noteq> 0 \<or> mx \<le> 1"
    and h: "lower_node b u flags st = Inr (h, st')"
    and r: "r = (H_Repeat mn (if mx = MAXREPEAT then None else Some mx) (kind = Greedy) (is_simple b) h, st')"
    by (auto simp: refuse_def split: if_splits)
  have "lowers u ns b flags st (h, st')" using N_Repeat.IH [OF h] N_Repeat.prems by simp
  note l = lowersD [OF this]
  have c: "mn \<le> mx" "mx \<le> MAXREPEAT" using N_Repeat.prems(2) by simp_all
  have "0 < least h" if "mx = MAXREPEAT"
    using l(5) lo that maxrepeat_bounds(4) by (auto simp: widths_def py_width_def cap_width_def)
  moreover have "kind \<noteq> Lazy \<longleftrightarrow> kind = Greedy" using k by (cases kind) auto
  then have "means u (N_Repeat mn mx kind b) flags (H_Repeat mn (if mx = MAXREPEAT then None else Some mx) (kind = Greedy) (is_simple b) h) st'"
    using l(6) k by (simp add: means_def)
  moreover have "MAXREPEAT = HOLE" by (simp add: MAXREPEAT_def HOLE_def)
  ultimately show ?case using l c widths_repeat [OF l(5,3) c lo] by (simp add: lowers_def r)
next
  case (N_Look behind negate b)
  obtain lo hi where w: "py_width b = (lo, hi)" by fastforce
  from N_Look.prems(1) obtain h st' where beh: "behind \<longrightarrow> lo = hi \<and> hi \<le> MAX_LOOK"
    and h: "lower_node b u flags (st\<lparr>l_nest := l_nest st + 1\<rparr>) = Inr (h, st')"
    and r: "lower_test (around_look behind negate (lo, hi) (strip_groups h)) (st'\<lparr>l_nest := l_nest st' - 1\<rparr>) = Inr r"
    by (auto simp: w refuse_def split: if_splits)
  have "lower_ok ns (st\<lparr>l_nest := l_nest st + 1\<rparr>)" using N_Look.prems(3) by (simp add: lower_ok_def)
  then have "lowers u ns b flags (st\<lparr>l_nest := l_nest st + 1\<rparr>) (h, st')" using N_Look.IH [OF h] N_Look.prems(2) by simp
  then have "lowers u ns b flags st (h, st')" by (simp add: lowers_def covers_def)
  from look_lowers [OF this w beh r] show ?case .
next
  case (N_Lit c)
  then show ?case
    by (auto intro!: lower_char_lowers [where s = "literal_set u c False (fold_of flags)" and accept = "literal_accepts u (fold_of flags) c"]
        simp: literal_set_iff [OF u])
next
  case (N_NotLit c)
  then show ?case
    by (auto intro!: lower_char_lowers [where s = "literal_set u c True (fold_of flags)" and accept = "\<lambda>d. \<not> literal_accepts u (fold_of flags) c d"]
        simp: literal_set_iff [OF u])
next
  case (N_Class items negate)
  then show ?case
    by (auto intro!: lower_char_lowers
        [where s = "class_set u items negate (fold_of flags) (\<not> has_flag flags FLAG_UNICODE)" and
          accept = "\<lambda>d. class_accepts u (fold_of flags) (\<not> has_flag flags FLAG_UNICODE) items d \<noteq> negate"]
        simp: class_set_iff [OF u])
next
  case N_Any
  then show ?case
    by (auto intro!: lower_char_lowers [where s = "any_set (has_flag flags FLAG_DOTALL)" and accept = "\<lambda>d. has_flag flags FLAG_DOTALL \<or> d \<noteq> 0x0A"]
        simp: any_set_iff)
next
  case (N_At a)
  then show ?case by (auto intro: at_lowers)
qed (simp_all add: refuse_def)

section \<open>Whole patterns\<close>

text \<open>Without backreferences nothing is expanded.\<close>

lemma expand_backrefs_none: "paths_to is_backref n = [] \<Longrightarrow> expand_backrefs u n flags = n"
  by (simp add: expand_backrefs_def Let_def)

lemma lower_lowers:
  assumes "unidata_ok u" and "lower u p = Inr lw" and "node_ok (p_groups p) n" and "n = expand_backrefs u (p_node p) (p_flags p)"
  shows "pattern_ok (lw_hir lw) (lw_sets lw) (lw_looks lw) (p_groups p)"
    "\<lbrakk>e_sets E = lw_sets lw @ ss; e_saves E; e_guards E; e_look E = look_holds u (e_sets E) (e_text E) (e_end E) (lw_looks lw)\<rbrakk>
     \<Longrightarrow> hir_all E (lw_hir lw) = node_all u n (p_flags p) E"
proof -
  obtain h st where l: "lower_node n u (p_flags p) lower_start = Inr (h, st)"
    and lw: "lw_hir lw = h" "lw_sets lw = l_sets st" "lw_looks lw = l_looks st"
    using assms(2) unfolding lower_def assms(4) [symmetric] by auto
  have "lower_ok (2 * p_groups p + 2) lower_start" by (simp add: lower_ok_def lower_start_def looks_ok_def)
  from lower_node_lowers [OF assms(1) refl l assms(3) this]
  have L: "lowers u (2 * p_groups p + 2) n (p_flags p) lower_start (h, st)" .
  note d = lowersD [OF L]
  show "pattern_ok (lw_hir lw) (lw_sets lw) (lw_looks lw) (p_groups p)"
    using d by (simp add: pattern_ok_def lw lower_ok_def)
  assume "e_sets E = lw_sets lw @ ss" "e_saves E" "e_guards E"
    "e_look E = look_holds u (e_sets E) (e_text E) (e_end E) (lw_looks lw)"
  then have "setting u E (lw_looks lw) st" by (simp add: setting_def covers_def lw)
  from meansD [OF d(6) this] show "hir_all E (lw_hir lw) = node_all u n (p_flags p) E" by (simp add: lw)
qed

text \<open>The setting of a tree: the text, the window's end and the slots.\<close>

definition text_env :: "u32 list \<Rightarrow> nat \<Rightarrow> nat \<Rightarrow> env" where
  "text_env text e ns =
     \<lparr>e_text = text, e_end = e, e_sets = [], e_slots = ns, e_saves = True, e_guards = True, e_look = (\<lambda>l p. False)\<rparr>"

definition same_window :: "env \<Rightarrow> env \<Rightarrow> bool" where
  "same_window E E' \<longleftrightarrow> e_text E = e_text E' \<and> e_end E = e_end E' \<and> e_slots E = e_slots E' \<and> e_guards E = e_guards E'"

lemma rep_all_window:
  "same_window E E' \<Longrightarrow> rep_all E mn mx greedy simple A = rep_all E' mn mx greedy simple A"
  by (intro ext, cases mx) (simp_all add: rep_all_def same_window_def)

lemma node_all_window: "same_window E E' \<Longrightarrow> node_all u n flags E = node_all u n flags E'"
proof (induction n arbitrary: flags)
  case (N_Group g on off b)
  then show ?case by (auto simp: group_all_def same_window_def fun_eq_iff split: option.split)
next
  case (N_Seq v)
  then have "map ((\<lambda>A. A flags E) \<circ> node_all u) v = map ((\<lambda>A. A flags E') \<circ> node_all u) v" by simp
  then show ?case by (simp only: node_all.simps map_map)
next
  case (N_Alt v)
  then have "map ((\<lambda>A. A flags E) \<circ> node_all u) v = map ((\<lambda>A. A flags E') \<circ> node_all u) v" by simp
  then show ?case by (simp only: node_all.simps map_map)
next
  case (N_Repeat mn mx kind b)
  then show ?case using rep_all_window [OF N_Repeat.prems] by simp
next
  case (N_Cond g yes no)
  then have "no = Some n \<Longrightarrow> node_all u n flags E = node_all u n flags E'" for n by auto
  with N_Cond show ?case by (intro ext) (auto split: option.split)
next
  case (N_Backref g)
  then have "e_text E = e_text E'" "e_end E = e_end E'" by (simp_all add: same_window_def)
  then show ?case by (intro ext) (simp add: backref_all_def split: option.split)
next
  case (N_At a)
  then show ?case by (intro ext) (simp add: at_true_def same_window_def)
qed (auto simp: reads_char_def same_window_def fun_eq_iff)

text \<open>The ways of a parsed pattern: from one position, from each position in turn, and to the window's end.\<close>

definition start_slots :: "nat \<Rightarrow> nat \<Rightarrow> int list" where
  "start_slots groups pos = (replicate (2 * groups + 2) (-1))[2 * groups + 1 := int pos]"

definition tree_match :: "unidata \<Rightarrow> parsed \<Rightarrow> u32 list \<Rightarrow> nat \<Rightarrow> nat \<Rightarrow> outcome list" where
  "tree_match u p text e pos =
     node_all u (p_node p) (p_flags p) (text_env text e (2 * p_groups p + 2)) pos (start_slots (p_groups p) pos)"

definition tree_search :: "unidata \<Rightarrow> parsed \<Rightarrow> u32 list \<Rightarrow> nat \<Rightarrow> nat \<Rightarrow> outcome list" where
  "tree_search u p text e start =
     concat (map (tree_match u p text e) [start..<Suc (max start (min e (length text)))])"

definition tree_full :: "unidata \<Rightarrow> parsed \<Rightarrow> u32 list \<Rightarrow> nat \<Rightarrow> nat \<Rightarrow> outcome list" where
  "tree_full u p text e pos = filter (\<lambda>x. fst x = e) (tree_match u p text e pos)"

lemma parse_node_ok: "parse u pattern flags = Inr p \<Longrightarrow> node_ok (p_groups p) (p_node p)"
  using parse_checks [of u pattern flags] by (simp add: checks_def)

lemma compiled_sets:
  assumes "compile h ss ls groups = Inr pr"
  shows "\<exists>more. sets pr = ss @ more"
proof -
  from assms obtain any where "with_any ss = (any, sets pr)" by (rule compile_parts) blast
  then have "sets pr = ss \<or> sets pr = ss @ [cs_all]" by (auto simp: with_any_def Let_def split: if_splits)
  then show ?thesis by auto
qed

lemma tree_ways:
  assumes u: "unidata_ok u" and p: "parse u pattern flags = Inr p" and b: "paths_to is_backref (p_node p) = []"
    and l: "lower u p = Inr lw" and c: "compile (lw_hir lw) (lw_sets lw) (lw_looks lw) (p_groups p) = Inr pr"
  shows "pattern_ok (lw_hir lw) (lw_sets lw) (lw_looks lw) (p_groups p)"
    "match_ways (pat_env u pr (lw_looks lw) text e) (lw_hir lw) pos = tree_match u p text e pos"
    "search_ways (pat_env u pr (lw_looks lw) text e) (lw_hir lw) pos = tree_search u p text e pos"
    "full_ways (pat_env u pr (lw_looks lw) text e) (lw_hir lw) pos = tree_full u p text e pos"
proof -
  let ?E = "pat_env u pr (lw_looks lw) text e"
  note n = expand_backrefs_none [OF b, of u "p_flags p", symmetric]
  note lw = lower_lowers [OF u l parse_node_ok [OF p] n]
  show ok: "pattern_ok (lw_hir lw) (lw_sets lw) (lw_looks lw) (p_groups p)" by (rule lw)
  obtain more where s: "sets pr = lw_sets lw @ more" using compiled_sets [OF c] by blast
  have ns: "slots pr = 2 * p_groups p + 2" by (rule compile_tests [OF ok c])
  have "hir_all ?E (lw_hir lw) = node_all u (p_node p) (p_flags p) ?E" by (rule lw(2)) (simp_all add: s)
  also have "\<dots> = node_all u (p_node p) (p_flags p) (text_env text e (2 * p_groups p + 2))"
    by (rule node_all_window) (simp add: same_window_def text_env_def ns)
  finally show m: "match_ways ?E (lw_hir lw) pos = tree_match u p text e pos" for pos
    by (simp add: match_ways_def tree_match_def start_slots_def ns)
  have "match_ways ?E (lw_hir lw) = tree_match u p text e" by (rule ext) (rule m)
  then show "search_ways ?E (lw_hir lw) pos = tree_search u p text e pos"
    by (simp add: search_ways_def tree_search_def last_start_def)
  show "full_ways ?E (lw_hir lw) pos = tree_full u p text e pos" by (simp add: full_ways_def tree_full_def m)
qed

end
