(* ===== verification/Prefilter.thy ===== *)
theory Prefilter
  imports Lower_Sem
begin

text \<open>
  The scans of \<^verbatim>\<open>linre/prefilter.rs\<close>, and \<^verbatim>\<open>scan_by\<close> of \<^verbatim>\<open>linre/literal.rs\<close> they use: patterns answered by a
  scan alone (\<open>simple\<close>), and the characters a match can start with (\<open>first_set\<close>, \<open>first_chars\<close>). They
  only save work: a scan answers what the matcher would, and skips no position a match starts at.
\<close>

section \<open>Scanning for a character\<close>

text \<open>Rust's \<^verbatim>\<open>Iterator::position\<close>.\<close>

fun position :: "('a \<Rightarrow> bool) \<Rightarrow> 'a list \<Rightarrow> nat option" where
  "position hit [] = None"
| "position hit (x # xs) = (if hit x then Some 0 else map_option Suc (position hit xs))"

definition W :: nat where
  "W = 16"

function scan_chunks :: "u32 list \<Rightarrow> nat \<Rightarrow> nat \<Rightarrow> (u32 \<Rightarrow> bool) \<Rightarrow> nat option" where
  "scan_chunks text i to hit =
     (if i + W \<le> to
      then (let chunk = take W (drop i text)
            in if list_ex hit chunk then map_option (\<lambda>k. i + k) (position hit chunk)
               else scan_chunks text (i + W) to hit)
      else if i \<ge> to then None
      else map_option (\<lambda>k. i + k) (position hit (take (to - i) (drop i text))))"
  by pat_completeness auto
termination
  by (relation "measure (\<lambda>(text, i, to, hit). to - i)") (auto simp: W_def)

declare scan_chunks.simps [simp del]

definition scan_by :: "u32 list \<Rightarrow> nat \<Rightarrow> nat \<Rightarrow> (u32 \<Rightarrow> bool) \<Rightarrow> nat option" where
  "scan_by text from to hit = scan_chunks text from (min to (length text)) hit"

section \<open>Patterns answered by a scan\<close>

record simple =
  s_min :: nat
  s_max :: nat
  s_ascii :: "bool list"
  s_other :: charset

fun simple_shape :: "hir \<Rightarrow> (nat \<times> nat \<times> nat) option" where
  "simple_shape (H_Char s) = Some (s, 1, 1)"
| "simple_shape (H_Repeat mn mx True smp (H_Char s)) = Some (s, mn, case mx of None \<Rightarrow> USIZE_MAX | Some m \<Rightarrow> m)"
| "simple_shape _ = None"

definition ascii_table :: "charset \<Rightarrow> bool list" where
  "ascii_table s = map (\<lambda>c. ascii_mask s AND push_bit c 1 \<noteq> 0) [0..<128]"

definition simple_of :: "hir \<Rightarrow> charset list \<Rightarrow> simple option option" where
  "simple_of h ss =
     (case simple_shape h of
        None \<Rightarrow> Some None
      | Some (s, mn, mx) \<Rightarrow>
          if mn > mx then Some None
          else do { cs \<leftarrow> get_at ss s;
                    Some (Some \<lparr>s_min = mn, s_max = mx, s_ascii = ascii_table cs,
                                s_other = cs_intersect cs (cs_range 128 CP_MAX)\<rparr>) })"

definition simple_has :: "simple \<Rightarrow> u32 \<Rightarrow> bool" where
  "simple_has sm c = (if c < 128 then s_ascii sm ! unat c else contains (s_other sm) c)"

definition simple_find :: "simple \<Rightarrow> u32 list \<Rightarrow> nat \<Rightarrow> nat \<Rightarrow> nat option" where
  "simple_find sm text from to =
     (if cs_is_empty (s_other sm) then scan_by text from to (\<lambda>x. x < 128 \<and> s_ascii sm ! unat (x AND 127))
      else scan_by text from to (simple_has sm))"

function run_end :: "simple \<Rightarrow> u32 list \<Rightarrow> nat \<Rightarrow> nat \<Rightarrow> nat option" where
  "run_end sm text j to =
     (if j < to
      then do { c \<leftarrow> get_at text j; if simple_has sm c then run_end sm text (j + 1) to else Some j }
      else Some j)"
  by pat_completeness auto
termination
  by (relation "measure (\<lambda>(sm, text, j, to). to - j)") auto

declare run_end.simps [simp del]

text \<open>The loop of \<^verbatim>\<open>span\<close>: the answer, once a run is long enough or the window ends.\<close>

partial_function (option) span_loop :: "simple \<Rightarrow> u32 list \<Rightarrow> nat \<Rightarrow> bool \<Rightarrow> nat \<Rightarrow> (nat \<times> nat) option option" where
  "span_loop sm text e anch at =
     (case (if anch then Some at else simple_find sm text at e) of
        None \<Rightarrow> Some None
      | Some a \<Rightarrow>
          do { b \<leftarrow> run_end sm text a (min e (sat_usize (a + s_max sm)));
               if b - a \<ge> s_min sm then Some (Some (a, b))
               else if anch \<or> b \<ge> e then Some None
               else span_loop sm text e anch b })"

definition simple_span ::
    "simple \<Rightarrow> u32 list \<Rightarrow> nat \<Rightarrow> nat \<Rightarrow> bool \<Rightarrow> bool \<Rightarrow> bool \<Rightarrow> (nat \<times> nat) option option option" where
  "simple_span sm text start e anch whole must =
     (if start > e \<or> e > length text then Some (Some None)
      else if must \<and> s_min sm = 0 then Some None
      else if whole
      then (let n = e - start
            in do { b \<leftarrow> (if n \<ge> s_min sm \<and> n \<le> s_max sm then run_end sm text start e else Some start);
                    Some (Some (if n \<ge> s_min sm \<and> n \<le> s_max sm \<and> b = e then Some (start, e) else None)) })
      else map_option Some (span_loop sm text e (anch \<or> s_min sm = 0) start))"

section \<open>The characters a match can start with\<close>

text \<open>\<^verbatim>\<open>freq\<close>: how common a character is, per mille.\<close>

definition freq :: "u32 \<Rightarrow> nat" where
  "freq c =
     (if c = 0x20 then 150 else if c = 0x65 then 60 else if c = 0x74 then 45
      else if c \<in> set [0x61, 0x69, 0x6E, 0x6F, 0x72, 0x73] then 38
      else if c = 0x6C then 28
      else if c \<in> set [0x0A, 0x63, 0x64, 0x75] then 22
      else if c \<in> set [0x28, 0x29, 0x2E, 0x3D, 0x70, 0x6D, 0x68] then 18
      else if c \<in> set [0x2C, 0x66, 0x5F, 0x27, 0x3B, 0x67, 0x62] then 12
      else if c \<in> set [0x22, 0x3A, 0x79, 0x76, 0x77, 0x09] then 8
      else if c \<in> set [0x2F, 0x7B, 0x7D, 0x2D, 0x30, 0x31, 0x5B, 0x5D, 0x6B, 0x78] then 5
      else if 0x41 \<le> c \<and> c \<le> 0x5A then 3
      else if 0x32 \<le> c \<and> c \<le> 0x39 \<or> c \<in> set [0x2A, 0x3E, 0x3C, 0x2B, 0x24, 0x21] then 2
      else 1)"

text \<open>The set a character instruction reads; the instructions that end the search for first characters.\<close>

definition char_set :: "inst \<Rightarrow> nat option" where
  "char_set i = (case i of I_Char s _ \<Rightarrow> Some s | _ \<Rightarrow> None)"

definition gives_up :: "inst \<Rightarrow> bool" where
  "gives_up i = (case i of I_Match \<Rightarrow> True | I_Run _ _ _ _ _ \<Rightarrow> True | _ \<Rightarrow> False)"

lemma count_seen: "get_at seen pc = Some False \<Longrightarrow> count_list (seen[pc := True]) False < count_list seen False"
proof (induction seen arbitrary: pc)
  case (Cons x xs)
  then show ?case by (cases pc) (auto simp: get_at_def split: if_splits)
qed (simp add: get_at_def)

text \<open>The loop of \<^verbatim>\<open>first_set\<close>: the instructions seen, the stack, the characters so far.\<close>

function first_loop ::
    "charset list \<Rightarrow> inst list \<Rightarrow> bool list \<Rightarrow> nat list \<Rightarrow> charset \<Rightarrow> charset option option" where
  "first_loop ss P seen [] acc = Some (Some acc)"
| "first_loop ss P seen (pc # stack) acc =
     (case get_at seen pc of
        None \<Rightarrow> None
      | Some True \<Rightarrow> first_loop ss P seen stack acc
      | Some False \<Rightarrow>
          (case get_at P pc of
             None \<Rightarrow> None
           | Some i \<Rightarrow>
               if gives_up i then Some None
               else case char_set i of
                      None \<Rightarrow> first_loop ss P (seen[pc := True]) (rev (free_steps i) @ stack) acc
                    | Some s \<Rightarrow>
                        (case get_at ss s of
                           None \<Rightarrow> None
                         | Some cs \<Rightarrow> first_loop ss P (seen[pc := True]) stack (cs_union acc cs))))"
  by pat_completeness auto

termination
  by (relation "measures [\<lambda>(ss, P, seen, stack, acc). count_list seen False, \<lambda>(ss, P, seen, stack, acc). length stack]")
    (auto simp: count_seen)

definition first_set :: "programs \<Rightarrow> prog \<Rightarrow> charset option option" where
  "first_set pr prog = first_loop (sets pr) (insts prog) (replicate (length (insts prog)) False) [p_start prog] cs_empty"

record first_chars =
  fc_ascii :: "bool list"
  fc_other :: "charset option"

definition first_chars_new :: "charset \<Rightarrow> first_chars option" where
  "first_chars_new s =
     (let ascii = ascii_table s;
          density = sum_list (map (\<lambda>c. if ascii ! c then freq (of_nat c) else 0) [0..<128])
      in if density > 40 then None
         else (let other = cs_intersect s (cs_range 128 CP_MAX)
               in if length (ranges other) > 16 then None
                  else Some \<lparr>fc_ascii = ascii, fc_other = (if cs_is_empty other then None else Some other)\<rparr>))"

definition first_has :: "first_chars \<Rightarrow> u32 \<Rightarrow> bool" where
  "first_has fc c =
     (case fc_other fc of
        None \<Rightarrow> c < 128 \<and> fc_ascii fc ! unat c
      | Some o1 \<Rightarrow> (if c < 128 then fc_ascii fc ! unat c else contains o1 c))"

function first_scan :: "first_chars \<Rightarrow> u32 list \<Rightarrow> nat \<Rightarrow> nat \<Rightarrow> nat option" where
  "first_scan fc text i e = (if i < e then if first_has fc (text ! i) then Some i else first_scan fc text (i + 1) e else None)"
  by pat_completeness auto
termination
  by (relation "measure (\<lambda>(fc, text, i, e). e - i)") auto

declare first_scan.simps [simp del]

definition first_chars_next :: "first_chars \<Rightarrow> u32 list \<Rightarrow> nat \<Rightarrow> nat \<Rightarrow> nat option" where
  "first_chars_next fc text from e = first_scan fc text from (min e (length text))"


section \<open>What the scans find\<close>

lemma chunk_map: "i + n \<le> length text \<Longrightarrow> take n (drop i text) = map ((!) text) [i..<i + n]"
  by (rule nth_equalityI) simp_all

lemma position_map: "map_option (\<lambda>k. i + k) (position hit (map f [i..<i + n])) = find (\<lambda>k. hit (f k)) [i..<i + n]"
proof (induction n arbitrary: i)
  case (Suc n)
  have u: "[i..<i + Suc n] = i # [Suc i..<Suc i + n]" by (simp add: upt_conv_Cons del: upt_Suc)
  have "map_option (\<lambda>k. i + k) (map_option Suc x) = map_option (\<lambda>k. Suc i + k) x" for x
    by (cases x) simp_all
  then show ?case using Suc.IH [of "Suc i"] unfolding u by simp
qed simp

lemma find_append: "find P (xs @ ys) = (case find P xs of None \<Rightarrow> find P ys | Some x \<Rightarrow> Some x)"
  by (induction xs) auto

lemma find_none_ex: "(find P xs = None) = (\<not> list_ex P xs)"
  by (induction xs) auto

lemma scan_chunks_find:
  "to \<le> length text \<Longrightarrow> scan_chunks text i to hit = find (\<lambda>k. hit (text ! k)) [i..<to]"
proof (induction "to - i" arbitrary: i rule: less_induct)
  case less
  show ?case
  proof (cases "i + W \<le> to")
    case True
    then have split: "[i..<to] = [i..<i + W] @ [i + W..<to]" using upt_add_eq_append [of i "i + W" "to - (i + W)"] by simp
    have pos: "map_option (\<lambda>k. i + k) (position hit (take W (drop i text))) = find (\<lambda>k. hit (text ! k)) [i..<i + W]"
      using position_map [of i hit "(!) text" W] True less.prems by (simp add: chunk_map)
    have ex: "list_ex hit (take W (drop i text)) = list_ex (\<lambda>k. hit (text ! k)) [i..<i + W]"
      using True less.prems by (simp add: chunk_map list_ex_iff)
    have rest: "scan_chunks text (i + W) to hit = find (\<lambda>k. hit (text ! k)) [i + W..<to]"
      by (rule less.hyps) (use True less.prems in \<open>simp_all add: W_def\<close>)
    show ?thesis
    proof (cases "list_ex (\<lambda>k. hit (text ! k)) [i..<i + W]")
      case hit: True
      then obtain k where "find (\<lambda>k. hit (text ! k)) [i..<i + W] = Some k" by (metis find_none_ex option.exhaust)
      then show ?thesis using True hit pos ex by (subst scan_chunks.simps) (simp add: Let_def split find_append)
    next
      case False
      then have "find (\<lambda>k. hit (text ! k)) [i..<i + W] = None" by (simp add: find_none_ex)
      then show ?thesis using True False ex rest by (subst scan_chunks.simps) (simp add: Let_def split find_append)
    qed
  next
    case False
    then show ?thesis using position_map [of i hit "(!) text" "to - i"] less.prems
      by (subst scan_chunks.simps) (auto simp: chunk_map)
  qed
qed

lemma scan_by_find: "scan_by text from to hit = find (\<lambda>k. hit (text ! k)) [from..<min to (length text)]"
  by (simp add: scan_by_def scan_chunks_find)

lemma ascii_table_nth: "cs_ok s \<Longrightarrow> c < 128 \<Longrightarrow> ascii_table s ! unat c \<longleftrightarrow> c \<in> cs_set s"
  using bit_mask_word [of "ascii_mask s" "unat c"] ascii_mask_iff [of s c]
  by (simp add: ascii_table_def word_less_nat_alt)

lemma split_has:
  assumes "cs_ok s"
  shows "(if c < 128 then ascii_table s ! unat c else contains (cs_intersect s (cs_range 128 CP_MAX)) c) \<longleftrightarrow> contains s c"
  using assms ascii_table_nth [OF assms, of c] by (auto simp: contains_iff not_less le_CP_MAX)

lemma split_has_none:
  assumes "cs_ok s" and "cs_is_empty (cs_intersect s (cs_range 128 CP_MAX))"
  shows "c < 128 \<and> ascii_table s ! unat c \<longleftrightarrow> contains s c"
proof (cases "c < 128")
  case True
  then show ?thesis using assms(1) ascii_table_nth by (simp add: contains_iff)
next
  case False
  then have "c \<in> {128..CP_MAX}" by (simp add: not_less le_CP_MAX)
  then show ?thesis using False assms by (auto simp: contains_iff cs_is_empty_iff)
qed

section \<open>A scan answers as the matcher does\<close>

lemma simple_ways:
  assumes "simple_shape h = Some (si, mn, mx)" and "mn \<le> mx" and "e_guards E" and "e_end E \<le> USIZE_MAX"
    and "\<forall>n m g s c. h = H_Repeat n m g s (H_Char c) \<longrightarrow> s"
  shows "hir_all E h pos sl =
    (if pos \<le> e_end E \<and> mn \<le> run_len E si pos then run_ways pos sl mn (min mx (run_len E si pos)) else [])"
proof (cases h)
  case (H_Char s)
  then have s: "s = si" "mn = 1" "mx = 1" using assms(1) by auto
  then show ?thesis using H_Char run_len_step [of E si pos] hits_end [of E si pos] by (auto simp: run_ways_def)
next
  case (H_Repeat n m g smp b)
  with assms(1) obtain s where b: "b = H_Char s" "g" by (cases b; cases g) auto
  then have smp using assms(5) H_Repeat by blast
  note b = b this
  then have s: "s = si" "mn = n" "mx = (case m of None \<Rightarrow> USIZE_MAX | Some m \<Rightarrow> m)" using assms(1) H_Repeat by auto
  let ?r = "run_len E si pos"
  show ?thesis
  proof (cases "pos \<le> e_end E \<and> mn \<le> ?r")
    case True
    then have t: "run_len E si (pos + n) = ?r - n" using run_len_tail [of n E si pos] s by simp
    have r: "?r \<le> USIZE_MAX" using run_len_bound [of pos E si] True assms(4) by simp
    have "(case m of None \<Rightarrow> star_all (e_end E) True (hir_all E (H_Char si)) | Some m \<Rightarrow> opts_all (m - n) True (hir_all E (H_Char si)))
        (pos + n) sl = run_ways (pos + n) sl 0 (min mx ?r - n)"
      using s(3) r by (cases m) (simp_all add: star_run opts_run t min_def del: hir_all.simps)
    also have "\<dots> = run_ways pos sl mn (min mx ?r)" using True assms(2) s by (simp add: run_ways_shift)
    finally show ?thesis using True s b H_Repeat hir_all.simps(7)
      by (simp add: rep_all_def must_run del: hir_all.simps)
  next
    case False
    then show ?thesis using s b H_Repeat assms(3) hir_all.simps(7) by (auto simp: rep_all_def must_run simp del: hir_all.simps)
  qed
qed (use assms(1) in auto)

lemma run_ways_hd: "lo \<le> hi \<Longrightarrow> run_ways pos sl lo hi = (pos + hi, sl) # map (\<lambda>k. (pos + k, sl)) (rev [lo..<hi])"
  by (simp add: run_ways_def)

lemma find_map_upt: "find (\<lambda>x. fst x = pos + n) (run_ways pos sl lo hi) = (if lo \<le> n \<and> n \<le> hi then Some (pos + n, sl) else None)"
proof -
  have "find (\<lambda>x. fst x = pos + n) (map (\<lambda>k. (pos + k, sl)) ks) = (if n \<in> set ks then Some (pos + n, sl) else None)" for ks
    by (induction ks) auto
  then show ?thesis by (auto simp: run_ways_def simp del: upt_Suc)
qed

lemma find_to:
  "pos \<le> e \<Longrightarrow> find (\<lambda>x. fst x = e) (run_ways pos sl lo hi) = (if lo \<le> e - pos \<and> e - pos \<le> hi then Some (e, sl) else None)"
  using find_map_upt [of pos "e - pos" sl lo hi] by simp

section \<open>The operations on runs\<close>

text \<open>A scan and the set it is of.\<close>

definition scans :: "simple \<Rightarrow> env \<Rightarrow> nat \<Rightarrow> bool" where
  "scans sm E si \<longleftrightarrow>
     (\<forall>c. simple_has sm c = contains (e_sets E ! si) c) \<and>
     (cs_is_empty (s_other sm) \<longrightarrow> (\<forall>c. c < 128 \<and> s_ascii sm ! unat (c AND 127) \<longleftrightarrow> contains (e_sets E ! si) c)) \<and>
     e_end E \<le> length (e_text E)"

lemma scans_hits: "scans sm E si \<Longrightarrow> p < e_end E \<Longrightarrow> simple_has sm (e_text E ! p) = hits E si p"
  by (simp add: scans_def hits_def get_at_def)

lemma run_end_len:
  assumes "scans sm E si" and "e \<le> e_end E"
  shows "j \<le> e \<Longrightarrow> run_end sm (e_text E) j e = Some (j + min (e - j) (run_len E si j))"
proof (induction "e - j" arbitrary: j)
  case 0
  then show ?case by (subst run_end.simps) simp
next
  case (Suc n)
  then have j: "j < e" "j < e_end E" "j < length (e_text E)" using assms by (auto simp: scans_def)
  have IH: "run_end sm (e_text E) (Suc j) e = Some (Suc j + min (e - Suc j) (run_len E si (Suc j)))"
    by (rule Suc(1)) (use Suc(2) j in linarith)+
  have "e - j = Suc (e - Suc j)" using j by simp
  then show ?case using IH j scans_hits [OF assms(1) j(2)] run_len_step [of E si j]
    by (subst run_end.simps) (simp add: get_at_def)
qed

lemma simple_find_hits: "scans sm E si \<Longrightarrow> simple_find sm (e_text E) from (e_end E) = find (hits E si) [from..<e_end E]"
proof -
  assume s: "scans sm E si"
  then have e: "min (e_end E) (length (e_text E)) = e_end E" by (simp add: scans_def)
  have cong: "find P xs = find Q xs" if "\<And>x. x \<in> set xs \<Longrightarrow> P x = Q x" for P Q and xs :: "nat list"
    using that by (induction xs) auto
  have all: "simple_has sm (e_text E ! x) = hits E si x" if "x \<in> set [from..<e_end E]" for x
    by (rule scans_hits [OF s]) (use that in simp)
  have few: "(e_text E ! x < 128 \<and> s_ascii sm ! unat (e_text E ! x AND 127)) = hits E si x"
    if "x \<in> set [from..<e_end E]" "cs_is_empty (s_other sm)" for x
    using s that all [OF that(1)] by (simp add: scans_def)
  show ?thesis
  proof (cases "cs_is_empty (s_other sm)")
    case True
    then show ?thesis using cong [of "[from..<e_end E]", OF few] by (simp add: simple_find_def scan_by_find e)
  next
    case False
    then show ?thesis using cong [of "[from..<e_end E]", OF all] by (simp add: simple_find_def scan_by_find e)
  qed
qed


lemma no_run_no_way:
  assumes "\<And>q sl. hir_all E h q sl = (if q \<le> e_end E \<and> mn \<le> run_len E si q then run_ways q sl mn (min mx (run_len E si q)) else [])"
    and "e_end E \<le> length (e_text E)" and "\<And>q. pos \<le> q \<Longrightarrow> q < to \<Longrightarrow> run_len E si q < mn" and "to \<le> e_end E" and "pos \<le> to"
  shows "search_ways E h pos = search_ways E h to"
  using assms(3,5)
proof (induction "to - pos" arbitrary: pos)
  case (Suc n)
  then have p: "pos < to" by simp
  then have "match_ways E h pos = []" using Suc.prems(1) [of pos] assms(1) by (simp add: match_ways_def)
  moreover have "search_ways E h (Suc pos) = search_ways E h to" by (rule Suc.hyps(1)) (use Suc p in auto)
  ultimately show ?case using p assms(2,4) by (subst search_ways_step) simp
qed simp

text \<open>The ways, the set scanned for and the slots of a pattern that a scan answers.\<close>

definition scan_of :: "simple \<Rightarrow> env \<Rightarrow> nat \<Rightarrow> hir \<Rightarrow> bool" where
  "scan_of sm E si h \<longleftrightarrow>
     scans sm E si \<and> s_min sm \<le> s_max sm \<and> e_end E \<le> USIZE_MAX \<and>
     (\<forall>q sl. hir_all E h q sl =
        (if q \<le> e_end E \<and> s_min sm \<le> run_len E si q then run_ways q sl (s_min sm) (min (s_max sm) (run_len E si q)) else []))"

definition spot :: "env \<Rightarrow> nat \<times> nat \<Rightarrow> outcome" where
  "spot E r = (snd r, (replicate (e_slots E) (-1))[e_slots E - 1 := int (fst r)])"

lemma scan_ofD:
  assumes "scan_of sm E si h"
  shows "scans sm E si" "s_min sm \<le> s_max sm" "e_end E \<le> USIZE_MAX" "e_end E \<le> length (e_text E)"
    "match_ways E h q = (if q \<le> e_end E \<and> s_min sm \<le> run_len E si q
       then run_ways q (snd (spot E (q, x))) (s_min sm) (min (s_max sm) (run_len E si q)) else [])"
  using assms by (auto simp: scan_of_def scans_def match_ways_def spot_def)

lemma span_run:
  assumes "scan_of sm E si h" and "a \<le> e_end E"
  shows "run_end sm (e_text E) a (min (e_end E) (sat_usize (a + s_max sm))) = Some (a + min (s_max sm) (run_len E si a))"
proof -
  note d = scan_ofD [OF assms(1)]
  let ?to = "min (e_end E) (sat_usize (a + s_max sm))"
  have "run_end sm (e_text E) a ?to = Some (a + min (?to - a) (run_len E si a))"
    by (rule run_end_len [OF d(1)]) (use assms(2) d(3) in \<open>auto simp: sat_usize_def\<close>)
  moreover have "min (?to - a) (run_len E si a) = min (s_max sm) (run_len E si a)"
    using run_len_bound [OF assms(2), of si] assms(2) d(3) by (auto simp: sat_usize_def min_def)
  ultimately show ?thesis by simp
qed

lemma way_at:
  assumes "scan_of sm E si h" and "a \<le> e_end E"
  shows "s_min sm \<le> run_len E si a \<Longrightarrow> \<exists>xs. match_ways E h a = spot E (a, a + min (s_max sm) (run_len E si a)) # xs"
    "run_len E si a < s_min sm \<Longrightarrow> match_ways E h a = []"
  using scan_ofD(2) [OF assms(1)] assms(2) scan_ofD(5) [OF assms(1), of a 0] by (simp_all add: run_ways_hd spot_def)

lemma span_anchored:
  assumes "scan_of sm E si h" and "a \<le> e_end E"
  shows "\<exists>r. span_loop sm (e_text E) (e_end E) True a = Some r \<and>
    map_option (spot E) r = (case match_ways E h a of [] \<Rightarrow> None | x # _ \<Rightarrow> Some x)"
proof (cases "s_min sm \<le> run_len E si a")
  case True
  with way_at(1) [OF assms] scan_ofD(2) [OF assms(1)] show ?thesis
    by (subst span_loop.simps) (auto simp: span_run [OF assms])
next
  case False
  then have "match_ways E h a = []" "\<not> s_min sm \<le> min (s_max sm) (run_len E si a)" using way_at(2) [OF assms] by auto
  then show ?thesis by (subst span_loop.simps) (simp add: span_run [OF assms])
qed

lemma find_upt_None: "find P [i..<j] = None \<longleftrightarrow> (\<forall>k. i \<le> k \<longrightarrow> k < j \<longrightarrow> \<not> P k)"
  by (auto simp: find_None_iff)

lemma find_upt_Some: "find P [i..<j] = Some a \<Longrightarrow> i \<le> a \<and> a < j \<and> P a \<and> (\<forall>k. i \<le> k \<longrightarrow> k < a \<longrightarrow> \<not> P k)"
proof -
  assume "find P [i..<j] = Some a"
  then obtain n where n: "n < j - i" "P (i + n)" "a = i + n" "\<forall>m<n. \<not> P (i + m)" by (auto simp: find_Some_iff)
  have "\<not> P k" if "i \<le> k" "k < a" for k using n(3,4) that by (metis add_less_cancel_left le_Suc_ex)
  then show ?thesis using n by auto
qed

lemma span_search:
  assumes s: "scan_of sm E si h" and mn: "s_min sm \<noteq> 0"
  shows "at \<le> e_end E \<Longrightarrow> \<exists>r. span_loop sm (e_text E) (e_end E) False at = Some r \<and>
    map_option (spot E) r = (case search_ways E h at of [] \<Rightarrow> None | x # _ \<Rightarrow> Some x)"
proof (induction "e_end E - at" arbitrary: at rule: less_induct)
  case less
  note d = scan_ofD [OF s]
  have ways: "\<And>q sl. hir_all E h q sl = (if q \<le> e_end E \<and> s_min sm \<le> run_len E si q
      then run_ways q sl (s_min sm) (min (s_max sm) (run_len E si q)) else [])" using s by (simp add: scan_of_def)
  have "run_len E si (e_end E) = 0" by (simp add: run_len_def)
  then have far: "search_ways E h (e_end E) = []"
    using way_at(2) [OF s order_refl] mn by (subst search_ways_step) simp
  have skip: "search_ways E h p = search_ways E h q" if "\<And>k. p \<le> k \<Longrightarrow> k < q \<Longrightarrow> run_len E si k < s_min sm" "q \<le> e_end E" "p \<le> q" for p q
    by (rule no_run_no_way [OF ways d(4) that])
  show ?case
  proof (cases "find (hits E si) [at..<e_end E]")
    case None
    then have "run_len E si k < s_min sm" if "at \<le> k" "k < e_end E" for k
      using that mn by (simp add: find_upt_None run_len_none)
    with skip [of at "e_end E"] far less.prems have "search_ways E h at = []" by simp
    then show ?thesis using None by (subst span_loop.simps) (simp add: simple_find_hits [OF d(1)])
  next
    case (Some a)
    note f = find_upt_Some [OF Some]
    then have a: "a \<le> e_end E" by simp
    have "search_ways E h at = search_ways E h a"
      by (rule skip) (use f mn in \<open>auto simp: run_len_none\<close>)
    note here = this
    show ?thesis
    proof (cases "s_min sm \<le> run_len E si a")
      case True
      with way_at(1) [OF s a] d(2) show ?thesis using Some
        by (subst span_loop.simps, subst here, subst search_ways_step) (auto simp: simple_find_hits [OF d(1)] span_run [OF s a])
    next
      case False
      let ?b = "a + run_len E si a"
      have b: "min (s_max sm) (run_len E si a) = run_len E si a" using False d(2) by simp
      have be: "?b \<le> e_end E" by (rule run_len_bound [OF a])
      have ab: "a < ?b" using f run_len_step [of E si a] by simp
      have low: "run_len E si k < s_min sm" if "a \<le> k" "k < ?b" for k
      proof -
        have "run_len E si (a + (k - a)) = run_len E si a - (k - a)" by (rule run_len_tail) (use that in linarith)
        moreover have "a + (k - a) = k" using that by simp
        ultimately show ?thesis using False by simp
      qed
      have "search_ways E h a = search_ways E h ?b" by (rule skip [OF low be]) simp_all
      with here have on: "search_ways E h at = search_ways E h ?b" by (rule trans)
      have "\<exists>r. span_loop sm (e_text E) (e_end E) False ?b = Some r \<and>
          map_option (spot E) r = (case search_ways E h ?b of [] \<Rightarrow> None | x # _ \<Rightarrow> Some x)"
        by (rule less.hyps [OF _ be]) (use f ab be in linarith)
      moreover have "span_loop sm (e_text E) (e_end E) False at =
          (if ?b \<ge> e_end E then Some None else span_loop sm (e_text E) (e_end E) False ?b)"
        using Some False by (subst span_loop.simps) (simp add: simple_find_hits [OF d(1)] span_run [OF s a] b)
      ultimately show ?thesis using on far be by (cases "?b = e_end E") simp_all
    qed
  qed
qed


lemma find_filter_hd: "(case filter P xs of [] \<Rightarrow> None | x # _ \<Rightarrow> Some x) = find P xs"
  by (induction xs) auto

lemma simple_of_scan:
  assumes sm: "simple_of h ss = Some (Some sm)" and ss: "list_all cs_ok ss" and E: "e_sets E = ss @ ss2" "e_guards E"
    and e: "e_end E \<le> length (e_text E)" "length (e_text E) \<le> USIZE_MAX" and smp: "\<forall>n m g s c. h = H_Repeat n m g s (H_Char c) \<longrightarrow> s"
  shows "\<exists>si. scan_of sm E si h"
proof -
  from sm obtain si mn mx where sh: "simple_shape h = Some (si, mn, mx)" "mn \<le> mx"
    by (auto simp: simple_of_def split: option.splits if_splits)
  with sm obtain cs where cs: "get_at ss si = Some cs"
    and smd: "sm = \<lparr>s_min = mn, s_max = mx, s_ascii = ascii_table cs, s_other = cs_intersect cs (cs_range 128 CP_MAX)\<rparr>"
    by (auto simp: simple_of_def not_less [symmetric] split: Option.bind_splits)
  have csE: "e_sets E ! si = cs" "cs_ok cs" using cs ss E(1) by (auto simp: get_at_eq_Some nth_append list_all_length)
  have low: "c AND 127 = c" if "c < 128" for c :: u32
  proof -
    have "c AND 127 = c AND mask 7" by (simp add: mask_eq_decr_exp)
    also have "\<dots> = c mod 128" by (simp add: take_bit_eq_mask [symmetric] take_bit_eq_mod)
    also have "\<dots> = c" using that by (simp add: word_unat_eq_iff unat_mod word_less_nat_alt)
    finally show ?thesis .
  qed
  have "simple_has sm c = contains cs c" for c using split_has [OF csE(2), of c] by (cases "c < 128") (simp_all add: smd simple_has_def)
  moreover have "c < 128 \<and> s_ascii sm ! unat (c AND 127) \<longleftrightarrow> contains cs c" if "cs_is_empty (s_other sm)" for c
    using split_has_none [OF csE(2), of c] that low [of c] by (cases "c < 128") (simp_all add: smd)
  ultimately have "scans sm E si" using e(1) by (simp add: scans_def csE(1))
  moreover have "hir_all E h q sl = (if q \<le> e_end E \<and> s_min sm \<le> run_len E si q
      then run_ways q sl (s_min sm) (min (s_max sm) (run_len E si q)) else [])" for q sl
    unfolding smd simple.simps by (rule simple_ways [OF sh E(2) order_trans [OF e] smp])
  ultimately have "scan_of sm E si h" using sh(2) e unfolding scan_of_def by (simp add: smd)
  then show ?thesis ..
qed

lemma simple_span_first:
  assumes s: "scan_of sm E si h" and w: "w = \<lparr>anchored = anch, must_advance = must, end_at = None\<rparr>"
    and r: "simple_span sm (e_text E) start (e_end E) anch whole must = Some (Some r)"
  shows "find (\<lambda>x. accepts w start (fst x))
      (if whole then full_ways E h start else if anch then match_ways E h start else search_ways E h start) = map_option (spot E) r"
proof -
  note d = scan_ofD [OF s]
  let ?ways = "if whole then full_ways E h start else if anch then match_ways E h start else search_ways E h start"
  show ?thesis
  proof (cases "start \<le> e_end E")
    case False
    then have "match_ways E h start = []" using d(5) [of start 0] by simp
    moreover have "search_ways E h start = match_ways E h start" using False by (subst search_ways_step) simp
    ultimately show ?thesis using False r by (auto simp: simple_span_def full_ways_def)
  next
    case le: True
    then have adv: "must \<longrightarrow> s_min sm \<noteq> 0" using r d(4) by (cases "s_min sm = 0") (auto simp: simple_span_def)
    have far: "accepts w start (fst x)" if "x \<in> set (match_ways E h q)" "start \<le> q" for x q
      using that adv d(5) [of q 0] by (auto simp: accepts_def w run_ways_def simp del: upt_Suc split: if_splits)
    then have all: "\<forall>x \<in> set ?ways. accepts w start (fst x)"
      by (auto simp: full_ways_def search_ways_def simp del: upt_Suc)
    then have hd: "find (\<lambda>x. accepts w start (fst x)) ?ways = (case ?ways of [] \<Rightarrow> None | x # _ \<Rightarrow> Some x)"
      by (cases ?ways) simp_all
    show ?thesis
    proof (cases whole)
      case True
      let ?n = "e_end E - start"
      have run: "run_end sm (e_text E) start (e_end E) = Some (start + min ?n (run_len E si start))"
        by (rule run_end_len [OF d(1) order_refl le])
      have bound: "run_len E si start \<le> ?n" using run_len_bound [OF le, of si] by simp
      have "r = (if s_min sm \<le> ?n \<and> ?n \<le> s_max sm \<and> run_len E si start = ?n then Some (start, e_end E) else None)"
        using r True le d(4) adv run bound by (auto simp: simple_span_def Let_def split: if_splits)
      moreover have "(case full_ways E h start of [] \<Rightarrow> None | x # _ \<Rightarrow> Some x) = find (\<lambda>x. fst x = e_end E) (match_ways E h start)"
        using le by (auto simp: full_ways_def find_filter_hd)
      moreover have "find (\<lambda>x. fst x = e_end E) (match_ways E h start) =
          (if s_min sm \<le> ?n \<and> ?n \<le> s_max sm \<and> run_len E si start = ?n then Some (spot E (start, e_end E)) else None)"
        using d(5) [of start "e_end E"] le bound by (auto simp: find_to [OF le] spot_def)
      ultimately show ?thesis using hd True by simp
    next
      case False
      then have l: "span_loop sm (e_text E) (e_end E) (anch \<or> s_min sm = 0) start = Some r"
        using r le d(4) adv by (auto simp: simple_span_def)
      show ?thesis
      proof (cases "anch \<or> s_min sm = 0")
        case True
        then have m: "map_option (spot E) r = (case match_ways E h start of [] \<Rightarrow> None | x # _ \<Rightarrow> Some x)"
          using span_anchored [OF s le] l by auto
        show ?thesis
        proof (cases anch)
          case an: True
          then show ?thesis using m hd False by simp
        next
          case an: False
          then have "s_min sm = 0" using True by simp
          then obtain xs where "match_ways E h start = spot E (start, start + min (s_max sm) (run_len E si start)) # xs"
            using way_at(1) [OF s le] by auto
          then show ?thesis unfolding m using hd False an by (simp add: search_ways_step [of E h start])
        qed
      next
        case no: False
        then show ?thesis using span_search [OF s _ le] l hd False by auto
      qed
    qed
  qed
qed


section \<open>No match starts elsewhere\<close>

text \<open>The instructions seen lead only to seen ones and those on the stack; their sets are collected.\<close>

definition walked :: "charset list \<Rightarrow> inst list \<Rightarrow> bool list \<Rightarrow> nat list \<Rightarrow> charset \<Rightarrow> bool" where
  "walked ss P seen stack acc \<longleftrightarrow>
     length seen = length P \<and> cs_ok acc \<and>
     (\<forall>pc < length P. seen ! pc \<longrightarrow>
        P ! pc \<noteq> I_Match \<and> (\<forall>t \<in> set (free_steps (P ! pc)). t \<in> set stack \<or> t < length P \<and> seen ! t) \<and>
        (\<forall>si nx. P ! pc = I_Char si nx \<longrightarrow> si < length ss \<and> cs_set (ss ! si) \<subseteq> cs_set acc) \<and>
        (\<forall>si mn mx g nx. P ! pc \<noteq> I_Run si mn mx g nx))"

lemma walkedD:
  assumes "walked ss P seen stack acc" and "pc < length P" and "seen ! pc"
  shows "P ! pc \<noteq> I_Match" "\<forall>t \<in> set (free_steps (P ! pc)). t \<in> set stack \<or> t < length P \<and> seen ! t"
    "P ! pc = I_Char si nx \<Longrightarrow> si < length ss \<and> cs_set (ss ! si) \<subseteq> cs_set acc" "P ! pc \<noteq> I_Run si mn mx g nx"
  using assms unfolding walked_def by blast+

text \<open>One instruction more: its targets go on the stack, or its set is added.\<close>

lemma walked_step:
  assumes w: "walked ss P seen (pc # stack) acc" and pc: "pc < length P"
    and m: "P ! pc \<noteq> I_Match" "\<forall>si mn mx g nx. P ! pc \<noteq> I_Run si mn mx g nx"
    and st: "set (free_steps (P ! pc)) \<union> set stack \<subseteq> set stack'" and acc: "cs_ok acc'" "cs_set acc \<subseteq> cs_set acc'"
    and ch: "\<And>si nx. P ! pc = I_Char si nx \<Longrightarrow> si < length ss \<and> cs_set (ss ! si) \<subseteq> cs_set acc'"
  shows "walked ss P (seen[pc := True]) stack' acc'"
  unfolding walked_def
proof (intro conjI allI impI)
  have len: "length seen = length P" using w by (simp add: walked_def)
  show "length (seen[pc := True]) = length P" "cs_ok acc'" using len acc by simp_all
  fix q assume q: "q < length P" "seen[pc := True] ! q"
  have old: "q = pc \<or> seen ! q" using q by (cases "q = pc") simp_all
  note d = walkedD [OF w q(1)]
  show "P ! q \<noteq> I_Match" using old m(1) d(1) by blast
  show "P ! q \<noteq> I_Run si mn mx g nx" for si mn mx g nx using old m(2) d(4) by blast
  show "si < length ss" "cs_set (ss ! si) \<subseteq> cs_set acc'" if "P ! q = I_Char si nx" for si nx
    using old ch [of si nx] d(3) [of si nx] that acc(2) by blast+
  show "\<forall>t \<in> set (free_steps (P ! q)). t \<in> set stack' \<or> t < length P \<and> seen[pc := True] ! t"
  proof
    fix t assume t: "t \<in> set (free_steps (P ! q))"
    from old show "t \<in> set stack' \<or> t < length P \<and> seen[pc := True] ! t"
    proof
      assume "seen ! q"
      then have "t \<in> set (pc # stack) \<or> t < length P \<and> seen ! t" using d(2) t by blast
      then show ?thesis using st len pc by (auto simp: nth_list_update)
    qed (use st t in auto)
  qed
qed

lemma first_loop_walked:
  "first_loop ss P seen stack acc = Some (Some S) \<Longrightarrow> list_all cs_ok ss \<Longrightarrow> walked ss P seen stack acc \<Longrightarrow>
   \<exists>seen'. walked ss P seen' [] S \<and> (\<forall>pc < length P. seen ! pc \<longrightarrow> seen' ! pc) \<and> (\<forall>pc \<in> set stack. pc < length P \<and> seen' ! pc)"
proof (induction ss P seen stack acc rule: first_loop.induct)
  case (1 ss P seen acc)
  then show ?case by auto
next
  case (2 ss P seen pc stack acc)
  note R = "2.prems"(1,2) and W = "2.prems"(3)
  have len: "length seen = length P" using W by (simp add: walked_def)
  show ?case
  proof (cases "get_at seen pc")
    case (Some b)
    then have pc: "pc < length P" "seen ! pc = b" by (auto simp: get_at_eq_Some len)
    show ?thesis
    proof (cases b)
      case True
      have "walked ss P seen stack acc"
        unfolding walked_def using W pc True by (auto simp: walked_def)
      moreover have "first_loop ss P seen stack acc = Some (Some S)" using R(1) Some True by simp
      ultimately obtain seen' where "walked ss P seen' [] S" "\<forall>q < length P. seen ! q \<longrightarrow> seen' ! q"
          "\<forall>q \<in> set stack. q < length P \<and> seen' ! q" using 2(1) Some True R(2) by blast
      then show ?thesis using pc True by auto
    next
      case False
      let ?seen = "seen[pc := True]" and ?i = "P ! pc"
      have go: ?thesis
        if "\<exists>seen'. walked ss P seen' [] S \<and> (\<forall>q < length P. ?seen ! q \<longrightarrow> seen' ! q) \<and> (\<forall>q \<in> set stack'. q < length P \<and> seen' ! q)"
          "set stack \<subseteq> set stack'" for stack'
      proof -
        from that(1) obtain seen' where s: "walked ss P seen' [] S" "\<forall>q < length P. ?seen ! q \<longrightarrow> seen' ! q"
          "\<forall>q \<in> set stack'. q < length P \<and> seen' ! q" by blast
        have "\<forall>q < length P. seen ! q \<or> q = pc \<longrightarrow> seen' ! q" using s(2) pc len by (auto simp: nth_list_update)
        then show ?thesis using s(1,3) that(2) pc(1) by auto
      qed
      have g: "get_at P pc = Some ?i" using pc by simp
      note S = Some [unfolded False [THEN eq_False [THEN iffD2]]]
      have no: "\<not> gives_up ?i" using R(1) S g by auto
      have acc: "cs_ok acc" using W by (simp add: walked_def)
      show ?thesis
      proof (cases "char_set ?i")
        case None
        then have "first_loop ss P ?seen (rev (free_steps ?i) @ stack) acc = Some (Some S)" using R(1) S g no by simp
        moreover have "walked ss P ?seen (rev (free_steps ?i) @ stack) acc"
          by (rule walked_step [OF W pc(1)]) (use no None acc in \<open>auto simp: gives_up_def char_set_def\<close>)
        ultimately show ?thesis using 2(2) [OF S _ g no None] R(2) by (intro go [of "rev (free_steps ?i) @ stack"]) auto
      next
        case (Some si)
        then obtain nx where i: "?i = I_Char si nx" by (auto simp: char_set_def split: inst.splits)
        from R(1) S g no Some obtain cs where cs: "get_at ss si = Some cs"
          and l: "first_loop ss P ?seen stack (cs_union acc cs) = Some (Some S)" by (auto split: option.splits)
        have "walked ss P ?seen stack (cs_union acc cs)"
          by (rule walked_step [OF W pc(1)]) (use i cs in \<open>auto simp: get_at_eq_Some\<close>)
        then show ?thesis using 2(3) [OF S _ g no Some cs] R(2) l by (intro go [of stack]) auto
      qed
    qed
  qed (use R(1) in simp)
qed

lemma walked_first:
  assumes "reaches E P pos pc"
  shows "walked ss P seen [] S \<Longrightarrow> pc < length P \<Longrightarrow> seen ! pc \<Longrightarrow> e_sets E = ss \<Longrightarrow> list_all cs_ok ss \<Longrightarrow>
    pos < e_end E \<and> pos < length (e_text E) \<and> contains S (e_text E ! pos)"
  using assms
proof (induction rule: reaches.induct)
  case (reaches_match pc pos)
  then show ?case using walkedD(1) [of ss P seen "[]" S pc] by (simp add: get_at_eq_Some)
next
  case (reaches_char pc si nx pos)
  then have "P ! pc = I_Char si nx" by (simp add: get_at_eq_Some)
  then have s: "si < length ss" "cs_set (ss ! si) \<subseteq> cs_set S" "cs_ok S"
    using walkedD(3) [OF reaches_char(5,6,7)] reaches_char(5) by (auto simp: walked_def)
  then have "cs_ok (ss ! si)" using reaches_char by (simp add: list_all_length)
  then show ?case using reaches_char(2,8) s by (auto simp: hits_def get_at_def contains_iff split: if_splits)
next
  case (reaches_free pc i t pos)
  then have "P ! pc = i" by (simp add: get_at_eq_Some)
  then have "t < length P \<and> seen ! t" using walkedD(2) [OF reaches_free(6,7,8)] reaches_free(2) by auto
  then show ?case using reaches_free by blast
qed

lemma lower_char_simple: "lower_node n u flags st = Inr (H_Char s, st') \<Longrightarrow> is_simple n"
proof (induction n arbitrary: flags st)
  case (N_Group g on off b)
  then show ?case by (cases g) (auto simp: andthen_def split: sum.splits)
qed (auto simp: lower_test_def refuse_def andthen_def Let_def split: sum.splits prod.splits if_splits)

lemma lower_repeat_simple: "lower_node n u flags st = Inr (H_Repeat mn mx g smp (H_Char s), st') \<Longrightarrow> smp"
proof (induction n arbitrary: flags st)
  case (N_Group k on off b)
  then show ?case by (cases k) (auto simp: andthen_def split: sum.splits)
next
  case (N_Repeat mn mx kind b)
  then show ?case by (auto simp: andthen_def refuse_def split: sum.splits if_splits dest: lower_char_simple)
qed (auto simp: lower_char_def lower_test_def refuse_def andthen_def Let_def split: sum.splits prod.splits if_splits)

lemma lower_char_looks: "lower_node n u flags st = Inr (H_Char s, st') \<Longrightarrow> l_looks st' = l_looks st"
proof (induction n arbitrary: flags st)
  case (N_Group k on off b)
  then show ?case by (cases k) (auto simp: andthen_def split: sum.splits)
qed (auto simp: lower_char_def lower_set_def lower_test_def refuse_def andthen_def Let_def
      split: sum.splits prod.splits if_splits option.splits)

lemma lower_repeat_looks: "lower_node n u flags st = Inr (H_Repeat mn mx g smp (H_Char s), st') \<Longrightarrow> l_looks st' = l_looks st"
proof (induction n arbitrary: flags st)
  case (N_Group k on off b)
  then show ?case by (cases k) (auto simp: andthen_def split: sum.splits)
next
  case (N_Repeat mn mx kind b)
  then show ?case by (auto simp: andthen_def refuse_def split: sum.splits if_splits dest: lower_char_looks)
qed (auto simp: lower_char_def lower_test_def refuse_def andthen_def Let_def split: sum.splits prod.splits if_splits)

text \<open>A pattern answered by a scan has no tests.\<close>

lemma lower_simple_looks:
  assumes "lower u p = Inr lw" and "simple_of (lw_hir lw) (lw_sets lw) = Some (Some sm)"
  shows "lw_looks lw = []"
proof -
  obtain st where l: "lower_node (expand_backrefs u (p_node p) (p_flags p)) u (p_flags p) lower_start = Inr (lw_hir lw, st)"
    and lw: "lw_looks lw = l_looks st" using assms(1) by (auto simp: lower_def andthen_def split: sum.splits)
  have "simple_shape (lw_hir lw) \<noteq> None" using assms(2) by (auto simp: simple_of_def split: option.splits)
  then consider s where "lw_hir lw = H_Char s" | mn mx smp s where "lw_hir lw = H_Repeat mn mx True smp (H_Char s)"
    by (cases "lw_hir lw" rule: simple_shape.cases) auto
  then have "l_looks st = l_looks lower_start" using l by cases (auto dest: lower_char_looks lower_repeat_looks)
  then show ?thesis by (simp add: lw lower_start_def)
qed

lemma lower_simple: "lower u p = Inr lw \<Longrightarrow> \<forall>n m g s c. lw_hir lw = H_Repeat n m g s (H_Char c) \<longrightarrow> s"
  using lower_repeat_simple by (fastforce simp: lower_def andthen_def split: sum.splits)

text \<open>A scan always answers, but for an empty match it may not repeat.\<close>

lemma simple_span_total:
  assumes "scan_of sm E si h"
  shows "\<exists>r. simple_span sm (e_text E) start (e_end E) anch whole must = Some r"
proof (cases "start \<le> e_end E")
  case True
  note d = scan_ofD [OF assms]
  have "\<exists>r. span_loop sm (e_text E) (e_end E) (anch \<or> s_min sm = 0) start = Some r"
    using span_anchored [OF assms True] span_search [OF assms _ True] by (cases "anch \<or> s_min sm = 0") auto
  then show ?thesis using run_end_len [OF d(1) order_refl True] by (auto simp: simple_span_def Let_def)
qed (simp add: simple_span_def)

lemma compile_targets:
  assumes "compile h ss ls groups = Inr pr"
  shows "p_start (fwd pr) < length (insts (fwd pr))" "targets_ok (insts (fwd pr))"
proof -
  from assms obtain any f v where b: "build h True False True [0..<length ls] (Some (2 * groups + 1)) [I_Match] = Inr f"
    and v: "v = length (insts f)"
    and f: "fwd pr = f\<lparr>insts := insts f @ [I_Split (p_start f) (v + 1), I_Char any v], start_unanchored := v\<rparr>"
    by (rule compile_parts) blast
  have o: "p_start f < length (insts f)" "targets_ok (insts f)"
    using build_with_open [of h True False True False] build_targets [OF b] b by (simp_all add: build_def)
  then show "p_start (fwd pr) < length (insts (fwd pr))" by (simp add: f)
  show "targets_ok (insts (fwd pr))"
    using o by (auto simp: f v targets_ok_def list_all_iff split: inst.splits)
qed

lemma first_loop_total:
  "length seen = length P \<Longrightarrow> \<forall>pc \<in> set stack. pc < length P \<Longrightarrow> targets_ok P \<Longrightarrow> prog_ok ns nl (length ss) P \<Longrightarrow>
   \<exists>r. first_loop ss P seen stack acc = Some r"
proof (induction ss P seen stack acc rule: first_loop.induct)
  case (2 ss P seen pc stack acc)
  then have pc: "pc < length P" "pc < length seen" by simp_all
  show ?case
  proof (cases "seen ! pc")
    case True
    then show ?thesis using 2(1) pc 2(4-7) by simp
  next
    case False
    have s: "get_at seen pc = Some False" "get_at P pc = Some (P ! pc)" using pc False by simp_all
    have t: "\<forall>t \<in> set (free_steps (P ! pc)). t < length P" using 2(6) nth_mem [OF pc(1)] by (auto simp: targets_ok_def list_all_iff)
    show ?thesis
    proof (cases "gives_up (P ! pc)")
      case no: False
      show ?thesis
      proof (cases "char_set (P ! pc)")
        case None
        then show ?thesis using 2(2) [OF s(1) _ s(2) no None] 2(4-7) t s no by auto
      next
        case (Some si)
        then obtain nx where "P ! pc = I_Char si nx" by (auto simp: char_set_def split: inst.splits)
        then have si: "si < length ss" using 2(7) pc by (auto simp: prog_ok_def list_all_length)
        then show ?thesis using 2(3) [OF s(1) _ s(2) no Some, of "ss ! si"] 2(4-7) s no Some by auto
      qed
    qed (use s in simp)
  qed
qed simp

lemma first_scan_find: "to \<le> length text \<Longrightarrow> first_scan fc text i to = find (\<lambda>k. first_has fc (text ! k)) [i..<to]"
proof (induction fc "text" i to rule: first_scan.induct)
  case (1 fc "text" i e)
  then show ?case by (subst first_scan.simps) (auto simp: upt_conv_Cons)
qed

lemma first_chars_has:
  assumes "cs_ok s" and "first_chars_new s = Some fc"
  shows "first_has fc c \<longleftrightarrow> contains s c"
proof -
  let ?o = "cs_intersect s (cs_range 128 CP_MAX)"
  have "fc_ascii fc = ascii_table s" "fc_other fc = (if cs_is_empty ?o then None else Some ?o)"
    using assms(2) by (auto simp: first_chars_new_def Let_def split: if_splits)
  then show ?thesis using split_has [OF assms(1), of c] split_has_none [OF assms(1), of c]
    by (cases "cs_is_empty ?o"; cases "c < 128") (simp_all add: first_has_def)
qed

lemma first_set_sound:
  assumes ok: "pattern_ok h ss ls groups" and c: "compile h ss ls groups = Inr pr" and f: "first_set pr (fwd pr) = Some (Some S)"
    and E: "E = pat_env u pr ls text e"
  shows "cs_ok S" "match_ways E h pos \<noteq> [] \<Longrightarrow> pos < e \<and> pos < length text \<and> contains S (text ! pos)"
proof -
  let ?P = "insts (fwd pr)"
  have cs: "list_all cs_ok (sets pr)" using compile_tests(1) [OF ok c] by (simp add: compiled_tests_def)
  have "walked (sets pr) ?P (replicate (length ?P) False) [p_start (fwd pr)] cs_empty" by (simp add: walked_def)
  from first_loop_walked [OF f [unfolded first_set_def] cs this] obtain seen where
    s: "walked (sets pr) ?P seen [] S" "p_start (fwd pr) < length ?P" "seen ! p_start (fwd pr)" by auto
  show "cs_ok S" using s(1) by (simp add: walked_def)
  assume "match_ways E h pos \<noteq> []"
  then have "reaches E ?P pos (p_start (fwd pr))"
    using compile_fwd(2) [OF ok c E, of pos] by (auto simp: outs_def out_reaches [OF compile_fwd(1) [OF ok c E]])
  from walked_first [OF this s] show "pos < e \<and> pos < length text \<and> contains S (text ! pos)" using cs by (simp add: E)
qed

lemma search_skip:
  assumes "\<And>q. start \<le> q \<Longrightarrow> q < to \<Longrightarrow> match_ways E h q = []" and "to \<le> e_end E" and "e_end E \<le> length (e_text E)" and "start \<le> to"
  shows "search_ways E h start = search_ways E h to"
  using assms(1,4)
proof (induction "to - start" arbitrary: start)
  case (Suc n)
  then have p: "start < to" by simp
  then have "match_ways E h start = []" using Suc.prems(1) by simp
  moreover have "search_ways E h (Suc start) = search_ways E h to" by (rule Suc.hyps(1)) (use Suc p in auto)
  ultimately show ?case using p assms(2,3) by (subst search_ways_step) simp
qed simp

lemma span_found:
  assumes ok: "pattern_ok h ss ls groups" and c: "compile h ss ls groups = Inr pr"
    and sm: "simple_of h ss = Some (Some sm)" and smp: "\<forall>n m g s c. h = H_Repeat n m g s (H_Char c) \<longrightarrow> s"
    and e: "e \<le> length text" "length text \<le> USIZE_MAX"
  shows "case simple_span sm text start e anch whole must of
      None \<Rightarrow> False
    | Some None \<Rightarrow> must \<and> s_min sm = 0
    | Some (Some r) \<Rightarrow>
        found_way \<lparr>anchored = anch, must_advance = must, end_at = None\<rparr> start
          ((if whole then full_ways else if anch then match_ways else search_ways) (pat_env u pr ls text e) h start) =
        map_option (\<lambda>(a, b). ((replicate (slots pr) (-1))[slots pr - 1 := int a], b)) r"
proof -
  let ?E = "pat_env u pr ls text e"
  obtain ss2 where s: "sets pr = ss @ ss2" using compiled_sets [OF c] by blast
  obtain si where sc: "scan_of sm ?E si h"
    using simple_of_scan [OF sm _ _ _ _ _ smp, of ?E ss2] ok e s
    by (auto simp: pattern_ok_def)
  obtain ans where a: "simple_span sm text start e anch whole must = Some ans"
    using simple_span_total [OF sc, of start anch whole must] by auto
  have no: "must \<and> s_min sm = 0" if "ans = None"
    using a that by (auto simp: simple_span_def Let_def split: if_splits Option.bind_splits)
  have "found_way \<lparr>anchored = anch, must_advance = must, end_at = None\<rparr> start
         ((if whole then full_ways else if anch then match_ways else search_ways) ?E h start) =
       map_option (\<lambda>(a, b). ((replicate (slots pr) (-1))[slots pr - 1 := int a], b)) r" if "ans = Some r" for r
  proof -
    have "find (\<lambda>x. accepts \<lparr>anchored = anch, must_advance = must, end_at = None\<rparr> start (fst x))
        ((if whole then full_ways else if anch then match_ways else search_ways) ?E h start) = map_option (spot ?E) r"
      using simple_span_first [OF sc refl, of start anch whole must r] a that by (cases whole; cases anch) auto
    then show ?thesis by (cases r) (auto simp: found_way_def spot_def)
  qed
  then show ?thesis using a no by (auto split: option.split)
qed

section \<open>Properties\<close>

text \<open>
  C14: The scan for the characters a match can start with (\<^verbatim>\<open>first_set\<close> over the compiled program,
  \<^verbatim>\<open>FirstChars\<close>) is safe: it never panics, and a search from any position finds exactly what a search from
  the next position the scan stops at finds, or nothing if the scan reaches the window's end.
\<close>

theorem first_scan_skips_no_match:
  assumes "pattern_ok h ss ls groups" and "compile h ss ls groups = Inr pr" and "e \<le> length text" and "start \<le> e"
  shows "case first_set pr (fwd pr) of
      None \<Rightarrow> False
    | Some None \<Rightarrow> True
    | Some (Some S) \<Rightarrow>
        (case first_chars_new S of
           None \<Rightarrow> True
         | Some fc \<Rightarrow>
             search_ways (pat_env u pr ls text e) h start =
               (case first_chars_next fc text start e of None \<Rightarrow> [] | Some q \<Rightarrow> search_ways (pat_env u pr ls text e) h q))"
proof -
  let ?E = "pat_env u pr ls text e"
  note t = compile_targets [OF assms(2)]
  have "\<exists>first. first_set pr (fwd pr) = Some first"
    unfolding first_set_def by (rule first_loop_total [OF _ _ t(2) compile_fwd(1) [OF assms(1,2) refl]]) (use t(1) in simp_all)
  then obtain first where f: "first_set pr (fwd pr) = Some first" ..
  have "search_ways ?E h start = (case first_chars_next fc text start e of None \<Rightarrow> [] | Some q \<Rightarrow> search_ways ?E h q)"
    if S: "first = Some S" "first_chars_new S = Some fc" for S fc
  proof -
    note s = first_set_sound(1) [OF assms(1,2) f [unfolded S(1)] refl]
      first_set_sound(2) [OF assms(1,2) f [unfolded S(1)] refl, where u = u and e = e]
    have n: "first_chars_next fc text start e = find (\<lambda>k. contains S (text ! k)) [start..<e]"
      using assms(3) by (simp add: first_chars_next_def first_scan_find first_chars_has [OF s(1) S(2)])
    have none: "match_ways ?E h q = []" if "q < e \<Longrightarrow> \<not> contains S (text ! q)" for q
      using s(2) [of "text" q] that by blast
    have skip: "search_ways ?E h start = search_ways ?E h q"
      if "\<forall>k. start \<le> k \<longrightarrow> k < q \<longrightarrow> \<not> contains S (text ! k)" "q \<le> e" "start \<le> q" for q
      by (rule search_skip) (use that none assms(3) in auto)
    show ?thesis
    proof (cases "find (\<lambda>k. contains S (text ! k)) [start..<e]")
      case None
      then have "search_ways ?E h start = search_ways ?E h e" using skip [of e] assms(4) by (auto simp: find_upt_None)
      also have "\<dots> = []" using none [of e] by (subst search_ways_step) simp
      finally show ?thesis using n None by simp
    next
      case (Some q)
      from find_upt_Some [OF this] have "search_ways ?E h start = search_ways ?E h q" using skip [of q] by auto
      then show ?thesis using n Some by simp
    qed
  qed
  then show ?thesis using f by (auto split: option.split)
qed

text \<open>
  C15: A pattern that is one character of a set, or a greedy repeat of one, is answered by \<^verbatim>\<open>Simple::span\<close>
  as the matcher would: it never panics or loops, and an answer it gives is the first way of the pattern a
  search, match or fullmatch accepts, with no slot set but the start.
\<close>

theorem simple_span_exact:
  assumes "unidata_ok u" and "lower u p = Inr lw" and "node_ok (p_groups p) (expand_backrefs u (p_node p) (p_flags p))"
    and "compile (lw_hir lw) (lw_sets lw) (lw_looks lw) (p_groups p) = Inr pr"
    and "simple_of (lw_hir lw) (lw_sets lw) = Some (Some sm)" and "e \<le> length text" and "length text \<le> USIZE_MAX"
  shows "case simple_span sm text start e anch whole must of
      None \<Rightarrow> False
    | Some None \<Rightarrow> must \<and> s_min sm = 0
    | Some (Some r) \<Rightarrow>
        found_way \<lparr>anchored = anch, must_advance = must, end_at = None\<rparr> start
          ((if whole then full_ways else if anch then match_ways else search_ways) (pat_env u pr (lw_looks lw) text e) (lw_hir lw) start) =
        map_option (\<lambda>(a, b). ((replicate (slots pr) (-1))[slots pr - 1 := int a], b)) r"
  by (rule span_found [OF lower_lowers(1) [OF assms(1-3) refl] assms(4,5) lower_simple [OF assms(2)] assms(6,7)])


lemma ex_fwd:
  assumes "compile ex_hir [cs_one 0x61] [L_End] 0 = Inr pr"
  shows "insts (fwd pr) = [I_Char 0 1, I_Look 0 3, I_Save 1 0, I_Match, I_Split 2 5, I_Char 1 4] \<and> p_start (fwd pr) = 2"
proof -
  have wa: "with_any [cs_one 0x61] = (1, [cs_one 0x61, cs_all])" by code_simp
  show ?thesis using assms
    by (auto simp: compile_def wa ex_hir_def build_def build_with_def push_def MAX_INSTS_def emit_def frag_at_def patch_def
        finish_def concat_frags.simps Let_def)
qed

lemma ex_first_chars: "\<exists>fc. first_chars_new (cs_one 0x61) = Some fc"
proof -
  have "ascii_table (cs_one 0x61) ! c \<longleftrightarrow> c = 97" if "c < 128" for c
  proof -
    have u: "unat (of_nat c :: u32) = c" using that by (simp add: unat_of_nat)
    have "ascii_table (cs_one 0x61) ! unat (of_nat c :: u32) \<longleftrightarrow> (of_nat c :: u32) \<in> cs_set (cs_one 0x61)"
      by (rule ascii_table_nth) (use that in \<open>simp_all add: word_less_nat_alt u\<close>)
    also have "\<dots> \<longleftrightarrow> c = 97" using u by (auto simp: word_unat_eq_iff)
    finally show ?thesis by (simp add: u)
  qed
  then have "map (\<lambda>c. if ascii_table (cs_one 0x61) ! c then freq (of_nat c) else 0) [0..<128] =
      map (\<lambda>c. if c = 97 then freq (of_nat c) else 0) [0..<128]" by simp
  then have d: "sum_list (map (\<lambda>c. if ascii_table (cs_one 0x61) ! c then freq (of_nat c) else 0) [0..<128]) = 38"
    by (simp add: interv_sum_list_conv_sum_set_nat freq_def)
  have "ranges (cs_intersect (cs_one 0x61) (cs_range 128 CP_MAX)) = []" by code_simp
  then show ?thesis unfolding first_chars_new_def Let_def d by simp
qed

theorem first_scan_skips_no_match_witness:
  "\<exists>pr. compile ex_hir [cs_one 0x61] [L_End] 0 = Inr pr \<and>
     search_ways (pat_env sample_unidata pr [L_End] [0x62, 0x62, 0x61] 3) ex_hir 0 =
     search_ways (pat_env sample_unidata pr [L_End] [0x62, 0x62, 0x61] 3) ex_hir 2"
proof -
  let ?text = "[0x62, 0x62, 0x61] :: u32 list"
  obtain pr where pr: "compile ex_hir [cs_one 0x61] [L_End] 0 = Inr pr" "sets pr = [cs_one 0x61, cs_all]" "slots pr = 2"
    using ex_compiles by blast
  have "first_set pr (fwd pr) = first_loop [cs_one 0x61, cs_all] [I_Char 0 1, I_Look 0 3, I_Save 1 0, I_Match, I_Split 2 5, I_Char 1 4]
      [False, False, False, False, False, False] [2] cs_empty"
    using ex_fwd [OF pr(1)] pr(2) by (simp add: first_set_def del: first_loop.simps)
  also have "\<dots> = Some (Some (cs_one 0x61))" by code_simp
  finally have f: "first_set pr (fwd pr) = Some (Some (cs_one 0x61))" .
  obtain fc where fc: "first_chars_new (cs_one 0x61) = Some fc" using ex_first_chars by blast
  have n: "first_chars_next fc ?text 0 3 = Some 2"
    by (simp add: first_chars_next_def first_scan_find first_chars_has [OF cs_one_ok fc] contains_iff upt_rec)
  show ?thesis
    using first_scan_skips_no_match [OF ex_pattern_ok pr(1), of 3 ?text 0 sample_unidata] f fc n pr(1) by auto
qed


text \<open>The pattern \<^verbatim>\<open>a\<close>.\<close>

definition ex_parsed :: parsed where
  "ex_parsed = \<lparr>p_node = N_Lit 0x61, p_groups = 0, p_names = [], p_flags = 0\<rparr>"

lemma ex_no_backref: "expand_backrefs u (N_Lit c) flags = N_Lit c"
  by (rule expand_backrefs_none) (simp add: paths_to.simps [of _ "N_Lit c"] is_backref_def)

lemma ex_lowered: "lower sample_unidata ex_parsed = Inr \<lparr>lw_hir = H_Char 0, lw_sets = [cs_one 0x61], lw_looks = []\<rparr>"
  proof -
  have "fold_of 0 = NoFold" by code_simp
  then show ?thesis
    by (simp add: ex_no_backref lower_def ex_parsed_def lower_char_def lower_set_def lower_start_def literal_set_def)
qed

lemma ex_char_compiles: "\<exists>pr. compile (H_Char 0) [cs_one 0x61] [] 0 = Inr pr \<and> slots pr = 2 \<and> sets pr = [cs_one 0x61, cs_all]"
proof -
  have wa: "with_any [cs_one 0x61] = (1, [cs_one 0x61, cs_all])" by code_simp
  show ?thesis
    by (simp add: compile_def wa build_def build_with_def push_def MAX_INSTS_def emit_def frag_at_def patch_def
        finish_def concat_frags.simps Let_def)
qed

theorem simple_span_exact_witness:
  "\<exists>sm. simple_of (H_Char 0) [cs_one 0x61] = Some (Some sm) \<and>
     simple_span sm [0x62, 0x61, 0x62] 0 3 False False False = Some (Some (Some (1, 2)))"
proof -
  let ?text = "[0x62, 0x61, 0x62] :: u32 list" and ?w = "\<lparr>anchored = False, must_advance = False, end_at = None\<rparr>"
  obtain pr where pr: "compile (H_Char 0) [cs_one 0x61] [] 0 = Inr pr" "slots pr = 2" "sets pr = [cs_one 0x61, cs_all]"
    using ex_char_compiles by blast
  obtain sm where sm: "simple_of (H_Char 0) [cs_one 0x61] = Some (Some sm)" by (simp add: simple_of_def)
  let ?E = "pat_env sample_unidata pr [] ?text 3"
  have "search_ways ?E (H_Char 0) 0 = [(2, [-1, 1])]"
    by (simp add: search_ways_def last_start_def match_ways_def hits_def get_at_def contains_iff pr numeral_eq_Suc)
  then have f: "found_way ?w 0 (search_ways ?E (H_Char 0) 0) = Some ([-1, 1], 2)" by (simp add: found_way_def accepts_def)
  have n: "node_ok 0 (expand_backrefs sample_unidata (N_Lit 0x61) 0)"
    by (simp add: ex_no_backref)
  have l: "3 \<le> length ?text" "length ?text \<le> USIZE_MAX" by (simp_all add: USIZE_MAX_def)
  have "case simple_span sm ?text 0 3 False False False of None \<Rightarrow> False | Some None \<Rightarrow> False
      | Some (Some r) \<Rightarrow> found_way ?w 0 (search_ways ?E (H_Char 0) 0) = map_option (\<lambda>(a, b). ([-1, int a], b)) r"
    using simple_span_exact [where start = 0 and anch = False and whole = False and must = False,
        OF sample_unidata_ok ex_lowered _ _ _ l, of pr sm] pr sm n
    by (simp add: ex_parsed_def numeral_2_eq_2 split: option.splits)
  then show ?thesis using sm f by (auto split: option.splits)
qed

end
