(* ===== verification/Slots.thy ===== *)
theory Slots
  imports Search
begin

text \<open>
  The slots of every way a lowered pattern matches are well formed: as many as the pattern has, the start
  in the last one, the number of a group in the one before it, and every group that took part with its
  start before its end, both inside the match (\<open>match_ways_slots\<close>).
\<close>

section \<open>Invariants of ways\<close>

definition keeps_inv :: "(nat \<Rightarrow> int list \<Rightarrow> bool) \<Rightarrow> ways \<Rightarrow> bool" where
  "keeps_inv J A \<longleftrightarrow> (\<forall>pos sl x. J pos sl \<longrightarrow> x \<in> set (A pos sl) \<longrightarrow> J (fst x) (snd x))"

lemma keeps_invI: "(\<And>pos sl p s. J pos sl \<Longrightarrow> (p, s) \<in> set (A pos sl) \<Longrightarrow> J p s) \<Longrightarrow> keeps_inv J A"
  by (auto simp: keeps_inv_def)

lemma keeps_invD: "keeps_inv J A \<Longrightarrow> J pos sl \<Longrightarrow> x \<in> set (A pos sl) \<Longrightarrow> J (fst x) (snd x)"
  by (auto simp: keeps_inv_def)

lemma keeps_seq: "list_all (keeps_inv J) As \<Longrightarrow> keeps_inv J (seq_all As)"
proof (induction As)
  case (Cons A As)
  have A: "keeps_inv J A" and As: "keeps_inv J (seq_all As)" using Cons by simp_all
  show ?case
  proof (rule keeps_invI)
    fix pos sl p s assume J: "J pos sl" and "(p, s) \<in> set (seq_all (A # As) pos sl)"
    then obtain x where x: "x \<in> set (A pos sl)" "(p, s) \<in> set (seq_all As (fst x) (snd x))" by auto
    show "J p s" using keeps_invD [OF As keeps_invD [OF A J x(1)] x(2)] by simp
  qed
qed (simp add: keeps_inv_def)

lemma keeps_alt: "list_all (keeps_inv J) As \<Longrightarrow> keeps_inv J (alt_all As)"
  by (rule keeps_invI) (auto simp: alt_all_def list_all_iff dest!: keeps_invD)

lemma keeps_inv_opts: "keeps_inv J A \<Longrightarrow> keeps_inv J (opts_all n greedy A)"
proof (induction n)
  case (Suc n)
  show ?case
  proof (rule keeps_invI)
    fix pos sl p s assume J: "J pos sl" and "(p, s) \<in> set (opts_all (Suc n) greedy A pos sl)"
    then consider "p = pos" "s = sl" | x where "x \<in> set (A pos sl)" "(p, s) \<in> set (opts_all n greedy A (fst x) (snd x))"
      by (auto simp: in_order_def split: if_splits)
    then show "J p s"
    proof cases
      case 2
      show ?thesis using keeps_invD [OF Suc.IH [OF Suc.prems] keeps_invD [OF Suc.prems J 2(1)] 2(2)] by simp
    qed (use J in simp)
  qed
qed (simp add: keeps_inv_def)

lemma keeps_star:
  assumes "keeps_inv J A"
  shows "J pos sl \<Longrightarrow> x \<in> set (star_all e greedy A pos sl) \<Longrightarrow> J (fst x) (snd x)"
proof (induction "e - pos" arbitrary: pos sl rule: less_induct)
  case less
  from less.prems(2) consider "x = (pos, sl)"
    | y where "y \<in> set (A pos sl)" "pos < fst y" "fst y \<le> e" "x \<in> set (star_all e greedy A (fst y) (snd y))"
    by (subst (asm) star_all.simps) (auto simp: in_order_def split: if_splits)
  then show ?case
  proof cases
    case 2
    have "J (fst y) (snd y)" by (rule keeps_invD [OF assms less.prems(1) 2(1)])
    then show ?thesis using less.hyps [of "fst y" "snd y"] 2 by simp
  qed (use less.prems(1) in simp)
qed

lemma keeps_rep:
  assumes "keeps_inv J A"
  shows "keeps_inv J (rep_all E mn mx greedy simple A)"
proof -
  have "keeps_inv J (case mx of None \<Rightarrow> star_all (e_end E) greedy A | Some m \<Rightarrow> opts_all (m - mn) greedy A)"
    using keeps_star [OF assms] keeps_inv_opts [OF assms] by (cases mx) (auto simp: keeps_inv_def)
  then have "keeps_inv J (seq_all (replicate mn A @
      [case mx of None \<Rightarrow> star_all (e_end E) greedy A | Some m \<Rightarrow> opts_all (m - mn) greedy A]))"
    using assms by (intro keeps_seq) (auto simp: list_all_iff)
  then show ?thesis by (auto simp: keeps_inv_def rep_all_def)
qed

section \<open>Slots\<close>

text \<open>
  The slots at a position of a match that started at \<open>q\<close>, inside the groups \<open>X\<close> (counted from 0): those have
  a start, every other group is closed or has not taken part.
\<close>

definition paired :: "nat \<Rightarrow> nat \<Rightarrow> int \<Rightarrow> int \<Rightarrow> bool" where
  "paired q pos a b \<longleftrightarrow> a = -1 \<and> b = -1 \<or> int q \<le> a \<and> a \<le> b \<and> b \<le> int pos"

definition slots_ok :: "nat set \<Rightarrow> nat \<Rightarrow> nat \<Rightarrow> nat \<Rightarrow> nat \<Rightarrow> int list \<Rightarrow> bool" where
  "slots_ok X G e q pos sl \<longleftrightarrow>
     length sl = 2 * G + 2 \<and> sl ! (2 * G + 1) = int q \<and> q \<le> pos \<and> pos \<le> max q e \<and>
     -1 \<le> sl ! (2 * G) \<and> sl ! (2 * G) \<le> int G \<and>
     (\<forall>k < G. if k \<in> X then int q \<le> sl ! (2 * k) \<and> sl ! (2 * k) \<le> int pos else paired q pos (sl ! (2 * k)) (sl ! (2 * k + 1)))"

lemma paired_mono: "paired q pos a b \<Longrightarrow> pos \<le> pos' \<Longrightarrow> paired q pos' a b"
  by (auto simp: paired_def)

lemma slots_okI:
  assumes "length sl = 2 * G + 2" and "sl ! (2 * G + 1) = int q" and "q \<le> pos" and "pos \<le> max q e"
    and "-1 \<le> sl ! (2 * G)" and "sl ! (2 * G) \<le> int G"
    and "\<And>k. k < G \<Longrightarrow> k \<in> X \<Longrightarrow> int q \<le> sl ! (2 * k) \<and> sl ! (2 * k) \<le> int pos"
    and "\<And>k. k < G \<Longrightarrow> k \<notin> X \<Longrightarrow> paired q pos (sl ! (2 * k)) (sl ! (2 * k + 1))"
  shows "slots_ok X G e q pos sl"
  using assms by (simp add: slots_ok_def)

lemma slots_okD:
  assumes "slots_ok X G e q pos sl"
  shows "length sl = 2 * G + 2" and "sl ! (2 * G + 1) = int q" and "q \<le> pos" and "pos \<le> max q e"
    and "-1 \<le> sl ! (2 * G)" and "sl ! (2 * G) \<le> int G"
    and "\<And>k. k < G \<Longrightarrow> k \<in> X \<Longrightarrow> int q \<le> sl ! (2 * k) \<and> sl ! (2 * k) \<le> int pos"
    and "\<And>k. k < G \<Longrightarrow> k \<notin> X \<Longrightarrow> paired q pos (sl ! (2 * k)) (sl ! (2 * k + 1))"
  using assms by (auto simp: slots_ok_def)

lemma slots_ok_later:
  assumes "slots_ok X G e q pos sl" and "pos \<le> pos'" and "pos' \<le> max q e"
  shows "slots_ok X G e q pos' sl"
proof (rule slots_okI)
  fix k assume k: "k < G"
  show "int q \<le> sl ! (2 * k) \<and> sl ! (2 * k) \<le> int pos'" if "k \<in> X"
    using slots_okD(7) [OF assms(1) k that] assms(2) by linarith
  show "paired q pos' (sl ! (2 * k)) (sl ! (2 * k + 1))" if "k \<notin> X"
    using slots_okD(8) [OF assms(1) k that] assms(2) by (rule paired_mono)
qed (use slots_okD [OF assms(1)] assms(2,3) in simp_all)

lemma slots_ok_open:
  assumes "slots_ok X G e q pos sl" and "k < G"
  shows "slots_ok (insert k X) G e q pos (sl[2 * k := int pos])"
proof (rule slots_okI)
  note s = slots_okD [OF assms(1)]
  fix j assume j: "j < G"
  have odd: "2 * k \<noteq> 2 * j + 1" by presburger
  show "int q \<le> sl[2 * k := int pos] ! (2 * j) \<and> sl[2 * k := int pos] ! (2 * j) \<le> int pos" if "j \<in> insert k X"
    using that s(1,3) s(7) [OF j] j by (cases "j = k") auto
  show "paired q pos (sl[2 * k := int pos] ! (2 * j)) (sl[2 * k := int pos] ! (2 * j + 1))" if "j \<notin> insert k X"
    using that s(8) [OF j] odd by auto
qed (use slots_okD [OF assms(1)] assms(2) in auto)

lemma slots_ok_close:
  assumes "slots_ok (insert k X) G e q pos sl" and "k < G"
  shows "slots_ok X G e q pos (sl[2 * G := int (k + 1), 2 * k + 1 := int pos])"
proof (rule slots_okI)
  let ?sl = "sl[2 * G := int (k + 1), 2 * k + 1 := int pos]"
  note s = slots_okD [OF assms(1)]
  have ne: "2 * k + 1 \<noteq> 2 * j" "2 * G \<noteq> 2 * j + 1" for j by presburger+
  show "length ?sl = 2 * G + 2" "?sl ! (2 * G + 1) = int q" "q \<le> pos" "pos \<le> max q e" using s assms(2) by auto
  have "?sl ! (2 * G) = int (k + 1)" using s(1) ne(1) [of G] by simp
  then show "- 1 \<le> ?sl ! (2 * G)" "?sl ! (2 * G) \<le> int G" using assms(2) by auto
  fix j assume j: "j < G"
  have e: "?sl ! (2 * j) = sl ! (2 * j)" using j ne(1) [of j] by simp
  have o: "?sl ! (2 * j + 1) = (if j = k then int pos else sl ! (2 * j + 1))" using j s(1) ne(2) [of j] by auto
  show "int q \<le> ?sl ! (2 * j) \<and> ?sl ! (2 * j) \<le> int pos" if "j \<in> X" unfolding e using s(7) [OF j] that by simp
  show "paired q pos (?sl ! (2 * j)) (?sl ! (2 * j + 1))" if "j \<notin> X"
  proof (cases "j = k")
    case True
    then show ?thesis unfolding e o using s(7) [OF j] by (simp add: paired_def)
  next
    case False
    then show ?thesis unfolding e o using s(8) [OF j] that by simp
  qed
qed

lemma save_slot_open: "k < G \<Longrightarrow> save_slot (2 * G + 2) (2 * k) pos sl = sl[2 * k := int pos]"
  by (simp add: save_slot_def)

lemma save_slot_close: "k < G \<Longrightarrow> save_slot (2 * G + 2) (2 * k + 1) pos sl = sl[2 * G := int (k + 1), 2 * k + 1 := int pos]"
  by (simp add: save_slot_def)

text \<open>Every way of a pattern keeps the slots well formed, whatever groups it is inside of.\<close>

lemma keeps_hir_slots:
  assumes "e_slots E = 2 * G + 2" and "e_end E = e" and "e_saves E"
  shows "hir_bounds (2 * G + 2) nset h \<Longrightarrow> keeps_inv (slots_ok X G e q) (hir_all E h)"
proof (induction h arbitrary: X)
  case (H_Char si)
  show ?case
    by (rule keeps_invI) (auto simp: hits_def assms(2) split: if_splits elim!: slots_ok_later)
next
  case (H_Group g body)
  define k where "k = g - 1"
  have k: "k < G" "g = Suc k" using H_Group.prems by (auto simp: k_def)
  have IH: "keeps_inv (slots_ok (insert k X) G e q) (hir_all E body)" using H_Group by simp
  show ?case
  proof (rule keeps_invI)
    fix pos sl p s assume J: "slots_ok X G e q pos sl" and "(p, s) \<in> set (hir_all E (H_Group g body) pos sl)"
    then obtain t where t: "(p, t) \<in> set (hir_all E body pos (sl[2 * k := int pos]))"
        and s: "s = t[2 * G := int (k + 1), 2 * k + 1 := int p]"
      using assms by (auto simp: k(2) save_slot_open [OF k(1), simplified] save_slot_close [OF k(1), simplified])
    show "slots_ok X G e q p s"
      unfolding s using keeps_invD [OF IH slots_ok_open [OF J k(1)] t] by (intro slots_ok_close [OF _ k(1)]) simp
  qed
next
  case (H_Concat v)
  then show ?case by (auto intro!: keeps_seq simp: list_all_iff)
next
  case (H_Alt v)
  then have "keeps_inv (slots_ok X G e q) (alt_all (map (hir_all E) v))" by (intro keeps_alt) (auto simp: list_all_iff)
  then show ?case by (auto intro: keeps_invI)
next
  case (H_Repeat mn mx greedy simple body)
  then show ?case by (simp add: keeps_rep)
qed (auto intro: keeps_invI split: if_splits)

lemma match_ways_slots:
  assumes "e_slots E = 2 * G + 2" and "e_end E = e" and "e_saves E" and "hir_bounds (2 * G + 2) nset h"
    and "x \<in> set (match_ways E h q)"
  shows "slots_ok {} G e q (fst x) (snd x)"
proof -
  have "slots_ok {} G e q q ((replicate (2 * G + 2) (-1))[2 * G + 1 := int q])"
  proof -
    define n where "n = 2 * G + 2"
    define t where "t = (replicate n (-1))[2 * G + 1 := int q]"
    have t: "t ! i = -1" if "i < 2 * G + 1" for i using that by (simp add: t_def n_def del: replicate.simps)
    have "t ! (2 * G + 1) = int q" "length t = n" by (simp_all add: t_def n_def del: replicate.simps)
    then have "slots_ok {} G e q q t" by (intro slots_okI) (simp_all add: t n_def paired_def)
    then show ?thesis by (simp add: t_def n_def)
  qed
  then show ?thesis
    using keeps_invD [OF keeps_hir_slots [OF assms(1-4)]] assms(1,5) by (simp add: match_ways_def)
qed

end
