(* ===== verification/Budget.thy ===== *)
theory Budget
  imports Prelude
begin

text \<open>
  The work budget of an engine call (\<^verbatim>\<open>budget.rs\<close>): the thread-local cells as one record, an engine call
  as a function on it. Steps are 64-bit numbers, here natural numbers that never grow, so none overflows.
\<close>

section \<open>The cells\<close>

definition DEFAULT_STEPS :: nat where
  "DEFAULT_STEPS = 4000000000"

record budget =
  left_steps :: nat
  spent :: bool
  cut_why :: "string option"
  last_cut :: "string option"
  isolated_cut :: "string option"

type_synonym budget_state = "nat \<times> bool \<times> string option"
type_synonym 'a call = "budget \<Rightarrow> 'a \<times> budget"

datatype exhausted = Exhausted

definition budget_new :: budget where
  "budget_new = \<lparr>left_steps = DEFAULT_STEPS, spent = False, cut_why = None, last_cut = None, isolated_cut = None\<rparr>"

definition reset :: "nat \<Rightarrow> budget \<Rightarrow> budget" where
  "reset steps b = b\<lparr>left_steps := steps, spent := False, cut_why := None\<rparr>"

definition cut :: "string \<Rightarrow> budget \<Rightarrow> budget" where
  "cut what b = (if cut_why b = None then b\<lparr>cut_why := Some what\<rparr> else b)"

definition take_cut :: "string option call" where
  "take_cut b = (cut_why b, b\<lparr>cut_why := None\<rparr>)"

definition spend :: "nat \<Rightarrow> bool call" where
  "spend n b =
     (if left_steps b \<ge> n then (True, b\<lparr>left_steps := left_steps b - n\<rparr>)
      else (False, b\<lparr>left_steps := 0, spent := True\<rparr>))"

definition call_with :: "nat \<Rightarrow> 'a call \<Rightarrow> (exhausted, 'a) result call" where
  "call_with steps f b =
     (let b = reset steps b; (x, b) = f b; (c, b) = take_cut b; failed = (spent b \<or> c \<noteq> None);
          b = b\<lparr>last_cut := (if spent b then None else c)\<rparr>
      in (if failed then Inl Exhausted else Inr x, b))"

definition engine_call :: "'a call \<Rightarrow> (exhausted, 'a) result call" where
  "engine_call f = call_with DEFAULT_STEPS f"

definition budget_state_of :: "budget \<Rightarrow> budget_state" where
  "budget_state_of b = (left_steps b, spent b, cut_why b)"

definition carry :: "budget_state \<Rightarrow> budget \<Rightarrow> budget" where
  "carry st b = (case st of (l, s, c) \<Rightarrow> b\<lparr>left_steps := l, spent := s, cut_why := c\<rparr>)"

definition isolated :: "nat \<Rightarrow> 'a call \<Rightarrow> (exhausted, 'a) result call" where
  "isolated steps f b =
     (let kept = budget_state_of b; b = reset steps b; (x, b) = f b; (c, b) = take_cut b;
          gone = (spent b \<or> c \<noteq> None);
          b = (if gone then b\<lparr>isolated_cut := (if spent b then None else c)\<rparr> else b);
          b = carry kept b
      in (if gone then Inl Exhausted else Inr x, b))"

definition take_isolated_cut :: "string option call" where
  "take_isolated_cut b = (isolated_cut b, b\<lparr>isolated_cut := None\<rparr>)"

definition exhaust :: "budget \<Rightarrow> budget" where
  "exhaust b = b\<lparr>left_steps := 0, spent := True\<rparr>"

section \<open>What a step of a call may do\<close>

text \<open>
  Steps are only spent, a budget that is gone stays gone, and the first limit met is kept until it is
  taken. \<open>spend\<close> and \<open>cut\<close> are such steps, and so are their sequences.
\<close>

definition runs_down :: "budget \<Rightarrow> budget \<Rightarrow> bool" where
  "runs_down b b' \<longleftrightarrow>
     left_steps b' \<le> left_steps b \<and> (spent b \<longrightarrow> spent b') \<and> (cut_why b \<noteq> None \<longrightarrow> cut_why b' = cut_why b)"

lemma runs_down_refl [simp]: "runs_down b b"
  by (simp add: runs_down_def)

lemma runs_down_trans: "runs_down a b \<Longrightarrow> runs_down b c \<Longrightarrow> runs_down a c"
  by (auto simp: runs_down_def)

lemma spend_runs_down: "runs_down b (snd (spend n b))"
  by (simp add: runs_down_def spend_def)

lemma cut_runs_down: "runs_down b (cut what b)"
  by (simp add: runs_down_def cut_def)

text \<open>A sequence of charges, each of which may be refused.\<close>

fun spend_all :: "nat list \<Rightarrow> bool list call" where
  "spend_all [] b = ([], b)"
| "spend_all (n # ns) b = (let (ok, b) = spend n b; (oks, b) = spend_all ns b in (ok # oks, b))"

lemma spend_all_Cons [simp]:
  "snd (spend_all (n # ns) b) = snd (spend_all ns (snd (spend n b)))"
  "fst (spend_all (n # ns) b) = fst (spend n b) # fst (spend_all ns (snd (spend n b)))"
  by (simp_all add: Let_def split: prod.split)

declare spend_all.simps(2) [simp del]

lemma spend_spent: "spent (snd (spend n b)) \<longleftrightarrow> spent b \<or> left_steps b < n"
  by (auto simp: spend_def)

lemma spend_ok: "fst (spend n b) \<longleftrightarrow> n \<le> left_steps b"
  by (simp add: spend_def)

lemma spend_all_down: "runs_down b (snd (spend_all ns b))"
proof (induction ns arbitrary: b)
  case (Cons n ns)
  show ?case using runs_down_trans [OF spend_runs_down Cons.IH] by simp
qed simp

lemma spend_all_total:
  "spent (snd (spend_all ns b)) = spent b \<and> list_all (\<lambda>x. x) (fst (spend_all ns b)) \<and>
     left_steps (snd (spend_all ns b)) + sum_list ns = left_steps b
   \<longleftrightarrow> sum_list ns \<le> left_steps b"
proof (induction ns arbitrary: b)
  case (Cons n ns)
  show ?case
  proof (cases "n \<le> left_steps b")
    case True
    then have s: "spend n b = (True, b\<lparr>left_steps := left_steps b - n\<rparr>)" by (simp add: spend_def)
    show ?thesis using Cons.IH [of "b\<lparr>left_steps := left_steps b - n\<rparr>"] True by (auto simp: s)
  next
    case False
    then show ?thesis by (auto simp: spend_def)
  qed
qed simp

lemma spend_all_gone:
  "sum_list ns > left_steps b \<Longrightarrow> spent (snd (spend_all ns b))"
proof (induction ns arbitrary: b)
  case (Cons n ns)
  show ?case
  proof (cases "n \<le> left_steps b")
    case True
    then show ?thesis using Cons by (simp add: spend_def)
  next
    case False
    then have "runs_down (b\<lparr>left_steps := 0, spent := True\<rparr>) (snd (spend_all ns (b\<lparr>left_steps := 0, spent := True\<rparr>)))"
      by (intro spend_all_down)
    then show ?thesis using False by (simp add: runs_down_def spend_def)
  qed
qed simp

section \<open>Properties\<close>


text \<open>
  C17: A step run \<^verbatim>\<open>isolated\<close> leaves the budget of the call in progress as it was: the steps left, whether they
  ran out and the first limit met; and it fails exactly if the step itself ran out or met a limit.
\<close>

theorem isolated_gives_back:
  "budget_state_of (snd (isolated steps f b)) = budget_state_of b \<and>
   last_cut (snd (isolated steps f b)) = last_cut (snd (f (reset steps b))) \<and>
   (fst (isolated steps f b) = Inl Exhausted) =
     (if cut_why (snd (f (reset steps b))) = None then spent (snd (f (reset steps b))) else True)"
  by (simp add: isolated_def budget_state_of_def carry_def take_cut_def Let_def split: prod.split)

end
