(* ===== verification/Regex.thy ===== *)
theory Regex
  imports Prefilter Slots Budget
begin

text \<open>
  The interface of the engine (\<^verbatim>\<open>linre/mod.rs\<close>): compiling a pattern, the search of one match with its pool
  of caches and its work budget, matches and their groups, \<^verbatim>\<open>finditer\<close>, \<^verbatim>\<open>sub\<close> and \<^verbatim>\<open>split\<close>. The stage that
  searches with the DFAs and the backtracker (\<^verbatim>\<open>search_dfa\<close> and \<^verbatim>\<open>anchored_dfa\<close>) is a parameter of the search,
  the record \<open>dfas\<close>; what is relied on, that an answer of it is the match sre finds, is \<open>dfas_right\<close>.
\<close>

section \<open>Compiling a pattern\<close>

record regex_error =
  err_refused :: bool
  err_msg :: string

fun regex_error_from :: "error \<Rightarrow> regex_error" where
  "regex_error_from (Syntax m) = \<lparr>err_refused = False, err_msg = m\<rparr>"
| "regex_error_from (Refused m) = \<lparr>err_refused = True, err_msg = m\<rparr>"

definition error_text :: "regex_error \<Rightarrow> string" where
  "error_text e = (if err_refused e then ''refused: '' @ err_msg e else ''error: '' @ err_msg e)"

definition letter_flag :: "char \<Rightarrow> u32" where
  "letter_flag c =
     (if c = CHR ''i'' \<or> c = CHR ''I'' then FLAG_IGNORECASE
      else if c = CHR ''m'' \<or> c = CHR ''M'' then FLAG_MULTILINE
      else if c = CHR ''s'' \<or> c = CHR ''S'' then FLAG_DOTALL
      else if c = CHR ''x'' \<or> c = CHR ''X'' then FLAG_VERBOSE
      else if c = CHR ''a'' \<or> c = CHR ''A'' then FLAG_ASCII
      else if c = CHR ''u'' \<or> c = CHR ''U'' then FLAG_UNICODE
      else 0)"

definition flags_from_letters :: "string \<Rightarrow> u32" where
  "flags_from_letters letters = foldl (\<lambda>f c. f OR letter_flag c) 0 letters"

record regex =
  r_pattern :: "u32 list"
  r_flags :: u32
  r_groups :: nat
  r_names :: "(u32 list \<times> nat) list"
  r_progs :: programs
  r_usable :: bool
  r_fixed :: "nat option"
  r_simple :: "simple option"

text \<open>
  Can the DFAs run these programs at all? Their tests of one character each need a bit of 64, the first five
  of which are taken (\<^verbatim>\<open>F_SET0\<close>).
\<close>

definition F_SET0 :: nat where "F_SET0 = 5"

definition look_insts :: "inst list \<Rightarrow> nat list" where
  "look_insts P = concat (map (\<lambda>i. case i of I_Look l n \<Rightarrow> [l] | _ \<Rightarrow> []) P)"

definition looks_used :: "programs \<Rightarrow> bool list" where
  "looks_used pr =
     foldl (\<lambda>seen l. seen[l := True]) (replicate (length (looks pr)) False)
       (concat (map (\<lambda>P. look_insts (insts P)) [fwd pr, full pr, rev_prog pr]))"

fun usable_loop :: "(lookdef \<times> bool) list \<Rightarrow> nat \<Rightarrow> bool \<Rightarrow> bool" where
  "usable_loop [] nbits ok = ok"
| "usable_loop ((d, seen) # ds) nbits ok =
     (if \<not> seen then usable_loop ds nbits ok
      else case d of
             D_Behind1 _ _ \<Rightarrow> if nbits \<ge> 64 then usable_loop ds nbits False else usable_loop ds (nbits + 1) ok
           | D_Ahead1 _ _ \<Rightarrow> if nbits \<ge> 64 then usable_loop ds nbits False else usable_loop ds (nbits + 1) ok
           | _ \<Rightarrow> usable_loop ds nbits ok)"

definition dfa_usable :: "programs \<Rightarrow> bool" where
  "dfa_usable pr = usable_loop (zip (looks pr) (looks_used pr)) F_SET0 True"

text \<open>Every match's length, when all have the same.\<close>

definition fixed_width_of :: "hir \<Rightarrow> nat option" where
  "fixed_width_of h =
     (case width h of (lo, Some hi) \<Rightarrow> if lo = hi \<and> lo \<le> USIZE_MAX then Some lo else None | _ \<Rightarrow> None)"

text \<open>
  \<^verbatim>\<open>Regex::new\<close>, but for the scans of the DFA stage (\<^verbatim>\<open>lead\<close>, \<^verbatim>\<open>need\<close>, \<^verbatim>\<open>first\<close>), which only that stage
  reads. \<open>None\<close> would be an index out of the sets; an \<open>Inl None\<close> of the parser, which does not
  occur, is left as an error with no text.
\<close>

definition regex_new :: "unidata \<Rightarrow> u32 list \<Rightarrow> u32 \<Rightarrow> (regex_error option, regex) result option" where
  "regex_new u pattern flags =
     (case parse u pattern flags of
        Inl e \<Rightarrow> Some (Inl (map_option regex_error_from e))
      | Inr p \<Rightarrow>
          (case lower u p of
             Inl e \<Rightarrow> Some (Inl (Some (regex_error_from e)))
           | Inr lw \<Rightarrow>
               do { simple \<leftarrow> (if p_groups p = 0 then simple_of (lw_hir lw) (lw_sets lw) else Some None);
                    Some (case compile (lw_hir lw) (lw_sets lw) (lw_looks lw) (p_groups p) of
                            Inl e \<Rightarrow> Inl (Some (regex_error_from e))
                          | Inr pr \<Rightarrow>
                              Inr \<lparr>r_pattern = pattern, r_flags = p_flags p, r_groups = p_groups p, r_names = p_names p,
                                   r_progs = pr, r_usable = dfa_usable pr, r_fixed = fixed_width_of (lw_hir lw), r_simple = simple\<rparr>) }))"

definition group_index :: "regex \<Rightarrow> u32 list \<Rightarrow> nat option" where
  "group_index re name = map_option snd (find (\<lambda>(k, g). k = name) (r_names re))"

section \<open>One search\<close>

datatype mode = M_Search | M_Match | M_Full

type_synonym found = "(int list \<times> nat) option"

text \<open>Matcher buffers: those of the Pike VM, and those of the DFAs and the backtracker.\<close>

record 'd cache =
  c_pike :: "oracle_state pike_cache"
  c_dfas :: 'd

text \<open>
  The stage of the DFAs: its buffers at first; the search, which gives its answer, or none if it gives up, and
  how many characters it read if it says so (\<^verbatim>\<open>READ\<close>). A panic would be \<open>None\<close>.
\<close>

record 'd dfas =
  d_new :: 'd
  d_search :: "nat \<Rightarrow> regex \<Rightarrow> u32 list \<Rightarrow> nat \<Rightarrow> nat \<Rightarrow> mode \<Rightarrow> bool \<Rightarrow> 'd cache
                 \<Rightarrow> (found option \<times> nat option \<times> 'd cache) option"

definition cache_new :: "'d dfas \<Rightarrow> 'd cache" where
  "cache_new d = \<lparr>c_pike = pike_new oracle_new, c_dfas = d_new d\<rparr>"

text \<open>(start, end) of a window as sre clamps it.\<close>

definition clamp_pos :: "nat \<Rightarrow> int \<Rightarrow> nat" where
  "clamp_pos n p = nat (min (max p 0) (int n))"

definition clamp :: "u32 list \<Rightarrow> int \<Rightarrow> int \<Rightarrow> nat \<times> nat" where
  "clamp s pos endpos = (clamp_pos (length s) pos, clamp_pos (length s) endpos)"

definition vm_find ::
    "unidata \<Rightarrow> nat \<Rightarrow> regex \<Rightarrow> u32 list \<Rightarrow> nat \<Rightarrow> nat \<Rightarrow> mode \<Rightarrow> bool \<Rightarrow> 'd cache \<Rightarrow> (found \<times> 'd cache) option" where
  "vm_find u addr re s start e md must c =
     (let pr = r_progs re;
          (prog, anch) = (case md of M_Search \<Rightarrow> (fwd pr, False) | M_Match \<Rightarrow> (fwd pr, True) | M_Full \<Rightarrow> (full pr, True))
      in map_option (\<lambda>(pc, f). (f, c\<lparr>c_pike := pc\<rparr>))
           (search (holds u pr addr s e) pr prog s start e \<lparr>anchored = anch, must_advance = must, end_at = None\<rparr> (c_pike c)))"

text \<open>The DFAs, where they can run, and the Pike VM for what they give up on.\<close>

definition run_find ::
    "unidata \<Rightarrow> 'd dfas \<Rightarrow> nat \<Rightarrow> regex \<Rightarrow> u32 list \<Rightarrow> nat \<Rightarrow> nat \<Rightarrow> mode \<Rightarrow> bool \<Rightarrow> 'd cache
     \<Rightarrow> (found \<times> nat option \<times> 'd cache) option" where
  "run_find u d addr re s start e md must c =
     do { (r, rd, c) \<leftarrow> (if start \<le> e \<and> r_usable re then d_search d addr re s start e md must c else Some (None, None, c));
          case r of
            Some f \<Rightarrow> Some (f, rd, c)
          | None \<Rightarrow> do { (f, c) \<leftarrow> vm_find u addr re s start e md must c; Some (f, rd, c) } }"

text \<open>One search with a cache: what is found, \<^verbatim>\<open>READ\<close>, \<^verbatim>\<open>WALKED\<close> and the cache.\<close>

definition run_begun ::
    "unidata \<Rightarrow> 'd dfas \<Rightarrow> nat \<Rightarrow> regex \<Rightarrow> u32 list \<Rightarrow> nat \<Rightarrow> nat \<Rightarrow> mode \<Rightarrow> bool \<Rightarrow> 'd cache \<Rightarrow> bool
     \<Rightarrow> ((found \<times> nat option \<times> nat) \<times> 'd cache) option" where
  "run_begun u d addr re s start e md must c keep =
     do { (f, rd, c) \<leftarrow> run_find u d addr re s start e md must (c\<lparr>c_pike := begin_search addr s e keep (c_pike c)\<rparr>);
          Some ((f, rd, o_walked (p_oracle (c_pike c))), c) }"

text \<open>The pool of caches: at most eight are kept.\<close>

definition pool_take :: "'d dfas \<Rightarrow> 'd cache list \<Rightarrow> 'd cache \<times> 'd cache list" where
  "pool_take d pool = (if pool = [] then (cache_new d, []) else (last pool, butlast pool))"

definition pool_put :: "'d cache \<Rightarrow> 'd cache list \<Rightarrow> 'd cache list" where
  "pool_put c pool = (if length pool < 8 then pool @ [c] else pool)"

definition with_cache :: "'d dfas \<Rightarrow> ('d cache \<Rightarrow> ('a \<times> 'd cache) option) \<Rightarrow> 'd cache list \<Rightarrow> ('a \<times> 'd cache list) option" where
  "with_cache d f pool =
     (let (c, pool) = pool_take d pool in do { (x, c) \<leftarrow> f c; Some (x, pool_put c pool) })"

text \<open>
  \<^verbatim>\<open>find_unbudgeted\<close>, with the buffers of \<open>kept\<close> when given, or else the pool's: what is found, how many
  characters were read if less than the span covered, how many the walks of the lookaheads read, and both.
\<close>

type_synonym 'd kept = "('d cache \<times> bool) option"

definition find_unbudgeted ::
    "unidata \<Rightarrow> 'd dfas \<Rightarrow> nat \<Rightarrow> regex \<Rightarrow> u32 list \<Rightarrow> nat \<Rightarrow> nat \<Rightarrow> mode \<Rightarrow> bool \<Rightarrow> 'd kept \<Rightarrow> 'd cache list
     \<Rightarrow> ((found \<times> nat option \<times> nat) \<times> 'd kept \<times> 'd cache list) option" where
  "find_unbudgeted u d addr re s start e md must kept pool =
     (if md = M_Search \<and> start > e then Some ((None, None, 0), kept, pool)
      else do { span \<leftarrow> (case r_simple re of
                           None \<Rightarrow> Some None
                         | Some sm \<Rightarrow> simple_span sm s start e (md \<noteq> M_Search) (md = M_Full) must);
                case span of
                  Some r \<Rightarrow>
                    (let ns = slots (r_progs re)
                     in Some ((map_option (\<lambda>(a, b). ((replicate ns (-1))[ns - 1 := int a], b)) r,
                               if r = None then Some 0 else None, 0), kept, pool))
                | None \<Rightarrow>
                    (case kept of
                       Some (c, keep) \<Rightarrow>
                         do { (x, c) \<leftarrow> run_begun u d addr re s start e md must c keep; Some (x, Some (c, keep), pool) }
                     | None \<Rightarrow>
                         do { (x, pool) \<leftarrow> with_cache d (\<lambda>c. run_begun u d addr re s start e md must c False) pool;
                              Some (x, None, pool) }) })"

text \<open>The characters a search is charged for, and the search with its charge.\<close>

definition chars_read :: "nat \<Rightarrow> nat \<Rightarrow> found \<Rightarrow> nat option \<Rightarrow> nat \<Rightarrow> nat" where
  "chars_read start e f rd wk =
     sat_usize ((case rd of Some n \<Rightarrow> n | None \<Rightarrow> (case f of Some (_, b) \<Rightarrow> b - start | None \<Rightarrow> e - start)) + wk)"

definition find_kept ::
    "unidata \<Rightarrow> 'd dfas \<Rightarrow> nat \<Rightarrow> regex \<Rightarrow> u32 list \<Rightarrow> nat \<Rightarrow> nat \<Rightarrow> mode \<Rightarrow> bool \<Rightarrow> 'd kept \<Rightarrow> 'd cache list \<Rightarrow> budget
     \<Rightarrow> (found \<times> 'd kept \<times> 'd cache list \<times> budget) option" where
  "find_kept u d addr re s start e md must kept pool b =
     do { ((f, rd, wk), kept, pool) \<leftarrow> find_unbudgeted u d addr re s start e md must kept pool;
          let n = chars_read start e f rd wk;
              (ok, b) = (if n \<ge> 16 then spend (n div 16) b else (True, b))
          in Some (if ok then f else None, kept, pool, b) }"

definition regex_find ::
    "unidata \<Rightarrow> 'd dfas \<Rightarrow> nat \<Rightarrow> regex \<Rightarrow> u32 list \<Rightarrow> nat \<Rightarrow> nat \<Rightarrow> mode \<Rightarrow> bool \<Rightarrow> 'd cache list \<Rightarrow> budget
     \<Rightarrow> (found \<times> 'd cache list \<times> budget) option" where
  "regex_find u d addr re s start e md must pool b =
     do { (f, kept, pool, b) \<leftarrow> find_kept u d addr re s start e md must None pool b; Some (f, pool, b) }"

section \<open>Matches\<close>

record rmatch =
  mt_text :: "u32 list"
  mt_regex :: regex
  mt_marks :: "int list"
  mt_pos :: nat
  mt_endpos :: nat
  mt_lastindex :: int

definition group_marks :: "int list \<Rightarrow> nat \<Rightarrow> int list option" where
  "group_marks sl k =
     do { a \<leftarrow> get_at sl (2 * k); b \<leftarrow> get_at sl (2 * k + 1);
          Some (if a \<ge> 0 \<and> b \<ge> 0 then [a, b] else [-1, -1]) }"

definition make_match :: "regex \<Rightarrow> u32 list \<Rightarrow> int list \<times> nat \<Rightarrow> nat \<Rightarrow> nat \<Rightarrow> rmatch option" where
  "make_match re s f pos endpos =
     (let (sl, e) = f; g = r_groups re
      in do { st \<leftarrow> get_at sl (2 * g + 1);
              gs \<leftarrow> those (map (group_marks sl) [0..<g]);
              li \<leftarrow> get_at sl (2 * g);
              Some \<lparr>mt_text = s, mt_regex = re, mt_marks = [st, int e] @ concat gs, mt_pos = pos, mt_endpos = endpos,
                    mt_lastindex = li\<rparr> })"

definition start_of :: "rmatch \<Rightarrow> nat \<Rightarrow> int" where
  "start_of m g = (case get_at (mt_marks m) (2 * g) of None \<Rightarrow> -1 | Some x \<Rightarrow> x)"

definition end_of :: "rmatch \<Rightarrow> nat \<Rightarrow> int" where
  "end_of m g = (case get_at (mt_marks m) (2 * g + 1) of None \<Rightarrow> -1 | Some x \<Rightarrow> x)"

definition as_usize :: "int \<Rightarrow> nat" where
  "as_usize x = nat (x mod 2 ^ 64)"

definition mt_start :: "rmatch \<Rightarrow> nat option" where
  "mt_start m = map_option as_usize (get_at (mt_marks m) 0)"

definition mt_end :: "rmatch \<Rightarrow> nat option" where
  "mt_end m = map_option as_usize (get_at (mt_marks m) 1)"

text \<open>\<^verbatim>\<open>&s[a..b]\<close>, which panics when the bounds are out of order or past the end.\<close>

definition sub_slice :: "u32 list \<Rightarrow> nat \<Rightarrow> nat \<Rightarrow> u32 list option" where
  "sub_slice s a b = (if a \<le> b \<and> b \<le> length s then Some (take (b - a) (drop a s)) else None)"

definition group0 :: "rmatch \<Rightarrow> u32 list option" where
  "group0 m = do { a \<leftarrow> mt_start m; b \<leftarrow> mt_end m; sub_slice (mt_text m) a b }"

definition match_group :: "rmatch \<Rightarrow> nat \<Rightarrow> u32 list option option" where
  "match_group m g =
     (let a = start_of m g; b = end_of m g
      in if a < 0 \<or> b < 0 then Some None else map_option Some (sub_slice (mt_text m) (as_usize a) (as_usize b)))"

definition named_group :: "rmatch \<Rightarrow> u32 list \<Rightarrow> u32 list option option" where
  "named_group m name = (case group_index (mt_regex m) name of None \<Rightarrow> Some None | Some g \<Rightarrow> match_group m g)"

definition find_match ::
    "unidata \<Rightarrow> 'd dfas \<Rightarrow> nat \<Rightarrow> regex \<Rightarrow> u32 list \<Rightarrow> int \<Rightarrow> int \<Rightarrow> mode \<Rightarrow> 'd cache list \<Rightarrow> budget
     \<Rightarrow> (rmatch option \<times> 'd cache list \<times> budget) option" where
  "find_match u d addr re s pos endpos md pool b =
     (let (a, e) = clamp s pos endpos
      in do { (f, pool, b) \<leftarrow> regex_find u d addr re s a e md False pool b;
              m \<leftarrow> (case f of None \<Rightarrow> Some None | Some f \<Rightarrow> map_option Some (make_match re s f a e));
              Some (m, pool, b) })"

definition search_at where "search_at u d addr re s pos endpos = find_match u d addr re s pos endpos M_Search"
definition match_at where "match_at u d addr re s pos endpos = find_match u d addr re s pos endpos M_Match"
definition fullmatch_at where "fullmatch_at u d addr re s pos endpos = find_match u d addr re s pos endpos M_Full"

definition is_match ::
    "unidata \<Rightarrow> 'd dfas \<Rightarrow> nat \<Rightarrow> regex \<Rightarrow> u32 list \<Rightarrow> 'd cache list \<Rightarrow> budget \<Rightarrow> (bool \<times> 'd cache list \<times> budget) option" where
  "is_match u d addr re s pool b =
     do { (f, pool, b) \<leftarrow> regex_find u d addr re s 0 (length s) M_Search False pool b; Some (f \<noteq> None, pool, b) }"

section \<open>All matches\<close>

record 'd find_iter =
  it_at :: nat
  it_pos :: nat
  it_end :: nat
  it_must :: bool
  it_done :: bool
  it_cache :: "'d cache option"

definition finditer_at :: "u32 list \<Rightarrow> int \<Rightarrow> int \<Rightarrow> 'd find_iter" where
  "finditer_at s pos endpos =
     (let (a, e) = clamp s pos endpos
      in \<lparr>it_at = a, it_pos = a, it_end = e, it_must = False, it_done = False, it_cache = None\<rparr>)"

definition finditer :: "u32 list \<Rightarrow> 'd find_iter" where
  "finditer s = finditer_at s 0 (int (length s))"

text \<open>What an iterator shares with others: the pool of its pattern and the budget of the call.\<close>

type_synonym 'd shared = "'d cache list \<times> budget"

definition iter_next ::
    "unidata \<Rightarrow> 'd dfas \<Rightarrow> nat \<Rightarrow> regex \<Rightarrow> u32 list \<Rightarrow> 'd find_iter \<Rightarrow> 'd shared \<Rightarrow> (rmatch option \<times> 'd find_iter \<times> 'd shared) option" where
  "iter_next u d addr re s it sh =
     (if it_done it then Some (None, it, sh)
      else (let (pool, b) = sh;
                first = (it_cache it = None);
                (c, pool) = (case it_cache it of None \<Rightarrow> pool_take d pool | Some c \<Rightarrow> (c, pool))
            in do { (f, kept, pool, b) \<leftarrow>
                      find_kept u d addr re s (it_at it) (it_end it) M_Search (it_must it) (Some (c, \<not> first)) pool b;
                    let it = it\<lparr>it_cache := map_option fst kept\<rparr>
                    in case f of
                         None \<Rightarrow> Some (None, it\<lparr>it_done := True\<rparr>, pool, b)
                       | Some f \<Rightarrow>
                           do { m \<leftarrow> make_match re s f (it_pos it) (it_end it);
                                st \<leftarrow> mt_start m;
                                en \<leftarrow> mt_end m;
                                Some (Some m, it\<lparr>it_must := (en = st), it_at := en\<rparr>, pool, b) } }))"

definition iter_drop :: "'d find_iter \<Rightarrow> 'd shared \<Rightarrow> 'd shared" where
  "iter_drop it sh = (case it_cache it of None \<Rightarrow> sh | Some c \<Rightarrow> (pool_put c (fst sh), snd sh))"

text \<open>The loops over the matches: of a caller that takes them all, of \<^verbatim>\<open>sub_fn\<close> and of \<^verbatim>\<open>split\<close>.\<close>

partial_function (option) iter_all ::
    "unidata \<Rightarrow> 'd dfas \<Rightarrow> nat \<Rightarrow> regex \<Rightarrow> u32 list \<Rightarrow> 'd find_iter \<Rightarrow> 'd shared \<Rightarrow> (rmatch list \<times> 'd find_iter \<times> 'd shared) option" where
  "iter_all u d addr re s it sh =
     do { (m, it, sh) \<leftarrow> iter_next u d addr re s it sh;
          case m of
            None \<Rightarrow> Some ([], it, sh)
          | Some m \<Rightarrow> do { (ms, it, sh) \<leftarrow> iter_all u d addr re s it sh; Some (m # ms, it, sh) } }"

partial_function (option) sub_loop ::
    "unidata \<Rightarrow> 'd dfas \<Rightarrow> nat \<Rightarrow> regex \<Rightarrow> u32 list \<Rightarrow> nat \<Rightarrow> (rmatch \<Rightarrow> u32 list) \<Rightarrow> nat \<Rightarrow> nat \<Rightarrow> u32 list \<Rightarrow> 'd find_iter \<Rightarrow> 'd shared
     \<Rightarrow> (nat \<times> u32 list \<times> 'd find_iter \<times> 'd shared) option" where
  "sub_loop u d addr re s count f n i acc it sh =
     do { (m, it, sh) \<leftarrow> iter_next u d addr re s it sh;
          case m of
            None \<Rightarrow> Some (i, acc, it, sh)
          | Some m \<Rightarrow>
              if count \<noteq> 0 \<and> n \<ge> count then Some (i, acc, it, sh)
              else do { st \<leftarrow> mt_start m;
                        piece \<leftarrow> (if i < st then sub_slice s i st else Some []);
                        en \<leftarrow> mt_end m;
                        sub_loop u d addr re s count f (n + 1) en (acc @ piece @ f m) it sh } }"

definition sub_fn ::
    "unidata \<Rightarrow> 'd dfas \<Rightarrow> nat \<Rightarrow> regex \<Rightarrow> u32 list \<Rightarrow> nat \<Rightarrow> (rmatch \<Rightarrow> u32 list) \<Rightarrow> 'd shared \<Rightarrow> (u32 list \<times> 'd shared) option" where
  "sub_fn u d addr re s count f sh =
     do { (i, acc, it, sh) \<leftarrow> sub_loop u d addr re s count f 0 0 [] (finditer s) sh;
          Some (if i < length s then acc @ drop i s else acc, iter_drop it sh) }"

partial_function (option) split_loop ::
    "unidata \<Rightarrow> 'd dfas \<Rightarrow> nat \<Rightarrow> regex \<Rightarrow> u32 list \<Rightarrow> nat \<Rightarrow> nat \<Rightarrow> nat \<Rightarrow> u32 list option list \<Rightarrow> 'd find_iter \<Rightarrow> 'd shared
     \<Rightarrow> (nat \<times> u32 list option list \<times> 'd find_iter \<times> 'd shared) option" where
  "split_loop u d addr re s maxsplit n i acc it sh =
     do { (m, it, sh) \<leftarrow> iter_next u d addr re s it sh;
          case m of
            None \<Rightarrow> Some (i, acc, it, sh)
          | Some m \<Rightarrow>
              if maxsplit \<noteq> 0 \<and> n \<ge> maxsplit then Some (i, acc, it, sh)
              else do { st \<leftarrow> mt_start m;
                        piece \<leftarrow> sub_slice s i st;
                        gs \<leftarrow> those (map (match_group m) [1..<r_groups re + 1]);
                        en \<leftarrow> mt_end m;
                        split_loop u d addr re s maxsplit (n + 1) en (acc @ [Some piece] @ gs) it sh } }"

definition split_text ::
    "unidata \<Rightarrow> 'd dfas \<Rightarrow> nat \<Rightarrow> regex \<Rightarrow> u32 list \<Rightarrow> nat \<Rightarrow> 'd shared \<Rightarrow> (u32 list option list \<times> 'd shared) option" where
  "split_text u d addr re s maxsplit sh =
     do { (i, acc, it, sh) \<leftarrow> split_loop u d addr re s maxsplit 0 0 [] (finditer s) sh;
          piece \<leftarrow> sub_slice s i (length s);
          Some (acc @ [Some piece], iter_drop it sh) }"

end
