(* ===== verification/Regex_Sem.thy ===== *)
theory Regex_Sem
  imports Regex
begin

text \<open>
  What the interface answers. A compiled pattern is one of \<open>regex_for\<close>; a search finds the first way of its
  lowered pattern the mode asks for (\<open>first_way\<close>), whatever searches its caches served before, unless the
  budget is gone; a match is well formed, its accessors never fail, and iterating comes to an end.
\<close>

section \<open>The contract of the stage of the DFAs\<close>

definition mode_want :: "mode \<Rightarrow> bool \<Rightarrow> want" where
  "mode_want md must = \<lparr>anchored = (md \<noteq> M_Search), must_advance = must, end_at = None\<rparr>"

definition mode_ways :: "mode \<Rightarrow> env \<Rightarrow> hir \<Rightarrow> nat \<Rightarrow> outcome list" where
  "mode_ways md = (case md of M_Search \<Rightarrow> search_ways | M_Match \<Rightarrow> match_ways | M_Full \<Rightarrow> full_ways)"

text \<open>The first way in the order of the mode that may be taken.\<close>

definition way_found :: "env \<Rightarrow> hir \<Rightarrow> mode \<Rightarrow> bool \<Rightarrow> nat \<Rightarrow> found" where
  "way_found E h md must start = found_way (mode_want md must) start (mode_ways md E h start)"

definition dfas_right :: "unidata \<Rightarrow> 'd dfas \<Rightarrow> regex \<Rightarrow> hir \<Rightarrow> look list \<Rightarrow> bool" where
  "dfas_right u d re h ls \<longleftrightarrow>
     (\<forall>addr g s start e md must c.
        start \<le> e \<longrightarrow> e \<le> length s \<longrightarrow> (md \<noteq> M_Search \<longrightarrow> \<not> must) \<longrightarrow>
        good_cache u addr g (slots (r_progs re)) ls (r_progs re) s e (c_pike c) \<longrightarrow>
        (\<exists>r rd c'. d_search d addr re s start e md must c = Some (r, rd, c') \<and>
           good_cache u addr g (slots (r_progs re)) ls (r_progs re) s e (c_pike c') \<and>
           (r = None \<or> r = Some (way_found (pat_env u (r_progs re) ls s e) h md must start))))"

lemma dfas_rightD:
  assumes "dfas_right u d re h ls" and "start \<le> e" and "e \<le> length s" and "md \<noteq> M_Search \<longrightarrow> \<not> must"
    and "good_cache u addr g (slots (r_progs re)) ls (r_progs re) s e (c_pike c)"
  obtains r rd c' where "d_search d addr re s start e md must c = Some (r, rd, c')"
    "good_cache u addr g (slots (r_progs re)) ls (r_progs re) s e (c_pike c')"
    "r = None \<or> r = Some (way_found (pat_env u (r_progs re) ls s e) h md must start)"
  using assms(1) [unfolded dfas_right_def, THEN spec, THEN spec, THEN spec, THEN spec, THEN spec, THEN spec, THEN spec, THEN spec,
      THEN mp, THEN mp, THEN mp, THEN mp, OF assms(2-5)] by (elim exE conjE) (rule that)

text \<open>A compiled pattern, with the lowered pattern and the tests it is of.\<close>

definition regex_for :: "regex \<Rightarrow> hir \<Rightarrow> charset list \<Rightarrow> look list \<Rightarrow> bool" where
  "regex_for re h ss ls \<longleftrightarrow>
     pattern_ok h ss ls (r_groups re) \<and> compile h ss ls (r_groups re) = Inr (r_progs re) \<and>
     (\<forall>n m g s c. h = H_Repeat n m g s (H_Char c) \<longrightarrow> s) \<and>
     (\<forall>sm. r_simple re = Some sm \<longrightarrow> simple_of h ss = Some (Some sm) \<and> ls = [])"

lemma vm_find_right:
  assumes re: "regex_for re h ss ls" and g: "good_cache u addr g (slots (r_progs re)) ls (r_progs re) s e (c_pike c)"
  shows "\<exists>c'. vm_find u addr re s start e md must c = Some (way_found (pat_env u (r_progs re) ls s e) h md must start, c') \<and>
    good_cache u addr g (slots (r_progs re)) ls (r_progs re) s e (c_pike c')"
proof -
  have p: "pattern_ok h ss ls (r_groups re)" "compile h ss ls (r_groups re) = Inr (r_progs re)"
    using re by (auto simp: regex_for_def)
  show ?thesis
    using search_fwd [OF p g, of start "mode_want md must"] search_full [OF p g, of "mode_want md must" start]
    by (cases md) (auto simp: vm_find_def way_found_def mode_want_def mode_ways_def)
qed

lemma run_find_right:
  assumes re: "regex_for re h ss ls" and d: "dfas_right u d re h ls" and e: "e \<le> length s" and m: "md \<noteq> M_Search \<longrightarrow> \<not> must"
    and g: "good_cache u addr g (slots (r_progs re)) ls (r_progs re) s e (c_pike c)"
  shows "\<exists>rd c'. run_find u d addr re s start e md must c = Some (way_found (pat_env u (r_progs re) ls s e) h md must start, rd, c') \<and>
    good_cache u addr g (slots (r_progs re)) ls (r_progs re) s e (c_pike c')"
proof (cases "start \<le> e \<and> r_usable re")
  case True
  obtain r rd c1 where r: "d_search d addr re s start e md must c = Some (r, rd, c1)"
    "good_cache u addr g (slots (r_progs re)) ls (r_progs re) s e (c_pike c1)"
    "r = None \<or> r = Some (way_found (pat_env u (r_progs re) ls s e) h md must start)"
    by (rule dfas_rightD [OF d conjunct1 [OF True] e m g]) (rule that)
  show ?thesis
    using True r vm_find_right [OF re r(2), of start md must] by (cases r) (auto simp: run_find_def)
next
  case False
  then show ?thesis using vm_find_right [OF re g, of start md must] by (auto simp: run_find_def)
qed

section \<open>Caches\<close>

text \<open>A cache fit for that many more searches, and one whose memos hold for a text and window.\<close>

definition fit :: "nat \<Rightarrow> 'd cache \<Rightarrow> bool" where
  "fit n c \<longleftrightarrow> pike_ok oracle_idle (c_pike c) \<and> o_gen (p_oracle (c_pike c)) + n < 2 ^ 64"

definition held :: "unidata \<Rightarrow> nat \<Rightarrow> regex \<Rightarrow> look list \<Rightarrow> u32 list \<Rightarrow> nat \<Rightarrow> nat \<Rightarrow> oracle_state pike_cache \<Rightarrow> bool" where
  "held u addr re ls s e n c \<longleftrightarrow> (\<exists>g. good_cache u addr g (slots (r_progs re)) ls (r_progs re) s e c \<and> g + n < 2 ^ 64)"

definition begun :: "unidata \<Rightarrow> nat \<Rightarrow> regex \<Rightarrow> look list \<Rightarrow> u32 list \<Rightarrow> nat \<Rightarrow> nat \<Rightarrow> 'd cache \<Rightarrow> bool" where
  "begun u addr re ls s e n c \<longleftrightarrow> held u addr re ls s e n (c_pike c) \<or> ls = [] \<and> fit (Suc n) c"

abbreviation pool_fit :: "nat \<Rightarrow> 'd cache list \<Rightarrow> bool" where
  "pool_fit n pool \<equiv> list_all (fit n) pool"

lemma fit_mono: "fit n c \<Longrightarrow> m \<le> n \<Longrightarrow> fit m c"
  by (auto simp: fit_def)

lemma pool_fit_mono: "pool_fit n pool \<Longrightarrow> m \<le> n \<Longrightarrow> pool_fit m pool"
  by (auto simp: list_all_iff intro: fit_mono)

lemma begun_fit: "begun u addr re ls s e (Suc n) c \<Longrightarrow> fit (Suc n) c"
  using good_cache_idle by (fastforce simp: begun_def held_def fit_def)

lemma cache_new_fit [simp]: "fit n (cache_new d) \<longleftrightarrow> n < 2 ^ 64"
  using pike_new_idle by (simp add: fit_def cache_new_def pike_new_def oracle_new_def)

lemma pool_take_fit: "pool_fit n pool \<Longrightarrow> n < 2 ^ 64 \<Longrightarrow> pool_take d pool = (c, pool') \<Longrightarrow> fit n c \<and> pool_fit n pool'"
  by (auto simp: pool_take_def list_all_iff dest: in_set_butlastD split: if_splits)

lemma pool_put_fit: "pool_fit n pool \<Longrightarrow> fit n c \<Longrightarrow> pool_fit n (pool_put c pool)"
  by (simp add: pool_put_def)

text \<open>Beginning a search: afresh from any cache, or on with the memos of the one before.\<close>

lemma regex_forD:
  assumes "regex_for re h ss ls"
  shows "pattern_ok h ss ls (r_groups re)" "compile h ss ls (r_groups re) = Inr (r_progs re)"
    "compiled_tests (slots (r_progs re)) ls (r_progs re)" "slots (r_progs re) = 2 * r_groups re + 2"
    "r_simple re = Some sm \<Longrightarrow> ls = []"
  using assms compile_tests(1,2) [of h ss ls "r_groups re" "r_progs re"] by (auto simp: regex_for_def)

lemma begin_afresh:
  assumes "regex_for re h ss ls" and "e \<le> length s" and "fit (Suc n) c"
  shows "held u addr re ls s e n (begin_search addr s e False (c_pike c))"
  using begin_search_good [OF regex_forD(1,2) [OF assms(1)] assms(2), of "c_pike c" u addr] assms(3)
  by (auto simp: held_def fit_def)

lemma memo_true_none:
  assumes "compiled_tests ns [] pr"
  shows "memo_true u pr text e [] l m"
proof -
  have "looks pr = [D_EndString]" using assms by (simp add: compiled_tests_def)
  then show ?thesis by (cases l) (auto simp: memo_true_def get_at_def)
qed

lemma begin_untested:
  assumes "regex_for re h ss []" and "e \<le> length s" and "fit (Suc n) c"
  shows "held u addr re [] s e n (begin_search addr s e True (c_pike c))"
proof (cases "o_key (p_oracle (c_pike c)) = (addr, length s, e)")
  case True
  then have "good_cache u addr (o_gen (p_oracle (c_pike c))) (slots (r_progs re)) [] (r_progs re) s e (begin_search addr s e True (c_pike c))"
    using assms(3) regex_forD(3) [OF assms(1)] assms(2)
    by (auto simp: fit_def good_cache_def pike_ok_def begin_search_def right_oracle_def oracle_idle_def oracle_ok_def
        oracle_begin_def memos_right_def memo_true_none levels_ok_def)
  then show ?thesis using assms(3) by (auto simp: held_def fit_def)
next
  case False
  then have "begin_search addr s e True (c_pike c) = begin_search addr s e False (c_pike c)"
    by (simp add: begin_search_def oracle_begin_def)
  then show ?thesis using begin_afresh [OF assms] by simp
qed

lemma begin_on:
  assumes "regex_for re h ss ls" and "e \<le> length s" and "begun u addr re ls s e n c"
  shows "held u addr re ls s e n (begin_search addr s e True (c_pike c))"
proof (cases "held u addr re ls s e n (c_pike c)")
  case True
  then show ?thesis using begin_search_kept by (fastforce simp: held_def)
next
  case False
  then have "ls = []" "fit (Suc n) c" using assms(3) by (auto simp: begun_def)
  then show ?thesis using begin_untested assms(1,2) by blast
qed

lemma run_begun_right:
  assumes re: "regex_for re h ss ls" and d: "dfas_right u d re h ls" and e: "e \<le> length s" and m: "md \<noteq> M_Search \<longrightarrow> \<not> must"
    and g: "if keep then begun u addr re ls s e n c else fit (Suc n) c"
  shows "\<exists>x c'. run_begun u d addr re s start e md must c keep =
      Some ((way_found (pat_env u (r_progs re) ls s e) h md must start, x), c') \<and> held u addr re ls s e n (c_pike c')"
proof -
  have "held u addr re ls s e n (begin_search addr s e keep (c_pike c))"
    using g begin_on [OF re e] begin_afresh [OF re e] by (cases keep) auto
  then obtain g where b: "good_cache u addr g (slots (r_progs re)) ls (r_progs re) s e (begin_search addr s e keep (c_pike c))" "g + n < 2 ^ 64"
    by (auto simp: held_def)
  show ?thesis
    using run_find_right [OF re d e m, of addr g "c\<lparr>c_pike := begin_search addr s e keep (c_pike c)\<rparr>" start] b
    by (auto simp: run_begun_def held_def)
qed

section \<open>A search\<close>

text \<open>What a search answers: a plain search of a window that is empty the wrong way round finds nothing.\<close>

definition answers :: "env \<Rightarrow> hir \<Rightarrow> mode \<Rightarrow> bool \<Rightarrow> nat \<Rightarrow> found" where
  "answers E h md must start = (if md = M_Search \<and> start > e_end E then None else way_found E h md must start)"

definition kept_ok :: "unidata \<Rightarrow> nat \<Rightarrow> regex \<Rightarrow> look list \<Rightarrow> u32 list \<Rightarrow> nat \<Rightarrow> nat \<Rightarrow> 'd kept \<Rightarrow> bool" where
  "kept_ok u addr re ls s e n kept =
     (case kept of None \<Rightarrow> True | Some (c, keep) \<Rightarrow> if keep then begun u addr re ls s e n c else fit (Suc n) c)"

text \<open>The buffers after a search: those of the caller hold for its text from then on.\<close>

definition kept_on :: "unidata \<Rightarrow> nat \<Rightarrow> regex \<Rightarrow> look list \<Rightarrow> u32 list \<Rightarrow> nat \<Rightarrow> nat \<Rightarrow> bool \<Rightarrow> 'd kept \<Rightarrow> 'd kept \<Rightarrow> bool" where
  "kept_on u addr re ls s e n inside kept kept' =
     (case kept of
        None \<Rightarrow> kept' = None
      | Some (c, keep) \<Rightarrow>
          (case kept' of
             None \<Rightarrow> False
           | Some (c', keep') \<Rightarrow> keep' = keep \<and> fit n c' \<and> (inside \<longrightarrow> begun u addr re ls s e n c')))"

lemma simple_right:
  assumes re: "regex_for re h ss ls" and sm: "r_simple re = Some sm" and e: "e \<le> length s" "length s \<le> USIZE_MAX"
  shows "case simple_span sm s start e (md \<noteq> M_Search) (md = M_Full) must of
      None \<Rightarrow> False
    | Some None \<Rightarrow> True
    | Some (Some r) \<Rightarrow>
        map_option (\<lambda>(a, b). ((replicate (slots (r_progs re)) (-1))[slots (r_progs re) - 1 := int a], b)) r =
        way_found (pat_env u (r_progs re) ls s e) h md must start"
proof -
  have s: "simple_of h ss = Some (Some sm)" "\<forall>n m g s c. h = H_Repeat n m g s (H_Char c) \<longrightarrow> s"
    using re sm by (auto simp: regex_for_def)
  have w: "(if md = M_Full then full_ways else if md \<noteq> M_Search then match_ways else search_ways) = mode_ways md"
    by (cases md) (simp_all add: mode_ways_def)
  show ?thesis
    using span_found [OF regex_forD(1,2) [OF re] s e, where anch = "md \<noteq> M_Search" and whole = "md = M_Full"
        and must = must and start = start and u = u, unfolded w]
    by (auto simp: way_found_def mode_want_def split: option.splits)
qed

lemma find_unbudgeted_right:
  assumes re: "regex_for re h ss ls" and d: "dfas_right u d re h ls" and e: "e \<le> length s" "length s \<le> USIZE_MAX"
    and m: "md \<noteq> M_Search \<longrightarrow> \<not> must" and k: "kept_ok u addr re ls s e (Suc n) kept"
    and p: "pool_fit (Suc (Suc n)) pool" "Suc (Suc n) < 2 ^ 64"
  shows "\<exists>x kept' pool'. find_unbudgeted u d addr re s start e md must kept pool =
      Some ((answers (pat_env u (r_progs re) ls s e) h md must start, x), kept', pool') \<and>
    kept_on u addr re ls s e (Suc n) (md \<noteq> M_Search \<or> start \<le> e) kept kept' \<and> pool_fit (Suc n) pool' \<and>
    (kept \<noteq> None \<longrightarrow> pool' = pool)"
proof (cases "md = M_Search \<and> start > e")
  case True
  have "kept_on u addr re ls s e (Suc n) (md \<noteq> M_Search \<or> start \<le> e) kept kept"
    using True k by (auto simp: kept_on_def kept_ok_def split: option.splits if_splits intro: begun_fit fit_mono)
  then show ?thesis
    using True p by (auto simp: find_unbudgeted_def answers_def intro: pool_fit_mono)
next
  case ins: False
  let ?way = "way_found (pat_env u (r_progs re) ls s e) h md must start"
  have a: "answers (pat_env u (r_progs re) ls s e) h md must start = ?way" using ins by (auto simp: answers_def)
  let ?span = "case r_simple re of None \<Rightarrow> Some None
     | Some sm \<Rightarrow> simple_span sm s start e (md \<noteq> M_Search) (md = M_Full) must"
  have span: "case ?span of None \<Rightarrow> False | Some None \<Rightarrow> True
    | Some (Some r) \<Rightarrow> ls = [] \<and>
        map_option (\<lambda>(a, b). ((replicate (slots (r_progs re)) (-1))[slots (r_progs re) - 1 := int a], b)) r = ?way"
    using simple_right [OF re _ e, where start = start and md = md and must = must and u = u] regex_forD(5) [OF re] by (cases "r_simple re") (auto split: option.splits)
  then obtain sp where sp: "?span = Some sp" by (cases ?span) auto
  show ?thesis
  proof (cases sp)
    case (Some r)
    have "kept_on u addr re ls s e (Suc n) (md \<noteq> M_Search \<or> start \<le> e) kept kept" if "ls = []"
      using k that by (auto simp: kept_on_def kept_ok_def begun_def split: option.splits if_splits intro: begun_fit fit_mono)
    then show ?thesis
      using ins sp span Some p by (auto simp: find_unbudgeted_def answers_def Let_def intro: pool_fit_mono)
  next
    case none: None
    show ?thesis
    proof (cases kept)
      case None
      obtain c pool1 where t: "pool_take d pool = (c, pool1)" by fastforce
      have c: "fit (Suc (Suc n)) c" "pool_fit (Suc (Suc n)) pool1" using pool_take_fit [OF p t] by auto
      from run_begun_right [OF re d e(1) m, where keep = False and addr = addr and n = "Suc n" and c = c and start = start] c(1) obtain x c' where
        r: "run_begun u d addr re s start e md must c False = Some ((?way, x), c')" "held u addr re ls s e (Suc n) (c_pike c')" by auto
      have "fit (Suc n) c'" by (rule begun_fit [of u addr re ls s e]) (use r(2) in \<open>simp add: begun_def\<close>)
      then have "pool_fit (Suc n) (pool_put c' pool1)" by (rule pool_put_fit [OF pool_fit_mono [OF c(2)], rotated]) simp
      then show ?thesis
        using ins sp none None r(1) by (auto simp: find_unbudgeted_def a with_cache_def t kept_on_def)
    next
      case (Some ck)
      obtain c keep where ck: "ck = (c, keep)" by fastforce
      from run_begun_right [OF re d e(1) m, where keep = keep and addr = addr and n = "Suc n" and c = c and start = start] k Some ck obtain x c' where
        r: "run_begun u d addr re s start e md must c keep = Some ((?way, x), c')" "held u addr re ls s e (Suc n) (c_pike c')"
        by (auto simp: kept_ok_def)
      have b: "begun u addr re ls s e (Suc n) c'" using r(2) by (simp add: begun_def)
      show ?thesis
        using ins sp none Some ck r(1) b begun_fit [OF b] p
        by (auto simp: find_unbudgeted_def a kept_on_def intro: pool_fit_mono)
    qed
  qed
qed

text \<open>A search gives its answer, or none with the budget gone.\<close>

definition charged :: "found \<Rightarrow> budget \<Rightarrow> found \<times> budget \<Rightarrow> bool" where
  "charged f b r \<longleftrightarrow> runs_down b (snd r) \<and> (fst r = f \<or> fst r = None \<and> spent (snd r))"

lemma find_kept_right:
  assumes "regex_for re h ss ls" and "dfas_right u d re h ls" and "e \<le> length s" and "length s \<le> USIZE_MAX"
    and "md \<noteq> M_Search \<longrightarrow> \<not> must" and "kept_ok u addr re ls s e (Suc n) kept"
    and "pool_fit (Suc (Suc n)) pool" and "Suc (Suc n) < 2 ^ 64"
  obtains f kept' pool' b' where "find_kept u d addr re s start e md must kept pool b = Some (f, kept', pool', b')"
    "charged (answers (pat_env u (r_progs re) ls s e) h md must start) b (f, b')"
    "kept_on u addr re ls s e (Suc n) (md \<noteq> M_Search \<or> start \<le> e) kept kept'" "pool_fit (Suc n) pool'"
    "kept \<noteq> None \<longrightarrow> pool' = pool"
proof -
  let ?f = "answers (pat_env u (r_progs re) ls s e) h md must start"
  from find_unbudgeted_right [OF assms(1-8), of start] obtain rd wk kept' pool' where
    u: "find_unbudgeted u d addr re s start e md must kept pool = Some ((?f, rd, wk), kept', pool')"
    "kept_on u addr re ls s e (Suc n) (md \<noteq> M_Search \<or> start \<le> e) kept kept'" "pool_fit (Suc n) pool'"
    "kept \<noteq> None \<longrightarrow> pool' = pool" by auto
  define k where "k = chars_read start e ?f rd wk"
  define sp where "sp = (if k \<ge> 16 then spend (k div 16) b else (True, b))"
  have c: "charged ?f b (if fst sp then ?f else None, snd sp)"
    using spend_runs_down [of b "k div 16"] by (auto simp: charged_def sp_def spend_def)
  have "find_kept u d addr re s start e md must kept pool b = Some (if fst sp then ?f else None, kept', pool', snd sp)"
    unfolding find_kept_def u(1) bind.simps prod.case Let_def k_def [symmetric] sp_def [symmetric]
    by (simp split: prod.split)
  then show thesis using c u(2-4) by (rule that)
qed

lemma regex_find_right:
  assumes "regex_for re h ss ls" and "dfas_right u d re h ls" and "e \<le> length s" and "length s \<le> USIZE_MAX"
    and "md \<noteq> M_Search \<longrightarrow> \<not> must" and "pool_fit (Suc (Suc n)) pool" and "Suc (Suc n) < 2 ^ 64"
  obtains f pool' b' where "regex_find u d addr re s start e md must pool b = Some (f, pool', b')"
    "charged (answers (pat_env u (r_progs re) ls s e) h md must start) b (f, b')" "pool_fit (Suc n) pool'"
proof -
  have k: "kept_ok u addr re ls s e (Suc n) None" by (simp add: kept_ok_def)
  obtain f kept' pool' b' where
    "find_kept u d addr re s start e md must None pool b = Some (f, kept', pool', b')"
    "charged (answers (pat_env u (r_progs re) ls s e) h md must start) b (f, b')" "pool_fit (Suc n) pool'"
    by (rule find_kept_right [OF assms(1-5) k assms(6,7)]) (rule that)
  then show thesis by (intro that) (simp_all add: regex_find_def)
qed

section \<open>Matches\<close>

text \<open>The slots of a way that was found, in the order of the marks.\<close>

lemma way_found_slots:
  assumes re: "regex_for re h ss ls" and f: "way_found (pat_env u (r_progs re) ls s e) h md must start = Some (sl, pos)"
    and e: "e \<le> length s"
  obtains q where "start \<le> q" "q \<le> max start e" "md \<noteq> M_Search \<longrightarrow> q = start" "slots_ok {} (r_groups re) e q pos sl"
    "must \<longrightarrow> start < pos" "md = M_Full \<longrightarrow> pos = e"
proof -
  let ?E = "pat_env u (r_progs re) ls s e"
  from f have x: "(pos, sl) \<in> set (mode_ways md ?E h start)" "accepts (mode_want md must) start pos"
    by (auto simp: way_found_def found_way_def find_Some_iff in_set_conv_nth) (metis fst_conv)+
  then obtain q where q: "(pos, sl) \<in> set (match_ways ?E h q)" "start \<le> q" "q \<le> max start e" "md \<noteq> M_Search \<longrightarrow> q = start"
    "md = M_Full \<longrightarrow> pos = e"
    by (cases md) (auto simp: mode_ways_def search_ways_def full_ways_def last_start_def simp del: upt_Suc)
  have sl: "slots_ok {} (r_groups re) e q pos sl"
    using match_ways_slots [OF _ _ _ _ q(1), where G = "r_groups re" and e = e and nset = "length (sets (r_progs re))"]
      compile_tests(4) [OF regex_forD(1,2) [OF re]] regex_forD(4) [OF re] by simp
  have "must \<longrightarrow> start < pos"
    using x(2) slots_okD(3) [OF sl] q(2) by (auto simp: accepts_def mode_want_def)
  with q sl show thesis by (intro that)
qed

lemma concat_pairs: "2 * n \<le> length xs \<Longrightarrow> concat (map (\<lambda>k. [xs ! (2 * k), xs ! (2 * k + 1)]) [0..<n]) = take (2 * n) xs"
  by (induction n) (simp_all add: take_Suc_conv_app_nth)

lemma group_marks_paired:
  assumes "k < G" and "slots_ok {} G e q pos sl"
  shows "group_marks sl k = Some [sl ! (2 * k), sl ! (2 * k + 1)]"
  using slots_okD(1) [OF assms(2)] slots_okD(8) [OF assms(2,1)] assms(1)
  by (auto simp: group_marks_def get_at_def paired_def)

lemma those_map_Some: "(\<And>x. x \<in> set xs \<Longrightarrow> f x = Some (g x)) \<Longrightarrow> those (map f xs) = Some (map g xs)"
  by (induction xs) auto

lemma make_match_slots:
  assumes "slots_ok {} (r_groups re) e q pos sl"
  shows "make_match re s (sl, pos) p0 e0 =
      Some \<lparr>mt_text = s, mt_regex = re, mt_marks = [int q, int pos] @ take (2 * r_groups re) sl, mt_pos = p0, mt_endpos = e0,
            mt_lastindex = sl ! (2 * r_groups re)\<rparr>"
proof -
  note s = slots_okD [OF assms]
  have "those (map (group_marks sl) [0..<r_groups re]) = Some (map (\<lambda>k. [sl ! (2 * k), sl ! (2 * k + 1)]) [0..<r_groups re])"
    by (rule those_map_Some) (simp add: group_marks_paired [OF _ assms])
  then show ?thesis using s(1,2) concat_pairs [of "r_groups re" sl] by (simp add: make_match_def get_at_def Let_def)
qed

text \<open>A match: its span in the text, and the span inside it of every group that took part.\<close>

definition match_ok :: "rmatch \<Rightarrow> nat \<Rightarrow> nat \<Rightarrow> bool" where
  "match_ok m a b \<longleftrightarrow>
     mt_start m = Some a \<and> mt_end m = Some b \<and> a \<le> b \<and> b \<le> length (mt_text m) \<and> length (mt_text m) < 2 ^ 63 \<and>
     start_of m 0 = int a \<and> end_of m 0 = int b \<and>
     (\<forall>g. paired a b (start_of m g) (end_of m g)) \<and> -1 \<le> mt_lastindex m \<and> mt_lastindex m \<le> int (r_groups (mt_regex m))"

lemma as_usize_int: "n < 2 ^ 64 \<Longrightarrow> as_usize (int n) = n"
  by (simp add: as_usize_def)

lemma make_match_ok:
  assumes sl: "slots_ok {} (r_groups re) e q pos sl" and e: "q \<le> length s" "e \<le> length s" "length s < 2 ^ 63"
    and m: "make_match re s (sl, pos) p0 e0 = Some m"
  shows "match_ok m q pos" "mt_text m = s" "mt_regex m = re"
proof -
  note s = slots_okD [OF sl]
  let ?G = "r_groups re"
  have m: "m = \<lparr>mt_text = s, mt_regex = re, mt_marks = [int q, int pos] @ take (2 * ?G) sl, mt_pos = p0, mt_endpos = e0,
      mt_lastindex = sl ! (2 * ?G)\<rparr>" using m make_match_slots [OF sl] by simp
  then show "mt_text m = s" "mt_regex m = re" by simp_all
  have p: "q \<le> pos" "pos \<le> length s" using s(3,4) e by auto
  have "paired q pos (start_of m g) (end_of m g)" for g
  proof (cases g)
    case 0
    then show ?thesis using p by (simp add: m start_of_def end_of_def get_at_def paired_def)
  next
    case (Suc k)
    then have "start_of m g = (if k < ?G then sl ! (2 * k) else -1)" "end_of m g = (if k < ?G then sl ! (2 * k + 1) else -1)"
      using s(1) by (auto simp: m start_of_def end_of_def get_at_def)
    then show ?thesis using s(8) [of k] by (auto simp: paired_def)
  qed
  moreover have "mt_start m = Some q" "mt_end m = Some pos"
    using p e(3) by (auto simp: m mt_start_def mt_end_def get_at_def intro!: as_usize_int)
  ultimately show "match_ok m q pos"
    using p s(5,6) e(3) unfolding match_ok_def by (simp add: m start_of_def end_of_def get_at_def)
qed

lemma match_groups_ok:
  assumes "match_ok m a b"
  shows "group0 m = Some (take (b - a) (drop a (mt_text m)))"
    "\<exists>r. match_group m g = Some r \<and>
       r = (if start_of m g < 0 then None
            else Some (take (nat (end_of m g) - nat (start_of m g)) (drop (nat (start_of m g)) (mt_text m))))"
proof -
  show "group0 m = Some (take (b - a) (drop a (mt_text m)))"
    using assms by (simp add: match_ok_def group0_def sub_slice_def)
  have p: "paired a b (start_of m g) (end_of m g)" "b \<le> length (mt_text m)" "length (mt_text m) < 2 ^ 63"
    using assms by (auto simp: match_ok_def)
  have "as_usize x = nat x" if "0 \<le> x" "x \<le> int b" for x
    using that p(2,3) by (simp add: as_usize_def)
  then show "\<exists>r. match_group m g = Some r \<and>
       r = (if start_of m g < 0 then None
            else Some (take (nat (end_of m g) - nat (start_of m g)) (drop (nat (start_of m g)) (mt_text m))))"
    using p(1,2) by (auto simp: match_group_def Let_def paired_def sub_slice_def)
qed

section \<open>Iterating\<close>

definition iter_ok :: "unidata \<Rightarrow> nat \<Rightarrow> regex \<Rightarrow> look list \<Rightarrow> u32 list \<Rightarrow> nat \<Rightarrow> 'd find_iter \<Rightarrow> bool" where
  "iter_ok u addr re ls s n it \<longleftrightarrow>
     it_end it \<le> length s \<and> it_at it \<le> length s \<and>
     (case it_cache it of
        None \<Rightarrow> True
      | Some c \<Rightarrow> fit (Suc n) c \<and> (\<not> it_done it \<longrightarrow> it_at it \<le> it_end it \<and> begun u addr re ls s (it_end it) (Suc n) c))"

text \<open>What is left to iterate: an empty match does not move on, but the next one has to.\<close>

definition iter_left :: "'d find_iter \<Rightarrow> nat" where
  "iter_left it = 2 * (it_end it - it_at it) + (if it_must it then 0 else 1)"

text \<open>A step: a match, further on, or the end, with nothing left to find or the budget gone.\<close>

definition iter_steps ::
    "unidata \<Rightarrow> regex \<Rightarrow> hir \<Rightarrow> look list \<Rightarrow> u32 list \<Rightarrow> 'd find_iter \<Rightarrow> budget \<Rightarrow> rmatch option \<Rightarrow> 'd find_iter \<Rightarrow> budget \<Rightarrow> bool" where
  "iter_steps u re h ls s it b m it' b' \<longleftrightarrow>
     runs_down b b' \<and> it_end it' = it_end it \<and> it_pos it' = it_pos it \<and>
     (case m of
        None \<Rightarrow> it_done it' \<and>
          (it_done it \<or> spent b' \<or> answers (pat_env u (r_progs re) ls s (it_end it)) h M_Search (it_must it) (it_at it) = None)
      | Some m \<Rightarrow> \<not> it_done it \<and> \<not> it_done it' \<and>
          (\<exists>sl a. answers (pat_env u (r_progs re) ls s (it_end it)) h M_Search (it_must it) (it_at it) = Some (sl, it_at it') \<and>
             make_match re s (sl, it_at it') (it_pos it) (it_end it) = Some m \<and> match_ok m a (it_at it') \<and> it_at it \<le> a \<and>
             last sl = int a \<and> it_must it' = (a = it_at it') \<and> iter_left it' < iter_left it))"

lemma iter_next_right:
  assumes re: "regex_for re h ss ls" and d: "dfas_right u d re h ls" and len: "length s < 2 ^ 63"
    and it: "iter_ok u addr re ls s n it" and p: "pool_fit (Suc (Suc n)) pool" "Suc (Suc n) < 2 ^ 64"
  obtains m it' pool' b' where "iter_next u d addr re s it (pool, b) = Some (m, it', pool', b')"
    "iter_steps u re h ls s it b m it' b'" "iter_ok u addr re ls s n it'" "pool_fit (Suc (Suc n)) pool'"
proof (cases "it_done it")
  case True
  then show thesis using it p by (intro that [of None it pool b]) (simp_all add: iter_next_def iter_steps_def)
next
  case False
  let ?e = "it_end it" and ?at = "it_at it"
  let ?E = "pat_env u (r_progs re) ls s ?e"
  obtain c pool1 where t: "(case it_cache it of None \<Rightarrow> pool_take d pool | Some c \<Rightarrow> (c, pool)) = (c, pool1)" by fastforce
  have e: "?e \<le> length s" "?at \<le> length s" "length s \<le> USIZE_MAX" using it len by (auto simp: iter_ok_def USIZE_MAX_def)
  have p1: "pool_fit (Suc (Suc n)) pool1"
    using t p pool_take_fit [OF p, of d c pool1] by (auto split: option.splits)
  have k: "kept_ok u addr re ls s ?e (Suc n) (Some (c, it_cache it \<noteq> None))"
    using t it False pool_take_fit [OF p, of d c pool1] by (auto simp: kept_ok_def iter_ok_def split: option.splits)
  have ms: "M_Search \<noteq> M_Search \<longrightarrow> \<not> it_must it" by simp
  obtain f kept pool2 b' where r:
    "find_kept u d addr re s ?at ?e M_Search (it_must it) (Some (c, it_cache it \<noteq> None)) pool1 b = Some (f, kept, pool2, b')"
    "charged (answers ?E h M_Search (it_must it) ?at) b (f, b')"
    "kept_on u addr re ls s ?e (Suc n) (M_Search \<noteq> M_Search \<or> ?at \<le> ?e) (Some (c, it_cache it \<noteq> None)) kept"
    "pool_fit (Suc n) pool2" "Some (c, it_cache it \<noteq> None) \<noteq> None \<longrightarrow> pool2 = pool1"
    by (rule find_kept_right [OF re d e(1,3) ms k p1 p(2)]) (rule that)
  obtain c' where kept: "kept = Some (c', it_cache it \<noteq> None)" "fit (Suc n) c'" "?at \<le> ?e \<longrightarrow> begun u addr re ls s ?e (Suc n) c'"
    using r(3) by (auto simp: kept_on_def split: option.splits)
  have next_eq: "iter_next u d addr re s it (pool, b) =
      (case f of None \<Rightarrow> Some (None, it\<lparr>it_cache := Some c', it_done := True\<rparr>, pool1, b')
       | Some f \<Rightarrow> do { m \<leftarrow> make_match re s f (it_pos it) ?e; st \<leftarrow> mt_start m; en \<leftarrow> mt_end m;
                      Some (Some m, it\<lparr>it_cache := Some c', it_must := (en = st), it_at := en\<rparr>, pool1, b') })"
    using False t r(1,5) kept(1) by (simp add: iter_next_def Let_def split: option.split)
  show thesis
  proof (cases f)
    case None
    have "iter_steps u re h ls s it b None (it\<lparr>it_cache := Some c', it_done := True\<rparr>) b'"
      using r(2) None by (auto simp: iter_steps_def charged_def)
    moreover have "iter_ok u addr re ls s n (it\<lparr>it_cache := Some c', it_done := True\<rparr>)"
      using it kept(2) by (simp add: iter_ok_def split: option.splits)
    ultimately show thesis using next_eq None p1 by (intro that) simp_all
  next
    case (Some x)
    obtain sl pos where x: "x = (sl, pos)" by fastforce
    have a: "answers ?E h M_Search (it_must it) ?at = Some (sl, pos)" using r(2) Some x by (auto simp: charged_def)
    then have in_w: "?at \<le> ?e" and w: "way_found ?E h M_Search (it_must it) ?at = Some (sl, pos)"
      by (auto simp: answers_def split: if_splits)
    obtain q where q: "?at \<le> q" "q \<le> max ?at ?e" "slots_ok {} (r_groups re) ?e q pos sl" "it_must it \<longrightarrow> ?at < pos"
      by (rule way_found_slots [OF re w e(1)]) (rule that)
    obtain m where m: "make_match re s (sl, pos) (it_pos it) ?e = Some m" using make_match_slots [OF q(3)] by simp
    have ok: "match_ok m q pos" by (rule make_match_ok [OF q(3) _ e(1) len m]) (use q(2) in_w e in simp)
    have st: "mt_start m = Some q" "mt_end m = Some pos" "q \<le> pos" using ok by (auto simp: match_ok_def)
    have pe: "pos \<le> ?e" using slots_okD(4) [OF q(3)] q(2) in_w by simp
    let ?it = "it\<lparr>it_cache := Some c', it_must := (pos = q), it_at := pos\<rparr>"
    have ls: "last sl = int q" using slots_okD(1,2) [OF q(3)] by (subst last_conv_nth) auto
    have "iter_left ?it < iter_left it" using q(1,4) st(3) pe by (auto simp: iter_left_def)
    then have "iter_steps u re h ls s it b (Some m) ?it b'"
      using a m ok q(1) r(2) False ls by (auto simp: iter_steps_def charged_def)
    moreover have "iter_ok u addr re ls s n ?it" using it kept in_w pe e by (auto simp: iter_ok_def split: option.splits)
    ultimately show thesis using next_eq Some x m st p1 by (intro that) simp_all
  qed
qed

text \<open>The matches of a window, one after the other: each what a search gives from where the last ended.\<close>

inductive iterates :: "(bool \<Rightarrow> nat \<Rightarrow> found) \<Rightarrow> nat \<Rightarrow> bool \<Rightarrow> (int list \<times> nat) list \<Rightarrow> bool" for F where
  nothing_left: "F must at = None \<Longrightarrow> iterates F at must []"
| then_on: "F must at = Some (sl, b) \<Longrightarrow> iterates F b (last sl = int b) fs \<Longrightarrow> iterates F at must ((sl, b) # fs)"


lemma iterates_unique: "iterates F at must fs \<Longrightarrow> iterates F at must gs \<Longrightarrow> fs = gs"
proof (induction arbitrary: gs rule: iterates.induct)
  case (nothing_left must at)
  then show ?case by (auto elim: iterates.cases)
next
  case (then_on must at sl b fs)
  from then_on.prems then_on.hyps(1) obtain gs' where "gs = (sl, b) # gs'" "iterates F b (last sl = int b) gs'"
    by (auto elim: iterates.cases)
  then show ?case using then_on.IH by simp
qed

lemma answers_on:
  assumes re: "regex_for re h ss ls" and e: "e \<le> length s" and a: "answers (pat_env u (r_progs re) ls s e) h M_Search must at = Some (sl, b)"
  shows "at \<le> e" "b \<le> e" "2 * (e - b) + (if last sl = int b then 0 else 1) < 2 * (e - at) + (if must then 0 else 1 :: nat)"
    "\<exists>q. at \<le> q \<and> q \<le> b \<and> slots_ok {} (r_groups re) e q b sl"
proof -
  from a have i: "at \<le> e" and w: "way_found (pat_env u (r_progs re) ls s e) h M_Search must at = Some (sl, b)"
    by (auto simp: answers_def split: if_splits)
  obtain q where q: "at \<le> q" "q \<le> max at e" "slots_ok {} (r_groups re) e q b sl" "must \<longrightarrow> at < b"
    by (rule way_found_slots [OF re w e]) (rule that)
  show "at \<le> e" by (rule i)
  show be: "b \<le> e" using slots_okD(4) [OF q(3)] q(2) i by simp
  have l: "last sl = int q" using slots_okD(1,2) [OF q(3)] by (subst last_conv_nth) auto
  have qb: "q \<le> b" by (rule slots_okD(3) [OF q(3)])
  then show "\<exists>q. at \<le> q \<and> q \<le> b \<and> slots_ok {} (r_groups re) e q b sl" using q by blast
  show "2 * (e - b) + (if last sl = int b then 0 else 1) < 2 * (e - at) + (if must then 0 else 1 :: nat)"
    using q(1,4) qb be by (auto simp: l)
qed

lemma iterates_total:
  assumes "regex_for re h ss ls" and "e \<le> length s"
  shows "\<exists>fs. iterates (answers (pat_env u (r_progs re) ls s e) h M_Search) at must fs"
proof (induction "2 * (e - at) + (if must then 0 else 1 :: nat)" arbitrary: at must rule: less_induct)
  case less
  let ?E = "pat_env u (r_progs re) ls s e"
  show ?case
  proof (cases "answers ?E h M_Search must at")
    case None
    then show ?thesis by (blast intro: iterates.nothing_left)
  next
    case (Some x)
    obtain sl b where x: "x = (sl, b)" by fastforce
    obtain fs where "iterates (answers ?E h M_Search) b (last sl = int b) fs"
      using less [OF answers_on(3) [OF assms Some [unfolded x]]] by blast
    then show ?thesis using iterates.then_on Some x by blast
  qed
qed

text \<open>
  What a loop over an iterator sees: the matches the iterator is to find, all of them or as many as the budget
  allows.
\<close>

definition sees :: "regex \<Rightarrow> u32 list \<Rightarrow> nat \<Rightarrow> nat \<Rightarrow> (int list \<times> nat) list \<Rightarrow> bool \<Rightarrow> rmatch list \<Rightarrow> bool" where
  "sees re s p0 e fs gone ms \<longleftrightarrow>
     map Some ms = map (\<lambda>f. make_match re s f p0 e) (take (length ms) fs) \<and> (gone \<or> length ms = length fs)"

text \<open>Matches that follow each other in a text, from a position on.\<close>

primrec spans :: "regex \<Rightarrow> u32 list \<Rightarrow> rmatch list \<Rightarrow> nat \<Rightarrow> bool" where
  "spans re s [] i \<longleftrightarrow> i \<le> length s"
| "spans re s (m # ms) i \<longleftrightarrow> (\<exists>a b. match_ok m a b \<and> mt_text m = s \<and> mt_regex m = re \<and> i \<le> a \<and> spans re s ms b)"

lemma make_match_fields: "make_match re s f p0 e = Some m \<Longrightarrow> mt_text m = s \<and> mt_regex m = re"
  by (auto simp: make_match_def Let_def split: prod.splits Option.bind_splits)

lemma iter_all_right:
  assumes re: "regex_for re h ss ls" and d: "dfas_right u d re h ls" and len: "length s < 2 ^ 63" and n: "Suc (Suc n) < 2 ^ 64"
  shows "iter_ok u addr re ls s n it \<Longrightarrow> pool_fit (Suc (Suc n)) pool \<Longrightarrow> \<not> it_done it \<Longrightarrow>
    iterates (answers (pat_env u (r_progs re) ls s (it_end it)) h M_Search) (it_at it) (it_must it) fs \<Longrightarrow>
    \<exists>ms it' pool' b'. iter_all u d addr re s it (pool, b) = Some (ms, it', pool', b') \<and>
      iter_ok u addr re ls s n it' \<and> pool_fit (Suc (Suc n)) pool' \<and> runs_down b b' \<and>
      sees re s (it_pos it) (it_end it) fs (spent b') ms \<and> spans re s ms (it_at it)"
proof (induction "iter_left it" arbitrary: it pool b fs rule: less_induct)
  case less
  obtain m it1 pool1 b1 where r: "iter_next u d addr re s it (pool, b) = Some (m, it1, pool1, b1)"
    "iter_steps u re h ls s it b m it1 b1" "iter_ok u addr re ls s n it1" "pool_fit (Suc (Suc n)) pool1"
    by (rule iter_next_right [OF re d len less.prems(1,2) n]) (rule that)
  show ?case
  proof (cases m)
    case None
    have "sees re s (it_pos it) (it_end it) fs (spent b1) []"
      using r(2) None less.prems(3,4) by (auto simp: iter_steps_def sees_def elim: iterates.cases)
    moreover have "it_at it \<le> length s" using less.prems(1) by (simp add: iter_ok_def)
    ultimately show ?thesis using r None by (subst iter_all.simps) (auto simp: iter_steps_def)
  next
    case (Some x)
    from r(2) Some obtain sl a where a: "answers (pat_env u (r_progs re) ls s (it_end it)) h M_Search (it_must it) (it_at it) = Some (sl, it_at it1)"
      "make_match re s (sl, it_at it1) (it_pos it) (it_end it) = Some x" "last sl = int a" "it_must it1 = (a = it_at it1)"
      "iter_left it1 < iter_left it" "\<not> it_done it1" "it_end it1 = it_end it" "it_pos it1 = it_pos it" "runs_down b b1"
      "match_ok x a (it_at it1)" "it_at it \<le> a"
      by (auto simp: iter_steps_def)
    from less.prems(4) a(1) obtain gs where fs: "fs = (sl, it_at it1) # gs"
      "iterates (answers (pat_env u (r_progs re) ls s (it_end it)) h M_Search) (it_at it1) (last sl = int (it_at it1)) gs"
      by (auto elim: iterates.cases)
    have it1: "iterates (answers (pat_env u (r_progs re) ls s (it_end it1)) h M_Search) (it_at it1) (it_must it1) gs" using fs(2) a by simp
    from less.hyps [OF a(5) r(3,4) a(6) it1, of b1] obtain ms it' pool' b' where
      i: "iter_all u d addr re s it1 (pool1, b1) = Some (ms, it', pool', b')" "iter_ok u addr re ls s n it'"
      "pool_fit (Suc (Suc n)) pool'" "runs_down b1 b'" "sees re s (it_pos it) (it_end it) gs (spent b') ms"
      "spans re s ms (it_at it1)"
      unfolding a(7,8) by blast
    have "sees re s (it_pos it) (it_end it) fs (spent b') (x # ms)" using i(5) a(2) by (simp add: sees_def fs(1))
    moreover have "spans re s (x # ms) (it_at it)" using a(10,11) make_match_fields [OF a(2)] i(6) by auto
    ultimately show ?thesis using r(1) Some i(1-4) runs_down_trans [OF a(9) i(4)] by (subst iter_all.simps) simp
  qed
qed

section \<open>Substitution and splitting\<close>

text \<open>The text with matches replaced, and in pieces with the groups between, from a list of matches.\<close>

fun sub_parts :: "u32 list \<Rightarrow> (rmatch \<Rightarrow> u32 list) \<Rightarrow> nat \<Rightarrow> rmatch list \<Rightarrow> u32 list" where
  "sub_parts s f i [] = drop i s"
| "sub_parts s f i (m # ms) =
     take (nat (start_of m 0) - i) (drop i s) @ f m @ sub_parts s f (nat (end_of m 0)) ms"

definition group_text :: "rmatch \<Rightarrow> nat \<Rightarrow> u32 list option" where
  "group_text m g =
     (if start_of m g < 0 then None
      else Some (take (nat (end_of m g) - nat (start_of m g)) (drop (nat (start_of m g)) (mt_text m))))"

fun split_parts :: "u32 list \<Rightarrow> nat \<Rightarrow> nat \<Rightarrow> rmatch list \<Rightarrow> u32 list option list" where
  "split_parts s G i [] = [Some (drop i s)]"
| "split_parts s G i (m # ms) =
     Some (take (nat (start_of m 0) - i) (drop i s)) # map (group_text m) [1..<G + 1] @
     split_parts s G (nat (end_of m 0)) ms"

definition at_most :: "nat \<Rightarrow> nat \<Rightarrow> 'a list \<Rightarrow> 'a list" where
  "at_most count n ms = (if count = 0 then ms else take (count - n) ms)"

lemma at_most_Nil [simp]: "at_most count n [] = []"
  by (simp add: at_most_def)

lemma at_most_stop: "count \<noteq> 0 \<and> n \<ge> count \<Longrightarrow> at_most count n ms = []"
  by (simp add: at_most_def)

lemma at_most_go: "\<not> (count \<noteq> 0 \<and> n \<ge> count) \<Longrightarrow> at_most count n (m # ms) = m # at_most count (n + 1) ms"
  by (auto simp: at_most_def take_Cons' diff_Suc split: nat.split)

lemma match_group_text: "match_ok m a b \<Longrightarrow> match_group m g = Some (group_text m g)"
  using match_groups_ok(2) [of m a b g] by (simp add: group_text_def)

lemma sub_loop_right:
  assumes "spans re s ms i" and "iter_all u d addr re s it sh = Some (ms, it', sh')"
  shows "\<exists>i' acc' it'' sh''. sub_loop u d addr re s count f n i acc it sh = Some (i', acc', it'', sh'') \<and>
    acc' @ drop i' s = acc @ sub_parts s f i (at_most count n ms)"
  using assms
proof (induction ms arbitrary: it sh n i acc)
  case Nil
  from Nil.prems(2) obtain it1 sh1 where "iter_next u d addr re s it sh = Some (None, it1, sh1)"
    by (subst (asm) iter_all.simps) (auto split: Option.bind_splits option.splits)
  then show ?case by (subst sub_loop.simps) simp
next
  case (Cons m ms)
  from Cons.prems(2) obtain it1 sh1 where nx: "iter_next u d addr re s it sh = Some (Some m, it1, sh1)"
    and al: "iter_all u d addr re s it1 sh1 = Some (ms, it', sh')"
    by (subst (asm) iter_all.simps) (auto split: Option.bind_splits option.splits)
  from Cons.prems(1) obtain a b where m: "match_ok m a b" "i \<le> a" "spans re s ms b" "mt_text m = s" by auto
  show ?case
  proof (cases "count \<noteq> 0 \<and> n \<ge> count")
    case True
    then show ?thesis using nx by (subst sub_loop.simps) (simp add: at_most_stop)
  next
    case False
    have st: "mt_start m = Some a" "mt_end m = Some b" "a \<le> b" "b \<le> length s" "start_of m 0 = int a" "end_of m 0 = int b"
      using m by (auto simp: match_ok_def)
    have piece: "(if i < a then sub_slice s i a else Some []) = Some (take (a - i) (drop i s))"
      using m(2) st by (simp add: sub_slice_def)
    have "sub_loop u d addr re s count f n i acc it sh =
        sub_loop u d addr re s count f (n + 1) b (acc @ take (a - i) (drop i s) @ f m) it1 sh1"
      using nx st piece False by (subst sub_loop.simps) auto
    then show ?thesis
      using Cons.IH [OF m(3) al, of "n + 1" "acc @ take (a - i) (drop i s) @ f m"] at_most_go [OF False, of m ms] st by simp
  qed
qed

lemma split_loop_right:
  assumes "spans re s ms i" and "iter_all u d addr re s it sh = Some (ms, it', sh')"
  shows "\<exists>i' acc' it'' sh''. split_loop u d addr re s count n i acc it sh = Some (i', acc', it'', sh'') \<and>
    i' \<le> length s \<and> acc' @ [Some (drop i' s)] = acc @ split_parts s (r_groups re) i (at_most count n ms)"
  using assms
proof (induction ms arbitrary: it sh n i acc)
  case Nil
  from Nil.prems(2) obtain it1 sh1 where "iter_next u d addr re s it sh = Some (None, it1, sh1)"
    by (subst (asm) iter_all.simps) (auto split: Option.bind_splits option.splits)
  then show ?case using Nil.prems(1) by (subst split_loop.simps) simp
next
  case (Cons m ms)
  from Cons.prems(2) obtain it1 sh1 where nx: "iter_next u d addr re s it sh = Some (Some m, it1, sh1)"
    and al: "iter_all u d addr re s it1 sh1 = Some (ms, it', sh')"
    by (subst (asm) iter_all.simps) (auto split: Option.bind_splits option.splits)
  from Cons.prems(1) obtain a b where m: "match_ok m a b" "i \<le> a" "spans re s ms b" "mt_text m = s" by auto
  have st: "mt_start m = Some a" "mt_end m = Some b" "a \<le> b" "b \<le> length s" "start_of m 0 = int a" "end_of m 0 = int b"
    using m by (auto simp: match_ok_def)
  show ?case
  proof (cases "count \<noteq> 0 \<and> n \<ge> count")
    case True
    then show ?thesis using nx m(2) st by (subst split_loop.simps) (simp add: at_most_stop)
  next
    case False
    have gs: "those (map (match_group m) [1..<r_groups re + 1]) = Some (map (group_text m) [1..<r_groups re + 1])"
      by (rule those_map_Some) (rule match_group_text [OF m(1)])
    have "split_loop u d addr re s count n i acc it sh =
        split_loop u d addr re s count (n + 1) b
          (acc @ [Some (take (a - i) (drop i s))] @ map (group_text m) [1..<r_groups re + 1]) it1 sh1"
      using nx st m(2) gs False by (subst split_loop.simps) (auto simp: sub_slice_def simp del: upt_Suc)
    then show ?thesis
      using Cons.IH [OF m(3) al, of "n + 1" "acc @ [Some (take (a - i) (drop i s))] @ map (group_text m) [1..<r_groups re + 1]"]
        at_most_go [OF False, of m ms] st by (simp del: upt_Suc)
  qed
qed

section \<open>Patterns as compiled\<close>

text \<open>
  A pattern \<^verbatim>\<open>Regex::new\<close> accepts, without backreferences (those to one character, the only ones it accepts, it
  runs as branches), with its tree and its lowered form.
\<close>

definition regex_made :: "unidata \<Rightarrow> u32 list \<Rightarrow> u32 \<Rightarrow> parsed \<Rightarrow> lowered \<Rightarrow> regex \<Rightarrow> bool" where
  "regex_made u pattern flags p lw re \<longleftrightarrow>
     unidata_ok u \<and> parse u pattern flags = Inr p \<and> paths_to is_backref (p_node p) = [] \<and> lower u p = Inr lw \<and>
     regex_new u pattern flags = Some (Inr re)"

lemma regex_madeD:
  assumes "regex_made u pattern flags p lw re"
  shows "unidata_ok u" "parse u pattern flags = Inr p" "paths_to is_backref (p_node p) = []" "lower u p = Inr lw"
    "compile (lw_hir lw) (lw_sets lw) (lw_looks lw) (p_groups p) = Inr (r_progs re)" "r_groups re = p_groups p"
    "r_names re = p_names p" "r_simple re = Some sm \<Longrightarrow> simple_of (lw_hir lw) (lw_sets lw) = Some (Some sm)"
  using assms unfolding regex_made_def regex_new_def
  by (auto split: Option.bind_splits sum.splits if_splits)

lemma regex_made_for:
  assumes "regex_made u pattern flags p lw re"
  shows "regex_for re (lw_hir lw) (lw_sets lw) (lw_looks lw)"
  using regex_madeD(5-8) [OF assms] tree_ways(1) [OF regex_madeD(1-5) [OF assms]] lower_simple [OF regex_madeD(4) [OF assms]]
    lower_simple_looks [OF regex_madeD(4) [OF assms]]
  by (auto simp: regex_for_def)

text \<open>The ways of its tree, in the order of Python's matcher, and the first one a search may take.\<close>

definition tree_answers :: "unidata \<Rightarrow> parsed \<Rightarrow> u32 list \<Rightarrow> nat \<Rightarrow> mode \<Rightarrow> bool \<Rightarrow> nat \<Rightarrow> found" where
  "tree_answers u p s e md must start =
     (if md = M_Search \<and> start > e then None
      else found_way (mode_want md must) start
             ((case md of M_Search \<Rightarrow> tree_search | M_Match \<Rightarrow> tree_match | M_Full \<Rightarrow> tree_full) u p s e start))"

lemma tree_answers_eq:
  assumes "regex_made u pattern flags p lw re"
  shows "answers (pat_env u (r_progs re) (lw_looks lw) s e) (lw_hir lw) md must start = tree_answers u p s e md must start"
  using tree_ways(2-4) [OF regex_madeD(1-5) [OF assms], of s e start]
  by (cases md) (auto simp: answers_def way_found_def mode_ways_def tree_answers_def)

lemma node_ok_children: "node_ok n x \<Longrightarrow> c \<in> set (children x) \<Longrightarrow> node_ok n c"
  by (cases x rule: children.cases) (auto simp: list_all_iff split: option.splits)

lemma no_groups_no_backrefs: "node_ok 0 x \<Longrightarrow> paths_to is_backref x = []"
proof (induction x rule: measure_induct_rule [where f = size])
  case (less x)
  have "paths_to is_backref (children x ! k) = []" if "k < length (children x)" for k
    using less.IH [OF children_size] node_ok_children [OF less.prems] nth_mem [OF that] by blast
  moreover have "\<not> is_backref x" using less.prems by (auto simp: is_backref_def split: node.split)
  ultimately show ?case by (subst paths_to.simps) simp
qed

lemma regex_new_total:
  assumes "unidata_ok u"
  shows "\<exists>r. regex_new u pattern flags = Some r \<and> r \<noteq> Inl None"
proof (cases "parse u pattern flags")
  case (Inl e)
  then show ?thesis using parse_checks [of u pattern flags] by (cases e) (auto simp: checks_def regex_new_def)
next
  case p: (Inr p)
  show ?thesis
  proof (cases "lower u p")
    case (Inl e)
    then show ?thesis using p by (auto simp: regex_new_def)
  next
    case (Inr lw)
    have "\<exists>x. simple_of (lw_hir lw) (lw_sets lw) = Some x" if "p_groups p = 0"
    proof -
      have n: "node_ok 0 (p_node p)" using parse_node_ok [OF p] that by simp
      have "pattern_ok (lw_hir lw) (lw_sets lw) (lw_looks lw) (p_groups p)"
        by (rule lower_lowers [OF assms Inr _ refl])
          (use n that expand_backrefs_none [OF no_groups_no_backrefs [OF n]] in simp)
      then show ?thesis
        by (cases "lw_hir lw" rule: simple_shape.cases) (auto simp: simple_of_def pattern_ok_def get_at_def)
    qed
    then show ?thesis using p Inr by (cases "p_groups p = 0") (auto simp: regex_new_def split: sum.split Option.bind_split)
  qed
qed

end
