(* ===== verification/Alphabet.thy ===== *)
theory Alphabet
  imports Charset
begin

text \<open>
  The alphabet of a DFA (\<^verbatim>\<open>Alphabet\<close> of \<^verbatim>\<open>linre/nfa.rs\<close>): the characters no set of a program tells apart share a
  class. The bounds of all the sets cut the characters into ranges; a range's signature has a bit per set;
  ranges with the same signature are of the same class.
\<close>

unbundle bit_operations_syntax

record alphabet =
  al_bounds :: "u32 list"
  al_class_of_range :: "u16 list"
  al_ascii :: "u16 list"
  al_classes :: nat
  al_rep :: "u32 list"

text \<open>Every boundary of every set, in order.\<close>

definition set_points :: "charset \<Rightarrow> u32 list" where
  "set_points s = concat (map (\<lambda>(a, b). if b < CP_MAX then [a, b + 1] else [a]) (ranges s))"

definition alphabet_points :: "charset list \<Rightarrow> u32 list" where
  "alphabet_points ss = remdups_adj (sort (0 # concat (map set_points ss)))"

text \<open>Each elementary range's signature: which sets hold it, a row of words per range.\<close>

definition sig_words :: "charset list \<Rightarrow> nat" where
  "sig_words ss = max ((length ss + 63) div 64) 1"

definition mark_bit :: "nat \<Rightarrow> nat \<Rightarrow> u64 list \<Rightarrow> nat \<Rightarrow> u64 list" where
  "mark_bit w k sig r = (let i = r * w + k div 64 in sig[i := sig ! i OR push_bit (k mod 64) 1])"

definition mark_range :: "u32 list \<Rightarrow> nat \<Rightarrow> nat \<Rightarrow> u64 list \<Rightarrow> u32 \<times> u32 \<Rightarrow> u64 list" where
  "mark_range points w k sig ab =
     (case ab of (a, b) \<Rightarrow>
        let i = partition_point (\<lambda>p. p < a) points;
            j = (if b = CP_MAX then length points else partition_point (\<lambda>p. p \<le> b) points)
        in foldl (mark_bit w k) sig [i..<j])"

definition signatures :: "u32 list \<Rightarrow> charset list \<Rightarrow> u64 list" where
  "signatures points ss =
     (let w = sig_words ss
      in foldl (\<lambda>sig (k, s). foldl (mark_range points w k) sig (ranges s)) (replicate (length points * w) 0)
           (enumerate 0 ss))"

text \<open>The classes, numbered in the order of their first range, and the first character of each.\<close>

fun number_classes ::
    "(u64 list \<times> u32) list \<Rightarrow> (u64 list \<times> u16) list \<Rightarrow> u16 list \<Rightarrow> u32 list \<Rightarrow> u16 list \<times> u32 list" where
  "number_classes [] ids cls rep = (cls, rep)"
| "number_classes ((key, p) # rs) ids cls rep =
     (let nxt = word_of_nat (length ids);
          (i, ids) = (case map_of ids key of Some i \<Rightarrow> (i, ids) | None \<Rightarrow> (nxt, (key, nxt) # ids))
      in number_classes rs ids (cls @ [i]) (if unat i = length rep then rep @ [p] else rep))"

text \<open>Adjacent ranges of one class, merged.\<close>

fun merge_classes :: "(u32 \<times> u16) list \<Rightarrow> u32 list \<Rightarrow> u16 list \<Rightarrow> u32 list \<times> u16 list" where
  "merge_classes [] bounds cls = (bounds, cls)"
| "merge_classes ((p, c) # rs) bounds cls =
     (if cls \<noteq> [] \<and> last cls = c then merge_classes rs bounds cls
      else merge_classes rs (bounds @ [p]) (cls @ [c]))"

definition range_class :: "u32 list \<Rightarrow> u16 list \<Rightarrow> u32 \<Rightarrow> u16" where
  "range_class bounds cls c = cls ! (partition_point (\<lambda>p. p \<le> c) bounds - 1)"

definition alphabet_new :: "charset list \<Rightarrow> alphabet" where
  "alphabet_new ss =
     (let points = alphabet_points ss; n = length points; w = sig_words ss; sig = signatures points ss;
          (class_of_range, rep) = number_classes (map (\<lambda>r. (take w (drop (r * w) sig), points ! r)) [0..<n]) [] [] [];
          (bounds, cls) = merge_classes (zip points class_of_range) [] []
      in \<lparr>al_bounds = bounds, al_class_of_range = cls,
          al_ascii = map (\<lambda>c. range_class bounds cls (word_of_nat c)) [0..<128], al_classes = length rep, al_rep = rep\<rparr>)"

definition char_class :: "alphabet \<Rightarrow> u32 \<Rightarrow> u16" where
  "char_class A c =
     (if c < 128 then al_ascii A ! unat c else range_class (al_bounds A) (al_class_of_range A) c)"

section \<open>Points\<close>

definition point_before :: "u32 list \<Rightarrow> u32 \<Rightarrow> nat" where
  "point_before points c = partition_point (\<lambda>p. p \<le> c) points - 1"

lemma partition_point_sorted:
  assumes "sorted (xs :: u32 list)" and "\<And>x y. x \<le> y \<Longrightarrow> P y \<Longrightarrow> P x" and "i < length xs"
  shows "i < partition_point P xs \<longleftrightarrow> P (xs ! i)"
proof
  assume "P (xs ! i)"
  show "i < partition_point P xs"
  proof (rule ccontr)
    assume no: "\<not> i < partition_point P xs"
    then have "partition_point P xs < length xs" using assms(3) by simp
    moreover have "xs ! partition_point P xs \<le> xs ! i" using no assms(1,3) by (intro sorted_nth_mono) auto
    ultimately show False using partition_point_at [of P xs] assms(2) \<open>P (xs ! i)\<close> by blast
  qed
qed (rule partition_point_before)

lemma alphabet_points_facts:
  "sorted (alphabet_points ss)" "set (alphabet_points ss) = insert 0 (\<Union>s \<in> set ss. set (set_points s))"
  by (auto simp: alphabet_points_def simp del: sort_key_simps)

lemma distinct_remdups_adj_sorted: "sorted xs \<Longrightarrow> distinct (remdups_adj xs)"
  by (induction xs rule: remdups_adj.induct) (auto simp: order.antisym)

lemma alphabet_points_distinct: "distinct (alphabet_points ss)"
  by (simp add: alphabet_points_def distinct_remdups_adj_sorted del: sort_key_simps)

lemma set_points_mem: "(a, b) \<in> set (ranges s) \<Longrightarrow> a \<in> set (set_points s)" "(a, b) \<in> set (ranges s) \<Longrightarrow> b < CP_MAX \<Longrightarrow> b + 1 \<in> set (set_points s)"
  by (force simp: set_points_def)+

lemma cs_set_iff: "x \<in> cs_set s \<longleftrightarrow> (\<exists>a b. (a, b) \<in> set (ranges s) \<and> x \<in> {a..b})"
  by (force simp: cs_set_def rset_def)

lemma point_before_facts:
  assumes "sorted xs" and "0 \<in> set (xs :: u32 list)"
  shows "point_before xs c < length xs" "xs ! point_before xs c \<le> c" "p \<in> set xs \<Longrightarrow> p \<le> c \<Longrightarrow> p \<le> xs ! point_before xs c"
proof -
  let ?n = "partition_point (\<lambda>p. p \<le> c) xs"
  obtain z where z: "z < length xs" "xs ! z = 0" using assms(2) by (auto simp: in_set_conv_nth)
  have pp: "i < ?n \<longleftrightarrow> xs ! i \<le> c" if "i < length xs" for i
    by (rule partition_point_sorted [OF assms(1) _ that]) auto
  have n: "0 < ?n" using pp [OF z(1)] z(2) by auto
  then have b: "point_before xs c < ?n" by (simp add: point_before_def)
  then show l: "point_before xs c < length xs" using partition_point_le [of "\<lambda>p. p \<le> c" xs] by simp
  show "xs ! point_before xs c \<le> c" using pp [OF l] b by simp
  assume "p \<in> set xs" "p \<le> c"
  then obtain i where i: "i < length xs" "xs ! i = p" by (auto simp: in_set_conv_nth)
  then have "i \<le> point_before xs c" using pp [OF i(1)] \<open>p \<le> c\<close> by (simp add: point_before_def)
  then show "p \<le> xs ! point_before xs c" using assms(1) l i by (auto intro: sorted_nth_mono)
qed

text \<open>A character is in a range of a set exactly if the point before it is.\<close>

lemma point_before_range:
  assumes "sorted xs" and "0 \<in> set xs" and "a \<in> set xs" and "b < CP_MAX \<Longrightarrow> b + 1 \<in> set xs"
  shows "xs ! point_before xs c \<in> {a..b} \<longleftrightarrow> c \<in> {a..b}"
proof -
  note p = point_before_facts [OF assms(1,2)]
  have "c \<le> b" if le: "xs ! point_before xs c \<le> b"
  proof (rule ccontr)
    assume no: "\<not> c \<le> b"
    then have b: "b < CP_MAX" by (metis le_CP_MAX not_le order_less_le_trans)
    then have "unat (b + 1) = unat b + 1" by (intro unat_succ) auto
    then have "b + 1 \<le> c" using no by (simp add: word_le_nat_alt)
    then have "b + 1 \<le> b" using p(3) [OF assms(4) [OF b], of c] le by (meson order_trans)
    then show False using \<open>unat (b + 1) = unat b + 1\<close> by (simp add: word_le_nat_alt)
  qed
  moreover have "a \<le> c \<longleftrightarrow> a \<le> xs ! point_before xs c" using p(2) [where c = c] p(3) [OF assms(3), where c = c] by (meson order_trans)
  ultimately show ?thesis using p(2) [of c] by auto
qed

lemma points_tell:
  assumes "s \<in> set ss"
  shows "alphabet_points ss ! point_before (alphabet_points ss) c \<in> cs_set s \<longleftrightarrow> c \<in> cs_set s"
proof -
  let ?xs = "alphabet_points ss"
  note f = alphabet_points_facts [of ss]
  have "?xs ! point_before ?xs c \<in> {a..b} \<longleftrightarrow> c \<in> {a..b}" if "(a, b) \<in> set (ranges s)" for a b
    by (rule point_before_range) (use f assms set_points_mem [OF that] in auto)
  then show ?thesis unfolding cs_set_iff by blast
qed

section \<open>Signatures\<close>

definition sig_bit :: "nat \<Rightarrow> u64 list \<Rightarrow> nat \<Rightarrow> nat \<Rightarrow> bool" where
  "sig_bit w sig r k = bit (sig ! (r * w + k div 64)) (k mod 64)"

lemma sig_bit_mark:
  assumes "length sig = n * w" and "r < n" and "k < 64 * w" and "q < n" and "j < 64 * w"
  shows "sig_bit w (mark_bit w k sig r) q j \<longleftrightarrow> sig_bit w sig q j \<or> q = r \<and> j = k"
proof -
  have d: "k div 64 < w" "j div 64 < w" using assms(3,5) by (simp_all add: less_mult_imp_div_less mult.commute)
  have l: "r * w + k div 64 < length sig" using word_index_less [OF assms(2) d(1)] assms(1) by simp
  have one: "bit (push_bit (k mod 64) 1 :: u64) (j mod 64) \<longleftrightarrow> j mod 64 = k mod 64" by (simp add: bit_simps)
  have jk: "j = k \<longleftrightarrow> j div 64 = k div 64 \<and> j mod 64 = k mod 64" by (metis div_mult_mod_eq)
  show ?thesis
  proof (cases "q * w + j div 64 = r * w + k div 64")
    case True
    then have "q = r" "j div 64 = k div 64" using word_index [OF d(2,1)] by auto
    then show ?thesis using l True one jk by (auto simp: sig_bit_def mark_bit_def Let_def bit_or_iff)
  next
    case False
    then have "\<not> (q = r \<and> j = k)" by auto
    moreover have "sig_bit w (mark_bit w k sig r) q j = sig_bit w sig q j"
      using False by (simp add: sig_bit_def mark_bit_def Let_def)
    ultimately show ?thesis by blast
  qed
qed

lemma length_mark_bit [simp]: "length (mark_bit w k sig r) = length sig"
  by (simp add: mark_bit_def Let_def)

lemma length_mark_bits [simp]: "length (foldl (mark_bit w k) sig rs) = length sig"
  by (induction rs arbitrary: sig) simp_all

lemma sig_bit_marks:
  assumes "length sig = n * w" and "set rs \<subseteq> {..<n}" and "k < 64 * w" and "q < n" and "j < 64 * w"
  shows "sig_bit w (foldl (mark_bit w k) sig rs) q j \<longleftrightarrow> sig_bit w sig q j \<or> q \<in> set rs \<and> j = k"
  using assms(1,2)
proof (induction rs arbitrary: sig)
  case (Cons r rs)
  then show ?case using sig_bit_mark [of sig n w r k q j] assms(3-5) by auto
qed simp

lemma length_mark_range [simp]: "length (mark_range points w k sig ab) = length sig"
  by (simp add: mark_range_def Let_def split: prod.split)

lemma sig_bit_range:
  assumes "sorted points" and "length sig = length points * w" and "k < 64 * w" and "q < length points" and "j < 64 * w"
  shows "sig_bit w (mark_range points w k sig (a, b)) q j \<longleftrightarrow> sig_bit w sig q j \<or> points ! q \<in> {a..b} \<and> j = k"
proof -
  let ?i = "partition_point (\<lambda>p. p < a) points"
  let ?j = "if b = CP_MAX then length points else partition_point (\<lambda>p. p \<le> b) points"
  have "q < ?i \<longleftrightarrow> points ! q < a" by (rule partition_point_sorted [OF assms(1) _ assms(4)]) simp
  then have "q \<ge> ?i \<longleftrightarrow> a \<le> points ! q" by (simp only: not_less [symmetric])
  moreover have "q < ?j \<longleftrightarrow> points ! q \<le> b"
    using partition_point_sorted [OF assms(1) _ assms(4), of "\<lambda>p. p \<le> b"] assms(4) by auto
  moreover have "set [?i..<?j] \<subseteq> {..<length points}"
    using partition_point_le [of "\<lambda>p. p \<le> b" points] by auto
  ultimately show ?thesis
    using sig_bit_marks [OF assms(2) _ assms(3-5), of "[?i..<?j]"] by (simp add: mark_range_def Let_def)
qed

lemma length_mark_ranges [simp]: "length (foldl (mark_range points w k) sig rs) = length sig"
  by (induction rs arbitrary: sig) simp_all

lemma sig_bit_ranges:
  assumes "sorted points" and "length sig = length points * w" and "k < 64 * w" and "q < length points" and "j < 64 * w"
  shows "sig_bit w (foldl (mark_range points w k) sig rs) q j \<longleftrightarrow> sig_bit w sig q j \<or> points ! q \<in> rset rs \<and> j = k"
  using assms(2)
proof (induction rs arbitrary: sig)
  case (Cons ab rs)
  obtain a b where "ab = (a, b)" by fastforce
  then show ?case using Cons sig_bit_range [OF assms(1) Cons.prems assms(3-5), of a b] by auto
qed simp

lemma sig_bit_sets:
  assumes "sorted points" and "q < length points" and "j < 64 * w"
  shows "length sig = length points * w \<Longrightarrow> m + length ss \<le> 64 * w \<Longrightarrow>
    sig_bit w (foldl (\<lambda>sig (k, s). foldl (mark_range points w k) sig (ranges s)) sig (enumerate m ss)) q j \<longleftrightarrow>
    sig_bit w sig q j \<or> (\<exists>k < length ss. j = m + k \<and> points ! q \<in> cs_set (ss ! k))"
proof (induction ss arbitrary: sig m)
  case (Cons s ss)
  have "sig_bit w (foldl (mark_range points w m) sig (ranges s)) q j \<longleftrightarrow> sig_bit w sig q j \<or> points ! q \<in> cs_set s \<and> j = m"
    using sig_bit_ranges [OF assms(1) Cons.prems(1) _ assms(2,3)] Cons.prems(2) by (simp add: cs_set_def)
  moreover have "(\<exists>k < length (s # ss). j = m + k \<and> points ! q \<in> cs_set ((s # ss) ! k)) \<longleftrightarrow>
      j = m \<and> points ! q \<in> cs_set s \<or> (\<exists>k < length ss. j = Suc m + k \<and> points ! q \<in> cs_set (ss ! k))"
    by (auto simp: less_Suc_eq_0_disj)
  ultimately show ?case using Cons.IH [of "foldl (mark_range points w m) sig (ranges s)" "Suc m"] Cons.prems by auto
qed simp

lemma length_mark_sets [simp]:
  "length (foldl (\<lambda>sig (k, s). foldl (mark_range points w k) sig (ranges s)) sig kss) = length sig"
  by (induction kss arbitrary: sig) auto

lemma sig_words_enough: "length ss \<le> 64 * sig_words ss"
proof -
  have "length ss \<le> 64 * ((length ss + 63) div 64)" by presburger
  then show ?thesis unfolding sig_words_def by (meson le_trans max.cobounded1 mult_le_mono2)
qed

lemma signatures_bit:
  assumes "sorted points" and "q < length points" and "j < 64 * sig_words ss"
  shows "sig_bit (sig_words ss) (signatures points ss) q j \<longleftrightarrow> j < length ss \<and> points ! q \<in> cs_set (ss ! j)"
proof -
  let ?w = "sig_words ss"
  have "j div 64 < ?w" using assms(3) by (simp add: less_mult_imp_div_less mult.commute)
  then have "\<not> sig_bit ?w (replicate (length points * ?w) 0) q j"
    using word_index_less [OF assms(2)] by (simp add: sig_bit_def)
  then show ?thesis
    using sig_bit_sets [OF assms, of "replicate (length points * ?w) 0" 0 ss] sig_words_enough [of ss]
    by (auto simp: signatures_def Let_def)
qed

definition sig_row :: "u32 list \<Rightarrow> charset list \<Rightarrow> nat \<Rightarrow> u64 list" where
  "sig_row points ss r = take (sig_words ss) (drop (r * sig_words ss) (signatures points ss))"

lemma sig_row_eq:
  assumes "sorted points" and "q < length points" and "r < length points"
  shows "sig_row points ss q = sig_row points ss r \<longleftrightarrow>
    (\<forall>j < length ss. points ! q \<in> cs_set (ss ! j) \<longleftrightarrow> points ! r \<in> cs_set (ss ! j))"
proof -
  let ?w = "sig_words ss" and ?sig = "signatures points ss"
  have len: "length ?sig = length points * ?w" by (simp add: signatures_def Let_def)
  have row: "length (sig_row points ss p) = ?w \<and> (\<forall>i < ?w. sig_row points ss p ! i = ?sig ! (p * ?w + i))"
    if "p < length points" for p
  proof -
    have "Suc p * ?w \<le> length points * ?w" using that by (intro mult_le_mono1) simp
    then have "p * ?w + ?w \<le> length ?sig" using len by simp
    then show ?thesis by (simp add: sig_row_def)
  qed
  have bits: "sig_bit ?w ?sig p (64 * i + b) = bit (sig_row points ss p ! i) b" if "p < length points" "i < ?w" "b < 64" for p i b
    using row [OF that(1)] that(2,3) by (simp add: sig_bit_def)
  have val: "bit (sig_row points ss p ! i) b \<longleftrightarrow> 64 * i + b < length ss \<and> points ! p \<in> cs_set (ss ! (64 * i + b))"
    if "p < length points" "i < ?w" "b < 64" for p i b
    using signatures_bit [OF assms(1) that(1), of "64 * i + b" ss] bits [OF that] that by simp
  show ?thesis
  proof
    assume e: "sig_row points ss q = sig_row points ss r"
    show "\<forall>j < length ss. points ! q \<in> cs_set (ss ! j) \<longleftrightarrow> points ! r \<in> cs_set (ss ! j)"
    proof (intro allI impI)
      fix j assume j: "j < length ss"
      then have i: "j div 64 < ?w" using sig_words_enough [of ss] by (simp add: less_mult_imp_div_less mult.commute)
      show "points ! q \<in> cs_set (ss ! j) \<longleftrightarrow> points ! r \<in> cs_set (ss ! j)"
        using val [OF assms(2) i, of "j mod 64"] val [OF assms(3) i, of "j mod 64"] e j by simp
    qed
  next
    assume a: "\<forall>j < length ss. points ! q \<in> cs_set (ss ! j) \<longleftrightarrow> points ! r \<in> cs_set (ss ! j)"
    show "sig_row points ss q = sig_row points ss r"
    proof (rule nth_equalityI)
      show "length (sig_row points ss q) = length (sig_row points ss r)" using row assms by simp
      fix i assume "i < length (sig_row points ss q)"
      then have i: "i < ?w" using row [OF assms(2)] by simp
      show "sig_row points ss q ! i = sig_row points ss r ! i"
        by (rule bit_word_eqI) (use val [OF assms(2) i] val [OF assms(3) i] a in auto)
    qed
  qed
qed

section \<open>Numbering\<close>

text \<open>The numbers given so far: one per signature, in order.\<close>

definition numbered :: "(u64 list \<times> u16) list \<Rightarrow> bool" where
  "numbered ids \<longleftrightarrow> distinct (map fst ids) \<and> map snd ids = rev (map word_of_nat [0..<length ids])"

lemma numbered_map_of:
  assumes "numbered ids" and "length ids \<le> 65536" and "map_of ids key = Some i"
  shows "unat i < length ids" "map_of ids key' = Some i \<Longrightarrow> key' = key"
proof -
  have m: "map snd ids ! j = (word_of_nat (length ids - 1 - j) :: u16)" if "j < length ids" for j
    using assms(1) that by (simp add: numbered_def rev_nth)
  have at: "\<exists>j < length ids. ids ! j = (k, i) \<and> unat i = length ids - 1 - j" if "map_of ids k = Some i" for k
  proof -
    have "(k, i) \<in> set ids" by (rule map_of_SomeD [OF that])
    then obtain j where j: "j < length ids" "ids ! j = (k, i)" by (auto simp: in_set_conv_nth)
    define m where "m = length ids - 1 - j"
    have "i = word_of_nat m" using m [OF j(1)] j by (simp add: m_def)
    moreover have "m < 65536" using j(1) assms(2) by (simp add: m_def)
    ultimately have "unat i = m" by (simp add: unat_of_nat)
    then show ?thesis using j by (auto simp: m_def)
  qed
  show "unat i < length ids" using at [OF assms(3)] by auto
  assume "map_of ids key' = Some i"
  then obtain j j' where j: "j < length ids" "ids ! j = (key, i)" "unat i = length ids - 1 - j"
    "j' < length ids" "ids ! j' = (key', i)" "unat i = length ids - 1 - j'"
    using at [OF assms(3)] at [of key'] by blast
  then have "j = j'" by linarith
  then show "key' = key" using j(2,5) by simp
qed

text \<open>
  What numbering has done after some of the ranges: equal numbers for equal signatures, and for each number a
  point with its signature.
\<close>

definition classified :: "(u64 list \<times> u32) list \<Rightarrow> (u64 list \<times> u16) list \<Rightarrow> u16 list \<Rightarrow> u32 list \<Rightarrow> bool" where
  "classified rs ids cls rep \<longleftrightarrow>
     numbered ids \<and> fst ` set ids \<subseteq> fst ` set rs \<and> length ids \<le> length rs \<and> length rep = length ids \<and> length cls = length rs \<and>
     (\<forall>r < length rs. map_of ids (fst (rs ! r)) = Some (cls ! r)) \<and>
     (\<forall>r < length rs. \<exists>q < length rs. rep ! unat (cls ! r) = snd (rs ! q) \<and> fst (rs ! q) = fst (rs ! r))"

lemma classifiedI:
  assumes "numbered ids" and "fst ` set ids \<subseteq> fst ` set rs" and "length ids \<le> length rs" and "length rep = length ids"
    and "length cls = length rs" and "\<And>r. r < length rs \<Longrightarrow> map_of ids (fst (rs ! r)) = Some (cls ! r)"
    and "\<And>r. r < length rs \<Longrightarrow> \<exists>q < length rs. rep ! unat (cls ! r) = snd (rs ! q) \<and> fst (rs ! q) = fst (rs ! r)"
  shows "classified rs ids cls rep"
  unfolding classified_def using assms by blast

lemma classifiedD:
  assumes "classified rs ids cls rep"
  shows "numbered ids" "fst ` set ids \<subseteq> fst ` set rs" "length ids \<le> length rs" "length rep = length ids"
    "length cls = length rs" "r < length rs \<Longrightarrow> map_of ids (fst (rs ! r)) = Some (cls ! r)"
    "r < length rs \<Longrightarrow> \<exists>q < length rs. rep ! unat (cls ! r) = snd (rs ! q) \<and> fst (rs ! q) = fst (rs ! r)"
  using assms unfolding classified_def by blast+

lemma number_new:
  assumes c: "classified rs ids cls rep" and l: "Suc (length rs) \<le> 65536" and new: "map_of ids key = None"
  shows "classified (rs @ [(key, p)]) ((key, word_of_nat (length ids)) # ids) (cls @ [word_of_nat (length ids)]) (rep @ [p])"
proof (rule classifiedI)
  note n = classifiedD(1-5) [OF c]
  let ?i = "word_of_nat (length ids) :: u16"
  have u: "unat ?i = length ids" using n(3) l by (simp add: unat_of_nat)
  show "numbered ((key, ?i) # ids)" using n(1) new by (simp add: numbered_def map_of_eq_None_iff)
  show "fst ` set ((key, ?i) # ids) \<subseteq> fst ` set (rs @ [(key, p)])" using n(2) by auto
  show "length ((key, ?i) # ids) \<le> length (rs @ [(key, p)])" using n(3) by simp
  show "length (rep @ [p]) = length ((key, ?i) # ids)" using n(4) by simp
  show "length (cls @ [?i]) = length (rs @ [(key, p)])" using n(5) by simp
  fix r assume r: "r < length (rs @ [(key, p)])"
  show "map_of ((key, ?i) # ids) (fst ((rs @ [(key, p)]) ! r)) = Some ((cls @ [?i]) ! r)"
  proof (cases "r < length rs")
    case True
    then show ?thesis using classifiedD(6) [OF c True] new n(5) by (auto simp: nth_append)
  next
    case False
    then have "r = length rs" using r by simp
    then show ?thesis using n(5) by (simp add: nth_append)
  qed
  show "\<exists>q < length (rs @ [(key, p)]). (rep @ [p]) ! unat ((cls @ [?i]) ! r) = snd ((rs @ [(key, p)]) ! q) \<and>
      fst ((rs @ [(key, p)]) ! q) = fst ((rs @ [(key, p)]) ! r)"
  proof (cases "r < length rs")
    case True
    obtain q where q: "q < length rs" "rep ! unat (cls ! r) = snd (rs ! q)" "fst (rs ! q) = fst (rs ! r)"
      using classifiedD(7) [OF c True] by blast
    have "length ids \<le> 65536" using n(3) l by simp
    then have "unat (cls ! r) < length rep" using numbered_map_of(1) [OF n(1) _ classifiedD(6) [OF c True]] n(4) by simp
    then show ?thesis using True q n(5) by (intro exI [of _ q]) (simp add: nth_append)
  next
    case False
    then have "r = length rs" using r by simp
    then show ?thesis using u n(4,5) by (intro exI [of _ "length rs"]) (simp add: nth_append)
  qed
qed

lemma number_known:
  assumes c: "classified rs ids cls rep" and l: "Suc (length rs) \<le> 65536" and known: "map_of ids key = Some i"
  shows "unat i < length rep" "classified (rs @ [(key, p)]) ids (cls @ [i]) rep"
proof -
  note n = classifiedD(1-5) [OF c]
  have "length ids \<le> 65536" using n(3) l by simp
  then show u: "unat i < length rep" using numbered_map_of(1) [OF n(1) _ known] n(4) by simp
  have "key \<in> fst ` set ids" using known by (force dest: map_of_SomeD)
  then have "key \<in> fst ` set rs" using n(2) by blast
  then obtain r0 where r0: "r0 < length rs" "fst (rs ! r0) = key" by (force simp: in_set_conv_nth)
  have "cls ! r0 = i" using classifiedD(6) [OF c r0(1)] r0(2) known by simp
  then obtain q0 where q0: "q0 < length rs" "rep ! unat i = snd (rs ! q0)" "fst (rs ! q0) = key"
    using classifiedD(7) [OF c r0(1)] r0(2) by auto
  show "classified (rs @ [(key, p)]) ids (cls @ [i]) rep"
  proof (rule classifiedI)
    show "numbered ids" "length rep = length ids" by (rule n)+
    show "fst ` set ids \<subseteq> fst ` set (rs @ [(key, p)])" using n(2) by auto
    show "length ids \<le> length (rs @ [(key, p)])" "length (cls @ [i]) = length (rs @ [(key, p)])" using n(3,5) by simp_all
    fix r assume r: "r < length (rs @ [(key, p)])"
    show "map_of ids (fst ((rs @ [(key, p)]) ! r)) = Some ((cls @ [i]) ! r)"
    proof (cases "r < length rs")
      case True
      then show ?thesis using classifiedD(6) [OF c True] n(5) by (simp add: nth_append)
    next
      case False
      then have "r = length rs" using r by simp
      then show ?thesis using n(5) known by (simp add: nth_append)
    qed
    show "\<exists>q < length (rs @ [(key, p)]). rep ! unat ((cls @ [i]) ! r) = snd ((rs @ [(key, p)]) ! q) \<and>
        fst ((rs @ [(key, p)]) ! q) = fst ((rs @ [(key, p)]) ! r)"
    proof (cases "r < length rs")
      case True
      then obtain q where "q < length rs" "rep ! unat (cls ! r) = snd (rs ! q)" "fst (rs ! q) = fst (rs ! r)"
        using classifiedD(7) [OF c True] by blast
      then show ?thesis using True n(5) by (intro exI [of _ q]) (simp add: nth_append)
    next
      case False
      then have "r = length rs" using r by simp
      then show ?thesis using n(5) q0 by (intro exI [of _ q0]) (simp add: nth_append)
    qed
  qed
qed

lemma number_step:
  assumes c: "classified rs ids cls rep" and l: "Suc (length rs) \<le> 65536"
    and i: "(case map_of ids key of Some i \<Rightarrow> (i, ids) | None \<Rightarrow> (word_of_nat (length ids), (key, word_of_nat (length ids)) # ids)) = (i, ids')"
  shows "classified (rs @ [(key, p)]) ids' (cls @ [i]) (if unat i = length rep then rep @ [p] else rep)"
proof (cases "map_of ids key")
  case None
  then have e: "i = word_of_nat (length ids)" "ids' = (key, word_of_nat (length ids)) # ids" using i by auto
  have "unat i = length rep" using classifiedD(3,4) [OF c] l e by (simp add: unat_of_nat)
  then show ?thesis using number_new [OF c l None, of p] e by simp
next
  case (Some j)
  then have e: "map_of ids key = Some i" "ids' = ids" using i by auto
  show ?thesis using number_known(1) [OF c l e(1)] number_known(2) [OF c l e(1), of p] e(2) by simp
qed

lemma number_classes_right:
  assumes "classified past ids cls rep" and "length past + length rs \<le> 65536"
  shows "\<exists>ids'. classified (past @ rs) ids' (fst (number_classes rs ids cls rep)) (snd (number_classes rs ids cls rep))"
  using assms
proof (induction rs arbitrary: past ids cls rep)
  case Nil
  then show ?case by auto
next
  case (Cons x rs)
  obtain key p where x: "x = (key, p)" by fastforce
  obtain i ids1 where i: "(case map_of ids key of Some i \<Rightarrow> (i, ids) | None \<Rightarrow> (word_of_nat (length ids), (key, word_of_nat (length ids)) # ids)) = (i, ids1)"
    by fastforce
  have "classified (past @ [(key, p)]) ids1 (cls @ [i]) (if unat i = length rep then rep @ [p] else rep)"
    by (rule number_step [OF Cons.prems(1) _ i]) (use Cons.prems(2) in simp)
  from Cons.IH [OF this] Cons.prems(2) show ?case by (simp add: x i Let_def)
qed

section \<open>Merging\<close>

text \<open>Over sorted bounds, the class of a character is that of the last bound up to it.\<close>

lemma partition_point_filter:
  assumes "sorted (xs :: u32 list)" and "\<And>x y. x \<le> y \<Longrightarrow> P y \<Longrightarrow> P x"
  shows "take (partition_point P xs) xs = filter P xs"
proof -
  let ?n = "partition_point P xs"
  have pp: "i < ?n \<longleftrightarrow> P (xs ! i)" if "i < length xs" for i by (rule partition_point_sorted [OF assms that])
  have "filter P (take ?n xs) = take ?n xs" by (rule filter_True) (use pp in \<open>auto simp: in_set_conv_nth\<close>)
  moreover have "filter P (drop ?n xs) = []"
  proof (rule filter_False, rule ballI)
    fix x assume "x \<in> set (drop ?n xs)"
    then obtain i where "i < length xs" "?n \<le> i" "x = xs ! i" by (auto simp: in_set_conv_nth) (metis le_add1 less_diff_conv add.commute)
    then show "\<not> P x" using pp by (metis not_le)
  qed
  ultimately show ?thesis by (metis append.right_neutral append_take_drop_id filter_append)
qed

lemma range_class_last:
  assumes "sorted bounds" and "length cls = length bounds" and "\<exists>p \<in> set bounds. p \<le> c"
  shows "range_class bounds cls c = snd (last (filter (\<lambda>x. fst x \<le> c) (zip bounds cls)))"
proof -
  let ?n = "partition_point (\<lambda>p. p \<le> c) bounds"
  have t: "take ?n bounds = filter (\<lambda>p. p \<le> c) bounds" by (rule partition_point_filter [OF assms(1)]) auto
  have n: "?n \<le> length bounds" by (rule partition_point_le)
  have "filter (\<lambda>p. p \<le> c) bounds \<noteq> []" using assms(3) by (auto simp: filter_empty_conv)
  then have pos: "0 < ?n" using t by (metis gr0I take0)
  have i: "i < ?n \<longleftrightarrow> bounds ! i \<le> c" if "i < length bounds" for i by (rule partition_point_sorted [OF assms(1) _ that]) auto
  have "filter (\<lambda>x. fst x \<le> c) (take ?n (zip bounds cls)) = take ?n (zip bounds cls)"
    by (rule filter_True) (use i assms(2) in \<open>auto simp: in_set_conv_nth\<close>)
  moreover have "filter (\<lambda>x. fst x \<le> c) (drop ?n (zip bounds cls)) = []"
  proof (rule filter_False, rule ballI)
    fix x assume "x \<in> set (drop ?n (zip bounds cls))"
    then obtain j where j: "j < length bounds" "?n \<le> j" "fst x = bounds ! j"
      using assms(2) by (auto simp: in_set_conv_nth) (metis le_add1 less_diff_conv add.commute)
    then show "\<not> fst x \<le> c" using i [OF j(1)] by (metis not_le)
  qed
  ultimately have "filter (\<lambda>x. fst x \<le> c) (zip bounds cls) = take ?n (zip bounds cls)"
    by (metis append.right_neutral append_take_drop_id filter_append)
  moreover have "last (take ?n (zip bounds cls)) = (bounds ! (?n - 1), cls ! (?n - 1))"
  proof -
    have "take ?n (zip bounds cls) \<noteq> []" using pos n assms(2) by (cases ?n; cases bounds; cases cls) auto
    then show ?thesis using pos n assms(2) by (simp add: last_conv_nth min_def)
  qed
  ultimately show ?thesis by (simp add: range_class_def)
qed

lemma merge_step:
  assumes "sorted (map fst (zs @ (p, d) # rs))" and "zs \<noteq> []" and "snd (last zs) = d" and "\<exists>x \<in> set zs. fst x \<le> c"
  shows "snd (last (filter (\<lambda>x. fst x \<le> c) (zs @ (p, d) # rs))) = snd (last (filter (\<lambda>x. fst x \<le> c) (zs @ rs)))"
proof (cases "p \<le> c")
  case True
  then have "filter (\<lambda>x. fst x \<le> c) zs = zs" using assms(1) by (auto simp: sorted_append intro!: filter_True)
  then show ?thesis using True assms(2,3) by simp
next
  case False
  then have "filter (\<lambda>x. fst x \<le> c) rs = []" using assms(1) by (force simp: sorted_append filter_empty_conv)
  then show ?thesis using False by simp
qed

lemma merge_classes_right:
  assumes "length bounds = length cls" and "sorted (bounds @ map fst rs)" and "hd (bounds @ map fst rs) \<le> c"
    and "bounds @ map fst rs \<noteq> []" and "merge_classes rs bounds cls = (bounds', cls')"
  shows "range_class bounds' cls' c = range_class (bounds @ map fst rs) (cls @ map snd rs) c"
  using assms
proof (induction rs bounds cls rule: merge_classes.induct)
  case (1 bounds cls)
  then show ?case by simp
next
  case (2 p d rs bounds cls)
  show ?case
  proof (cases "cls \<noteq> [] \<and> last cls = d")
    case False
    then have "range_class bounds' cls' c = range_class ((bounds @ [p]) @ map fst rs) ((cls @ [d]) @ map snd rs) c"
      by (intro "2.IH"(2)) (use 2 in auto)
    then show ?thesis by simp
  next
    case True
    let ?zs = "zip bounds cls"
    have ne: "bounds \<noteq> []" using True 2 by auto
    have z: "zip (bounds @ map fst xs) (cls @ map snd xs) = ?zs @ xs" for xs :: "(u32 \<times> u16) list"
      using 2 by (simp add: zip_map_fst_snd)
    have f: "map fst ?zs = bounds" "map snd ?zs = cls" using 2 by simp_all
    have zne: "?zs \<noteq> []" using ne f by auto
    have "\<exists>x \<in> set ?zs. fst x \<le> c"
    proof (intro bexI [of _ "hd ?zs"])
      show "fst (hd ?zs) \<le> c" using 2 ne f(1) zne by (metis hd_append2 hd_map)
      show "hd ?zs \<in> set ?zs" by (rule hd_in_set [OF zne])
    qed
    moreover have "snd (last ?zs) = d" using True f(2) zne by (metis last_map)
    ultimately have "snd (last (filter (\<lambda>x. fst x \<le> c) (?zs @ (p, d) # rs))) = snd (last (filter (\<lambda>x. fst x \<le> c) (?zs @ rs)))"
      using merge_step [of ?zs p d rs c] zne f(1) 2 by simp
    moreover have "range_class bounds' cls' c = range_class (bounds @ map fst rs) (cls @ map snd rs) c"
      by (rule "2.IH"(1)) (use True 2 ne in \<open>auto simp: sorted_append\<close>)
    moreover have ex: "\<exists>q \<in> set (bounds @ xs). q \<le> c" for xs using 2 ne by (intro bexI [of _ "hd bounds"]) auto
    moreover have rl: "range_class (bounds @ map fst xs) (cls @ map snd xs) c = snd (last (filter (\<lambda>x. fst x \<le> c) (?zs @ xs)))"
      if "sorted (bounds @ map fst xs)" for xs
      using range_class_last [OF that _ ex, of "cls @ map snd xs"] z [of xs] 2(3) by simp
    have "sorted (bounds @ map fst rs)" using 2 by (simp add: sorted_append)
    ultimately show ?thesis using rl [of rs] rl [OF 2(4)] by (simp only:)
  qed
qed


section \<open>The classes of an alphabet\<close>

lemma distinct_same: "numbered ids \<Longrightarrow> length ids \<le> 65536 \<Longrightarrow> map_of ids k = Some i \<Longrightarrow> map_of ids k' = Some i' \<Longrightarrow> i = i' \<longleftrightarrow> k = k'"
  using numbered_map_of(2) by fastforce

lemma alphabet_ranges:
  fixes ss :: "charset list"
  defines "points \<equiv> alphabet_points ss"
  assumes small: "length points \<le> 65536"
  obtains cls where "length cls = length points" "al_classes (alphabet_new ss) = length (al_rep (alphabet_new ss))"
    "\<And>c. char_class (alphabet_new ss) c = cls ! point_before points c"
    "\<And>q r. q < length points \<Longrightarrow> r < length points \<Longrightarrow> cls ! q = cls ! r \<longleftrightarrow> sig_row points ss q = sig_row points ss r"
    "\<And>r. r < length points \<Longrightarrow> unat (cls ! r) < length (al_rep (alphabet_new ss)) \<and>
       (\<exists>q < length points. al_rep (alphabet_new ss) ! unat (cls ! r) = points ! q \<and> cls ! q = cls ! r)"
proof -
  let ?rs = "map (\<lambda>r. (sig_row points ss r, points ! r)) [0..<length points]"
  obtain cls rep where cr: "number_classes ?rs [] [] [] = (cls, rep)" by fastforce
  obtain bounds cls' where m: "merge_classes (zip points cls) [] [] = (bounds, cls')" by fastforce
  have "classified [] [] [] []" by (simp add: classified_def numbered_def)
  then obtain ids where ids: "classified ?rs ids cls rep"
    using number_classes_right [of "[]" "[]" "[]" "[]" ?rs] small cr by auto
  note n = classifiedD(1-5) [OF ids]
  have len: "length cls = length points" using n(5) by simp
  have il: "length ids \<le> 65536" using n(3) small by simp
  have A: "alphabet_new ss = \<lparr>al_bounds = bounds, al_class_of_range = cls',
      al_ascii = map (\<lambda>c. range_class bounds cls' (word_of_nat c)) [0..<128], al_classes = length rep, al_rep = rep\<rparr>"
    using cr m by (simp add: alphabet_new_def Let_def points_def sig_row_def)
  have id: "map_of ids (sig_row points ss r) = Some (cls ! r)" if "r < length points" for r
    using classifiedD(6) [OF ids, of r] that by simp
  have rc: "char_class (alphabet_new ss) c = cls ! point_before points c" for c
  proof -
    have f: "sorted points" "0 \<in> set points" using alphabet_points_facts [of ss] by (auto simp: points_def)
    then obtain x xs where x: "points = x # xs" by (cases points) auto
    then have "x \<le> 0" using f by auto
    then have hd: "hd points \<le> c" "points \<noteq> []" using x by auto
    have "range_class bounds cls' c = range_class points cls c"
      using merge_classes_right [of "[]" "[]" "zip points cls" c bounds cls'] f(1) hd m len by simp
    moreover have "char_class (alphabet_new ss) c = range_class bounds cls' c"
    proof (cases "c < 128")
      case True
      then have "unat c < 128" by (simp add: word_less_nat_alt)
      then show ?thesis using True by (simp add: char_class_def A)
    qed (simp add: char_class_def A)
    ultimately show ?thesis by (simp add: range_class_def point_before_def)
  qed
  show thesis
  proof (rule that)
    show "length cls = length points" by (rule len)
    show "al_classes (alphabet_new ss) = length (al_rep (alphabet_new ss))" by (simp add: A)
    show "char_class (alphabet_new ss) c = cls ! point_before points c" for c by (rule rc)
    show eq: "cls ! q = cls ! r \<longleftrightarrow> sig_row points ss q = sig_row points ss r" if "q < length points" "r < length points" for q r
      by (rule distinct_same [OF n(1) il id [OF that(1)] id [OF that(2)]])
    show "unat (cls ! r) < length (al_rep (alphabet_new ss)) \<and>
       (\<exists>q < length points. al_rep (alphabet_new ss) ! unat (cls ! r) = points ! q \<and> cls ! q = cls ! r)" if r: "r < length points" for r
    proof
      show "unat (cls ! r) < length (al_rep (alphabet_new ss))" using numbered_map_of(1) [OF n(1) il id [OF r]] n(4) by (simp add: A)
      obtain q where q: "q < length points" "rep ! unat (cls ! r) = points ! q" "sig_row points ss q = sig_row points ss r"
      proof -
        have "\<exists>q < length ?rs. rep ! unat (cls ! r) = snd (?rs ! q) \<and> fst (?rs ! q) = fst (?rs ! r)"
          by (rule classifiedD(7) [OF ids]) (simp add: r)
        then show thesis using that r by auto
      qed
      then show "\<exists>q < length points. al_rep (alphabet_new ss) ! unat (cls ! r) = points ! q \<and> cls ! q = cls ! r"
        using eq [OF q(1) r] by (auto simp: A)
    qed
  qed
qed

lemma sets_of_point:
  assumes "list_all cs_ok ss" and "s \<in> set ss"
  shows "contains s (alphabet_points ss ! point_before (alphabet_points ss) c) = contains s c"
  using points_tell [OF assms(2), where c = c] assms by (simp add: contains_iff list_all_iff)

lemma point_before_point:
  assumes "q < length (alphabet_points ss)"
  shows "point_before (alphabet_points ss) (alphabet_points ss ! q) = q"
proof -
  let ?p = "alphabet_points ss"
  have f: "sorted ?p" "0 \<in> set ?p" using alphabet_points_facts [of ss] by auto
  note b = point_before_facts [OF f, of "?p ! q"]
  have "?p ! q \<le> ?p ! point_before ?p (?p ! q)" using b(3) [of "?p ! q"] assms by simp
  then have "?p ! q = ?p ! point_before ?p (?p ! q)" using b(2) by simp
  then show ?thesis using nth_eq_iff_index_eq [OF alphabet_points_distinct assms b(1)] by simp
qed

lemma same_class:
  assumes ok: "list_all cs_ok ss" and small: "length (alphabet_points ss) \<le> 65536"
  shows "char_class (alphabet_new ss) c = char_class (alphabet_new ss) d \<longleftrightarrow> (\<forall>s \<in> set ss. contains s c = contains s d)"
proof -
  let ?p = "alphabet_points ss"
  have f: "sorted ?p" "0 \<in> set ?p" using alphabet_points_facts [of ss] by auto
  note l = point_before_facts(1) [OF f]
  obtain cls where "length cls = length ?p" and rc: "\<And>c. char_class (alphabet_new ss) c = cls ! point_before ?p c"
    and eq: "\<And>q r. q < length ?p \<Longrightarrow> r < length ?p \<Longrightarrow> cls ! q = cls ! r \<longleftrightarrow> sig_row ?p ss q = sig_row ?p ss r"
    by (rule alphabet_ranges [OF small]) blast
  have "(\<forall>j < length ss. ?p ! point_before ?p c \<in> cs_set (ss ! j) \<longleftrightarrow> ?p ! point_before ?p d \<in> cs_set (ss ! j)) \<longleftrightarrow>
      (\<forall>s \<in> set ss. c \<in> cs_set s \<longleftrightarrow> d \<in> cs_set s)"
    by (simp add: all_set_conv_all_nth points_tell)
  then show ?thesis
    using eq [OF l [of c] l [of d]] sig_row_eq [OF f(1) l [of c] l [of d], of ss] ok rc by (simp add: contains_iff list_all_iff)
qed

lemma class_rep:
  assumes ok: "list_all cs_ok ss" and small: "length (alphabet_points ss) \<le> 65536"
  shows "unat (char_class (alphabet_new ss) c) < al_classes (alphabet_new ss)"
    and "char_class (alphabet_new ss) (al_rep (alphabet_new ss) ! unat (char_class (alphabet_new ss) c)) = char_class (alphabet_new ss) c"
proof -
  let ?p = "alphabet_points ss" and ?A = "alphabet_new ss"
  have f: "sorted ?p" "0 \<in> set ?p" using alphabet_points_facts [of ss] by auto
  note l = point_before_facts(1) [OF f]
  obtain cls where n: "length cls = length ?p" "al_classes ?A = length (al_rep ?A)" and rc: "\<And>c. char_class ?A c = cls ! point_before ?p c"
    and rp: "\<And>r. r < length ?p \<Longrightarrow> unat (cls ! r) < length (al_rep ?A) \<and>
      (\<exists>q < length ?p. al_rep ?A ! unat (cls ! r) = ?p ! q \<and> cls ! q = cls ! r)"
    by (rule alphabet_ranges [OF small]) blast
  show "unat (char_class ?A c) < al_classes ?A" using rp [OF l [of c]] rc n by simp
  obtain q where q: "q < length ?p" "al_rep ?A ! unat (char_class ?A c) = ?p ! q" "cls ! q = char_class ?A c"
    using rp [OF l [of c]] rc by auto
  have "point_before ?p (?p ! q) = q"
    by (rule point_before_point [OF q(1)])
  then show "char_class ?A (al_rep ?A ! unat (char_class ?A c)) = char_class ?A c" using q rc by simp
qed




end
