(* ===== verification/Backtrack.thy ===== *)
theory Backtrack
  imports Bounds Targets
begin

text \<open>
  The bounded backtracker (\<^verbatim>\<open>linre/backtrack.rs\<close>): a depth-first search of the program in priority order that
  visits no (instruction, position) twice, within a budget of steps. The model keeps the source's state (the
  visited bits, a row of words per position; the explicit stack of frames; the slots) and its short cuts: a
  greedy run of one set, unrolled as a chain of splits, is read as far as it goes and its exits left as one
  frame; so are the stops of an \<open>I_Run\<close>. An index out of range, and a loop that does not end, are \<open>None\<close>.

  The search answers the first path of the program in priority order whose end is accepted, or runs out of
  steps (\<open>dfs_correct\<close>); it always returns.
\<close>

unbundle bit_operations_syntax

section \<open>State\<close>

text \<open>\<^verbatim>\<open>Frame\<close>s; \<open>B_Exits exit lo hi\<close>, \<open>B_Lazy next set at last\<close>.\<close>

datatype bt_frame =
    B_Explore nat nat
  | B_Restore nat int
  | B_Exits nat nat nat
  | B_Lazy nat nat nat nat

record backtracker =
  bt_visited :: "u64 list"
  bt_used :: nat
  bt_stack :: "bt_frame list"
  bt_slots :: "int list"

definition bt_new :: backtracker where
  "bt_new = \<lparr>bt_visited = [], bt_used = 0, bt_stack = [], bt_slots = []\<rparr>"

definition MAX_BITS :: nat where
  "MAX_BITS = 2 ^ 24"

text \<open>Words of visited bits per position, and positions that fit.\<close>

definition row_words :: "inst list \<Rightarrow> nat" where
  "row_words P = (length P + 63) div 64"

definition max_rows :: "inst list \<Rightarrow> nat" where
  "max_rows P = max (MAX_BITS div 64 div row_words P) 1"

definition fits :: "prog \<Rightarrow> nat \<Rightarrow> bool" where
  "fits prog len \<longleftrightarrow> len < max_rows (insts prog)"

datatype out_of_steps = OutOfSteps

text \<open>
  The arguments of \<^verbatim>\<open>dfs\<close> that do not change (\<open>j_from\<close> is \<open>s\<close>, \<open>j_at\<close> is \<open>end_at\<close>), and what changes: the
  buffers, the steps of this search and of the caller's count, the oracle.
\<close>

record bt_job =
  j_sets :: "charset list"
  j_insts :: "inst list"
  j_ns :: nat
  j_text :: "u32 list"
  j_from :: nat
  j_end :: nat
  j_at :: "nat option"
  j_no_empty :: bool
  j_budget :: nat

record 'o bt_state =
  s_bt :: backtracker
  s_steps :: nat
  s_spent :: nat
  s_oracle :: 'o

definition j_limit :: "bt_job \<Rightarrow> nat" where
  "j_limit J = min (case j_at J of None \<Rightarrow> j_end J | Some e \<Rightarrow> e) (j_end J)"

text \<open>What the body of the inner loop comes to: go on at an instruction, pop a frame, or stop.\<close>

datatype bt_next = B_Go nat nat | B_Pop | B_Found "int list" nat | B_Out

section \<open>Steps and visited bits\<close>

definition bt_charge :: "bt_job \<Rightarrow> nat \<Rightarrow> 'o bt_state \<Rightarrow> bool \<times> 'o bt_state" where
  "bt_charge J k st =
     (let st = st\<lparr>s_steps := s_steps st + k, s_spent := s_spent st + k\<rparr> in (s_steps st \<le> j_budget J, st))"

definition with_visited :: "u64 list \<Rightarrow> nat \<Rightarrow> 'o bt_state \<Rightarrow> 'o bt_state" where
  "with_visited v n st = st\<lparr>s_bt := (s_bt st)\<lparr>bt_visited := v, bt_used := n\<rparr>\<rparr>"

definition with_stack :: "bt_frame list \<Rightarrow> 'o bt_state \<Rightarrow> 'o bt_state" where
  "with_stack fs st = st\<lparr>s_bt := (s_bt st)\<lparr>bt_stack := fs\<rparr>\<rparr>"

definition with_slots :: "int list \<Rightarrow> 'o bt_state \<Rightarrow> 'o bt_state" where
  "with_slots sl st = st\<lparr>s_bt := (s_bt st)\<lparr>bt_slots := sl\<rparr>\<rparr>"

abbreviation stack_of :: "'o bt_state \<Rightarrow> bt_frame list" where "stack_of st \<equiv> bt_stack (s_bt st)"
abbreviation slots_of :: "'o bt_state \<Rightarrow> int list" where "slots_of st \<equiv> bt_slots (s_bt st)"

definition bt_push :: "bt_frame \<Rightarrow> 'o bt_state \<Rightarrow> 'o bt_state" where
  "bt_push f st = with_stack (f # stack_of st) st"

text \<open>The rows up to \<open>need\<close> words in use.\<close>

definition bt_reach :: "nat \<Rightarrow> 'o bt_state \<Rightarrow> 'o bt_state" where
  "bt_reach need st =
     (if need > bt_used (s_bt st)
      then with_visited
        (if length (bt_visited (s_bt st)) < need then grow_to need 0 (bt_visited (s_bt st)) else bt_visited (s_bt st)) need st
      else st)"

text \<open>Mark (pc, pos) visited: false if it was, no answer when out of steps or rows.\<close>

definition bt_visit :: "bt_job \<Rightarrow> nat \<Rightarrow> nat \<Rightarrow> 'o bt_state \<Rightarrow> (bool option \<times> 'o bt_state) option" where
  "bt_visit J pc pos st =
     (if pos < j_from J then None
      else let r = pos - j_from J; row = row_words (j_insts J)
      in if r \<ge> max_rows (j_insts J) then Some (None, st)
      else let st = bt_reach ((r + 1) * row) st; w = r * row + pc div 64; b = push_bit (pc mod 64) 1
      in do { v \<leftarrow> get_at (bt_visited (s_bt st)) w;
              if v AND b \<noteq> 0 then Some (Some False, st)
              else do { vs \<leftarrow> put_at (bt_visited (s_bt st)) w (v OR b);
                        let (ok, st) = bt_charge J 1 (with_visited vs (bt_used (s_bt st)) st)
                        in Some (if ok then Some True else None, st) } })"

section \<open>Characters\<close>

text \<open>\<^verbatim>\<open>pos < limit && pr.sets[set].contains(text[pos])\<close>, for a bound \<open>e\<close>.\<close>

definition bt_reads :: "bt_job \<Rightarrow> nat \<Rightarrow> nat \<Rightarrow> nat \<Rightarrow> bool option" where
  "bt_reads J e si pos =
     (if pos < e then do { cs \<leftarrow> get_at (j_sets J) si; c \<leftarrow> get_at (j_text J) pos; Some (contains cs c) } else Some False)"

function bt_run_to :: "bt_job \<Rightarrow> nat \<Rightarrow> nat \<Rightarrow> nat \<Rightarrow> nat option" where
  "bt_run_to J e si q =
     (if q < e then (case bt_reads J e si q of
                       None \<Rightarrow> None | Some hit \<Rightarrow> if hit then bt_run_to J e si (q + 1) else Some q)
      else Some q)"
  by pat_completeness auto
termination by (relation "measure (\<lambda>(J, e, si, q). e - q)") auto

declare bt_run_to.simps [simp del]

text \<open>Is \<open>pc\<close> a split of a greedy run of the set leaving to \<open>exit\<close>?\<close>

definition run_split :: "inst list \<Rightarrow> nat \<Rightarrow> nat \<Rightarrow> nat \<Rightarrow> bool option" where
  "run_split P pc si exit =
     do { i \<leftarrow> get_at P pc;
          case i of
            I_Split x y \<Rightarrow>
              (if y = exit then do { i \<leftarrow> get_at P x; Some (case i of I_Char s _ \<Rightarrow> s = si | _ \<Rightarrow> False) } else Some False)
          | _ \<Rightarrow> Some False }"

text \<open>The set of the greedy run a split at \<open>pc\<close> starts, if it does.\<close>

definition run_of :: "inst list \<Rightarrow> nat \<Rightarrow> nat \<Rightarrow> nat \<Rightarrow> nat option option" where
  "run_of P pc x y =
     do { i \<leftarrow> get_at P x;
          case i of
            I_Char si nx \<Rightarrow>
              (if nx = pc then Some (Some si)
               else do { r \<leftarrow> run_split P nx si y; Some (if r then Some si else None) })
          | _ \<Rightarrow> Some None }"

text \<open>
  Along a run, from the split \<open>sp\<close> at \<open>q\<close>: how far it goes, and where to go on after the last character of a
  chain.
\<close>

partial_function (option) bt_chain ::
    "bt_job \<Rightarrow> nat \<Rightarrow> nat \<Rightarrow> nat \<Rightarrow> nat \<Rightarrow> 'o bt_state \<Rightarrow> ((nat \<times> (nat \<times> nat) option) option \<times> 'o bt_state) option" where
  "bt_chain J si y sp q st =
     do { i \<leftarrow> get_at (j_insts J) sp;
          case i of
            I_Split cpc _ \<Rightarrow>
              do { i \<leftarrow> get_at (j_insts J) cpc;
                   case i of
                     I_Char _ cnext \<Rightarrow>
                       do { (v, st) \<leftarrow> bt_visit J cpc q st;
                            case v of None \<Rightarrow> Some (None, st) | Some new \<Rightarrow>
                            if \<not> new then Some (Some (q, None), st)
                            else do { hit \<leftarrow> bt_reads J (j_limit J) si q;
                                      if \<not> hit then Some (Some (q, None), st)
                                      else do { on \<leftarrow> (if cnext = sp then Some True else run_split (j_insts J) cnext si y);
                                                if on
                                                then do { (v, st) \<leftarrow> bt_visit J cnext (q + 1) st;
                                                          case v of None \<Rightarrow> Some (None, st) | Some new \<Rightarrow>
                                                          if \<not> new then Some (Some (q, None), st)
                                                          else bt_chain J si y cnext (q + 1) st }
                                                else Some (Some (q, Some (cnext, q + 1)), st) } } }
                   | _ \<Rightarrow> Some (Some (q, None), st) }
          | _ \<Rightarrow> Some (Some (q, None), st) }"

section \<open>One instruction\<close>

text \<open>An instruction newly visited at \<open>pos\<close>.\<close>

definition bt_inst :: "'o hold \<Rightarrow> bt_job \<Rightarrow> nat \<Rightarrow> nat \<Rightarrow> 'o bt_state \<Rightarrow> (bt_next \<times> 'o bt_state) option" where
  "bt_inst hold J pc pos st =
     do { i \<leftarrow> get_at (j_insts J) pc;
          case i of
            I_Char si nx \<Rightarrow>
              do { hit \<leftarrow> bt_reads J (j_limit J) si pos; Some (if hit then B_Go nx (pos + 1) else B_Pop, st) }
          | I_Split x y \<Rightarrow>
              do { run \<leftarrow> run_of (j_insts J) pc x y;
                   case run of
                     None \<Rightarrow> Some (B_Go x pos, bt_push (B_Explore y pos) st)
                   | Some si \<Rightarrow>
                       do { (r, st) \<leftarrow> bt_chain J si y pc pos st;
                            case r of None \<Rightarrow> Some (B_Out, st)
                            | Some (q, cont) \<Rightarrow>
                                Some (case cont of None \<Rightarrow> B_Pop | Some (c, p) \<Rightarrow> B_Go c p, bt_push (B_Exits y pos q) st) } }
          | I_Run si mn mx greedy nx \<Rightarrow>
              (let cap = (if mx = HOLE then j_limit J else min (j_limit J) (pos + mx)); need = pos + mn
               in if need > cap then Some (B_Pop, st)
                  else do { q \<leftarrow> bt_run_to J (if greedy then cap else need) si pos;
                            let (ok, st) = bt_charge J ((q - pos) div 4) st
                            in Some (if \<not> ok then (B_Out, st)
                                     else if q < need then (B_Pop, st)
                                     else if greedy then (B_Pop, bt_push (B_Exits nx need q) st)
                                     else (B_Pop, bt_push (B_Lazy nx si need cap) st)) })
          | I_Jmp nx \<Rightarrow> Some (B_Go nx pos, st)
          | I_Guard nx \<Rightarrow> Some (if pos \<le> j_end J then B_Go nx pos else B_Pop, st)
          | I_Save slot nx \<Rightarrow>
              do { old \<leftarrow> get_at (slots_of st) slot;
                   st \<leftarrow> Some (bt_push (B_Restore slot old) st);
                   st \<leftarrow> (if odd slot \<and> slot < j_ns J - 2
                         then do { old \<leftarrow> get_at (slots_of st) (j_ns J - 2);
                                   sl \<leftarrow> put_at (slots_of st) (j_ns J - 2) (int (slot div 2 + 1));
                                   Some (with_slots sl (bt_push (B_Restore (j_ns J - 2) old) st)) }
                         else Some st);
                   sl \<leftarrow> put_at (slots_of st) slot (int pos);
                   Some (B_Go nx pos, with_slots sl st) }
          | I_Look look nx \<Rightarrow>
              do { (v, o1) \<leftarrow> hold look pos (s_oracle st);
                   Some (if v then B_Go nx pos else B_Pop, st\<lparr>s_oracle := o1\<rparr>) }
          | I_Match \<Rightarrow>
              Some (if (case j_at J of Some e \<Rightarrow> pos = e | None \<Rightarrow> \<not> (j_no_empty J \<and> pos = j_from J))
                    then B_Found (slots_of st) pos else B_Pop, st) }"

definition bt_at :: "'o hold \<Rightarrow> bt_job \<Rightarrow> nat \<Rightarrow> nat \<Rightarrow> 'o bt_state \<Rightarrow> (bt_next \<times> 'o bt_state) option" where
  "bt_at hold J pc pos st =
     do { (v, st) \<leftarrow> bt_visit J pc pos st;
          case v of None \<Rightarrow> Some (B_Out, st) | Some new \<Rightarrow> if new then bt_inst hold J pc pos st else Some (B_Pop, st) }"

section \<open>The search\<close>

text \<open>A frame popped.\<close>

fun bt_unwind :: "bt_job \<Rightarrow> bt_frame \<Rightarrow> 'o bt_state \<Rightarrow> (bt_next \<times> 'o bt_state) option" where
  "bt_unwind J (B_Restore slot old) st =
     do { sl \<leftarrow> put_at (slots_of st) slot old; Some (B_Pop, with_slots sl st) }"
| "bt_unwind J (B_Explore pc pos) st = Some (B_Go pc pos, st)"
| "bt_unwind J (B_Exits exit lo hi) st =
     Some (B_Go exit hi, if hi > lo then bt_push (B_Exits exit lo (hi - 1)) st else st)"
| "bt_unwind J (B_Lazy nx si at stop) st =
     (let (ok, st) = bt_charge J 1 st
      in if \<not> ok then Some (B_Out, st)
         else do { more \<leftarrow> (if at < stop then bt_reads J (j_limit J) si at else Some False);
                   Some (B_Go nx at, if more then bt_push (B_Lazy nx si (at + 1) stop) st else st) })"

type_synonym bt_result = "(out_of_steps, (int list \<times> nat) option) result"

partial_function (option) bt_loop ::
    "'o hold \<Rightarrow> bt_job \<Rightarrow> bt_next \<Rightarrow> 'o bt_state \<Rightarrow> (bt_result \<times> 'o bt_state) option" where
  "bt_loop hold J nx st =
     (case nx of
        B_Found sl p \<Rightarrow> Some (Inr (Some (sl, p)), st)
      | B_Out \<Rightarrow> Some (Inl OutOfSteps, st)
      | B_Go pc pos \<Rightarrow> do { (nx, st) \<leftarrow> bt_at hold J pc pos st; bt_loop hold J nx st }
      | B_Pop \<Rightarrow>
          (case stack_of st of
             [] \<Rightarrow> Some (Inr None, st)
           | f # fs \<Rightarrow> do { (nx, st) \<leftarrow> bt_unwind J f (with_stack fs st); bt_loop hold J nx st }))"

text \<open>\<^verbatim>\<open>for w in &mut bt.visited[..bt.used] { *w = 0; }\<close>\<close>

definition bt_wipe :: "backtracker \<Rightarrow> u64 list option" where
  "bt_wipe bt =
     (if bt_used bt \<le> length (bt_visited bt)
      then Some (replicate (bt_used bt) 0 @ drop (bt_used bt) (bt_visited bt)) else None)"

definition dfs ::
    "'o hold \<Rightarrow> bt_job \<Rightarrow> nat \<Rightarrow> backtracker \<Rightarrow> 'o \<Rightarrow> nat \<Rightarrow> (bt_result \<times> backtracker \<times> 'o \<times> nat) option" where
  "dfs hold J start bt ora spent =
     do { vs \<leftarrow> bt_wipe bt;
          (r, st) \<leftarrow> bt_loop hold J B_Pop
            \<lparr>s_bt = \<lparr>bt_visited = vs, bt_used = 0, bt_stack = [B_Explore start (j_from J)], bt_slots = replicate (j_ns J) (-1)\<rparr>,
             s_steps = 0, s_spent = spent, s_oracle = ora\<rparr>;
          Some (r, s_bt st, s_oracle st, s_spent st) }"


section \<open>The two uses\<close>

text \<open>The groups of a match whose span is known, and a match from one start.\<close>

definition bt_job_for ::
    "programs \<Rightarrow> prog \<Rightarrow> u32 list \<Rightarrow> nat \<Rightarrow> nat \<Rightarrow> nat option \<Rightarrow> bool \<Rightarrow> nat \<Rightarrow> bt_job" where
  "bt_job_for pr prog text s e at no_empty budget =
     \<lparr>j_sets = sets pr, j_insts = insts prog, j_ns = slots pr, j_text = text, j_from = s, j_end = e, j_at = at,
      j_no_empty = no_empty, j_budget = budget\<rparr>"

definition bt_groups ::
    "'o hold \<Rightarrow> programs \<Rightarrow> prog \<Rightarrow> u32 list \<Rightarrow> nat \<Rightarrow> nat \<Rightarrow> nat \<Rightarrow> backtracker \<Rightarrow> 'o
     \<Rightarrow> (int list option \<times> backtracker \<times> 'o) option" where
  "bt_groups hold pr prog text s e fin bt ora =
     do { (r, bt, ora, _) \<leftarrow> dfs hold (bt_job_for pr prog text s fin (Some e) False USIZE_MAX) (p_start prog) bt ora 0;
          Some (case r of Inr (Some (sl, _)) \<Rightarrow> Some sl | _ \<Rightarrow> None, bt, ora) }"

definition bt_anchored ::
    "'o hold \<Rightarrow> programs \<Rightarrow> prog \<Rightarrow> u32 list \<Rightarrow> nat \<Rightarrow> nat \<Rightarrow> bool \<Rightarrow> nat \<Rightarrow> backtracker \<Rightarrow> 'o \<Rightarrow> nat
     \<Rightarrow> (bt_result \<times> backtracker \<times> 'o \<times> nat) option" where
  "bt_anchored hold pr prog text s e no_empty budget bt ora spent =
     dfs hold (bt_job_for pr prog text s e None no_empty budget) (p_start prog) bt ora spent"

section \<open>What is visited\<close>

definition bits_ok :: "backtracker \<Rightarrow> bool" where
  "bits_ok bt \<longleftrightarrow> bt_used bt \<le> length (bt_visited bt) \<and>
     (\<forall>i. bt_used bt \<le> i \<longrightarrow> i < length (bt_visited bt) \<longrightarrow> bt_visited bt ! i = 0)"

definition bit_at :: "u64 list \<Rightarrow> nat \<Rightarrow> nat \<Rightarrow> bool" where
  "bit_at vs i k \<longleftrightarrow> i < length vs \<and> bit (vs ! i) k"

definition seen_in :: "bt_job \<Rightarrow> u64 list \<Rightarrow> (nat \<times> nat) set" where
  "seen_in J vs = {(pc, pos). pc < length (j_insts J) \<and> j_from J \<le> pos \<and>
     bit_at vs ((pos - j_from J) * row_words (j_insts J) + pc div 64) (pc mod 64)}"

definition seen :: "bt_job \<Rightarrow> 'o bt_state \<Rightarrow> (nat \<times> nat) set" where
  "seen J st = seen_in J (bt_visited (s_bt st))"

text \<open>A step that only counts, and marks \<open>X\<close>.\<close>

definition marks :: "bt_job \<Rightarrow> (nat \<times> nat) set \<Rightarrow> 'o bt_state \<Rightarrow> 'o bt_state \<Rightarrow> bool" where
  "marks J X st st' \<longleftrightarrow>
     bits_ok (s_bt st') \<and> stack_of st' = stack_of st \<and> slots_of st' = slots_of st \<and> s_oracle st' = s_oracle st \<and>
     seen J st' = X \<union> seen J st"

lemma marks_trans: "marks J X st st' \<Longrightarrow> marks J Y st' st'' \<Longrightarrow> marks J (Y \<union> X) st st''"
  by (auto simp: marks_def)

lemma state_simps [simp]:
  "s_bt (with_visited v n st) = (s_bt st)\<lparr>bt_visited := v, bt_used := n\<rparr>" "s_oracle (with_visited v n st) = s_oracle st"
  "s_bt (with_stack fs st) = (s_bt st)\<lparr>bt_stack := fs\<rparr>" "s_oracle (with_stack fs st) = s_oracle st"
  "s_bt (with_slots sl st) = (s_bt st)\<lparr>bt_slots := sl\<rparr>" "s_oracle (with_slots sl st) = s_oracle st"
  "s_bt (bt_push f st) = (s_bt st)\<lparr>bt_stack := f # stack_of st\<rparr>" "s_oracle (bt_push f st) = s_oracle st"
  by (simp_all add: with_visited_def with_stack_def with_slots_def bt_push_def)

lemma seen_simps [simp]:
  "seen J (with_stack fs st) = seen J st" "seen J (with_slots sl st) = seen J st" "seen J (bt_push f st) = seen J st"
  "seen J (st\<lparr>s_oracle := o1\<rparr>) = seen J st" "seen J (st\<lparr>s_steps := a\<rparr>) = seen J st" "seen J (st\<lparr>s_spent := a\<rparr>) = seen J st"
  by (simp_all add: seen_def)

lemma bits_ok_simps [simp]:
  "bits_ok (bt\<lparr>bt_stack := fs\<rparr>) = bits_ok bt" "bits_ok (bt\<lparr>bt_slots := sl\<rparr>) = bits_ok bt"
  by (simp_all add: bits_ok_def)

lemma charge_facts:
  assumes "bt_charge J k st = (ok, st')"
  shows "s_bt st' = s_bt st" "s_oracle st' = s_oracle st" "seen J st' = seen J st"
  using assms by (auto simp: bt_charge_def seen_def)

lemma bit_at_grow: "bit_at (grow_to n 0 vs) i k = bit_at vs i k"
  by (auto simp: bit_at_def grow_to_def nth_append)

lemma seen_in_grow [simp]: "seen_in J (grow_to n 0 vs) = seen_in J vs"
  by (simp add: seen_in_def bit_at_grow)

lemma row_index: "pc < length P \<Longrightarrow> pc div 64 < row_words P"
proof -
  assume "pc < length P"
  then have "(pc + 64) div 64 \<le> (length P + 63) div 64" by (intro div_le_mono) simp
  then show ?thesis by (simp add: row_words_def)
qed

lemma bit_at_set:
  assumes "i < length vs" and "k < 64"
  shows "bit_at (vs[i := vs ! i OR push_bit k 1]) j l \<longleftrightarrow> bit_at vs j l \<or> j = i \<and> l = k"
proof (cases "j = i")
  case True
  then show ?thesis using assms by (auto simp: bit_at_def bit_or_iff bit_simps)
next
  case False
  then show ?thesis by (simp add: bit_at_def)
qed

lemma seen_in_set:
  assumes "pc < length (j_insts J)" and "j_from J \<le> pos"
    and "i = (pos - j_from J) * row_words (j_insts J) + pc div 64" and "i < length vs"
  shows "seen_in J (vs[i := vs ! i OR push_bit (pc mod 64) 1]) = insert (pc, pos) (seen_in J vs)"
proof -
  let ?w = "row_words (j_insts J)"
  have d: "q < length (j_insts J) \<Longrightarrow> q div 64 < ?w" for q by (rule row_index)
  have "(p - j_from J) * ?w + q div 64 = i \<and> q mod 64 = pc mod 64 \<longleftrightarrow> q = pc \<and> p = pos"
    if "q < length (j_insts J)" "j_from J \<le> p" for q p
    using word_index [OF d [OF that(1)] d [OF assms(1)], of "p - j_from J" "pos - j_from J"] assms(2) that(2)
    unfolding assms(3) by (metis add_diff_inverse_nat div_mult_mod_eq linorder_not_less)
  then show ?thesis using assms(1,2) bit_at_set [OF assms(4), of "pc mod 64"] unfolding seen_in_def by auto
qed

lemma reach_facts:
  assumes "bits_ok (s_bt st)"
  shows "bits_ok (s_bt (bt_reach need st))" "need \<le> bt_used (s_bt (bt_reach need st))"
    "seen J (bt_reach need st) = seen J st" "stack_of (bt_reach need st) = stack_of st"
    "slots_of (bt_reach need st) = slots_of st" "s_oracle (bt_reach need st) = s_oracle st"
proof -
  show "bits_ok (s_bt (bt_reach need st))"
  proof (cases "need > bt_used (s_bt st)")
    case True
    have "bt_visited (s_bt (bt_reach need st)) ! i = 0"
      if "need \<le> i" "i < length (bt_visited (s_bt (bt_reach need st)))" for i
      using assms that True by (auto simp: bt_reach_def bits_ok_def grow_to_def nth_append split: if_splits)
    moreover have "need \<le> length (bt_visited (s_bt (bt_reach need st)))" "bt_used (s_bt (bt_reach need st)) = need"
      using True by (auto simp: bt_reach_def grow_to_def)
    ultimately show ?thesis by (simp add: bits_ok_def)
  next
    case False
    then show ?thesis using assms by (simp add: bt_reach_def)
  qed
qed (simp_all add: bt_reach_def seen_def)

lemma visit_mark:
  assumes ok: "bits_ok (s_bt st)" and pc: "pc < length (j_insts J)" and pos: "j_from J \<le> pos"
    and i: "i = (pos - j_from J) * row_words (j_insts J) + pc div 64" and l: "i < bt_used (s_bt st)"
    and c: "bt_charge J 1 (with_visited ((bt_visited (s_bt st))[i := bt_visited (s_bt st) ! i OR push_bit (pc mod 64) 1]) (bt_used (s_bt st)) st) = (b, st')"
  shows "marks J {(pc, pos)} st st'"
proof -
  have il: "i < length (bt_visited (s_bt st))" using ok l by (simp add: bits_ok_def)
  note f = charge_facts [OF c]
  have "bits_ok (s_bt st')" using ok l by (auto simp: f(1) bits_ok_def nth_list_update)
  moreover have "seen J st' = insert (pc, pos) (seen J st)"
    using seen_in_set [OF pc pos i il] by (simp add: seen_def f(1))
  ultimately show ?thesis by (simp add: marks_def f(1,2))
qed

lemma visit_cases:
  assumes ok: "bits_ok (s_bt st)" and pc: "pc < length (j_insts J)" and pos: "j_from J \<le> pos"
  obtains (out) st' where "bt_visit J pc pos st = Some (None, st')" "bits_ok (s_bt st')" "s_oracle st' = s_oracle st"
  | (old) st' where "bt_visit J pc pos st = Some (Some False, st')" "marks J {} st st'" "(pc, pos) \<in> seen J st"
  | (new) st' where "bt_visit J pc pos st = Some (Some True, st')" "marks J {(pc, pos)} st st'" "(pc, pos) \<notin> seen J st"
proof -
  let ?r = "pos - j_from J" and ?row = "row_words (j_insts J)"
  define st1 where "st1 = bt_reach ((?r + 1) * ?row) st"
  define i where "i = ?r * ?row + pc div 64"
  note f = reach_facts [OF ok, where need = "(?r + 1) * ?row", folded st1_def]
  show thesis
  proof (cases "?r \<ge> max_rows (j_insts J)")
    case True
    then have "bt_visit J pc pos st = Some (None, st)" using pos by (simp add: bt_visit_def Let_def)
    from out [OF this ok refl] show thesis .
  next
    case False
    have "i < (?r + 1) * ?row" using row_index [OF pc] by (simp add: i_def)
    then have l: "i < bt_used (s_bt st1)" using f(2) by simp
    then have il: "i < length (bt_visited (s_bt st1))" using f(1) by (simp add: bits_ok_def)
    let ?v = "bt_visited (s_bt st1) ! i" and ?b = "push_bit (pc mod 64) 1 :: u64"
    obtain b st3 where c: "bt_charge J 1 (with_visited ((bt_visited (s_bt st1))[i := ?v OR ?b]) (bt_used (s_bt st1)) st1) = (b, st3)"
      by fastforce
    have visit: "bt_visit J pc pos st =
        (if ?v AND ?b \<noteq> 0 then Some (Some False, st1) else Some (if b then Some True else None, st3))"
      using False pos il c unfolding bt_visit_def Let_def st1_def [symmetric] i_def [symmetric] get_at_def put_at_def by simp
    have "?v AND ?b \<noteq> 0 \<longleftrightarrow> bit ?v (pc mod 64)" by (simp add: and_exp_eq_0_iff_not_bit)
    also have "\<dots> \<longleftrightarrow> (pc, pos) \<in> seen J st1" using pc pos il by (simp add: seen_def seen_in_def bit_at_def i_def)
    finally have bit: "?v AND ?b \<noteq> 0 \<longleftrightarrow> (pc, pos) \<in> seen J st" using f(3) [of J] by simp
    have m1: "marks J {} st st1" using f by (simp add: marks_def)
    have m3: "marks J {(pc, pos)} st st3"
      using marks_trans [OF m1 visit_mark [OF f(1) pc pos i_def l c]] by simp
    show thesis
    proof (cases "(pc, pos) \<in> seen J st")
      case True
      then show thesis using old [OF _ m1] visit bit by simp
    next
      case no: False
      show thesis
      proof (cases b)
        case True
        then show thesis using new [OF _ m3 no] visit bit no by simp
      next
        case False
        then show thesis using out visit bit no m3 by (simp add: marks_def)
      qed
    qed
  qed
qed

section \<open>What a search has ruled out\<close>

definition tried :: "env \<Rightarrow> inst list \<Rightarrow> (nat \<Rightarrow> bool) \<Rightarrow> nat \<Rightarrow> (nat \<times> nat) set \<Rightarrow> bool" where
  "tried E P acc h V \<longleftrightarrow> (\<forall>(q, j) \<in> V. \<forall>k \<le> h. hgt E P j q k \<longrightarrow> \<not> live E P acc j q)"

definition fresh :: "env \<Rightarrow> inst list \<Rightarrow> (nat \<Rightarrow> bool) \<Rightarrow> (nat \<times> nat) set \<Rightarrow> (nat \<times> nat) set \<Rightarrow> bool" where
  "fresh E P acc V0 V \<longleftrightarrow> V0 \<subseteq> V \<and> (\<forall>(q, j) \<in> V - V0. \<not> live E P acc j q)"

lemma tried_mono: "tried E P acc h V \<Longrightarrow> k \<le> h \<Longrightarrow> tried E P acc k V"
  unfolding tried_def by fastforce

lemma tried_fresh: "tried E P acc h V0 \<Longrightarrow> fresh E P acc V0 V \<Longrightarrow> tried E P acc h V"
  unfolding tried_def fresh_def by blast

lemma tried_insert: "tried E P acc k V \<Longrightarrow> hgt E P j q h \<Longrightarrow> k < h \<Longrightarrow> tried E P acc k (insert (q, j) V)"
  unfolding tried_def
proof (intro ballI, clarify)
  fix r i g
  assume t: "\<forall>(q, j) \<in> V. \<forall>l \<le> k. hgt E P j q l \<longrightarrow> \<not> live E P acc j q" and h: "hgt E P j q h" "k < h"
    and m: "(r, i) \<in> insert (q, j) V" and g: "g \<le> k" "hgt E P i r g" and l: "live E P acc i r"
  have "(r, i) \<noteq> (q, j)" using hgt_unique [OF h(1), of g] h(2) g by auto
  then show False using t m g l by blast
qed

lemma tried_dead: "tried E P acc h V \<Longrightarrow> (q, j) \<in> V \<Longrightarrow> out E P h q j sl L \<Longrightarrow> \<not> some_acc acc L"
proof -
  assume t: "tried E P acc h V" and V: "(q, j) \<in> V" and o: "out E P h q j sl L"
  have "hgt E P j q h" using o by (auto simp: hgt_def)
  then have "\<not> live E P acc j q" using t V unfolding tried_def by blast
  then show ?thesis using live_iff [OF o] by simp
qed

lemma fresh_refl [simp]: "fresh E P acc V V"
  by (simp add: fresh_def)

lemma fresh_trans: "fresh E P acc V0 V1 \<Longrightarrow> fresh E P acc V1 V \<Longrightarrow> fresh E P acc V0 V"
  unfolding fresh_def by blast

lemma fresh_insert: "\<not> live E P acc j q \<Longrightarrow> fresh E P acc (insert (q, j) V0) V \<Longrightarrow> fresh E P acc V0 V"
  unfolding fresh_def by blast

lemma out_hgt: "out E P h pc pos sl L \<Longrightarrow> hgt E P pos pc h"
  by (auto simp: hgt_def)

section \<open>The search from an instruction\<close>

definition bt_acc :: "bt_job \<Rightarrow> nat \<Rightarrow> bool" where
  "bt_acc J p \<longleftrightarrow> (case j_at J of Some e \<Rightarrow> p = e | None \<Rightarrow> \<not> (j_no_empty J \<and> p = j_from J))"

definition bt_setting :: "env \<Rightarrow> bt_job \<Rightarrow> nat \<Rightarrow> bool" where
  "bt_setting E J nl \<longleftrightarrow>
     prog_in True (e_slots E) nl (length (e_sets E)) (j_insts J) \<and> opn (j_insts J) = {} \<and>
     j_sets J = e_sets E \<and> j_ns J = e_slots E \<and> j_text J = e_text E \<and> e_end E = j_limit J \<and> j_limit J \<le> length (e_text E)"

lemma bt_settingD:
  assumes "bt_setting E J nl"
  shows "prog_in True (e_slots E) nl (length (e_sets E)) (j_insts J)" "opn (j_insts J) = {}" "j_sets J = e_sets E"
    "j_ns J = e_slots E" "j_text J = e_text E" "e_end E = j_limit J" "j_limit J \<le> length (e_text E)"
  using assms by (simp_all add: bt_setting_def)

lemma opn_target: "opn P = {} \<Longrightarrow> get_at P pc = Some i \<Longrightarrow> target i w = Some t \<Longrightarrow> \<exists>j. get_at P t = Some j"
  unfolding opn_def by (auto simp: get_at_def not_le split: if_splits)

lemma bt_reads_hits:
  assumes "bt_setting E J nl" and "si < length (e_sets E)" and "e \<le> j_limit J"
  shows "bt_reads J e si q = Some (q < e \<and> hits E si q)"
  using bt_settingD [OF assms(1)] assms(2,3) by (auto simp: bt_reads_def hits_def get_at_def)

lemma bt_run_to_len:
  assumes J: "bt_setting E J nl" "si < length (e_sets E)" "e \<le> j_limit J"
  shows "q \<le> e \<Longrightarrow> bt_run_to J e si q = Some (q + min (e - q) (run_len E si q))"
proof (induction "e - q" arbitrary: q)
  case 0
  then show ?case by (simp add: bt_run_to.simps)
next
  case (Suc n)
  then have q: "q < e" by simp
  show ?case
  proof (cases "hits E si q")
    case True
    have "bt_run_to J e si q = bt_run_to J e si (Suc q)"
      using q True bt_reads_hits [OF J, of q] by (subst bt_run_to.simps) simp
    also have "\<dots> = Some (Suc q + min (e - Suc q) (run_len E si (Suc q)))" using Suc q by simp
    also have "\<dots> = Some (q + min (e - q) (run_len E si q))"
    proof -
      have "e - q = Suc (e - Suc q)" using q by simp
      then show ?thesis using True run_len_step [of E si q] by simp
    qed
    finally show ?thesis .
  next
    case False
    then show ?thesis using q bt_reads_hits [OF J, of q] run_len_none [OF False] by (subst bt_run_to.simps) simp
  qed
qed

context look_oracle
begin

definition bt_ok :: "bt_job \<Rightarrow> 'o bt_state \<Rightarrow> bool" where
  "bt_ok J st \<longleftrightarrow> bits_ok (s_bt st) \<and> okO (s_oracle st) \<and> length (slots_of st) = j_ns J"

text \<open>
  From \<open>nx\<close>, the search runs out of steps, or finds the first accepted path of \<open>L\<close>, or, none of them being
  accepted, comes to pop the frames \<open>stk\<close> with the slots \<open>sl\<close>, having visited nothing new that is live.
\<close>

definition goes ::
    "env \<Rightarrow> bt_job \<Rightarrow> bt_frame list \<Rightarrow> int list \<Rightarrow> (nat \<times> nat) set \<Rightarrow> outcome list \<Rightarrow> bt_next \<Rightarrow> 'o bt_state \<Rightarrow> bool" where
  "goes E J stk sl V0 L nx st \<longleftrightarrow>
     (\<exists>r st'. bt_loop hold J nx st = Some (r, st') \<and> bits_ok (s_bt st') \<and> okO (s_oracle st') \<and>
        (r = Inl OutOfSteps \<or> (\<exists>x. first_acc (bt_acc J) L = Some x \<and> r = Inr (Some (snd x, fst x))))) \<or>
     (\<not> some_acc (bt_acc J) L \<and>
      (\<exists>st'. bt_loop hold J nx st = bt_loop hold J B_Pop st' \<and> bt_ok J st' \<and> stack_of st' = stk \<and> slots_of st' = sl \<and>
         fresh E (j_insts J) (bt_acc J) V0 (seen J st')))"

lemma goes_step: "bt_loop hold J nx st = bt_loop hold J nx' st' \<Longrightarrow> goes E J stk sl V0 L nx' st' \<Longrightarrow> goes E J stk sl V0 L nx st"
  by (simp add: goes_def)

lemma goes_out: "bits_ok (s_bt st) \<Longrightarrow> okO (s_oracle st) \<Longrightarrow> goes E J stk sl V0 L B_Out st"
  by (simp add: goes_def bt_loop.simps)

lemma goes_pop:
  "\<not> some_acc (bt_acc J) L \<Longrightarrow> bt_ok J st \<Longrightarrow> stack_of st = stk \<Longrightarrow> slots_of st = sl \<Longrightarrow>
   fresh E (j_insts J) (bt_acc J) V0 (seen J st) \<Longrightarrow> goes E J stk sl V0 L B_Pop st"
  unfolding goes_def by blast

lemma goes_base: "fresh E (j_insts J) (bt_acc J) V0 V1 \<Longrightarrow> goes E J stk sl V1 L nx st \<Longrightarrow> goes E J stk sl V0 L nx st"
  unfolding goes_def using fresh_trans by blast

lemma goes_insert:
  assumes "out E (j_insts J) h q j s L" and "goes E J stk sl (insert (q, j) V) L nx st"
  shows "goes E J stk sl V L nx st"
  using assms(2) live_iff [OF assms(1), of "bt_acc J"] fresh_insert unfolding goes_def by blast

lemma goes_then:
  assumes "goes E J stk1 sl1 V0 L1 nx st"
    and "\<And>st'. \<lbrakk>\<not> some_acc (bt_acc J) L1; bt_ok J st'; stack_of st' = stk1; slots_of st' = sl1;
           fresh E (j_insts J) (bt_acc J) V0 (seen J st')\<rbrakk> \<Longrightarrow> goes E J stk sl (seen J st') L2 B_Pop st'"
  shows "goes E J stk sl V0 (L1 @ L2) nx st"
proof -
  consider (over) r st' where "bt_loop hold J nx st = Some (r, st')" "bits_ok (s_bt st')" "okO (s_oracle st')"
      "r = Inl OutOfSteps \<or> (\<exists>x. first_acc (bt_acc J) L1 = Some x \<and> r = Inr (Some (snd x, fst x)))"
    | (on) st' where "\<not> some_acc (bt_acc J) L1" "bt_loop hold J nx st = bt_loop hold J B_Pop st'" "bt_ok J st'"
      "stack_of st' = stk1" "slots_of st' = sl1" "fresh E (j_insts J) (bt_acc J) V0 (seen J st')"
    using assms(1) unfolding goes_def by blast
  then show ?thesis
  proof cases
    case over
    then show ?thesis unfolding goes_def by (intro disjI1 exI [of _ r] exI [of _ st']) (auto simp: first_acc_append)
  next
    case on
    have g: "goes E J stk sl V0 L2 B_Pop st'" by (rule goes_base [OF on(6) assms(2) [OF on(1,3-6)]])
    have f: "first_acc (bt_acc J) (L1 @ L2) = first_acc (bt_acc J) L2" using on(1) by (simp add: first_acc_append del: first_acc_None flip: first_acc_None)
    have s: "some_acc (bt_acc J) (L1 @ L2) = some_acc (bt_acc J) L2" using on(1) by simp
    show ?thesis using g unfolding goes_def f s on(2) .
  qed
qed

text \<open>What holds of every path of a height.\<close>

definition bt_explores :: "env \<Rightarrow> bt_job \<Rightarrow> nat \<Rightarrow> bool" where
  "bt_explores E J h \<longleftrightarrow>
     (\<forall>pc pos L st. out E (j_insts J) h pc pos (slots_of st) L \<longrightarrow> bt_ok J st \<longrightarrow> j_from J \<le> pos \<longrightarrow> pos \<le> j_limit J \<longrightarrow>
        tried E (j_insts J) (bt_acc J) h (seen J st) \<longrightarrow>
        goes E J (stack_of st) (slots_of st) (seen J st) L (B_Go pc pos) st)"

lemma bt_exploresD:
  "bt_explores E J h \<Longrightarrow> out E (j_insts J) h pc pos sl L \<Longrightarrow> bt_ok J st \<Longrightarrow> j_from J \<le> pos \<Longrightarrow> pos \<le> j_limit J \<Longrightarrow>
   tried E (j_insts J) (bt_acc J) h (seen J st) \<Longrightarrow> stack_of st = stk \<Longrightarrow> slots_of st = sl \<Longrightarrow> seen J st = V \<Longrightarrow>
   goes E J stk sl V L (B_Go pc pos) st"
  by (auto simp: bt_explores_def)

lemma bt_enter:
  assumes o: "out E (j_insts J) h pc pos (slots_of st) L" and st: "bt_ok J st" and pos: "j_from J \<le> pos"
    and tr: "tried E (j_insts J) (bt_acc J) h (seen J st)"
    and inst: "\<And>st1. \<lbrakk>bt_ok J st1; stack_of st1 = stack_of st; slots_of st1 = slots_of st;
        \<And>k. k < h \<Longrightarrow> tried E (j_insts J) (bt_acc J) k (seen J st1)\<rbrakk> \<Longrightarrow>
      \<exists>nx st2. bt_inst hold J pc pos st1 = Some (nx, st2) \<and> goes E J (stack_of st) (slots_of st) (seen J st1) L nx st2"
  shows "goes E J (stack_of st) (slots_of st) (seen J st) L (B_Go pc pos) st"
proof -
  have b: "bits_ok (s_bt st)" "okO (s_oracle st)" using st by (simp_all add: bt_ok_def)
  show ?thesis
  proof (rule visit_cases [OF b(1) out_pc [OF o] pos])
    fix st'
    assume out: "bt_visit J pc pos st = Some (None, st')" "bits_ok (s_bt st')" "s_oracle st' = s_oracle st"
    then have "bt_loop hold J (B_Go pc pos) st = bt_loop hold J B_Out st'" by (subst bt_loop.simps) (simp add: bt_at_def)
    then show ?thesis by (rule goes_step) (use out b in \<open>simp add: goes_out\<close>)
  next
    fix st'
    assume old: "bt_visit J pc pos st = Some (Some False, st')" "marks J {} st st'" "(pc, pos) \<in> seen J st"
    then have "bt_loop hold J (B_Go pc pos) st = bt_loop hold J B_Pop st'" by (subst bt_loop.simps) (simp add: bt_at_def)
    then show ?thesis
      by (rule goes_step [OF _ goes_pop]) (use old st tried_dead [OF tr old(3) o] in \<open>auto simp: bt_ok_def marks_def\<close>)
  next
    fix st1
    assume new: "bt_visit J pc pos st = Some (Some True, st1)" "marks J {(pc, pos)} st st1"
    then have m: "bt_ok J st1" "stack_of st1 = stack_of st" "slots_of st1 = slots_of st" "seen J st1 = insert (pc, pos) (seen J st)"
      using st by (simp_all add: bt_ok_def marks_def)
    have "tried E (j_insts J) (bt_acc J) k (seen J st1)" if "k < h" for k
      unfolding m(4) by (rule tried_insert [OF tried_mono [OF tr] out_hgt [OF o] that]) (use that in simp)
    from inst [OF m(1-3) this] obtain nx st2 where
      i: "bt_inst hold J pc pos st1 = Some (nx, st2)" "goes E J (stack_of st) (slots_of st) (seen J st1) L nx st2" by blast
    have "bt_loop hold J (B_Go pc pos) st = bt_loop hold J nx st2" using new(1) i(1) by (subst bt_loop.simps) (simp add: bt_at_def)
    then show ?thesis by (rule goes_step) (use goes_insert [OF o] i(2) m(4) in simp)
  qed
qed

end

section \<open>Runs\<close>

text \<open>A split of a greedy run of \<open>si\<close> that leaves to \<open>y\<close>.\<close>

definition chain_at :: "inst list \<Rightarrow> nat \<Rightarrow> nat \<Rightarrow> nat \<Rightarrow> bool" where
  "chain_at P si y sp \<longleftrightarrow> (\<exists>cpc cnext. get_at P sp = Some (I_Split cpc y) \<and> get_at P cpc = Some (I_Char si cnext))"

lemma run_split_total:
  assumes "opn P = {}" and "get_at P pc = Some i"
  shows "\<exists>b. run_split P pc si y = Some b \<and> (b \<longrightarrow> chain_at P si y pc)"
proof (cases i)
  case (I_Split x z)
  then obtain j where "get_at P x = Some j" using opn_target [OF assms, of 0 x] by auto
  then show ?thesis using assms(2) I_Split by (cases j) (auto simp: run_split_def chain_at_def)
qed (use assms(2) in \<open>auto simp: run_split_def\<close>)

lemma run_of_total:
  assumes o: "opn P = {}" and sp: "get_at P pc = Some (I_Split x y)"
  shows "\<exists>run. run_of P pc x y = Some run \<and> (case run of None \<Rightarrow> True | Some si \<Rightarrow> chain_at P si y pc)"
proof -
  obtain i where i: "get_at P x = Some i" using opn_target [OF o sp, of 0 x] by auto
  show ?thesis
  proof (cases i)
    case (I_Char si nx)
    then obtain j where "get_at P nx = Some j" using opn_target [OF o i, of 0 nx] by auto
    then obtain b where "run_split P nx si y = Some b" using run_split_total [OF o] by blast
    then show ?thesis using i I_Char sp by (auto simp: run_of_def chain_at_def)
  qed (use i in \<open>simp_all add: run_of_def\<close>)
qed

text \<open>The exits still to try below \<open>q\<close>.\<close>

definition exits_below :: "nat \<Rightarrow> nat \<Rightarrow> nat \<Rightarrow> bt_frame list \<Rightarrow> bt_frame list" where
  "exits_below y lo q stk = (if lo < q then B_Exits y lo (q - 1) # stk else stk)"

fun go_on :: "(nat \<times> nat) option \<Rightarrow> bt_next" where
  "go_on None = B_Pop"
| "go_on (Some (c, p)) = B_Go c p"

lemma char_out:
  assumes "get_at P pc = Some (I_Char si nx)" and "out E P h pc pos sl L"
  shows "\<not> hits E si pos \<Longrightarrow> L = []" "hits E si pos \<Longrightarrow> \<exists>k. h = Suc k \<and> out E P k nx (Suc pos) sl L"
  using paths_char_miss paths_char_hit assms by blast+

lemma split_out:
  assumes "get_at P pc = Some (I_Split x y)" and "out E P h pc pos sl L"
  obtains h1 h2 L1 L2 where "h = Suc (max h1 h2)" "L = L1 @ L2" "out E P h1 x pos sl L1" "out E P h2 y pos sl L2"
  using assms(2) by (cases rule: out.cases) (use assms(1) in auto)

context look_oracle
begin

lemma bt_ok_stack [simp]: "bt_ok J (with_stack fs st) = bt_ok J st" "bt_ok J (bt_push f st) = bt_ok J st"
  by (simp_all add: bt_ok_def)

text \<open>The furthest exit of a frame of exits, tried.\<close>

lemma goes_exit:
  assumes IH: "bt_explores E J h" and o: "out E (j_insts J) h y q sl L" and st: "bt_ok J st" "stack_of st = B_Exits y lo q # stk"
    "slots_of st = sl" and q: "j_from J \<le> q" "q \<le> j_limit J" "lo \<le> q" and tr: "tried E (j_insts J) (bt_acc J) h (seen J st)"
  shows "goes E J (exits_below y lo q stk) sl (seen J st) L B_Pop st"
proof -
  let ?st = "with_stack (exits_below y lo q stk) st"
  have "bt_loop hold J B_Pop st = bt_loop hold J (B_Go y q) ?st"
    using st(2) by (subst bt_loop.simps) (simp add: exits_below_def bt_push_def with_stack_def)
  then show ?thesis
    by (rule goes_step) (rule bt_exploresD [OF IH o], use st q tr in simp_all)
qed

lemma marks_ok: "marks J X st st' \<Longrightarrow> bt_ok J st \<Longrightarrow> bt_ok J st' \<and> stack_of st' = stack_of st \<and> slots_of st' = slots_of st \<and> seen J st' = X \<union> seen J st"
  by (simp add: marks_def bt_ok_def)

text \<open>
  A chain from a split newly visited: once the frame of its exits is pushed, the search goes through the
  paths of the split, leaving the exits before it.
\<close>

definition chain_goes :: "env \<Rightarrow> bt_job \<Rightarrow> nat \<Rightarrow> nat \<Rightarrow> outcome list \<Rightarrow> 'o bt_state \<Rightarrow> (nat \<times> (nat \<times> nat) option) option \<Rightarrow> 'o bt_state \<Rightarrow> bool" where
  "chain_goes E J y q L st r st' \<longleftrightarrow>
     bits_ok (s_bt st') \<and> okO (s_oracle st') \<and>
     (case r of None \<Rightarrow> True
      | Some (q', cont) \<Rightarrow> stack_of st' = stack_of st \<and>
          (\<forall>lo \<le> q. \<forall>stk. goes E J (exits_below y lo q stk) (slots_of st) (seen J st) L (go_on cont) (with_stack (B_Exits y lo q' # stk) st')))"

lemma chain_goesI:
  assumes IH: "bt_explores E J h2" and o: "out E (j_insts J) h2 y q (slots_of st) L2"
    and q: "j_from J \<le> q" "q \<le> j_limit J" and tr: "tried E (j_insts J) (bt_acc J) h2 (seen J st)"
    and ok: "bits_ok (s_bt st')" "okO (s_oracle st')" "stack_of st' = stack_of st"
    and first: "\<And>lo stk. lo \<le> q \<Longrightarrow> goes E J (B_Exits y lo q # stk) (slots_of st) (seen J st) L1 (go_on cont) (with_stack (B_Exits y lo q' # stk) st')"
  shows "chain_goes E J y q (L1 @ L2) st (Some (q', cont)) st'"
proof -
  have "goes E J (exits_below y lo q stk) (slots_of st) (seen J st) (L1 @ L2) (go_on cont) (with_stack (B_Exits y lo q' # stk) st')"
    if lo: "lo \<le> q" for lo stk
  proof (rule goes_then [OF first [OF lo]])
    fix st2
    assume s: "\<not> some_acc (bt_acc J) L1" "bt_ok J st2" "stack_of st2 = B_Exits y lo q # stk" "slots_of st2 = slots_of st"
      "fresh E (j_insts J) (bt_acc J) (seen J st) (seen J st2)"
    show "goes E J (exits_below y lo q stk) (slots_of st) (seen J st2) L2 B_Pop st2"
      by (rule goes_exit [OF IH o s(2-4) q lo tried_fresh [OF tr s(5)]])
  qed
  then show ?thesis using ok by (simp add: chain_goes_def)
qed

lemma bt_chain_correct:
  assumes J: "bt_setting E J nl" and IH: "\<And>k. k < h0 \<Longrightarrow> bt_explores E J k"
  shows "h \<le> h0 \<Longrightarrow> chain_at (j_insts J) si y sp \<Longrightarrow> out E (j_insts J) h sp q (slots_of st) L \<Longrightarrow> bt_ok J st \<Longrightarrow>
    j_from J \<le> q \<Longrightarrow> q \<le> j_limit J \<Longrightarrow> (\<And>k. k < h \<Longrightarrow> tried E (j_insts J) (bt_acc J) k (seen J st)) \<Longrightarrow>
    \<exists>r st'. bt_chain J si y sp q st = Some (r, st') \<and> chain_goes E J y q L st r st'"
proof (induction h arbitrary: sp q st L rule: less_induct)
  case (less h)
  let ?P = "j_insts J" and ?acc = "bt_acc J"
  obtain cpc cnext where g: "get_at ?P sp = Some (I_Split cpc y)" "get_at ?P cpc = Some (I_Char si cnext)"
    using less.prems(2) by (auto simp: chain_at_def)
  obtain h1 h2 L1 L2 where h: "h = Suc (max h1 h2)" "L = L1 @ L2"
    and o1: "out E ?P h1 cpc q (slots_of st) L1" and o2: "out E ?P h2 y q (slots_of st) L2"
    by (rule split_out [OF g(1) less.prems(3)])
  have si: "si < length (e_sets E)" using prog_inD [OF bt_settingD(1) [OF J] g(2)] by simp
  have IH2: "bt_explores E J h2" by (rule IH) (use h less.prems(1) in simp)
  have tr: "tried E ?P ?acc k (seen J st)" if "k < h" for k by (rule less.prems(7) [OF that])
  have tr2: "tried E ?P ?acc h2 (seen J st)" and tr1: "tried E ?P ?acc h1 (seen J st)" by (rule tr, simp add: h)+
  note goal = chain_goesI [OF IH2 o2 less.prems(5,6) tr2, of _ L1, folded h(2)]
  have b: "bits_ok (s_bt st)" "okO (s_oracle st)" using less.prems(4) by (simp_all add: bt_ok_def)
  show ?case
  proof (rule visit_cases [OF b(1) out_pc [OF o1] less.prems(5)])
    fix st1
    assume v: "bt_visit J cpc q st = Some (None, st1)" "bits_ok (s_bt st1)" "s_oracle st1 = s_oracle st"
    then have "bt_chain J si y sp q st = Some (None, st1)" by (subst bt_chain.simps) (simp add: g)
    then show ?thesis using v b by (auto simp: chain_goes_def)
  next
    fix st1
    assume v: "bt_visit J cpc q st = Some (Some False, st1)" "marks J {} st st1" "(cpc, q) \<in> seen J st"
    note m = marks_ok [OF v(2) less.prems(4)]
    have c: "bt_chain J si y sp q st = Some (Some (q, None), st1)" using v by (subst bt_chain.simps) (simp add: g)
    have "chain_goes E J y q L st (Some (q, None)) st1"
      by (rule goal) (use m b v tried_dead [OF tr1 v(3) o1] in \<open>auto simp: marks_def bt_ok_def intro!: goes_pop\<close>)
    then show ?thesis using c by blast
  next
    fix st1
    assume v: "bt_visit J cpc q st = Some (Some True, st1)" "marks J {(cpc, q)} st st1"
    note m = marks_ok [OF v(2) less.prems(4)]
    have r: "bt_reads J (j_limit J) si q = Some (hits E si q)"
      using bt_reads_hits [OF J si order_refl] bt_settingD(6) [OF J] by (auto simp: hits_def)
    have ok1: "bits_ok (s_bt st1)" "okO (s_oracle st1)" "stack_of st1 = stack_of st" using m by (simp_all add: bt_ok_def)
    have ins: "goes E J stk sl (seen J st) L1 nx s" if "goes E J stk sl (seen J st1) L1 nx s" for stk sl nx s
      by (rule goes_insert [OF o1]) (use that m in simp)
    show ?thesis
    proof (cases "hits E si q")
      case False
      have c: "bt_chain J si y sp q st = Some (Some (q, None), st1)" using v r False by (subst bt_chain.simps) (simp add: g)
      have "L1 = []" by (rule char_out(1) [OF g(2) o1 False])
      then have "chain_goes E J y q L st (Some (q, None)) st1"
        by (intro goal ok1 ins) (use m in \<open>auto intro!: goes_pop\<close>)
      then show ?thesis using c by blast
    next
      case True
      obtain h' where h': "h1 = Suc h'" and o': "out E ?P h' cnext (Suc q) (slots_of st) L1" using char_out(2) [OF g(2) o1 True] by blast
      have q1: "j_from J \<le> Suc q" "Suc q \<le> j_limit J" using True less.prems(5) bt_settingD(6) [OF J] by (auto simp: hits_def)
      have h'h: "h' < h" "h' < h0" using h h' less.prems(1) by auto
      obtain j where j: "get_at ?P cnext = Some j" using out_pc [OF o'] by (auto simp: get_at_def)
      obtain b where b: "run_split ?P cnext si y = Some b" "b \<longrightarrow> chain_at ?P si y cnext"
        using run_split_total [OF bt_settingD(2) [OF J] j] by blast
      then obtain on where on: "(if cnext = sp then Some True else run_split ?P cnext si y) = Some on" "on \<longrightarrow> chain_at ?P si y cnext"
        using less.prems(2) by (cases "cnext = sp") simp_all
      have trk: "tried E ?P ?acc k (seen J st1)" if "k \<le> h'" for k
      proof -
        have "tried E ?P ?acc k (insert (cpc, q) (seen J st))"
          by (rule tried_insert [OF tried_mono [OF tr1] out_hgt [OF o1]]) (use that h' in auto)
        then show ?thesis using m by simp
      qed
      show ?thesis
      proof (cases on)
        case False
        have c: "bt_chain J si y sp q st = Some (Some (q, Some (cnext, Suc q)), st1)"
          using v r True on(1) False by (subst bt_chain.simps) (simp add: g)
        have "chain_goes E J y q L st (Some (q, Some (cnext, Suc q))) st1"
        proof (intro goal ok1 ins)
          fix lo stk
          show "goes E J (B_Exits y lo q # stk) (slots_of st) (seen J st1) L1 (go_on (Some (cnext, Suc q))) (with_stack (B_Exits y lo q # stk) st1)"
            unfolding go_on.simps by (rule bt_exploresD [OF IH [OF h'h(2)] o']) (use m q1 trk in simp_all)
        qed
        then show ?thesis using c by blast
      next
        case chain: True
        show ?thesis
        proof (rule visit_cases [OF ok1(1) out_pc [OF o'] q1(1)])
          fix st2
          assume w: "bt_visit J cnext (Suc q) st1 = Some (None, st2)" "bits_ok (s_bt st2)" "s_oracle st2 = s_oracle st1"
          have "bt_chain J si y sp q st = Some (None, st2)" using v r True on(1) chain w by (subst bt_chain.simps) (simp add: g)
          then show ?thesis using w ok1 by (auto simp: chain_goes_def)
        next
          fix st2
          assume w: "bt_visit J cnext (Suc q) st1 = Some (Some False, st2)" "marks J {} st1 st2" "(cnext, Suc q) \<in> seen J st1"
          have m2: "bt_ok J st2" "stack_of st2 = stack_of st" "slots_of st2 = slots_of st" "seen J st2 = seen J st1"
            using marks_ok [OF w(2)] m by auto
          have c: "bt_chain J si y sp q st = Some (Some (q, None), st2)"
            using v r True on(1) chain w by (subst bt_chain.simps) (simp add: g)
          have "chain_goes E J y q L st (Some (q, None)) st2"
            by (intro goal ins)
              (use m2 tried_dead [OF trk [OF order_refl] w(3) o'] in \<open>auto simp: bt_ok_def intro!: goes_pop\<close>)
          then show ?thesis using c by blast
        next
          fix st2
          assume w: "bt_visit J cnext (Suc q) st1 = Some (Some True, st2)" "marks J {(cnext, Suc q)} st1 st2"
          have m2: "bt_ok J st2" "stack_of st2 = stack_of st" "slots_of st2 = slots_of st" "seen J st2 = insert (cnext, Suc q) (seen J st1)"
            using marks_ok [OF w(2)] m by auto
          have trk2: "tried E ?P ?acc k (seen J st2)" if "k < h'" for k
            unfolding m2(4) by (rule tried_insert [OF trk out_hgt [OF o']]) (use that in auto)
          have ch: "chain_at ?P si y cnext" using on(2) chain by simp
          obtain r3 st3 where c3: "bt_chain J si y cnext (Suc q) st2 = Some (r3, st3)" "chain_goes E J y (Suc q) L1 st2 r3 st3"
            using less.IH [OF h'h(1) less_imp_le [OF h'h(2)] ch, of "Suc q" st2 L1] o' m2 q1 trk2 by auto
          have c: "bt_chain J si y sp q st = Some (r3, st3)"
            using v r True on(1) chain w c3(1) by (subst bt_chain.simps) (simp add: g)
          have "chain_goes E J y q L st r3 st3"
          proof (cases r3)
            case None
            then show ?thesis using c3(2) by (simp add: chain_goes_def)
          next
            case (Some x)
            obtain q' cont where x: "r3 = Some (q', cont)" using Some by (cases x) auto
            have c4: "bits_ok (s_bt st3)" "okO (s_oracle st3)" "stack_of st3 = stack_of st"
              "\<And>lo stk. lo \<le> Suc q \<Longrightarrow> goes E J (exits_below y lo (Suc q) stk) (slots_of st2) (seen J st2) L1 (go_on cont) (with_stack (B_Exits y lo q' # stk) st3)"
              using c3(2) m2(2) unfolding chain_goes_def x by auto
            show ?thesis unfolding x
            proof (intro goal c4(1-3) ins)
              fix lo stk assume "lo \<le> q"
              then have e: "exits_below y lo (Suc q) stk = B_Exits y lo q # stk" by (simp add: exits_below_def)
              show "goes E J (B_Exits y lo q # stk) (slots_of st) (seen J st1) L1 (go_on cont) (with_stack (B_Exits y lo q' # stk) st3)"
                by (rule goes_insert [OF o']) (use c4(4) [of lo stk] \<open>lo \<le> q\<close> e m2 in simp)
            qed
          qed
          then show ?thesis using c by blast
        qed
      qed
    qed
  qed
qed

end

section \<open>Every instruction\<close>

lemma run_out:
  assumes "get_at P pc = Some (I_Run si mn mx greedy nx)" and "out E P h pc pos sl L"
  obtains H K where "h = Suc (Max (insert 0 (H ` set (run_stops E si mn mx greedy pos))))"
    "L = concat (map K (run_stops E si mn mx greedy pos))"
    "\<And>q. q \<in> set (run_stops E si mn mx greedy pos) \<Longrightarrow> out E P (H q) nx q sl (K q)"
  using assms(2) by (cases rule: out.cases) (use assms(1) in auto)

lemma run_height: "finite A \<Longrightarrow> q \<in> A \<Longrightarrow> H q < Suc (Max (insert 0 (H ` A)))"
  by (simp add: less_Suc_eq_le)

context look_oracle
begin

text \<open>The exits of a run, tried from the furthest back.\<close>

lemma goes_exits:
  assumes lo: "lo \<le> hi" and o: "\<And>q. lo \<le> q \<Longrightarrow> q \<le> hi \<Longrightarrow> out E (j_insts J) (H q) y q sl (K q)"
    and IH: "\<And>q. lo \<le> q \<Longrightarrow> q \<le> hi \<Longrightarrow> bt_explores E J (H q)"
    and pos: "j_from J \<le> lo" "hi \<le> j_limit J"
  shows "bt_ok J st \<Longrightarrow> stack_of st = B_Exits y lo hi # stk \<Longrightarrow> slots_of st = sl \<Longrightarrow>
    (\<And>q. lo \<le> q \<Longrightarrow> q \<le> hi \<Longrightarrow> tried E (j_insts J) (bt_acc J) (H q) (seen J st)) \<Longrightarrow>
    goes E J stk sl (seen J st) (concat (map K (rev [lo..<Suc hi]))) B_Pop st"
  using lo o IH pos
proof (induction "hi - lo" arbitrary: hi st)
  case 0
  then have "hi = lo" by simp
  then show ?case using goes_exit [of E J "H hi" y hi sl "K hi" st lo stk] 0 by (simp add: exits_below_def)
next
  case (Suc n)
  then have lt: "lo < hi" by simp
  then have e: "rev [lo..<Suc hi] = hi # rev [lo..<Suc (hi - 1)]" by simp
  have "goes E J (exits_below y lo hi stk) sl (seen J st) (K hi) B_Pop st"
    by (rule goes_exit [of E J "H hi"]) (use Suc in simp_all)
  then have g: "goes E J (B_Exits y lo (hi - 1) # stk) sl (seen J st) (K hi) B_Pop st" using lt by (simp add: exits_below_def)
  show ?case unfolding e list.map concat.simps
  proof (rule goes_then [OF g])
    fix st'
    assume s: "bt_ok J st'" "stack_of st' = B_Exits y lo (hi - 1) # stk" "slots_of st' = sl"
      "fresh E (j_insts J) (bt_acc J) (seen J st) (seen J st')"
    show "goes E J stk sl (seen J st') (concat (map K (rev [lo..<Suc (hi - 1)]))) B_Pop st'"
    proof (rule Suc.hyps(1) [OF _ s(1-3)])
      show "n = hi - 1 - lo" using Suc.hyps(2) by simp
      fix q assume "lo \<le> q" "q \<le> hi - 1"
      then show "tried E (j_insts J) (bt_acc J) (H q) (seen J st')" using tried_fresh [OF Suc.prems(4) s(4), of q] by simp
    qed (use lt Suc.prems in auto)
  qed
qed

text \<open>The exits of a lazy run, the nearest first.\<close>

lemma goes_lazy:
  assumes J: "bt_setting E J nl" and si: "si < length (e_sets E)" and cap: "cap \<le> j_limit J"
    and stop: "\<And>q. lo \<le> q \<Longrightarrow> q \<le> tp \<Longrightarrow> (q < cap \<and> hits E si q) = (q < tp)"
    and o: "\<And>q. lo \<le> q \<Longrightarrow> q \<le> tp \<Longrightarrow> out E (j_insts J) (H q) nx q sl (K q)"
    and IH: "\<And>q. lo \<le> q \<Longrightarrow> q \<le> tp \<Longrightarrow> bt_explores E J (H q)" and pos: "j_from J \<le> lo" "tp \<le> j_limit J"
  shows "lo \<le> at \<Longrightarrow> at \<le> tp \<Longrightarrow> bt_ok J st \<Longrightarrow> stack_of st = B_Lazy nx si at cap # stk \<Longrightarrow> slots_of st = sl \<Longrightarrow>
    (\<And>q. lo \<le> q \<Longrightarrow> q \<le> tp \<Longrightarrow> tried E (j_insts J) (bt_acc J) (H q) (seen J st)) \<Longrightarrow>
    goes E J stk sl (seen J st) (concat (map K [at..<Suc tp])) B_Pop st"
proof (induction "tp - at" arbitrary: at st rule: less_induct)
  case less
  let ?stk = "if at < tp then B_Lazy nx si (Suc at) cap # stk else stk"
  obtain ok st1 where c: "bt_charge J 1 (with_stack stk st) = (ok, st1)" by fastforce
  note f = charge_facts [OF c]
  have more: "(if at < cap then bt_reads J (j_limit J) si at else Some False) = Some (at < tp)"
    using bt_reads_hits [OF J si order_refl, of at] stop [OF less.prems(1,2)] cap by auto
  show ?case
  proof (cases ok)
    case False
    have "bt_loop hold J B_Pop st = bt_loop hold J B_Out st1" using less.prems(4) c False by (subst bt_loop.simps) simp
    then show ?thesis by (rule goes_step) (use f less.prems(3) in \<open>auto simp: bt_ok_def intro!: goes_out\<close>)
  next
    case True
    let ?st2 = "with_stack ?stk st1"
    have p: "stack_of st1 = stk" "slots_of st1 = sl" "seen J st1 = seen J st" "bt_ok J st1"
      using f less.prems(3,5) by (simp_all add: bt_ok_def)
    have "bt_loop hold J B_Pop st = bt_loop hold J (B_Go nx at) ?st2"
      using less.prems(4) c True more p(1) by (subst bt_loop.simps) (auto simp: bt_push_def with_stack_def)
    moreover have "goes E J ?stk sl (seen J st) (K at) (B_Go nx at) ?st2"
      by (rule bt_exploresD [OF IH o]) (use less.prems p pos in auto)
    ultimately have g: "goes E J ?stk sl (seen J st) (K at) B_Pop st" by (rule goes_step)
    show ?thesis
    proof (cases "at < tp")
      case False
      then have "at = tp" using less.prems(2) by simp
      then show ?thesis using g by simp
    next
      case lt: True
      have e: "[at..<Suc tp] = at # [Suc at..<Suc tp]" using lt by (simp add: upt_conv_Cons del: upt_Suc)
      have g: "goes E J (B_Lazy nx si (Suc at) cap # stk) sl (seen J st) (K at) B_Pop st" using g lt by simp
      show ?thesis unfolding e list.map concat.simps
      proof (rule goes_then [OF g])
        fix st'
        assume s: "bt_ok J st'" "stack_of st' = B_Lazy nx si (Suc at) cap # stk" "slots_of st' = sl"
          "fresh E (j_insts J) (bt_acc J) (seen J st) (seen J st')"
        have "tp - Suc at < tp - at" using lt by simp
        then show "goes E J stk sl (seen J st') (concat (map K [Suc at..<Suc tp])) B_Pop st'"
          by (rule less.hyps [OF _ _ _ s(1-3)]) (use lt less.prems tried_fresh [OF less.prems(6) s(4)] in auto)
      qed
    qed
  qed
qed

text \<open>The frames \<open>I_Save\<close> leaves put the slots back.\<close>

definition save_frames :: "nat \<Rightarrow> nat \<Rightarrow> int list \<Rightarrow> bt_frame list" where
  "save_frames ns slot sl =
     (if odd slot \<and> slot < ns - 2 then [B_Restore (ns - 2) (sl ! (ns - 2)), B_Restore slot (sl ! slot)]
      else [B_Restore slot (sl ! slot)])"

lemma bt_save_inst:
  assumes "get_at (j_insts J) pc = Some (I_Save slot nx)" and "slot < j_ns J" and "2 \<le> j_ns J" and "length (slots_of st) = j_ns J"
  shows "\<exists>st'. bt_inst hold J pc pos st = Some (B_Go nx pos, st') \<and> stack_of st' = save_frames (j_ns J) slot (slots_of st) @ stack_of st \<and>
    slots_of st' = save_slot (j_ns J) slot pos (slots_of st) \<and> seen J st' = seen J st \<and> s_oracle st' = s_oracle st \<and>
    bits_ok (s_bt st') = bits_ok (s_bt st)"
  using assms by (auto simp: bt_inst_def get_at_def put_at_def save_frames_def save_slot_def Let_def)

lemma bt_restore:
  assumes "stack_of st = B_Restore slot old # stk" and "slot < length (slots_of st)"
  shows "bt_loop hold J B_Pop st = bt_loop hold J B_Pop (with_stack stk (with_slots ((slots_of st)[slot := old]) st))"
  using assms by (cases "s_bt st") (subst bt_loop.simps, simp add: put_at_def with_stack_def with_slots_def)

lemma bt_restores:
  assumes "stack_of st = save_frames ns slot sl @ stk" and "slots_of st = save_slot ns slot pos sl"
    and "slot < ns" and "2 \<le> ns" and "length sl = ns"
  shows "bt_loop hold J B_Pop st = bt_loop hold J B_Pop (with_stack stk (with_slots sl st))"
proof (cases "odd slot \<and> slot < ns - 2")
  case True
  let ?st1 = "with_stack (B_Restore slot (sl ! slot) # stk) (with_slots ((slots_of st)[ns - 2 := sl ! (ns - 2)]) st)"
  have a: "bt_loop hold J B_Pop st = bt_loop hold J B_Pop ?st1"
    by (rule bt_restore) (use assms True in \<open>auto simp: save_frames_def\<close>)
  have s1: "slots_of ?st1 = (save_slot ns slot pos sl)[ns - 2 := sl ! (ns - 2)]" "stack_of ?st1 = B_Restore slot (sl ! slot) # stk"
    using assms(2) by simp_all
  have b: "bt_loop hold J B_Pop ?st1 = bt_loop hold J B_Pop (with_stack stk (with_slots ((slots_of ?st1)[slot := sl ! slot]) ?st1))"
    by (rule bt_restore [OF s1(2)]) (use assms in \<open>simp add: s1(1)\<close>)
  have "(slots_of ?st1)[slot := sl ! slot] = sl"
    unfolding s1(1) using True assms by (auto simp: save_slot_def Let_def list_eq_iff_nth_eq nth_list_update)
  then show ?thesis using a b by (simp add: with_stack_def with_slots_def)
next
  case False
  have "bt_loop hold J B_Pop st = bt_loop hold J B_Pop (with_stack stk (with_slots ((slots_of st)[slot := sl ! slot]) st))"
    by (rule bt_restore) (use assms False in \<open>auto simp: save_frames_def\<close>)
  moreover have "(slots_of st)[slot := sl ! slot] = sl"
    using False assms by (auto simp: save_slot_def Let_def list_eq_iff_nth_eq nth_list_update)
  ultimately show ?thesis by simp
qed

lemma seen_slots: "seen J (with_stack stk (with_slots sl st)) = seen J st"
  by simp

end

context look_oracle
begin

lemma goes_on:
  assumes "bt_explores E J h" and "out E (j_insts J) h nx pos sl L" and "bt_ok J st" and "stack_of st = stk" and "slots_of st = sl"
    and "j_from J \<le> pos" and "pos \<le> j_limit J" and "tried E (j_insts J) (bt_acc J) h (seen J st)"
  shows "goes E J stk sl (seen J st) L (B_Go nx pos) st"
  by (rule bt_exploresD [OF assms(1-3,6-8,4,5) refl])

text \<open>A split: the second side waits on the stack, or the run it starts is read at once.\<close>

lemma inst_split:
  assumes J: "bt_setting E J nl" and IH: "\<And>k. k < h \<Longrightarrow> bt_explores E J k"
    and i: "get_at (j_insts J) pc = Some (I_Split x y)" and o: "out E (j_insts J) h pc pos (slots_of st) L"
    and st: "bt_ok J st" and pos: "j_from J \<le> pos" "pos \<le> j_limit J"
    and tr: "\<And>k. k < h \<Longrightarrow> tried E (j_insts J) (bt_acc J) k (seen J st)"
  shows "\<exists>nx st2. bt_inst hold J pc pos st = Some (nx, st2) \<and> goes E J (stack_of st) (slots_of st) (seen J st) L nx st2"
proof -
  obtain run where run: "run_of (j_insts J) pc x y = Some run"
    "case run of None \<Rightarrow> True | Some si \<Rightarrow> chain_at (j_insts J) si y pc"
    using run_of_total [OF bt_settingD(2) [OF J] i] by blast
  show ?thesis
  proof (cases run)
    case None
    obtain h1 h2 L1 L2 where h: "h = Suc (max h1 h2)" "L = L1 @ L2" "out E (j_insts J) h1 x pos (slots_of st) L1"
      "out E (j_insts J) h2 y pos (slots_of st) L2"
      by (rule split_out [OF i o])
    let ?st = "bt_push (B_Explore y pos) st"
    have "goes E J (B_Explore y pos # stack_of st) (slots_of st) (seen J ?st) L1 (B_Go x pos) ?st"
      by (rule goes_on [OF IH h(3)]) (use h st pos tr in simp_all)
    then have g: "goes E J (B_Explore y pos # stack_of st) (slots_of st) (seen J st) L1 (B_Go x pos) ?st" by simp
    have "goes E J (stack_of st) (slots_of st) (seen J st) (L1 @ L2) (B_Go x pos) ?st"
    proof (rule goes_then [OF g])
      fix st'
      assume s: "bt_ok J st'" "stack_of st' = B_Explore y pos # stack_of st" "slots_of st' = slots_of st"
        "fresh E (j_insts J) (bt_acc J) (seen J st) (seen J st')"
      have "bt_loop hold J B_Pop st' = bt_loop hold J (B_Go y pos) (with_stack (stack_of st) st')"
        using s(2) by (subst bt_loop.simps) simp
      moreover have "goes E J (stack_of st) (slots_of st) (seen J (with_stack (stack_of st) st')) L2 (B_Go y pos) (with_stack (stack_of st) st')"
        by (rule goes_on [OF IH h(4)]) (use h s pos tried_fresh [OF tr s(4), of h2] in simp_all)
      ultimately show "goes E J (stack_of st) (slots_of st) (seen J st') L2 B_Pop st'" unfolding seen_simps by (rule goes_step)
    qed
    moreover have "bt_inst hold J pc pos st = Some (B_Go x pos, ?st)" using i run(1) None by (simp add: bt_inst_def)
    ultimately show ?thesis unfolding h(2) by blast
  next
    case (Some si)
    then have ch: "chain_at (j_insts J) si y pc" using run(2) by simp
    obtain r st' where c: "bt_chain J si y pc pos st = Some (r, st')" "chain_goes E J y pos L st r st'"
      using bt_chain_correct [OF J IH order_refl ch o st pos tr] by blast
    show ?thesis
    proof (cases r)
      case None
      then have "bt_inst hold J pc pos st = Some (B_Out, st')" using i run(1) Some c(1) by (simp add: bt_inst_def)
      moreover have "goes E J (stack_of st) (slots_of st) (seen J st) L B_Out st'"
        using c(2) by (intro goes_out) (simp_all add: chain_goes_def)
      ultimately show ?thesis by blast
    next
      case (Some z)
      obtain q cont where r: "r = Some (q, cont)" using Some by (cases z) auto
      have g: "goes E J (exits_below y pos pos (stack_of st)) (slots_of st) (seen J st) L (go_on cont) (with_stack (B_Exits y pos q # stack_of st) st')"
        and s: "stack_of st' = stack_of st"
        using c(2) unfolding chain_goes_def r by auto
      have "bt_inst hold J pc pos st = Some (go_on cont, with_stack (B_Exits y pos q # stack_of st) st')"
        using i run(1) \<open>run = Some si\<close> c(1) r s by (cases cont) (auto simp: bt_inst_def bt_push_def)
      then show ?thesis using g by (simp add: exits_below_def)
    qed
  qed
qed

text \<open>A repeat of one set, read at once.\<close>

lemma inst_run:
  assumes J: "bt_setting E J nl" and IH: "\<And>k. k < h \<Longrightarrow> bt_explores E J k"
    and i: "get_at (j_insts J) pc = Some (I_Run si mn mx greedy nx)" and o: "out E (j_insts J) h pc pos (slots_of st) L"
    and st: "bt_ok J st" and pos: "j_from J \<le> pos" "pos \<le> j_limit J"
    and tr: "\<And>k. k < h \<Longrightarrow> tried E (j_insts J) (bt_acc J) k (seen J st)"
  shows "\<exists>nx st2. bt_inst hold J pc pos st = Some (nx, st2) \<and> goes E J (stack_of st) (slots_of st) (seen J st) L nx st2"
proof -
  let ?qs = "run_stops E si mn mx greedy pos" and ?r = "run_len E si pos"
  let ?cap = "if mx = HOLE then j_limit J else min (j_limit J) (pos + mx)"
  let ?n = "if mx = HOLE then ?r else min mx ?r"
  obtain H K where h: "h = Suc (Max (insert 0 (H ` set ?qs)))" and L: "L = concat (map K ?qs)"
    and ok: "\<And>q. q \<in> set ?qs \<Longrightarrow> out E (j_insts J) (H q) nx q (slots_of st) (K q)"
    using run_out [OF i o] by blast
  have lt: "H q < h" if "q \<in> set ?qs" for q using run_height [of "set ?qs" q H] that h by simp
  have si: "si < length (e_sets E)" using prog_inD [OF bt_settingD(1) [OF J] i] by simp
  have r: "pos + ?r \<le> j_limit J" using run_len_bound [of pos E si] pos bt_settingD(6) [OF J] by simp
  have cap: "pos \<le> ?cap" "?cap \<le> j_limit J" "min (?cap - pos) ?r = ?n" using pos r by auto
  have qs: "set ?qs = {pos + mn..pos + ?n}"
  proof -
    have "set ?qs = (\<lambda>k. pos + k) ` {mn..<Suc ?n}" by (simp add: run_stops_def Let_def del: upt_Suc)
    then show ?thesis by (auto simp: image_iff)
  qed
  show ?thesis
  proof (cases "mn \<le> ?n")
    case False
    then have "set ?qs = {}" unfolding qs by simp
    then have "?qs = []" by simp
    then have dead: "\<not> some_acc (bt_acc J) L" by (simp add: L)
    have pop: "goes E J (stack_of st) (slots_of st) (seen J st) L (if b then B_Pop else B_Out) st2"
      if "s_bt st2 = s_bt st" "s_oracle st2 = s_oracle st" for b st2
    proof (cases b)
      case True
      have "goes E J (stack_of st) (slots_of st) (seen J st) L B_Pop st2"
        by (rule goes_pop [OF dead]) (use that st in \<open>simp_all add: bt_ok_def seen_def\<close>)
      then show ?thesis using True by simp
    next
      case False
      have "goes E J (stack_of st) (slots_of st) (seen J st) L B_Out st2"
        by (rule goes_out) (use that st in \<open>simp_all add: bt_ok_def\<close>)
      then show ?thesis using False by simp
    qed
    show ?thesis
    proof (cases "pos + mn > ?cap")
      case True
      then have "bt_inst hold J pc pos st = Some (if True then B_Pop else B_Out, st)" using i by (simp add: bt_inst_def Let_def)
      then show ?thesis using pop [of st True] by blast
    next
      case in_cap: False
      let ?e = "if greedy then ?cap else pos + mn"
      have "?e \<le> j_limit J" "pos \<le> ?e" using in_cap cap by auto
      note to = bt_run_to_len [OF J si this]
      have low: "pos + min (?e - pos) ?r < pos + mn" using False in_cap cap(3) by (auto simp: min_def split: if_splits)
      obtain b st2 where c: "bt_charge J (min (?e - pos) ?r div 4) st = (b, st2)" by fastforce
      have "bt_inst hold J pc pos st = Some (if b then B_Pop else B_Out, st2)"
        using i in_cap to low c by (simp add: bt_inst_def Let_def)
      then show ?thesis using pop [OF charge_facts(1,2) [OF c]] by blast
    qed
  next
    case True
    then have in_cap: "\<not> pos + mn > ?cap" using r by (auto split: if_splits)
    have bounds: "j_from J \<le> pos + mn" "pos + ?n \<le> j_limit J" using pos r by (auto split: if_splits)
    show ?thesis
    proof (cases greedy)
      case g: True
      note to = bt_run_to_len [OF J si cap(2,1), unfolded cap(3)]
      obtain b st2 where c: "bt_charge J (?n div 4) st = (b, st2)" by fastforce
      note f = charge_facts [OF c]
      have inst: "bt_inst hold J pc pos st = Some (if b then (B_Pop, bt_push (B_Exits nx (pos + mn) (pos + ?n)) st2) else (B_Out, st2))"
        using i in_cap to True g c by (simp add: bt_inst_def Let_def)
      have "map (\<lambda>k. pos + k) [mn..<Suc ?n] = [pos + mn..<Suc (pos + ?n)]"
        by (intro nth_equalityI) (simp_all add: True del: upt_Suc)
      then have e: "?qs = rev [pos + mn..<Suc (pos + ?n)]" using g by (simp add: run_stops_def Let_def del: upt_Suc)
      have "goes E J (stack_of st) (slots_of st) (seen J (bt_push (B_Exits nx (pos + mn) (pos + ?n)) st2)) L B_Pop (bt_push (B_Exits nx (pos + mn) (pos + ?n)) st2)"
        unfolding L e
        by (rule goes_exits [where H = H and sl = "slots_of st"])
          (use True ok lt IH tr qs bounds st f in \<open>auto simp: bt_ok_def\<close>)
      then show ?thesis using inst f st goes_out [of st2 E J "stack_of st" "slots_of st" "seen J st" L]
        by (cases b) (auto simp: bt_ok_def)
    next
      case g: False
      have "pos \<le> pos + mn" "pos + mn \<le> j_limit J" using in_cap cap(2) by auto
      note to = bt_run_to_len [OF J si this(2,1)]
      have mr: "min (pos + mn - pos) ?r = mn" using True by (auto split: if_splits)
      obtain b st2 where c: "bt_charge J (mn div 4) st = (b, st2)" by fastforce
      note f = charge_facts [OF c]
      have inst: "bt_inst hold J pc pos st = Some (if b then (B_Pop, bt_push (B_Lazy nx si (pos + mn) ?cap) st2) else (B_Out, st2))"
        using i in_cap to mr g c by (simp add: bt_inst_def Let_def)
      have "map (\<lambda>k. pos + k) [mn..<Suc ?n] = [pos + mn..<Suc (pos + ?n)]"
        by (intro nth_equalityI) (simp_all add: True del: upt_Suc)
      then have e: "?qs = [pos + mn..<Suc (pos + ?n)]" using g by (simp add: run_stops_def Let_def del: upt_Suc)
      have stop: "(q < ?cap \<and> hits E si q) = (q < pos + ?n)" if "pos + mn \<le> q" "q \<le> pos + ?n" for q
      proof -
        have q: "q - pos \<le> ?r" "pos + (q - pos) = q" using that by (auto split: if_splits)
        have "hits E si q \<longleftrightarrow> q - pos < ?r"
          using run_len_tail [OF q(1)] run_len_step [of E si q] q by (cases "hits E si q") auto
        then show ?thesis using that r pos by auto
      qed
      have "goes E J (stack_of st) (slots_of st) (seen J (bt_push (B_Lazy nx si (pos + mn) ?cap) st2)) L B_Pop (bt_push (B_Lazy nx si (pos + mn) ?cap) st2)"
        unfolding L e
        by (rule goes_lazy [where lo = "pos + mn" and tp = "pos + ?n" and H = H and sl = "slots_of st", OF J si cap(2) stop])
          (use True ok lt IH tr qs bounds st f in \<open>auto simp: bt_ok_def\<close>)
      then show ?thesis using inst f st goes_out [of st2 E J "stack_of st" "slots_of st" "seen J st" L]
        by (cases b) (auto simp: bt_ok_def)
    qed
  qed
qed

end

context look_oracle
begin

lemma bt_explores_all:
  assumes J: "bt_setting E J nl" and lk: "e_look E = lk" and fin: "j_limit J \<le> j_end J"
  shows "bt_explores E J h"
proof (induction h rule: less_induct)
  case (less h)
  let ?P = "j_insts J"
  note P = bt_settingD [OF J]
  show ?case unfolding bt_explores_def
  proof (intro allI impI)
    fix pc pos L st
    assume o: "out E ?P h pc pos (slots_of st) L" and st: "bt_ok J st" and pos: "j_from J \<le> pos" "pos \<le> j_limit J"
      and tr: "tried E ?P (bt_acc J) h (seen J st)"
    show "goes E J (stack_of st) (slots_of st) (seen J st) L (B_Go pc pos) st"
    proof (rule bt_enter [OF o st pos(1) tr])
      fix st1
      assume s1: "bt_ok J st1" "stack_of st1 = stack_of st" "slots_of st1 = slots_of st"
        "\<And>k. k < h \<Longrightarrow> tried E ?P (bt_acc J) k (seen J st1)"
      let ?goal = "\<exists>nx st2. bt_inst hold J pc pos st1 = Some (nx, st2) \<and> goes E J (stack_of st) (slots_of st) (seen J st1) L nx st2"
      have pop: ?goal if "L = []" "bt_inst hold J pc pos st1 = Some (B_Pop, st2)" "bt_ok J st2" "stack_of st2 = stack_of st1"
        "slots_of st2 = slots_of st1" "seen J st2 = seen J st1" for st2
      proof -
        have "goes E J (stack_of st) (slots_of st) (seen J st1) L B_Pop st2" using that s1 by (intro goes_pop) simp_all
        then show ?thesis using that(2) by blast
      qed
      have on: ?goal if "bt_inst hold J pc pos st1 = Some (B_Go nx p, st2)" "k < h" "out E ?P k nx p (slots_of st) L"
        "bt_ok J st2" "stack_of st2 = stack_of st" "slots_of st2 = slots_of st" "seen J st2 = seen J st1" "p = pos \<or> p = Suc pos \<and> Suc pos \<le> j_limit J"
        for nx p st2 k
      proof -
        have "goes E J (stack_of st) (slots_of st) (seen J st2) L (B_Go nx p) st2"
          by (rule goes_on [OF less [OF that(2)] that(3-6)]) (use that s1(4) pos in auto)
        then show ?thesis using that(1,7) by auto
      qed
      show ?goal
      proof (cases "?P ! pc")
        case (I_Split x y)
        then have g: "get_at ?P pc = Some (I_Split x y)" using out_pc [OF o] by (simp add: get_at_def)
        show ?thesis using inst_split [OF J less g, where st = st1 and pos = pos and L = L] o s1 pos by simp
      next
        case (I_Run si mn mx greedy nx)
        then have g: "get_at ?P pc = Some (I_Run si mn mx greedy nx)" using out_pc [OF o] by (simp add: get_at_def)
        show ?thesis using inst_run [OF J less g, where st = st1 and pos = pos and L = L] o s1 pos by simp
      next
        case (I_Char si nx)
        then have g: "get_at ?P pc = Some (I_Char si nx)" using out_pc [OF o] by (simp add: get_at_def)
        have "si < length (e_sets E)" using prog_inD [OF P(1) g] by simp
        then have r: "bt_reads J (j_limit J) si pos = Some (hits E si pos)"
          using bt_reads_hits [OF J _ order_refl] P(6) by (auto simp: hits_def)
        show ?thesis
        proof (cases "hits E si pos")
          case True
          then obtain k where k: "h = Suc k" "out E ?P k nx (Suc pos) (slots_of st) L" using char_out(2) [OF g o] by blast
          have "Suc pos \<le> j_limit J" using True P(6) by (simp add: hits_def)
          then show ?thesis using on [of nx "Suc pos" st1 k] k g r True s1 by (simp add: bt_inst_def)
        next
          case False
          then show ?thesis using pop [of st1] char_out(1) [OF g o] g r s1 by (simp add: bt_inst_def)
        qed
      next
        case (I_Jmp nx)
        then have g: "get_at ?P pc = Some (I_Jmp nx)" using out_pc [OF o] by (simp add: get_at_def)
        from o obtain k where "h = Suc k" "out E ?P k nx pos (slots_of st) L" by (cases rule: out.cases) (use g in auto)
        then show ?thesis using on [of nx pos st1 k] g s1 by (simp add: bt_inst_def)
      next
        case (I_Guard nx)
        then have g: "get_at ?P pc = Some (I_Guard nx)" using out_pc [OF o] by (simp add: get_at_def)
        have le: "pos \<le> e_end E" "pos \<le> j_end J" using pos P(6) fin by simp_all
        from o obtain k where "h = Suc k" "out E ?P k nx pos (slots_of st) L" by (cases rule: out.cases) (use g le in auto)
        then show ?thesis using on [of nx pos st1 k] g s1 le by (simp add: bt_inst_def)
      next
        case (I_Look l nx)
        then have g: "get_at ?P pc = Some (I_Look l nx)" using out_pc [OF o] by (simp add: get_at_def)
        have "l < nl" using prog_inD [OF P(1) g] by simp
        then obtain o2 where o2: "hold l pos (s_oracle st1) = Some (lk l pos, o2)" "okO o2"
          using hold_correct [of "s_oracle st1" l pos] s1(1) by (auto simp: bt_ok_def)
        let ?st2 = "st1\<lparr>s_oracle := o2\<rparr>"
        have s2: "bt_ok J ?st2" "stack_of ?st2 = stack_of st" "slots_of ?st2 = slots_of st" "seen J ?st2 = seen J st1"
          using s1 o2(2) by (simp_all add: bt_ok_def)
        show ?thesis
        proof (cases "lk l pos")
          case True
          from o obtain k where "h = Suc k" "out E ?P k nx pos (slots_of st) L" by (cases rule: out.cases) (use g lk True in auto)
          then show ?thesis using on [of nx pos ?st2 k] g s2 o2(1) True by (simp add: bt_inst_def)
        next
          case False
          from o have "L = []" by (cases rule: out.cases) (use g lk False in auto)
          then show ?thesis using pop [of ?st2] g s1 s2 o2(1) False by (simp add: bt_inst_def)
        qed
      next
        case (I_Save slot nx)
        then have g: "get_at ?P pc = Some (I_Save slot nx)" using out_pc [OF o] by (simp add: get_at_def)
        have ns: "slot < j_ns J" "2 \<le> j_ns J" "length (slots_of st1) = j_ns J"
          using prog_inD [OF P(1) g] P(1,4) s1(1) by (simp_all add: prog_in_def bt_ok_def)
        from o obtain k where k: "h = Suc k" "out E ?P k nx pos (save_slot (e_slots E) slot pos (slots_of st)) L"
          by (cases rule: out.cases) (use g in auto)
        obtain st2 where st2: "bt_inst hold J pc pos st1 = Some (B_Go nx pos, st2)"
          "stack_of st2 = save_frames (j_ns J) slot (slots_of st) @ stack_of st" "slots_of st2 = save_slot (j_ns J) slot pos (slots_of st)"
          "seen J st2 = seen J st1" "s_oracle st2 = s_oracle st1" "bits_ok (s_bt st2) = bits_ok (s_bt st1)"
          using bt_save_inst [OF g ns, of pos] unfolding s1(2,3) by blast
        have len: "length (slots_of st) = j_ns J" using ns s1 by simp
        have ok2: "bt_ok J st2" using s1(1) st2(3,5,6) len by (simp add: bt_ok_def)
        have tk: "tried E ?P (bt_acc J) k (seen J st2)" unfolding st2(4) by (rule s1(4)) (simp add: k(1))
        have "goes E J (stack_of st2) (slots_of st2) (seen J st2) L (B_Go nx pos) st2"
          by (rule goes_on [OF less _ ok2 refl refl pos tk]) (use k P(4) st2(3) in simp_all)
        then have sub: "goes E J (save_frames (j_ns J) slot (slots_of st) @ stack_of st) (save_slot (j_ns J) slot pos (slots_of st)) (seen J st1) L (B_Go nx pos) st2"
          by (simp only: st2)
        have "goes E J (stack_of st) (slots_of st) (seen J st1) (L @ []) (B_Go nx pos) st2"
        proof (rule goes_then [OF sub])
          fix st3
          assume s3: "bt_ok J st3" "stack_of st3 = save_frames (j_ns J) slot (slots_of st) @ stack_of st"
            "slots_of st3 = save_slot (j_ns J) slot pos (slots_of st)"
          let ?st4 = "with_stack (stack_of st) (with_slots (slots_of st) st3)"
          have "goes E J (stack_of st) (slots_of st) (seen J st3) [] B_Pop ?st4"
            by (rule goes_pop) (use s3 len in \<open>simp_all add: bt_ok_def\<close>)
          with bt_restores [OF s3(2,3) ns(1,2) len] show "goes E J (stack_of st) (slots_of st) (seen J st3) [] B_Pop st3"
            by (rule goes_step)
        qed
        then show ?thesis using st2(1) by simp
      next
        case I_Match
        then have g: "get_at ?P pc = Some I_Match" using out_pc [OF o] by (simp add: get_at_def)
        from o have L: "L = [(pos, slots_of st)]" by (cases rule: out.cases) (use g in auto)
        show ?thesis
        proof (cases "bt_acc J pos")
          case True
          have "goes E J (stack_of st) (slots_of st) (seen J st1) L (B_Found (slots_of st) pos) st1"
            using True s1(1) by (simp add: goes_def bt_loop.simps L bt_ok_def)
          moreover have "bt_inst hold J pc pos st1 = Some (B_Found (slots_of st) pos, st1)"
            using g True s1 by (simp add: bt_inst_def bt_acc_def)
          ultimately show ?thesis by blast
        next
          case False
          have "goes E J (stack_of st) (slots_of st) (seen J st1) L B_Pop st1"
            by (rule goes_pop) (use False s1 in \<open>simp_all add: L some_acc_def\<close>)
          moreover have "bt_inst hold J pc pos st1 = Some (B_Pop, st1)" using g False by (simp add: bt_inst_def bt_acc_def)
          ultimately show ?thesis by blast
        qed
      qed
    qed
  qed
qed

text \<open>
  The search returns; unless out of steps, what it returns is the first accepted path. Its buffers are fit for
  the next search, of any program.
\<close>

lemma dfs_correct:
  assumes J: "bt_setting E J nl" and lk: "e_look E = lk" and fin: "j_limit J \<le> j_end J"
    and le: "j_from J \<le> j_limit J" and bt: "bits_ok bt" and ora: "okO ora"
    and o: "outs E (j_insts J) start (j_from J) (replicate (j_ns J) (-1)) L"
  shows "\<exists>r bt' ora' spent'. dfs hold J start bt ora spent = Some (r, bt', ora', spent') \<and> bits_ok bt' \<and> okO ora' \<and>
    (r = Inl OutOfSteps \<or> r = Inr (map_option (\<lambda>x. (snd x, fst x)) (first_acc (bt_acc J) L)))"
proof -
  obtain vs where vs: "bt_wipe bt = Some vs" "\<forall>i < length vs. vs ! i = 0"
    using bt by (auto simp: bits_ok_def bt_wipe_def nth_append)
  let ?st = "\<lparr>s_bt = \<lparr>bt_visited = vs, bt_used = 0, bt_stack = [B_Explore start (j_from J)], bt_slots = replicate (j_ns J) (-1)\<rparr>,
             s_steps = 0, s_spent = spent, s_oracle = ora\<rparr> :: 'o bt_state"
  let ?st1 = "with_stack [] ?st"
  obtain h where h: "out E (j_insts J) h start (j_from J) (replicate (j_ns J) (-1)) L" using o by (auto simp: outs_def)
  have ok: "bt_ok J ?st1" using vs(2) ora by (simp add: bt_ok_def bits_ok_def)
  have "seen J ?st1 = {}" using vs(2) by (auto simp: seen_def seen_in_def bit_at_def)
  then have "tried E (j_insts J) (bt_acc J) h (seen J ?st1)" by (simp add: tried_def)
  then have "goes E J [] (replicate (j_ns J) (-1)) (seen J ?st1) L (B_Go start (j_from J)) ?st1"
    by (intro goes_on [OF bt_explores_all [OF J lk fin] h ok]) (use le in simp_all)
  moreover have "bt_loop hold J B_Pop ?st = bt_loop hold J (B_Go start (j_from J)) ?st1" by (subst bt_loop.simps) simp
  ultimately have g: "goes E J [] (replicate (j_ns J) (-1)) (seen J ?st1) L B_Pop ?st" by (rule goes_step [rotated])
  have none: "bt_loop hold J B_Pop st = Some (Inr None, st)" if "stack_of st = []" for st
    using that by (subst bt_loop.simps) simp
  obtain r st' where r: "bt_loop hold J B_Pop ?st = Some (r, st')" "bits_ok (s_bt st')" "okO (s_oracle st')"
    "r = Inl OutOfSteps \<or> r = Inr (map_option (\<lambda>x. (snd x, fst x)) (first_acc (bt_acc J) L))"
  proof -
    consider (over) r st' x where "bt_loop hold J B_Pop ?st = Some (r, st')" "bits_ok (s_bt st')" "okO (s_oracle st')"
        "r = Inl OutOfSteps \<or> first_acc (bt_acc J) L = Some x \<and> r = Inr (Some (snd x, fst x))"
      | (none) st' where "\<not> some_acc (bt_acc J) L" "bt_loop hold J B_Pop ?st = bt_loop hold J B_Pop st'" "bt_ok J st'" "stack_of st' = []"
      using g unfolding goes_def by blast
    then show thesis
    proof cases
      case over
      then show thesis by (intro that [OF over(1-3)]) auto
    next
      case n: none
      have "first_acc (bt_acc J) L = None" using n(1) by (simp only: first_acc_None not_False_eq_True)
      then show thesis using n none [OF n(4)] by (intro that [of "Inr None" st']) (simp_all add: bt_ok_def)
    qed
  qed
  have "dfs hold J start bt ora spent = Some (r, s_bt st', s_oracle st', s_spent st')" using vs(1) r(1) by (simp add: dfs_def)
  then show ?thesis using r(2-4) by blast
qed

end
end
