(* ===== verification/Backtrack_Steps.thy ===== *)
theory Backtrack_Steps
  imports Backtrack
begin

text \<open>
  The steps of a search (\<^verbatim>\<open>linre/backtrack.rs\<close>): every instruction is charged for when it is first visited, a
  run for its length there, and the stops of a lazy run one by one. So a search of \<open>n\<close> positions costs at most
  \<open>step_weight\<close> for each of its pairs of an instruction and a position, and with a budget above that it never
  answers that it is out of steps.
\<close>

section \<open>What a search may cost\<close>

definition bt_pairs :: "bt_job \<Rightarrow> (nat \<times> nat) set" where
  "bt_pairs J = {..<length (j_insts J)} \<times> {j_from J..j_limit J}"

definition step_weight :: "bt_job \<Rightarrow> nat" where
  "step_weight J = (let n = j_limit J - j_from J in n div 4 + n + 2)"

definition step_bound :: "bt_job \<Rightarrow> nat" where
  "step_bound J = step_weight J * (length (j_insts J) * (j_limit J - j_from J + 1))"

fun frame_cost :: "bt_frame \<Rightarrow> nat" where
  "frame_cost (B_Lazy nx si at stop) = stop - at + 1"
| "frame_cost _ = 0"

text \<open>Steps spent, and steps the unvisited pairs and the frames may still cost.\<close>

definition bt_paid :: "bt_job \<Rightarrow> 'o bt_state \<Rightarrow> nat" where
  "bt_paid J st = s_steps st + step_weight J * card (bt_pairs J - seen J st) + sum_list (map frame_cost (stack_of st))"

fun frame_within :: "bt_job \<Rightarrow> bt_frame \<Rightarrow> bool" where
  "frame_within J (B_Explore pc pos) \<longleftrightarrow> j_from J \<le> pos \<and> pos \<le> j_limit J"
| "frame_within J (B_Restore slot old) \<longleftrightarrow> True"
| "frame_within J (B_Exits exit lo hi) \<longleftrightarrow> j_from J \<le> lo \<and> lo \<le> hi \<and> hi \<le> j_limit J"
| "frame_within J (B_Lazy nx si at stop) \<longleftrightarrow> j_from J \<le> at \<and> at \<le> stop \<and> stop \<le> j_limit J"

fun next_within :: "bt_job \<Rightarrow> bt_next \<Rightarrow> bool" where
  "next_within J (B_Go pc pos) \<longleftrightarrow> j_from J \<le> pos \<and> pos \<le> j_limit J"
| "next_within J B_Out \<longleftrightarrow> False"
| "next_within J _ \<longleftrightarrow> True"

text \<open>With \<open>k\<close> steps to spare.\<close>

definition affords :: "bt_job \<Rightarrow> nat \<Rightarrow> 'o bt_state \<Rightarrow> bool" where
  "affords J k st \<longleftrightarrow>
     bits_ok (s_bt st) \<and> (\<forall>f \<in> set (stack_of st). frame_within J f) \<and> bt_paid J st + k < j_budget J \<and>
     j_limit J - j_from J < max_rows (j_insts J)"

lemma affords_less: "affords J k st \<Longrightarrow> l \<le> k \<Longrightarrow> affords J l st"
  by (simp add: affords_def)

lemma paid_steps: "s_steps st \<le> bt_paid J st"
  by (simp add: bt_paid_def)

lemma steps_simps [simp]:
  "s_steps (with_visited v n st) = s_steps st" "s_steps (with_stack fs st) = s_steps st" "s_steps (with_slots sl st) = s_steps st"
  "s_steps (bt_push f st) = s_steps st" "s_steps (bt_reach need st) = s_steps st"
  by (simp_all add: with_visited_def with_stack_def with_slots_def bt_push_def bt_reach_def)

lemma affords_slots [simp]: "affords J k (with_slots sl st) = affords J k st"
  by (simp add: affords_def bt_paid_def)

lemma affords_oracle [simp]: "affords J k (st\<lparr>s_oracle := o1\<rparr>) = affords J k st"
  by (simp add: affords_def bt_paid_def)

lemma affords_push: "affords J (k + frame_cost f) st \<Longrightarrow> frame_within J f \<Longrightarrow> affords J k (bt_push f st)"
  by (simp add: affords_def bt_paid_def)

lemma affords_pop: "affords J k st \<Longrightarrow> stack_of st = f # fs \<Longrightarrow> affords J (k + frame_cost f) (with_stack fs st) \<and> frame_within J f"
  by (simp add: affords_def bt_paid_def)

lemma affords_charge:
  assumes "affords J k st" and "bt_charge J n st = (ok, st')" and "n \<le> k"
  shows "ok" "affords J (k - n) st'" "stack_of st' = stack_of st"
proof -
  have s: "s_steps st' = s_steps st + n" "s_bt st' = s_bt st" "ok \<longleftrightarrow> s_steps st + n \<le> j_budget J"
    using assms(2) by (auto simp: bt_charge_def)
  show "ok" using assms(1,3) paid_steps [of st J] by (simp add: s affords_def)
  show "affords J (k - n) st'" using assms(1,3) by (simp add: s affords_def bt_paid_def seen_def)
  show "stack_of st' = stack_of st" by (simp add: s)
qed

section \<open>Visits\<close>

lemma visit_steps:
  assumes "bt_visit J pc pos st = Some (v, st')" and "pos - j_from J < max_rows (j_insts J)"
  obtains (old) need where "v = Some False" "st' = bt_reach need st"
  | (new) "v = (if s_steps st + 1 \<le> j_budget J then Some True else None)" "s_steps st' = s_steps st + 1"
  using assms by (auto simp: bt_visit_def bt_charge_def Let_def split: if_splits bind_splits)

lemma affords_reach: "affords J k st \<Longrightarrow> affords J k (bt_reach need st) \<and> stack_of (bt_reach need st) = stack_of st"
  using reach_facts(1,3,4) [where st = st and need = need] by (simp add: affords_def bt_paid_def)

lemma finite_pairs [simp]: "finite (bt_pairs J)"
  by (simp add: bt_pairs_def)

lemma affords_visit:
  assumes a: "affords J k st" and v: "bt_visit J pc pos st = Some (v, st')" and pos: "j_from J \<le> pos" "pos \<le> j_limit J"
  shows "v \<noteq> None" "v = Some False \<Longrightarrow> affords J k st'"
    "pc < length (j_insts J) \<Longrightarrow> v = Some True \<Longrightarrow> affords J (k + step_weight J - 1) st'"
    "pc < length (j_insts J) \<or> v = Some False \<Longrightarrow> stack_of st' = stack_of st"
proof -
  have rows: "pos - j_from J < max_rows (j_insts J)" and ok: "bits_ok (s_bt st)" using a pos by (auto simp: affords_def)
  have room: "s_steps st + 1 \<le> j_budget J" using a paid_steps [of st J] by (simp add: affords_def)
  show "v \<noteq> None" "v = Some False \<Longrightarrow> affords J k st'"
    using v rows by (atomize (full), cases rule: visit_steps) (use affords_reach [OF a] room in auto)
  show "affords J (k + step_weight J - 1) st'" if pc: "pc < length (j_insts J)" and new: "v = Some True"
  proof -
    have st: "s_steps st' = s_steps st + 1" using v rows by (cases rule: visit_steps) (use new room in auto)
    have m: "marks J {(pc, pos)} st st' \<and> (pc, pos) \<notin> seen J st"
      by (rule visit_cases [OF ok pc pos(1)]) (use v new in auto)
    have "(pc, pos) \<in> bt_pairs J - seen J st" using m pc pos by (simp add: bt_pairs_def)
    moreover have "bt_pairs J - seen J st' = bt_pairs J - seen J st - {(pc, pos)}" using m by (auto simp: marks_def)
    ultimately have "Suc (card (bt_pairs J - seen J st')) = card (bt_pairs J - seen J st)"
      by (simp add: card_Suc_Diff1 del: card_Diff_insert)
    then have "step_weight J * card (bt_pairs J - seen J st) = step_weight J * card (bt_pairs J - seen J st') + step_weight J"
      by (metis add.commute mult_Suc_right)
    moreover have "1 \<le> step_weight J" by (simp add: step_weight_def Let_def)
    ultimately show ?thesis using a m st by (auto simp: affords_def bt_paid_def marks_def)
  qed
  show "stack_of st' = stack_of st" if "pc < length (j_insts J) \<or> v = Some False"
  proof (cases "v = Some False")
    case True
    show ?thesis using v rows
    proof (cases rule: visit_steps)
      case (old need)
      then show ?thesis using affords_reach [OF a] by simp
    next
      case new
      then show ?thesis using True by (simp split: if_splits)
    qed
  next
    case False
    then have pc: "pc < length (j_insts J)" using that by simp
    show ?thesis by (rule visit_cases [OF ok pc pos(1)]) (use v False \<open>v \<noteq> None\<close> in \<open>auto simp: marks_def\<close>)
  qed
qed

section \<open>Runs\<close>

lemma run_to_range: "q \<le> e \<Longrightarrow> bt_run_to J e si q = Some r \<Longrightarrow> q \<le> r \<and> r \<le> e"
proof (induction J e si q rule: bt_run_to.induct)
  case (1 J e si q)
  show ?case
  proof (cases "q < e \<and> bt_reads J e si q = Some True")
    case True
    then have "bt_run_to J e si (q + 1) = Some r" using "1.prems"(2) by (subst (asm) bt_run_to.simps) simp
    then have "q + 1 \<le> r \<and> r \<le> e" using True by (intro "1.IH") auto
    then show ?thesis by simp
  next
    case False
    then show ?thesis using "1.prems" by (subst (asm) bt_run_to.simps) (auto split: if_splits option.splits)
  qed
qed

lemma reads_within: "bt_reads J e si q = Some True \<Longrightarrow> q < e"
  by (simp add: bt_reads_def split: if_splits)

lemma get_at_less: "get_at xs i = Some x \<Longrightarrow> i < length xs"
  by (simp add: get_at_def split: if_splits)

lemma run_split_less: "run_split P pc si y = Some b \<Longrightarrow> pc < length P"
  by (auto simp: run_split_def get_at_def split: if_splits bind_splits)

text \<open>What a chain leaves: a place within the search, and steps to spare.\<close>

definition chain_affords :: "bt_job \<Rightarrow> nat \<Rightarrow> 'o bt_state \<Rightarrow> (nat \<times> (nat \<times> nat) option) option \<Rightarrow> 'o bt_state \<Rightarrow> bool" where
  "chain_affords J q st r st' \<longleftrightarrow> affords J 0 st' \<and> stack_of st' = stack_of st \<and>
     (\<exists>p cont. r = Some (p, cont) \<and> q \<le> p \<and> p \<le> j_limit J \<and> (case cont of None \<Rightarrow> True | Some (c, i) \<Rightarrow> next_within J (B_Go c i)))"

lemma bt_chain_affords:
  "bt_chain J si y sp q st = Some r \<Longrightarrow> affords J 0 st \<Longrightarrow> j_from J \<le> q \<Longrightarrow> q \<le> j_limit J \<Longrightarrow> chain_affords J q st (fst r) (snd r)"
proof (induction rule: bt_chain.raw_induct [rotated, consumes 1, case_names step])
  case (step chain J si y sp q st r)
  note a = step.prems(1) and q = step.prems(2,3)
  from step.hyps obtain i where i: "get_at (j_insts J) sp = Some i" by (auto split: bind_splits)
  note body = step.hyps [unfolded i, simplified]
  have stop: ?case if "r = (Some (q, None), st)" using that a q by (simp add: chain_affords_def)
  show ?case
  proof (cases i)
    case (I_Split cpc y')
    from body obtain j where j: "get_at (j_insts J) cpc = Some j" unfolding I_Split by (auto split: bind_splits)
    note body = body [unfolded I_Split, simplified, unfolded j, simplified]
    show ?thesis
    proof (cases j)
      case (I_Char s cnext)
      from body obtain v st1 where v: "bt_visit J cpc q st = Some (v, st1)" unfolding I_Char by (auto split: bind_splits)
      note body = body [unfolded I_Char, simplified, unfolded v, simplified]
      note av = affords_visit [OF a v q]
      obtain b where b: "v = Some b" using av(1) by blast
      have s1: "stack_of st1 = stack_of st" using av(4) get_at_less [OF j] by simp
      have a1: "affords J 0 st1" using av(2,3) get_at_less [OF j] b by (cases b) (auto intro: affords_less)
      have stop1: ?thesis if "r = (Some (q, None), st1)" using that a1 s1 q by (simp add: chain_affords_def)
      show ?thesis
      proof (cases b)
        case False
        then show ?thesis using body b stop1 by simp
      next
        case True
        note body = body [simplified b True, simplified]
        from body obtain hit where hit: "bt_reads J (j_limit J) si q = Some hit" by (auto split: bind_splits)
        show ?thesis
        proof (cases hit)
          case False
          then show ?thesis using body hit stop1 by simp
        next
          case True
          have q1: "j_from J \<le> Suc q" "Suc q \<le> j_limit J" using reads_within hit True q by fastforce+
          note body = body [simplified hit True, simplified]
          from body obtain on where on: "(if cnext = sp then Some True else run_split (j_insts J) cnext si y) = Some on" by (auto split: bind_splits)
          then have cn: "cnext < length (j_insts J)" using get_at_less [OF i] run_split_less by (auto split: if_splits)
          note body = body [simplified on, simplified]
          show ?thesis
          proof (cases on)
            case False
            then show ?thesis using body a1 s1 q q1 by (auto simp: chain_affords_def)
          next
            case True
            from body True obtain w st2 where w: "bt_visit J cnext (Suc q) st1 = Some (w, st2)" by (auto split: bind_splits)
            note aw = affords_visit [OF a1 w q1]
            obtain c where c: "w = Some c" using aw(1) by blast
            have s2: "stack_of st2 = stack_of st" using aw(4) cn s1 by simp
            have a2: "affords J 0 st2" using aw(2,3) cn c by (cases c) (auto intro: affords_less)
            note body = body [simplified True, simplified, simplified w c, simplified]
            show ?thesis
            proof (cases c)
              case False
              then show ?thesis using body a2 s2 q by (auto simp: chain_affords_def)
            next
              case c: True
              have "chain_affords J (Suc q) st2 (fst r) (snd r)" by (rule step.IH) (use body c a2 q1 in auto)
              then show ?thesis using s2 by (fastforce simp: chain_affords_def)
            qed
          qed
        qed
      qed
    qed (use body stop in auto)
  qed (use body stop in auto)
qed

section \<open>Instructions, frames and the search\<close>

lemma weight_slack: "step_weight J - 1 = (j_limit J - j_from J) div 4 + (j_limit J - j_from J + 1)"
  by (simp add: step_weight_def Let_def)

lemma bt_run_affords:
  assumes b: "bt_inst hold J pc pos st = Some (nx', st')" and i: "get_at (j_insts J) pc = Some (I_Run si mn mx greedy nx)"
    and a: "affords J (step_weight J - 1) st" and pos: "j_from J \<le> pos" "pos \<le> j_limit J"
  shows "affords J 0 st' \<and> next_within J nx'"
proof -
  let ?cap = "if mx = HOLE then j_limit J else min (j_limit J) (pos + mx)" and ?need = "pos + mn"
  have cap: "?cap \<le> j_limit J" by simp
  note b = b [unfolded bt_inst_def i Let_def, simplified]
  show ?thesis
  proof (cases "?need > ?cap")
    case True
    then show ?thesis using b affords_less [OF a] by (simp split: if_splits)
  next
    case False
    let ?to = "if greedy then ?cap else ?need"
    from b False obtain q where q: "bt_run_to J ?to si pos = Some q" by (auto split: bind_splits if_splits)
    obtain ok st1 where c: "bt_charge J ((q - pos) div 4) st = (ok, st1)" by fastforce
    have r: "pos \<le> q \<and> q \<le> ?to" by (rule run_to_range [OF _ q]) (use False in auto)
    have "(q - pos) div 4 \<le> (j_limit J - j_from J) div 4" by (rule div_le_mono) (use r False pos in \<open>auto split: if_splits\<close>)
    then have "(q - pos) div 4 \<le> step_weight J - 1" "j_limit J - j_from J + 1 \<le> step_weight J - 1 - (q - pos) div 4"
      unfolding weight_slack by linarith+
    then have a1: "ok" "affords J (j_limit J - j_from J + 1) st1"
      using affords_charge [OF a c] by (auto intro: affords_less)
    have e: "(nx', st') = (if q < ?need then (B_Pop, st1) else if greedy then (B_Pop, bt_push (B_Exits nx ?need q) st1)
        else (B_Pop, bt_push (B_Lazy nx si ?need ?cap) st1))"
      using b False q c a1(1) by (simp split: if_splits)
    show ?thesis
    proof (cases "q < ?need")
      case True
      then show ?thesis using e affords_less [OF a1(2)] by simp
    next
      case q: False
      have f: "frame_within J (B_Exits nx ?need q)" if greedy using that q r pos cap by (auto split: if_splits)
      have "frame_within J (B_Lazy nx si ?need ?cap)" using False pos cap by auto
      moreover have "frame_cost (B_Lazy nx si ?need ?cap) \<le> j_limit J - j_from J + 1" using pos cap by (simp add: diff_le_mono2 le_diff_conv)
      ultimately show ?thesis using e q f affords_push [of J 0 _ st1] affords_less [OF a1(2)] by (cases greedy) auto
    qed
  qed
qed

lemma bt_inst_affords:
  assumes b: "bt_inst hold J pc pos st = Some (nx', st')"
    and a: "affords J (step_weight J - 1) st" and pos: "j_from J \<le> pos" "pos \<le> j_limit J"
  shows "affords J 0 st' \<and> next_within J nx'"
proof -
  from b obtain i where i: "get_at (j_insts J) pc = Some i" by (auto simp: bt_inst_def split: bind_splits)
  note a0 = affords_less [OF a, of 0, simplified]
  note push = affords_push [of J 0]
  note b' = b [unfolded bt_inst_def i, simplified]
  show ?thesis
  proof (cases i)
    case (I_Char si nx)
    then show ?thesis using b' a0 pos reads_within by (fastforce split: bind_splits if_splits)
  next
    case (I_Split x y)
    from b' obtain run where r: "run_of (j_insts J) pc x y = Some run" unfolding I_Split by (auto split: bind_splits)
    note b' = b' [unfolded I_Split, simplified, unfolded r, simplified]
    show ?thesis
    proof (cases run)
      case None
      then show ?thesis using b' a0 pos by (auto intro!: push)
    next
      case (Some si)
      from b' obtain v st1 where v: "bt_chain J si y pc pos st = Some (v, st1)" unfolding Some by (auto split: bind_splits)
      have "chain_affords J pos st v st1" using bt_chain_affords [OF v a0 pos] by simp
      then obtain p cont where "v = Some (p, cont)" "pos \<le> p" "p \<le> j_limit J" "affords J 0 st1"
        "case cont of None \<Rightarrow> True | Some (c, i) \<Rightarrow> next_within J (B_Go c i)" by (auto simp: chain_affords_def)
      then show ?thesis using b' [unfolded Some, simplified, unfolded v] pos by (auto split: option.splits intro!: push)
    qed
  next
    case (I_Run si mn mx greedy nx)
    show ?thesis by (rule bt_run_affords [OF b i [unfolded I_Run] a pos])
  next
    case (I_Save slot nx)
    then show ?thesis using b' a0 pos by (auto split: bind_splits if_splits intro!: push)
  qed (use b' a0 pos in \<open>auto split: bind_splits if_splits intro!: push\<close>)
qed

lemma bt_at_affords:
  assumes b: "bt_at hold J pc pos st = Some (nx', st')" and a: "affords J 0 st" and pos: "j_from J \<le> pos" "pos \<le> j_limit J"
  shows "affords J 0 st' \<and> next_within J nx'"
proof -
  from b obtain v st1 where v: "bt_visit J pc pos st = Some (v, st1)" by (auto simp: bt_at_def split: bind_splits)
  note av = affords_visit [OF a v pos]
  obtain new where new: "v = Some new" using av(1) by blast
  show ?thesis
  proof (cases new)
    case True
    then have i: "bt_inst hold J pc pos st1 = Some (nx', st')" using b v new by (simp add: bt_at_def)
    then have "pc < length (j_insts J)" by (auto simp: bt_inst_def get_at_def split: bind_splits if_splits)
    then show ?thesis using av(3) new True by (intro bt_inst_affords [OF i _ pos]) simp
  next
    case False
    then show ?thesis using b v new av(2) by (simp add: bt_at_def)
  qed
qed

lemma bt_unwind_affords:
  assumes b: "bt_unwind J f (with_stack fs st) = Some (nx', st')" and a: "affords J 0 st" and s: "stack_of st = f # fs"
  shows "affords J 0 st' \<and> next_within J nx'"
proof -
  note p = affords_pop [OF a s]
  note push = affords_push [of J 0]
  show ?thesis
  proof (cases f)
    case (B_Explore pc pos)
    then show ?thesis using b p by auto
  next
    case (B_Restore slot old)
    then show ?thesis using b p by (auto split: bind_splits)
  next
    case (B_Exits exit lo hi)
    then show ?thesis using b p by (auto split: if_splits intro!: push)
  next
    case (B_Lazy nx si at stop)
    obtain ok st1 where c: "bt_charge J 1 (with_stack fs st) = (ok, st1)" by fastforce
    have a1: "ok" "affords J (stop - at) st1" using affords_charge [OF conjunct1 [OF p] c] B_Lazy by auto
    note w = conjunct2 [OF p, unfolded B_Lazy, simplified]
    have "(nx', st') = (B_Go nx at, st1) \<or> at < stop \<and> (nx', st') = (B_Go nx at, bt_push (B_Lazy nx si (at + 1) stop) st1)"
      using b c a1(1) unfolding B_Lazy by (auto split: bind_splits if_splits)
    then show ?thesis using w affords_less [OF a1(2), of 0] push [of "B_Lazy nx si (at + 1) stop" st1] a1(2) by (auto simp: Suc_diff_Suc)
  qed
qed

lemma bt_loop_affords:
  "bt_loop hold J nx st = Some r \<Longrightarrow> affords J 0 st \<Longrightarrow> next_within J nx \<Longrightarrow> fst r \<noteq> Inl OutOfSteps"
proof (induction rule: bt_loop.raw_induct [rotated, consumes 1, case_names step])
  case (step loop hold J nx st r)
  show ?case
  proof (cases nx)
    case (B_Go pc pos)
    from step.hyps obtain nx' st' where n: "bt_at hold J pc pos st = Some (nx', st')" "loop hold J nx' st' = Some r"
      unfolding B_Go by (auto split: bind_splits)
    then show ?thesis using step.IH [OF n(2)] bt_at_affords [OF n(1) step.prems(1)] step.prems(2) B_Go by simp
  next
    case B_Pop
    show ?thesis
    proof (cases "stack_of st")
      case Nil
      then show ?thesis using step.hyps B_Pop by auto
    next
      case (Cons f fs)
      from step.hyps obtain nx' st' where n: "bt_unwind J f (with_stack fs st) = Some (nx', st')" "loop hold J nx' st' = Some r"
        unfolding B_Pop by (auto simp: Cons split: bind_splits)
      then show ?thesis using step.IH [OF n(2)] bt_unwind_affords [OF n(1) step.prems(1) Cons] by simp
    qed
  qed (use step in auto)
qed

lemma dfs_in_steps:
  assumes d: "dfs hold J start bt ora spent = Some (r, bt', ora', spent')"
    and b: "step_bound J < j_budget J" and rows: "j_limit J - j_from J < max_rows (j_insts J)"
    and s: "j_from J \<le> j_limit J" and bt: "bits_ok bt"
  shows "r \<noteq> Inl OutOfSteps"
proof -
  from d obtain vs st' where v: "bt_wipe bt = Some vs"
    and l: "bt_loop hold J B_Pop \<lparr>s_bt = \<lparr>bt_visited = vs, bt_used = 0, bt_stack = [B_Explore start (j_from J)], bt_slots = replicate (j_ns J) (-1)\<rparr>,
        s_steps = 0, s_spent = spent, s_oracle = ora\<rparr> = Some (r, st')"
    by (auto simp: dfs_def split: bind_splits)
  have bits: "bits_ok \<lparr>bt_visited = vs, bt_used = 0, bt_stack = [B_Explore start (j_from J)], bt_slots = replicate (j_ns J) (-1)\<rparr>"
    using v bt by (auto simp: bt_wipe_def bits_ok_def nth_append split: if_splits)
  have c: "card (bt_pairs J - S) \<le> length (j_insts J) * (j_limit J - j_from J + 1)" for S
  proof -
    have "card (bt_pairs J - S) \<le> card (bt_pairs J)" by (simp add: card_mono)
    then show ?thesis using s by (simp add: bt_pairs_def Suc_diff_le)
  qed
  have "step_weight J * card (bt_pairs J - S) < j_budget J" for S
    using le_less_trans [OF mult_le_mono2 [OF c] b [unfolded step_bound_def]] .
  then have "affords J 0 \<lparr>s_bt = \<lparr>bt_visited = vs, bt_used = 0, bt_stack = [B_Explore start (j_from J)], bt_slots = replicate (j_ns J) (-1)\<rparr>,
        s_steps = 0, s_spent = spent, s_oracle = ora\<rparr>"
    using bits rows s by (simp add: affords_def bt_paid_def)
  then show ?thesis using bt_loop_affords [OF l] by simp
qed

section \<open>The largest search\<close>

lemma step_bound_fits:
  assumes rows: "j_limit J - j_from J < max_rows (j_insts J)" and n: "length (j_insts J) \<le> MAX_INSTS"
  shows "step_bound J < USIZE_MAX"
proof -
  let ?n = "j_limit J - j_from J" and ?w = "row_words (j_insts J)"
  have "max_rows (j_insts J) \<le> 2 ^ 18"
    by (simp add: max_rows_def MAX_BITS_def)
  then have n18: "?n < 2 ^ 18" using rows by linarith
  have "?n div 4 \<le> ?n" by simp
  then have "step_weight J \<le> 2 ^ 20" unfolding step_weight_def Let_def using n18 by simp
  moreover have "length (j_insts J) * (?n + 1) \<le> 30000 * 2 ^ 18"
    by (rule mult_le_mono) (use n n18 in \<open>simp_all add: MAX_INSTS_def\<close>)
  ultimately have "step_bound J \<le> 2 ^ 20 * (30000 * 2 ^ 18)" unfolding step_bound_def by (rule mult_le_mono)
  then show ?thesis by (simp add: USIZE_MAX_def)
qed

end
