(* ===== verification/Backtrack_Sem.thy ===== *)
theory Backtrack_Sem
  imports Search Backtrack_Steps
begin

text \<open>
  The backtracker over a compiled pattern: its program (with repeats of one set as \<open>I_Run\<close>s, and without
  guards) has the pattern's ways as its paths, up to the position the search may read to.
\<close>

section \<open>Ways up to a position\<close>

definition cuts :: "nat \<Rightarrow> ways \<Rightarrow> ways \<Rightarrow> bool" where
  "cuts lim A' A \<longleftrightarrow>
     (\<forall>pos sl. pos \<le> lim \<longrightarrow> A' pos sl = filter (\<lambda>x. fst x \<le> lim) (A pos sl)) \<and> (\<forall>pos sl. \<forall>x \<in> set (A pos sl). pos \<le> fst x)"

lemma cutsD:
  assumes "cuts lim A' A"
  shows "pos \<le> lim \<Longrightarrow> A' pos sl = filter (\<lambda>x. fst x \<le> lim) (A pos sl)" "x \<in> set (A pos sl) \<Longrightarrow> pos \<le> fst x"
  using assms by (auto simp: cuts_def)

lemma cuts_past: "cuts lim A' A \<Longrightarrow> lim < pos \<Longrightarrow> filter (\<lambda>x. fst x \<le> lim) (A pos sl) = []"
  unfolding filter_empty_conv using cutsD(2) by fastforce

lemma cuts_stay: "cuts lim stay stay"
  by (simp add: cuts_def stay_def)

text \<open>Ways followed by ways, each of the first going on by \<open>B\<close>.\<close>

lemma filter_then:
  fixes L :: "outcome list" and B :: "outcome \<Rightarrow> outcome list"
  assumes "\<And>x. x \<in> set L \<Longrightarrow> fst x \<le> lim \<Longrightarrow> B' x = filter (\<lambda>x. fst x \<le> lim) (B x)"
    and "\<And>x. x \<in> set L \<Longrightarrow> lim < fst x \<Longrightarrow> filter (\<lambda>x. fst x \<le> lim) (B x) = []"
  shows "concat (map B' (filter (\<lambda>x. fst x \<le> lim) L)) = filter (\<lambda>x. fst x \<le> lim) (concat (map B L))"
  using assms
proof (induction L)
  case (Cons x L)
  have IH: "concat (map B' (filter (\<lambda>x. fst x \<le> lim) L)) = filter (\<lambda>x. fst x \<le> lim) (concat (map B L))"
    by (rule Cons.IH) (use Cons.prems in simp_all)
  show ?case
  proof (cases "fst x \<le> lim")
    case True
    then show ?thesis using IH Cons.prems(1) [of x] by simp
  next
    case False
    then show ?thesis using IH Cons.prems(2) [of x] by simp
  qed
qed simp

lemma cuts_then:
  assumes "cuts lim A' A" and "cuts lim B' B"
  shows "cuts lim (then_all A' B') (then_all A B)"
  unfolding cuts_def
proof (intro conjI allI impI ballI)
  fix pos sl assume "pos \<le> lim"
  show "then_all A' B' pos sl = filter (\<lambda>x. fst x \<le> lim) (then_all A B pos sl)"
    unfolding then_all_def cutsD(1) [OF assms(1) \<open>pos \<le> lim\<close>]
    by (intro filter_then) (use cutsD(1) [OF assms(2)] cuts_past [OF assms(2)] in auto)
next
  fix pos sl x assume "x \<in> set (then_all A B pos sl)"
  then obtain y where "y \<in> set (A pos sl)" "x \<in> set (B (fst y) (snd y))" by (auto simp: then_all_def)
  then show "pos \<le> fst x" using cutsD(2) [OF assms(1)] cutsD(2) [OF assms(2)] by (meson order_trans)
qed

lemma cuts_seq: "list_all2 (cuts lim) As' As \<Longrightarrow> cuts lim (seq_all As') (seq_all As)"
  by (induction rule: list_all2_induct) (simp_all add: seq_all_Nil seq_all_Cons cuts_stay cuts_then)

lemma cuts_alt: "list_all2 (cuts lim) As' As \<Longrightarrow> cuts lim (alt_all As') (alt_all As)"
proof (induction rule: list_all2_induct)
  case (Cons f' fs' f fs)
  note c = cutsD [OF Cons.hyps(1)] cutsD [OF Cons.IH, unfolded alt_all_def]
  show ?case unfolding cuts_def alt_all_def
  proof (intro conjI allI impI ballI)
    fix pos sl assume "pos \<le> lim"
    then show "concat (map (\<lambda>f. f pos sl) (f' # fs')) = filter (\<lambda>x. fst x \<le> lim) (concat (map (\<lambda>f. f pos sl) (f # fs)))"
      using c(1,3) by simp
  next
    fix pos sl x assume "x \<in> set (concat (map (\<lambda>f. f pos sl) (f # fs)))"
    then have "x \<in> set (f pos sl) \<or> x \<in> set (concat (map (\<lambda>f. f pos sl) fs))" by simp
    then show "pos \<le> fst x" using c(2,4) by blast
  qed
qed (simp add: cuts_def alt_all_def)

lemma cuts_opts: "cuts lim A' A \<Longrightarrow> cuts lim (opts_all n greedy A') (opts_all n greedy A)"
proof (induction n)
  case 0
  then show ?case by (simp add: cuts_def)
next
  case (Suc n)
  have "cuts lim (then_all A' (opts_all n greedy A')) (then_all A (opts_all n greedy A))" by (rule cuts_then [OF Suc.prems Suc.IH [OF Suc.prems]])
  then show ?case by (auto simp: cuts_def then_all_def in_order_def)
qed

lemma star_all_later:
  assumes "\<And>pos sl x. x \<in> set (A pos sl) \<Longrightarrow> pos \<le> fst x"
  shows "x \<in> set (star_all e greedy A pos sl) \<Longrightarrow> pos \<le> fst x"
proof (induction "e - pos" arbitrary: pos sl rule: less_induct)
  case less
  from less.prems consider "x = (pos, sl)"
    | y where "y \<in> set (A pos sl)" "pos < fst y" "fst y \<le> e" "x \<in> set (star_all e greedy A (fst y) (snd y))"
    by (subst (asm) star_all.simps) (auto simp: in_order_def split: if_splits)
  then show ?case
  proof cases
    case 2
    then have "fst y \<le> fst x" by (intro less.hyps) auto
    then show ?thesis using 2(2) by simp
  qed simp
qed

lemma cuts_star:
  assumes "cuts lim A' A" and "lim \<le> e"
  shows "cuts lim (star_all lim greedy A') (star_all e greedy A)"
proof -
  note later = star_all_later [of A, OF cutsD(2) [OF assms(1)]]
  have "pos \<le> lim \<Longrightarrow> star_all lim greedy A' pos sl = filter (\<lambda>x. fst x \<le> lim) (star_all e greedy A pos sl)" for pos sl
  proof (induction "lim - pos" arbitrary: pos sl rule: less_induct)
    case less
    let ?B' = "\<lambda>x. if pos < fst x \<and> fst x \<le> lim then star_all lim greedy A' (fst x) (snd x) else []"
    let ?B = "\<lambda>x. if pos < fst x \<and> fst x \<le> e then star_all e greedy A (fst x) (snd x) else []"
    have "concat (map ?B' (A' pos sl)) = filter (\<lambda>x. fst x \<le> lim) (concat (map ?B (A pos sl)))"
      unfolding cutsD(1) [OF assms(1) less.prems]
    proof (rule filter_then)
      fix x :: outcome assume "fst x \<le> lim"
      then show "?B' x = filter (\<lambda>x. fst x \<le> lim) (?B x)" using less.hyps [of "fst x" "snd x"] assms(2) by auto
    next
      fix x :: outcome assume "lim < fst x"
      then show "filter (\<lambda>x. fst x \<le> lim) (?B x) = []" using later by (fastforce simp: filter_empty_conv)
    qed
    then show ?case using less.prems by (subst (1 2) star_all.simps) (auto simp: in_order_def)
  qed
  then show ?thesis using later by (auto simp: cuts_def)
qed

definition cut_env :: "nat \<Rightarrow> env \<Rightarrow> env" where
  "cut_env lim E = E\<lparr>e_end := lim, e_guards := False\<rparr>"

lemma cut_env_simps [simp]:
  "e_text (cut_env lim E) = e_text E" "e_end (cut_env lim E) = lim" "e_sets (cut_env lim E) = e_sets E"
  "e_slots (cut_env lim E) = e_slots E" "e_saves (cut_env lim E) = e_saves E" "\<not> e_guards (cut_env lim E)"
  "e_look (cut_env lim E) = e_look E"
  by (simp_all add: cut_env_def)

lemma cuts_rep:
  assumes "cuts lim A' A" and "lim \<le> e_end E"
  shows "cuts lim (rep_all (cut_env lim E) mn mx greedy simple A') (rep_all E mn mx greedy simple A)"
proof -
  let ?t' = "case mx of None \<Rightarrow> star_all lim greedy A' | Some m \<Rightarrow> opts_all (m - mn) greedy A'"
  let ?t = "case mx of None \<Rightarrow> star_all (e_end E) greedy A | Some m \<Rightarrow> opts_all (m - mn) greedy A"
  have "cuts lim ?t' ?t" using cuts_star [OF assms] cuts_opts [OF assms(1)] by (cases mx) auto
  moreover have "list_all2 (cuts lim) (replicate mn A') (replicate mn A)" using assms(1) by (simp add: list_all2_conv_all_nth)
  ultimately have "cuts lim (seq_all (replicate mn A' @ [?t'])) (seq_all (replicate mn A @ [?t]))"
    by (intro cuts_seq list_all2_appendI) simp_all
  then show ?thesis using assms(2) by (cases mx) (auto simp: cuts_def rep_all_def)
qed

lemma hits_cut: "lim \<le> e_end E \<Longrightarrow> hits (cut_env lim E) si pos \<longleftrightarrow> hits E si pos \<and> pos < lim"
  by (cases "get_at (e_text E) pos") (auto simp: hits_def)

lemma hir_cuts: "lim \<le> e_end E \<Longrightarrow> cuts lim (hir_all (cut_env lim E) h) (hir_all E h)"
proof (induction h)
  case (H_Char si)
  then show ?case by (auto simp: cuts_def hits_cut)
next
  case (H_Group g b)
  then show ?case by (auto simp: cuts_def filter_map comp_def case_prod_beta)
next
  case (H_Concat v)
  then have "list_all2 (cuts lim) (map (hir_all (cut_env lim E)) v) (map (hir_all E) v)" by (auto simp: list_all2_conv_all_nth)
  then show ?case by (simp add: cuts_seq)
next
  case (H_Alt v)
  then have "list_all2 (cuts lim) (map (hir_all (cut_env lim E)) v) (map (hir_all E) v)" by (auto simp: list_all2_conv_all_nth)
  then have "cuts lim (alt_all (map (hir_all (cut_env lim E)) v)) (alt_all (map (hir_all E) v))" by (rule cuts_alt)
  then show ?case using cuts_stay by (auto simp: stay_def [abs_def])
next
  case (H_Repeat mn mx greedy simple b)
  then show ?case by (simp add: cuts_rep)
qed (auto simp: cuts_def)

section \<open>The backtracker's programs\<close>

lemma compile_bt_program:
  assumes ok: "pattern_ok h ss ls groups" and c: "compile h ss ls groups = Inr pr"
    and b: "build_with h True False False True [0..<length ls] (Some (2 * groups + 1)) (tail_of t) = Inr prog"
    and t: "\<forall>l. t = Some l \<longrightarrow> l = length ls" and E: "E = pat_env u pr ls text e" and lim: "lim \<le> e" "lim \<le> length text"
    and J: "J = bt_job_for pr prog text s fin at no_empty budget" and l: "j_limit J = lim"
  shows "bt_setting (cut_env lim E) J (Suc (length ls))"
    "length (insts prog) \<le> MAX_INSTS"
    "pos \<le> lim \<Longrightarrow> outs (cut_env lim E) (insts prog) (p_start prog) pos (replicate (slots pr) (-1))
      (then_all (\<lambda>pos sl. filter (\<lambda>x. fst x \<le> lim) (hir_all E h pos sl)) (tail_look E t) pos ((replicate (slots pr) (-1))[slots pr - 1 := int pos]))"
proof -
  let ?E = "cut_env lim E"
  note ct = compile_tests [OF ok c]
  have h: "hir_ok (length ls) h" using ok by (simp add: pattern_ok_def)
  have ids: "\<forall>l < length ls. [0..<length ls] ! l = l" by simp
  have "prog_in True (slots pr) (Suc (length ls)) (length (sets pr)) (insts prog) \<and> length (insts prog) \<le> MAX_INSTS"
    using build_with_bounds [OF h ct(4) _ _ _ _ ids b, of "Suc (length ls)"] t
    by (auto simp: ct(2) tail_of_def split: option.splits)
  moreover have "opn (insts prog) = {}" using build_with_open [OF b] by (cases t) (auto simp: tail_of_def)
  ultimately show "bt_setting ?E J (Suc (length ls))" "length (insts prog) \<le> MAX_INSTS"
    using lim l by (simp_all add: bt_setting_def E J bt_job_for_def)
  assume pos: "pos \<le> lim"
  have "outs ?E (insts prog) (p_start prog) pos (replicate (slots pr) (-1))
      (then_all (hir_all ?E h) (tail_look ?E t) pos (head_slots ?E (Some (2 * groups + 1)) pos (replicate (slots pr) (-1))))"
    by (rule build_with_correct [OF h ids, where rn = True]) (use b in \<open>simp_all add: E\<close>)
  moreover have "hir_all ?E h pos sl = filter (\<lambda>x. fst x \<le> lim) (hir_all E h pos sl)" for sl
    by (rule cutsD(1) [OF hir_cuts pos]) (use lim in \<open>simp add: E\<close>)
  moreover have "tail_look ?E t = tail_look E t" by (intro ext) (simp add: tail_look_def split: option.split)
  ultimately show "outs ?E (insts prog) (p_start prog) pos (replicate (slots pr) (-1))
      (then_all (\<lambda>pos sl. filter (\<lambda>x. fst x \<le> lim) (hir_all E h pos sl)) (tail_look E t) pos ((replicate (slots pr) (-1))[slots pr - 1 := int pos]))"
    by (simp add: then_all_def head_slots_def save_slot_def E ct(2))
qed

text \<open>The ways to \<open>match\<close> or \<open>fullmatch\<close>, as the program asked for (\<open>fullw\<close>).\<close>

definition bt_prog :: "programs \<Rightarrow> bool \<Rightarrow> prog" where
  "bt_prog pr fullw = (if fullw then full_bt pr else fwd_bt pr)"

definition bt_ways :: "env \<Rightarrow> hir \<Rightarrow> bool \<Rightarrow> nat \<Rightarrow> outcome list" where
  "bt_ways E h fullw pos = (if fullw then full_ways E h pos else match_ways E h pos)"

lemma compile_bt:
  assumes ok: "pattern_ok h ss ls groups" and c: "compile h ss ls groups = Inr pr" and E: "E = pat_env u pr ls text e"
    and lim: "lim \<le> e" "lim \<le> length text" and J: "J = bt_job_for pr (bt_prog pr fullw) text s fin at no_empty budget" and l: "j_limit J = lim"
  shows "bt_setting (cut_env lim E) J (Suc (length ls))"
    "length (insts (bt_prog pr fullw)) \<le> MAX_INSTS"
    "pos \<le> lim \<Longrightarrow> outs (cut_env lim E) (insts (bt_prog pr fullw)) (p_start (bt_prog pr fullw)) pos (replicate (slots pr) (-1))
      (filter (\<lambda>x. fst x \<le> lim) (bt_ways E h fullw pos))"
proof -
  from c obtain defs sb where d: "comp_looks (sets pr) ls [0..<length ls] ls [] [] = Inr (defs, sb)"
    and b: "build_with h True False False True [0..<length ls] (Some (2 * groups + 1)) [I_Match] = Inr (fwd_bt pr)"
      "build_with h True False False True [0..<length ls] (Some (2 * groups + 1)) [I_Look (length defs) HOLE, I_Match] = Inr (full_bt pr)"
    by (rule compile_parts) blast
  have dl: "length defs = length ls" using comp_looks_compiled [OF d] by (auto dest: list_all2_lengthD)
  let ?t = "if fullw then Some (length ls) else None"
  have b: "build_with h True False False True [0..<length ls] (Some (2 * groups + 1)) (tail_of ?t) = Inr (bt_prog pr fullw)"
    using b dl by (simp add: tail_of_def bt_prog_def)
  have t: "\<forall>l. ?t = Some l \<longrightarrow> l = length ls" by simp
  note p = compile_bt_program [OF ok c b t E lim J l]
  show "bt_setting (cut_env lim E) J (Suc (length ls))" "length (insts (bt_prog pr fullw)) \<le> MAX_INSTS" by (rule p(1), rule p(2))
  assume pos: "pos \<le> lim"
  have f: "concat (map (\<lambda>x. tail_look E (Some (length ls)) (fst x) (snd x)) L) = filter (\<lambda>x. fst x = e) L" for L
    by (induction L) (auto simp: tail_look_def E look_holds_def)
  have "then_all (\<lambda>pos sl. filter (\<lambda>x. fst x \<le> lim) (hir_all E h pos sl)) (tail_look E ?t) pos ((replicate (slots pr) (-1))[slots pr - 1 := int pos]) =
      filter (\<lambda>x. fst x \<le> lim) (bt_ways E h fullw pos)"
  proof (cases fullw)
    case True
    have "filter (\<lambda>x. fst x = e) (filter (\<lambda>x. fst x \<le> lim) M) = filter (\<lambda>x. fst x \<le> lim) (filter (\<lambda>x. fst x = e) M)" for M :: "outcome list"
      by (induction M) auto
    then show ?thesis using True f by (simp add: then_all_def bt_ways_def full_ways_def match_ways_def E)
  next
    case False
    then show ?thesis by (simp add: then_all_def tail_look_def bt_ways_def match_ways_def E)
  qed
  then show "outs (cut_env lim E) (insts (bt_prog pr fullw)) (p_start (bt_prog pr fullw)) pos (replicate (slots pr) (-1))
      (filter (\<lambda>x. fst x \<le> lim) (bt_ways E h fullw pos))"
    using p(3) [OF pos] by simp
qed

section \<open>What the backtracker answers\<close>

lemma ways_within: "x \<in> set (bt_ways E h fullw pos) \<Longrightarrow> pos \<le> fst x \<and> (fst x \<le> e_end E \<or> fst x = pos)"
proof -
  assume "x \<in> set (bt_ways E h fullw pos)"
  then obtain sl where "x \<in> set (hir_all E h pos sl)" by (auto simp: bt_ways_def full_ways_def match_ways_def split: if_splits)
  then have "pos + least h \<le> fst x \<and> (fst x \<le> e_end E \<or> fst x = pos)"
    using readsD [OF hir_all_reads [of E h], of "fst x" "snd x" pos sl] by simp
  then show ?thesis by simp
qed

lemma bt_dfs_answers:
  assumes ok: "pattern_ok h ss ls groups" and c: "compile h ss ls groups = Inr pr"
    and J: "J = bt_job_for pr (bt_prog pr fullw) text s e at no_empty budget"
    and s: "s \<le> j_limit J" and bt: "bits_ok bt" and ora: "right_oracle u addr g (slots pr) ls pr text e 0 ora"
  shows "\<exists>r bt' ora' spent'. dfs (holds u pr addr text e) J (p_start (bt_prog pr fullw)) bt ora spent = Some (r, bt', ora', spent') \<and>
    bits_ok bt' \<and> right_oracle u addr g (slots pr) ls pr text e 0 ora' \<and>
    (r = Inl OutOfSteps \<or> r = Inr (map_option (\<lambda>x. (snd x, fst x))
       (first_acc (bt_acc J) (filter (\<lambda>x. fst x \<le> j_limit J) (bt_ways (pat_env u pr ls text e) h fullw s)))))"
proof -
  let ?E = "pat_env u pr ls text e"
  have e: "e \<le> length text" using ora by (simp add: right_oracle_def)
  have lim: "j_limit J \<le> e" "j_limit J \<le> length text" using e by (simp_all add: j_limit_def J bt_job_for_def)
  note p = compile_bt [OF ok c refl lim J refl]
  have f: "j_from J = s" "j_ns J = slots pr" "j_insts J = insts (bt_prog pr fullw)" "j_end J = e" by (simp_all add: J bt_job_for_def)
  show ?thesis
    by (rule look_oracle.dfs_correct [OF tests.look_oracle_axioms p(1)]) (use p(3) [OF s] lim s bt ora f in simp_all)
qed


text \<open>With steps enough, never out of steps.\<close>

lemma bt_dfs_steps:
  assumes ok: "pattern_ok h ss ls groups" and c: "compile h ss ls groups = Inr pr"
    and J: "J = bt_job_for pr (bt_prog pr fullw) text s e at no_empty budget"
    and s: "s \<le> j_limit J" and bt: "bits_ok bt" and fit: "fits (bt_prog pr fullw) (j_limit J - s)" and b: "step_bound J < budget"
    and d: "dfs hold J start bt ora spent = Some (r, bt', ora', spent')"
  shows "r \<noteq> Inl OutOfSteps"
  by (rule dfs_in_steps [OF d _ _ _ bt]) (use fit s b in \<open>simp_all add: fits_def J bt_job_for_def\<close>)

lemma bt_bound_fits:
  assumes ok: "pattern_ok h ss ls groups" and c: "compile h ss ls groups = Inr pr"
    and J: "J = bt_job_for pr (bt_prog pr fullw) text s e at no_empty budget" and l: "j_limit J \<le> length text"
    and fit: "fits (bt_prog pr fullw) (j_limit J - s)"
  shows "step_bound J < USIZE_MAX"
proof -
  have le: "j_limit J \<le> e" by (simp add: j_limit_def J bt_job_for_def)
  have "length (insts (bt_prog pr fullw)) \<le> MAX_INSTS" by (rule compile_bt(2) [OF ok c refl le l J refl])
  then show ?thesis using fit by (intro step_bound_fits) (simp_all add: fits_def J bt_job_for_def)
qed

text \<open>A span of some hundreds of characters always fits.\<close>

lemma fits_short:
  assumes "length (insts p) \<le> MAX_INSTS" and "insts p \<noteq> []" and "len < 500"
  shows "fits p len"
proof -
  have "0 < row_words (insts p)" using assms(2) by (simp add: row_words_def div_greater_zero_iff Suc_le_eq)
  moreover have "row_words (insts p) \<le> 469"
    unfolding row_words_def using div_le_mono [of "length (insts p) + 63" "30063" 64] assms(1) by (simp add: MAX_INSTS_def)
  ultimately have "2 ^ 18 div 469 \<le> 2 ^ 18 div row_words (insts p)" by (intro div_le_mono2) simp_all
  then show ?thesis using assms(3) by (simp add: fits_def max_rows_def MAX_BITS_def)
qed

lemma compile_bt_size:
  assumes "pattern_ok h ss ls groups" and "compile h ss ls groups = Inr pr"
  shows "length (insts (bt_prog pr fullw)) \<le> MAX_INSTS" "insts (bt_prog pr fullw) \<noteq> []"
proof -
  have l: "j_limit (bt_job_for pr (bt_prog pr fullw) [] 0 0 None False 0) = 0" by (simp add: j_limit_def bt_job_for_def)
  note b = compile_bt [OF assms refl _ _ refl l, of 0]
  show "length (insts (bt_prog pr fullw)) \<le> MAX_INSTS" by (rule b(2)) simp_all
  have "\<exists>L. outs (cut_env 0 (pat_env undefined pr ls [] 0)) (insts (bt_prog pr fullw)) (p_start (bt_prog pr fullw)) 0 (replicate (slots pr) (-1)) L"
    using b(3) by blast
  then show "insts (bt_prog pr fullw) \<noteq> []" by (auto simp: outs_def get_at_def elim: out.cases)
qed

lemma find_filter: "(\<And>x. P x \<Longrightarrow> Q x) \<Longrightarrow> find P (filter Q L) = find P L"
  by (induction L) auto

abbreviation from_start :: "bool \<Rightarrow> nat option \<Rightarrow> want" where
  "from_start no_empty at \<equiv> \<lparr>anchored = True, must_advance = no_empty, end_at = at\<rparr>"

lemma bt_found:
  assumes "J = bt_job_for pr (bt_prog pr fullw) text s e at no_empty budget" and "s \<le> e"
    and "\<forall>t. at = Some t \<longrightarrow> t \<le> e \<and> \<not> no_empty" and "e_end E = e"
  shows "map_option (\<lambda>x. (snd x, fst x)) (first_acc (bt_acc J) (filter (\<lambda>x. fst x \<le> j_limit J) (bt_ways E h fullw s))) =
    found_way (from_start no_empty at) s (bt_ways E h fullw s)"
proof (cases "at")
  case None
  then have "filter (\<lambda>x. fst x \<le> j_limit J) (bt_ways E h fullw s) = bt_ways E h fullw s"
    unfolding filter_id_conv using ways_within [of _ E h fullw s] assms by (fastforce simp: j_limit_def bt_job_for_def)
  then show ?thesis using None assms(1) by (auto simp: first_acc_def found_way_def accepts_def bt_acc_def bt_job_for_def)
next
  case (Some t)
  have "find (\<lambda>x. fst x = t) (filter (\<lambda>x. fst x \<le> j_limit J) (bt_ways E h fullw s)) = find (\<lambda>x. fst x = t) (bt_ways E h fullw s)"
    by (rule find_filter) (use Some assms in \<open>auto simp: j_limit_def bt_job_for_def\<close>)
  then show ?thesis using Some assms(1,3)
    by (auto simp: first_acc_def found_way_def accepts_def bt_acc_def bt_job_for_def eq_commute)
qed

section \<open>Properties\<close>

text \<open>
  C4: A backtracking search from a start (\<^verbatim>\<open>backtrack::anchored\<close>, the short cuts of runs, chains and visited
  bits included) always returns, whatever its budget, and leaves the backtracker's buffers and the oracle fit
  for the next search. Its answer is the first way of the pattern from the start in the order a backtracking
  matcher tries them, as the Pike VM's is; or it is out of steps, but not if the visited bits fit and the
  budget is above \<open>step_bound\<close>, a bound linear in the program and quadratic in the characters searched.
\<close>

theorem backtracker_first_way:
  assumes "pattern_ok h ss ls groups" and "compile h ss ls groups = Inr pr" and "s \<le> e" and "bits_ok bt"
    and "right_oracle u addr g (slots pr) ls pr text e 0 ora"
  shows "\<exists>r bt' ora' spent'.
    bt_anchored (holds u pr addr text e) pr (bt_prog pr fullw) text s e no_empty budget bt ora spent = Some (r, bt', ora', spent') \<and>
    bits_ok bt' \<and> right_oracle u addr g (slots pr) ls pr text e 0 ora' \<and>
    (r = Inr (found_way (from_start no_empty None) s (bt_ways (pat_env u pr ls text e) h fullw s)) \<or>
     r = Inl OutOfSteps \<and>
       (\<not> fits (bt_prog pr fullw) (e - s) \<or> budget \<le> step_bound (bt_job_for pr (bt_prog pr fullw) text s e None no_empty budget)))"
proof -
  let ?J = "bt_job_for pr (bt_prog pr fullw) text s e None no_empty budget"
  have lim: "j_limit ?J = e" by (simp add: j_limit_def bt_job_for_def)
  have s: "s \<le> j_limit ?J" using assms(3) lim by simp
  from bt_dfs_answers [OF assms(1,2) refl s assms(4,5), where spent = spent]
  obtain r bt' ora' spent' where d: "dfs (holds u pr addr text e) ?J (p_start (bt_prog pr fullw)) bt ora spent = Some (r, bt', ora', spent')"
      "bits_ok bt'" "right_oracle u addr g (slots pr) ls pr text e 0 ora'"
      "r = Inl OutOfSteps \<or> r = Inr (found_way (from_start no_empty None) s (bt_ways (pat_env u pr ls text e) h fullw s))"
    using bt_found [OF refl assms(3), of None no_empty "pat_env u pr ls text e" pr fullw "text" budget h] by auto
  have "fits (bt_prog pr fullw) (e - s) \<Longrightarrow> step_bound ?J < budget \<Longrightarrow> r \<noteq> Inl OutOfSteps"
    using bt_dfs_steps [OF assms(1,2) refl s assms(4) _ _ d(1)] lim by simp
  then have "r = Inr (found_way (from_start no_empty None) s (bt_ways (pat_env u pr ls text e) h fullw s)) \<or>
     r = Inl OutOfSteps \<and> (\<not> fits (bt_prog pr fullw) (e - s) \<or> budget \<le> step_bound ?J)"
    using d(4) not_le by blast
  then show ?thesis unfolding bt_anchored_def by (intro exI [of _ r] exI [of _ bt'] exI [of _ ora'] exI [of _ spent'] conjI d(1-3))
qed

text \<open>The pattern \<^verbatim>\<open>a$\<close>, tried at the second \<open>a\<close> of \<^verbatim>\<open>aba\<close>.\<close>

lemma ex_way:
  assumes "sets pr = [cs_one 0x61, cs_all]" and "slots pr = 2"
  shows "bt_ways (pat_env sample_unidata pr [L_End] [0x61, 0x62, 0x61] 3) ex_hir False 2 = [(3, [-1, 2])]"
  by (simp add: bt_ways_def match_ways_def ex_hir_def hits_def get_at_def contains_iff assms look_holds_def newline_at_def numeral_eq_Suc)

theorem backtracker_first_way_witness:
  "\<exists>pr bt' ora' spent'. compile ex_hir [cs_one 0x61] [L_End] 0 = Inr pr \<and>
     bt_anchored (holds sample_unidata pr 7 [0x61, 0x62, 0x61] 3) pr (bt_prog pr False) [0x61, 0x62, 0x61] 2 3 False USIZE_MAX bt_new
       (oracle_begin 7 [0x61, 0x62, 0x61] 3 False oracle_new) 0 = Some (Inr (Some ([-1, 2], 3)), bt', ora', spent')"
proof -
  let ?text = "[0x61, 0x62, 0x61] :: u32 list"
  obtain pr where pr: "compile ex_hir [cs_one 0x61] [L_End] 0 = Inr pr" "sets pr = [cs_one 0x61, cs_all]" "slots pr = 2"
    using ex_compiles by blast
  let ?J = "bt_job_for pr (bt_prog pr False) ?text 2 3 None False USIZE_MAX" and ?E = "pat_env sample_unidata pr [L_End] ?text 3"
  have lim: "j_limit ?J = 3" by (simp add: j_limit_def bt_job_for_def)
  have ora: "right_oracle sample_unidata 7 1 (slots pr) [L_End] pr ?text 3 0 (oracle_begin 7 ?text 3 False oracle_new)"
    using oracle_begin_right [OF compile_tests(1) [OF ex_pattern_ok pr(1)], of 3 ?text oracle_new sample_unidata 7]
    by (simp add: oracle_idle_def oracle_new_def levels_ok_def)
  have fit: "fits (bt_prog pr False) (3 - 2)" by (rule fits_short [OF compile_bt_size [OF ex_pattern_ok pr(1)]]) simp
  have "step_bound ?J < USIZE_MAX" by (rule bt_bound_fits [OF ex_pattern_ok pr(1) refl]) (use fit in \<open>simp_all add: lim\<close>)
  then have b: "\<not> USIZE_MAX \<le> step_bound ?J" by simp
  from backtracker_first_way [OF ex_pattern_ok pr(1) _ _ ora, of 2 bt_new False False USIZE_MAX 0]
  obtain bt' ora' spent' where "bt_anchored (holds sample_unidata pr 7 ?text 3) pr (bt_prog pr False) ?text 2 3 False USIZE_MAX bt_new
       (oracle_begin 7 ?text 3 False oracle_new) 0 = Some (Inr (found_way (from_start False None) 2 (bt_ways ?E ex_hir False 2)), bt', ora', spent')"
    using fit b by (auto simp: bits_ok_def bt_new_def)
  then show ?thesis using pr(1) ex_way [OF pr(2,3)] by (auto simp: found_way_def accepts_def)
qed

text \<open>
  C5: The groups of a match whose span is known (\<^verbatim>\<open>backtrack::groups\<close>), for a span whose visited bits fit: always
  an answer, and the slots of the first way of the pattern from the start of the span that ends at its end; none
  only if there is no such way. The search never runs out of steps, for a program of the compiler.
\<close>

theorem backtracker_groups:
  assumes "pattern_ok h ss ls groups" and "compile h ss ls groups = Inr pr" and "s \<le> t" and "t \<le> e" and "bits_ok bt"
    and "right_oracle u addr g (slots pr) ls pr text e 0 ora" and "fits (bt_prog pr fullw) (t - s)"
  shows "\<exists>bt' ora'.
    bt_groups (holds u pr addr text e) pr (bt_prog pr fullw) text s t e bt ora =
      Some (map_option fst (found_way (from_start False (Some t)) s (bt_ways (pat_env u pr ls text e) h fullw s)), bt', ora') \<and>
    bits_ok bt' \<and> right_oracle u addr g (slots pr) ls pr text e 0 ora'"
proof -
  let ?J = "bt_job_for pr (bt_prog pr fullw) text s e (Some t) False USIZE_MAX"
  let ?r = "found_way (from_start False (Some t)) s (bt_ways (pat_env u pr ls text e) h fullw s)"
  have lim: "j_limit ?J = t" using assms(4) by (simp add: j_limit_def bt_job_for_def)
  have s: "s \<le> j_limit ?J" using assms(3) lim by simp
  have fit: "fits (bt_prog pr fullw) (j_limit ?J - s)" using assms(7) lim by simp
  have se: "s \<le> e" using assms(3,4) by simp
  from bt_dfs_answers [OF assms(1,2) refl s assms(5,6), where spent = 0]
  obtain r bt' ora' spent' where d: "dfs (holds u pr addr text e) ?J (p_start (bt_prog pr fullw)) bt ora 0 = Some (r, bt', ora', spent')"
      "bits_ok bt'" "right_oracle u addr g (slots pr) ls pr text e 0 ora'" "r = Inl OutOfSteps \<or> r = Inr ?r"
    using bt_found [OF refl se, of "Some t" False "pat_env u pr ls text e" pr fullw "text" USIZE_MAX h] assms(4) by auto
  have "e \<le> length text" using assms(6) by (simp add: right_oracle_def)
  then have "step_bound ?J < USIZE_MAX" using bt_bound_fits [OF assms(1,2) refl _ fit] lim assms(4) by simp
  then have "r \<noteq> Inl OutOfSteps" using bt_dfs_steps [OF assms(1,2) refl s assms(5) fit _ d(1)] by simp
  then have "r = Inr ?r" using d(4) by simp
  then have "bt_groups (holds u pr addr text e) pr (bt_prog pr fullw) text s t e bt ora = Some (map_option fst ?r, bt', ora')"
    using d(1) by (cases ?r) (auto simp: bt_groups_def)
  then show ?thesis using d(2,3) by blast
qed

text \<open>The span of the second \<open>a\<close>.\<close>

theorem backtracker_groups_witness:
  "\<exists>pr bt' ora'. compile ex_hir [cs_one 0x61] [L_End] 0 = Inr pr \<and>
     bt_groups (holds sample_unidata pr 7 [0x61, 0x62, 0x61] 3) pr (bt_prog pr False) [0x61, 0x62, 0x61] 2 3 3 bt_new
       (oracle_begin 7 [0x61, 0x62, 0x61] 3 False oracle_new) = Some (Some [-1, 2], bt', ora')"
proof -
  let ?text = "[0x61, 0x62, 0x61] :: u32 list"
  obtain pr where pr: "compile ex_hir [cs_one 0x61] [L_End] 0 = Inr pr" "sets pr = [cs_one 0x61, cs_all]" "slots pr = 2"
    using ex_compiles by blast
  let ?E = "pat_env sample_unidata pr [L_End] ?text 3"
  have ora: "right_oracle sample_unidata 7 1 (slots pr) [L_End] pr ?text 3 0 (oracle_begin 7 ?text 3 False oracle_new)"
    using oracle_begin_right [OF compile_tests(1) [OF ex_pattern_ok pr(1)], of 3 ?text oracle_new sample_unidata 7]
    by (simp add: oracle_idle_def oracle_new_def levels_ok_def)
  have fit: "fits (bt_prog pr False) (3 - 2)" by (rule fits_short [OF compile_bt_size [OF ex_pattern_ok pr(1)]]) simp
  have "bits_ok bt_new" by (simp add: bits_ok_def bt_new_def)
  from backtracker_groups [OF ex_pattern_ok pr(1) _ _ this ora fit] pr(1) ex_way [OF pr(2,3)]
  show ?thesis by (auto simp: found_way_def accepts_def)
qed

end
