(* ===== verification/Spec2Isabelle.thy ===== *)
theory Spec2Isabelle
  imports Regex_Sem Alphabet Backtrack_Sem
begin

text \<open>
  A verification of the regular expression engine of lazaret
  (\<^verbatim>\<open>rust/crates/lazaret-engine/src/linre\<close>), on which every rule of the scanner runs. The engine
  reads a pattern in the syntax of Python's \<^verbatim>\<open>re\<close>, lowers it to a small language of sets, groups,
  repeats and tests, compiles that to programs, and runs them in time linear in the text, with the matches
  and the groups a backtracking matcher would find.

  \<^bold>\<open>The parts and their theories\<close>, in the order of the pipeline:

  \<^item> \<^verbatim>\<open>Prelude\<close>: code points as 32-bit words, lists of ranges, the collections of rewrite rules.
  \<^item> \<^verbatim>\<open>Unicode\<close> models the functions of \<^verbatim>\<open>unicode.rs\<close> the engine calls. The generated tables are a
    parameter, the record \<open>unidata\<close>; what is relied on is the predicate \<open>unidata_ok\<close>.
  \<^item> \<^verbatim>\<open>Charset\<close> models \<^verbatim>\<open>charset.rs\<close>: sets of characters as sorted lists of ranges, their Boolean
    operations, the categories, the sets of literals and classes under case folding. The lemmas show that
    every operation keeps the canonical form and means what it says on the characters accepted.
  \<^item> \<^verbatim>\<open>Ast\<close> has the data types of \<^verbatim>\<open>syntax.rs\<close> and \<^verbatim>\<open>hir.rs\<close>; \<^verbatim>\<open>Syntax\<close> models the parser of
    \<^verbatim>\<open>syntax.rs\<close> (state \<open>parser\<close>, one function per method), and \<^verbatim>\<open>Parse\<close> shows that it returns and
    what trees it gives. The three methods that call each other take fuel; \<open>parse_fuel\<close>, three calls per
    character and three more, is shown to be enough, because a group and an alternative read a character
    before they recur.
  \<^item> \<^verbatim>\<open>Lower\<close> models \<^verbatim>\<open>hir.rs\<close>: widths, the refusals, the numbering of sets and of lookarounds, the
    branches made of backreferences to one character.
  \<^item> \<^verbatim>\<open>Nfa\<close> models \<^verbatim>\<open>nfa.rs\<close>: the builder with its fragments and holes, and \<open>compile\<close>. \<^verbatim>\<open>Sem\<close>
    gives the meaning of a lowered pattern (\<open>hir_all\<close>: all ways to match, in the order a backtracking
    matcher tries them) and of a program (\<open>outs\<close>: all ways to run it, in order of priority);
    \<^verbatim>\<open>Compile\<close> shows that they agree, \<^verbatim>\<open>Bounds\<close> that programs stay within their tables. \<^verbatim>\<open>Alphabet\<close> models
    the alphabet of \<^verbatim>\<open>nfa.rs\<close>: the classes of characters no set tells apart.
  \<^item> \<^verbatim>\<open>Sparse_Set\<close> models the sparse sets of \<^verbatim>\<open>looks.rs\<close> with their stale arrays.
  \<^item> \<^verbatim>\<open>Pike\<close> models \<^verbatim>\<open>pike.rs\<close>: the threads of one position in order of priority, a stack of jobs, the
    memo of tests. Tests are an interface, the locale \<open>look_oracle\<close>, in which the search is shown to
    return the first way of the program.
  \<^item> \<^verbatim>\<open>Looks\<close> models \<^verbatim>\<open>looks.rs\<close>: the tests of one position, the programs of lookarounds run level by
    level, the memoized walk and the backward sweep of lookaheads that read far. In
    the locale \<open>level_below\<close>, \<^verbatim>\<open>Sweep\<close> shows that the backward sweep marks the positions with a match,
    \<^verbatim>\<open>Walks\<close> that the memoized walk finds one, whatever the memos of the current generation hold, and
    \<^verbatim>\<open>Look_Sem\<close> that a test holds exactly if the lookaround does. \<^verbatim>\<open>Targets\<close> shows that no jump leaves
    a program.
  \<^item> \<^verbatim>\<open>Search\<close> interprets both locales on the model and has the statement on whole searches.
  \<^item> \<^verbatim>\<open>Backtrack\<close> models \<^verbatim>\<open>backtrack.rs\<close>: the depth-first search with its frames, its visited bits and its short
    cuts, and shows that it returns the first way of the program or is out of steps; \<^verbatim>\<open>Backtrack_Steps\<close> bounds
    its steps, by a potential of the pairs not yet visited and the frames; \<^verbatim>\<open>Backtrack_Sem\<close> puts both together
    for a compiled pattern, whose program for the backtracker has runs and is read up to the end of the span.
  \<^item> \<^verbatim>\<open>Node_Sem\<close> gives the meaning of a parsed pattern in the terms of Python's \<^verbatim>\<open>re\<close> (\<open>node_all\<close>);
    \<^verbatim>\<open>Lower_Sem\<close> shows that lowering keeps it.
  \<^item> \<^verbatim>\<open>Prefilter\<close> models \<^verbatim>\<open>prefilter.rs\<close> and the scan of \<^verbatim>\<open>literal.rs\<close> it uses (\<open>scan_by\<close>): the characters a
    match can start with, and patterns answered by a scan alone. The scans skip no match.
  \<^item> \<^verbatim>\<open>Budget\<close> models \<^verbatim>\<open>budget.rs\<close>: the thread-local cells as a record passed through.
  \<^item> \<^verbatim>\<open>Slots\<close> shows that the slots of every way of a pattern are well formed: groups lie inside the match.
  \<^item> \<^verbatim>\<open>Regex\<close> models \<^verbatim>\<open>mod.rs\<close>: \<open>regex_new\<close>, the search with its pool of caches and its charge to the
    budget, matches and their accessors, \<^verbatim>\<open>finditer\<close>, \<^verbatim>\<open>sub_fn\<close>, \<^verbatim>\<open>split\<close>. The iteration is a
    \<open>partial_function\<close>; that it ends is shown by a measure, what is left of the window and whether an empty
    match may follow. \<^verbatim>\<open>Regex_Sem\<close> shows what these operations answer in terms of the ways of the
    pattern; the properties at the end of this theory state it for a pattern as \<^verbatim>\<open>Regex::new\<close> compiles it, in
    terms of the ways of its parse tree.

  \<^bold>\<open>State.\<close> A cache (\<open>pike_cache\<close>, \<open>oracle_state\<close>) is a record passed through and returned. Indices are
  natural numbers: the programs are at most \<open>MAX_INSTS\<close> long, and indexing out of range, where the code
  would panic, gives \<open>None\<close>, which the theorems exclude. Errors are values of \<open>error\<close>. Characters are
  32-bit words; counts of repeats and the slots are unbounded integers, with the bounds of the code stated
  where they matter.

  \<^bold>\<open>Not modelled.\<close> The stage of a search that runs the lazy DFA and the scans for strings
  (\<^verbatim>\<open>dfa.rs\<close>, \<^verbatim>\<open>literal.rs\<close> but \<open>scan_by\<close>, \<^verbatim>\<open>search_dfa\<close> and \<^verbatim>\<open>anchored_dfa\<close>): it is a
  parameter of the search, the record \<open>dfas\<close>, and the statements on whole searches rely on \<open>dfas_right\<close>: it
  returns with the caches as good as before, and with either no answer (the Pike VM is asked then) or the
  one sre has. The mutex of the pool is not modelled: one thread at a time takes a cache and gives it back.
  Nor is anything of the scanner outside \<^verbatim>\<open>linre\<close> (rules, parsers of the scanned languages, archives,
  network). Work counters and caches of computed sets have no effect on results and are left out.
\<close>

section \<open>Iterating over a compiled pattern\<close>

text \<open>What the loops over the matches of a text start from.\<close>

lemma finditer_start:
  "it_at (finditer s) = 0" "it_end (finditer s) = length s" "it_pos (finditer s) = 0"
  "it_must (finditer s) = False" "\<not> it_done (finditer s)" "iter_ok u addr re ls s n (finditer s)"
  by (simp_all add: finditer_def finditer_at_def clamp_def clamp_pos_def iter_ok_def)

lemma finditer_all:
  assumes m: "regex_made u pattern flags p lw re" and d: "dfas_right u d re (lw_hir lw) (lw_looks lw)"
    and len: "length s < 2 ^ 63" and n: "Suc (Suc n) < 2 ^ 64" and pool: "pool_fit (Suc (Suc n)) pool"
  obtains fs ms it' pool' b' where "iterates (tree_answers u p s (length s) M_Search) 0 False fs"
    "iter_all u d addr re s (finditer s) (pool, b) = Some (ms, it', pool', b')"
    "sees re s 0 (length s) fs (spent b') ms" "spans re s ms 0" "iter_ok u addr re (lw_looks lw) s n it'" "pool_fit (Suc (Suc n)) pool'"
proof -
  note re = regex_made_for [OF m]
  let ?F = "answers (pat_env u (r_progs re) (lw_looks lw) s (length s)) (lw_hir lw) M_Search"
  have F: "?F = tree_answers u p s (length s) M_Search" by (intro ext) (rule tree_answers_eq [OF m])
  obtain fs where fs: "iterates ?F 0 False fs" using iterates_total [OF re order_refl] by blast
  from iter_all_right [OF re d len n finditer_start(6) pool finditer_start(5), where fs = fs and b = b and addr = addr, unfolded finditer_start(1-4), OF fs]
  obtain ms it' pool' b' where "iter_all u d addr re s (finditer s) (pool, b) = Some (ms, it', pool', b')"
    "sees re s 0 (length s) fs (spent b') ms" "spans re s ms 0" "iter_ok u addr re (lw_looks lw) s n it'" "pool_fit (Suc (Suc n)) pool'"
    by auto
  with fs show thesis unfolding F by (intro that)
qed

lemma sub_parts_same:
  assumes "spans re s ms i" and "\<And>m a b. match_ok m a b \<Longrightarrow> mt_text m = s \<Longrightarrow> f m = take (b - a) (drop a s)"
  shows "sub_parts s f i ms = drop i s"
  using assms(1)
proof (induction ms arbitrary: i)
  case (Cons m ms)
  then obtain a b where m: "match_ok m a b" "mt_text m = s" "i \<le> a" "spans re s ms b" by auto
  have st: "start_of m 0 = int a" "end_of m 0 = int b" "a \<le> b" using m(1) by (auto simp: match_ok_def)
  have "drop i s = take (a - i) (drop i s) @ take (b - a) (drop a s) @ drop b s"
    using m(3) st(3) append_take_drop_id [of "a - i" "drop i s"] append_take_drop_id [of "b - a" "drop a s"] by simp
  then show ?case using Cons.IH [OF m(4)] assms(2) [OF m(1,2)] st by simp
qed simp

lemma spans_prefix: "spans re s ms i \<Longrightarrow> spans re s (take k ms) i"
proof (induction ms arbitrary: i k)
  case (Cons m ms)
  then obtain a b where m: "match_ok m a b" "mt_text m = s" "mt_regex m = re" "i \<le> a" "spans re s ms b" by auto
  have "i \<le> length s" using m(1,2,4) by (auto simp: match_ok_def)
  then show ?case using m Cons.IH [OF m(5)] by (cases k) auto
qed simp

lemma spans_at_most: "spans re s ms i \<Longrightarrow> spans re s (at_most count k ms) i"
  by (simp add: at_most_def spans_prefix)

text \<open>The pieces of a split put together again, with the texts of the matches in the place of the groups.\<close>

fun rejoin :: "nat \<Rightarrow> u32 list option list \<Rightarrow> u32 list list \<Rightarrow> u32 list" where
  "rejoin G (Some t # ps) (m # ms) = t @ m @ rejoin G (drop G ps) ms"
| "rejoin G [Some t] [] = t"
| "rejoin G _ _ = []"

lemma rejoin_split:
  assumes "spans re s ms i"
  shows "rejoin G (split_parts s G i ms) (map (\<lambda>m. case group0 m of None \<Rightarrow> [] | Some x \<Rightarrow> x) ms) = drop i s"
  using assms
proof (induction ms arbitrary: i)
  case (Cons m ms)
  then obtain a b where m: "match_ok m a b" "mt_text m = s" "i \<le> a" "spans re s ms b" by auto
  have st: "start_of m 0 = int a" "end_of m 0 = int b" "a \<le> b" using m(1) by (auto simp: match_ok_def)
  have "drop i s = take (a - i) (drop i s) @ take (b - a) (drop a s) @ drop b s"
    using m(3) st(3) append_take_drop_id [of "a - i" "drop i s"] append_take_drop_id [of "b - a" "drop a s"] by simp
  then show ?case using Cons.IH [OF m(4)] match_groups_ok(1) [OF m(1)] m(2) st by (simp del: upt_Suc)
qed simp

section \<open>A search of a compiled pattern\<close>

lemma find_match_found:
  assumes m: "regex_made u pattern flags p lw re" and d: "dfas_right u d re (lw_hir lw) (lw_looks lw)"
    and len: "length s < 2 ^ 63" and pool: "pool_fit (Suc (Suc n)) pool" and n: "Suc (Suc n) < 2 ^ 64"
    and a: "a = clamp_pos (length s) pos" and e: "e = clamp_pos (length s) endpos"
  obtains f found pool' b' where "regex_find u d addr re s a e md False pool b = Some (f, pool', b')"
    "charged (tree_answers u p s e md False a) b (f, b')" "pool_fit (Suc n) pool'"
    "find_match u d addr re s pos endpos md pool b = Some (found, pool', b')"
    "case f of None \<Rightarrow> found = None
     | Some (sl, en) \<Rightarrow> (\<exists>q x. found = Some x \<and> a \<le> q \<and> q \<le> max a e \<and> slots_ok {} (p_groups p) e q en sl \<and>
         last sl = int q \<and> make_match re s (sl, en) a e = Some x \<and> match_ok x q en)"
proof -
  note re = regex_made_for [OF m] and g = regex_madeD(6) [OF m]
  have l: "e \<le> length s" "a \<le> length s" "length s \<le> USIZE_MAX" using len by (auto simp: a e clamp_pos_def USIZE_MAX_def)
  have ms: "md \<noteq> M_Search \<longrightarrow> \<not> False" by simp
  obtain f pool' b' where r: "regex_find u d addr re s a e md False pool b = Some (f, pool', b')"
    "charged (answers (pat_env u (r_progs re) (lw_looks lw) s e) (lw_hir lw) md False a) b (f, b')" "pool_fit (Suc n) pool'"
    by (rule regex_find_right [OF re d l(1,3) ms pool n]) (rule that)
  note c = r(2) [unfolded tree_answers_eq [OF m]]
  show thesis
  proof (cases f)
    case None
    then show thesis using r(1,3) c by (intro that) (auto simp: find_match_def clamp_def a e)
  next
    case (Some y)
    obtain sl en where y: "y = (sl, en)" by fastforce
    then have w: "way_found (pat_env u (r_progs re) (lw_looks lw) s e) (lw_hir lw) md False a = Some (sl, en)"
      using r(2) Some by (auto simp: charged_def answers_def split: if_splits)
    obtain q where q: "a \<le> q" "q \<le> max a e" "slots_ok {} (r_groups re) e q en sl"
      by (rule way_found_slots [OF re w l(1)]) (rule that)
    obtain x where x: "make_match re s (sl, en) a e = Some x" using make_match_slots [OF q(3)] by simp
    have ok: "match_ok x q en" by (rule make_match_ok [OF q(3) _ l(1) len x]) (use q(2) l in simp)
    have last_q: "last sl = int q" using slots_okD(1,2) [OF q(3)] by (subst last_conv_nth) auto
    have fm: "find_match u d addr re s pos endpos md pool b = Some (Some x, pool', b')"
      using r(1) Some y x by (simp add: find_match_def clamp_def a e)
    show thesis by (rule that [OF r(1) c r(3) fm]) (use Some y q x ok last_q g in auto)
  qed
qed

section \<open>Properties\<close>








section \<open>The properties at a concrete pattern\<close>

text \<open>The pattern \<^verbatim>\<open>a\<close>, with DFAs that always give up, a budget no search uses up, and a text.\<close>

definition ex_tree :: parsed where
  "ex_tree = \<lparr>p_node = N_Lit 0x61, p_groups = 0, p_names = [], p_flags = 32\<rparr>"

definition no_dfas :: "unit dfas" where
  "no_dfas = \<lparr>d_new = (), d_search = (\<lambda>addr re s start e md must c. Some (None, None, c))\<rparr>"

definition ex_budget :: budget where
  "ex_budget = budget_new\<lparr>left_steps := 2 ^ 60\<rparr>"

abbreviation ex_text :: "u32 list" where
  "ex_text \<equiv> [0x62, 0x61]"

lemma no_dfas_right: "dfas_right u no_dfas re h ls"
  by (simp add: dfas_right_def no_dfas_def)

lemma ex_tree_lowered: "lower sample_unidata ex_tree = Inr \<lparr>lw_hir = H_Char 0, lw_sets = [cs_one 0x61], lw_looks = []\<rparr>"
proof -
  have "fold_of 32 = NoFold" by code_simp
  then show ?thesis
    by (simp add: ex_no_backref lower_def ex_tree_def lower_char_def lower_set_def lower_start_def literal_set_def)
qed

lemma ex_made:
  "\<exists>re. regex_made sample_unidata [0x61] 0 ex_tree \<lparr>lw_hir = H_Char 0, lw_sets = [cs_one 0x61], lw_looks = []\<rparr> re"
proof -
  have p: "parse sample_unidata [0x61] 0 = Inr ex_tree" by code_simp
  obtain pr where pr: "compile (H_Char 0) [cs_one 0x61] [] 0 = Inr pr" using ex_char_compiles by blast
  have "\<exists>re. regex_new sample_unidata [0x61] 0 = Some (Inr re)"
    using p pr ex_tree_lowered by (simp add: regex_new_def simple_of_def ex_tree_def)
  then show ?thesis
    using p sample_unidata_ok ex_tree_lowered
    by (auto simp: regex_made_def ex_tree_def paths_to.simps [of _ "N_Lit c" for c] is_backref_def)
qed

lemma ex_answers: "tree_answers sample_unidata ex_tree ex_text 2 M_Search False 0 = Some ([-1, 1], 2)"
  by code_simp

lemma chars_read_bound: "chars_read start e f rd wk \<le> USIZE_MAX"
  by (simp add: chars_read_def sat_usize_def)

lemma regex_find_cheap:
  assumes "regex_find u d addr re s start e md must pool ex_budget = Some (f, pool', b')"
  shows "\<not> spent b'"
proof -
  have "n div 16 \<le> left_steps ex_budget" if "n \<le> USIZE_MAX" for n
    using that by (simp add: ex_budget_def USIZE_MAX_def)
  then have "\<not> spent c" if "spend (chars_read start e g rd wk div 16) ex_budget = (ok, c)" for g rd wk ok c
    using that chars_read_bound [of start e g rd wk] by (auto simp: spend_def ex_budget_def budget_new_def)
  moreover have "\<not> spent ex_budget" by (simp add: ex_budget_def budget_new_def)
  ultimately show ?thesis
    using assms by (auto simp: regex_find_def find_kept_def Let_def split: Option.bind_splits prod.splits if_splits)
qed








end
